(* ===== verification/Prelude.thy ===== *)
theory Prelude
  imports Main "HOL-Library.Word"
begin

unbundle bit_operations_syntax

text \<open>
  What every theory of the development shares: the machine integers of the Rust sources
  with their saturating and checked arithmetic, a few facts on lists, and the interfaces
  (locales) that several components implement.

  Integers are words of the width the source declares; \<open>usize\<close> is 64 bits wide, as on
  every target the crate builds its lock-free structures for. The operators \<open>+\<close>,
  \<open>-\<close>, \<open>*\<close> on words wrap, as \<open>fetch_add\<close> and \<open>wrapping_add\<close> do.
\<close>

section \<open>Machine integers\<close>

type_synonym u8 = "8 word"
type_synonym u32 = "32 word"
type_synonym u64 = "64 word"
type_synonym u128 = "128 word"
type_synonym usize = "64 word"

named_theorems word_to_nat "equations that move word arithmetic to natural numbers"

definition sat_add :: "'a::len word \<Rightarrow> 'a word \<Rightarrow> 'a word" where
  "sat_add a b = (if unat a + unat b < 2 ^ LENGTH('a) then a + b else - 1)"

definition sat_sub :: "'a::len word \<Rightarrow> 'a word \<Rightarrow> 'a word" where
  "sat_sub a b = (if a < b then 0 else a - b)"

definition sat_mul :: "'a::len word \<Rightarrow> 'a word \<Rightarrow> 'a word" where
  "sat_mul a b = (if unat a * unat b < 2 ^ LENGTH('a) then a * b else - 1)"

definition checked_div :: "'a::len word \<Rightarrow> 'a word \<Rightarrow> 'a word option" where
  "checked_div a b = (if b = 0 then None else Some (a div b))"

definition clamp_word :: "'a::len word \<Rightarrow> 'a word \<Rightarrow> 'a word \<Rightarrow> 'a word" where
  "clamp_word lo hi x = (if x < lo then lo else if hi < x then hi else x)"

lemma unat_max_word_eq: "unat (- 1 :: 'a::len word) = 2 ^ LENGTH('a) - 1"
  by transfer (simp add: nat_mask_eq, simp add: mask_eq_exp_minus_1)

lemma unat_sat_add [word_to_nat]:
  fixes a b :: "'a::len word"
  shows "unat (sat_add a b) = min (unat a + unat b) (2 ^ LENGTH('a) - 1)"
  by (auto simp: sat_add_def unat_max_word_eq unat_word_ariths min_def)

lemma unat_sat_sub [word_to_nat]: "unat (sat_sub a b) = unat a - unat b"
  by (auto simp: sat_sub_def word_less_nat_alt unat_sub word_le_nat_alt)

lemma unat_sat_mul [word_to_nat]:
  fixes a b :: "'a::len word"
  shows "unat (sat_mul a b) = min (unat a * unat b) (2 ^ LENGTH('a) - 1)"
proof (cases "unat a * unat b < 2 ^ LENGTH('a)")
  case True
  then have "unat a * unat b \<le> 2 ^ LENGTH('a) - 1" by simp
  with True show ?thesis by (simp add: sat_mul_def unat_word_ariths)
next
  case False
  then have "2 ^ LENGTH('a) - 1 \<le> unat a * unat b" by simp
  with False show ?thesis by (simp add: sat_mul_def unat_max_word_eq)
qed

lemmas word_order_to_nat = word_less_nat_alt word_le_nat_alt word_unat_eq_iff

lemma two_not_le_one_u32 [simp]: "\<not> (2 :: u32) \<le> 1"
  by (simp add: word_le_nat_alt)

lemma unat_u32_lt: "unat (x :: u32) < 2 ^ 32"
  using unsigned_less [of x] by simp

lemma unat_u64_lt: "unat (x :: u64) < 2 ^ 64"
  using unsigned_less [of x] by simp

lemma unat_widen [word_to_nat]: "unat (ucast (x :: u32) :: u64) = unat x"
  by (simp add: unsigned_ucast_eq take_bit_nat_eq_self unsigned_less [THEN order_less_le_trans])

section \<open>Powers of two\<close>

text \<open>The number of significant bits, which the standard library's bit counts are read from.\<close>

fun bit_length :: "nat \<Rightarrow> nat" where
  "bit_length n = (if n = 0 then 0 else Suc (bit_length (n div 2)))"

declare bit_length.simps [simp del]

lemma bit_length_pow:
  "0 < n \<Longrightarrow> 0 < bit_length n \<and> 2 ^ (bit_length n - 1) \<le> n \<and> n < 2 ^ bit_length n"
proof (induction n rule: bit_length.induct)
  case (1 n)
  show ?case
  proof (cases "n = 1")
    case True
    then show ?thesis by (simp add: bit_length.simps)
  next
    case False
    with 1 have "0 < n div 2" by auto
    with 1 have ih: "0 < bit_length (n div 2)" "2 ^ (bit_length (n div 2) - 1) \<le> n div 2"
      "n div 2 < 2 ^ bit_length (n div 2)" by auto
    obtain k where k: "bit_length (n div 2) = Suc k"
      using ih(1) by (cases "bit_length (n div 2)") auto
    have "bit_length n = Suc (Suc k)"
      using 1(2) k by (simp add: bit_length.simps [of n])
    then show ?thesis using ih k by auto
  qed
qed

definition next_power_of_two :: "nat \<Rightarrow> nat" where
  "next_power_of_two n = (if n \<le> 1 then 1 else 2 ^ bit_length (n - 1))"

lemma next_power_of_two_ge: "n \<le> next_power_of_two n"
  using bit_length_pow [of "n - 1"] by (auto simp: next_power_of_two_def)

lemma next_power_of_two_pow: "\<exists>k. next_power_of_two n = 2 ^ k"
  by (auto simp: next_power_of_two_def intro: exI [of _ "0 :: nat"])

section \<open>Masked positions\<close>

text \<open>
  The rings and deques keep a position that only grows and find its slot by masking with
  the capacity less one, a power of two.
\<close>

definition mask_slot :: "nat \<Rightarrow> int \<Rightarrow> nat" where
  "mask_slot cap i = nat (i AND (int cap - 1))"

lemma mask_slot_mod:
  assumes "cap = 2 ^ k"
  shows "mask_slot cap i = nat (i mod int cap)"
proof -
  have "i AND (int cap - 1) = take_bit k i"
    by (simp add: assms take_bit_eq_mask mask_eq_exp_minus_1)
  then show ?thesis by (simp add: mask_slot_def assms take_bit_eq_mod)
qed

lemma mask_slot_lt: "cap = 2 ^ k \<Longrightarrow> mask_slot cap i < cap"
  by (simp add: mask_slot_mod nat_less_iff)

text \<open>Two positions share a slot only when they are whole laps apart.\<close>

lemma mask_slot_eq:
  assumes cap: "cap = 2 ^ k" and eq: "mask_slot cap i = mask_slot cap j"
  shows "i = j \<or> i + int cap \<le> j \<or> j + int cap \<le> i"
proof -
  let ?c = "int cap"
  have pos: "0 < ?c" by (simp add: cap)
  then have "i mod ?c = j mod ?c"
    using eq eq_nat_nat_iff [of "i mod ?c" "j mod ?c"] by (simp add: mask_slot_mod [OF cap])
  then obtain d where "j = i + ?c * d"
    by (metis mod_eq_dvd_iff dvd_def diff_add_cancel add.commute)
  then have j: "j - i = ?c * d" by simp
  consider "d = 0" | "1 \<le> d" | "d \<le> - 1" by linarith
  then show ?thesis
  proof cases
    case 2
    then have "?c * 1 \<le> ?c * d" using pos by (intro mult_left_mono) auto
    with j show ?thesis by simp
  next
    case 3
    then have "?c * d \<le> ?c * (- 1)" using pos by (intro mult_left_mono) auto
    with j show ?thesis by simp
  qed (use j in simp)
qed

lemma mask_slot_add_cap: "cap = 2 ^ k \<Longrightarrow> mask_slot cap (i + int cap) = mask_slot cap i"
  by (simp add: mask_slot_mod)

section \<open>Repeating an operation\<close>

fun drain :: "nat \<Rightarrow> ('d \<Rightarrow> 'r \<times> 'd) \<Rightarrow> 'd \<Rightarrow> 'r list \<times> 'd" where
  "drain 0 f d = ([], d)"
| "drain (Suc n) f d =
     (let (r, d1) = f d; (rs, d2) = drain n f d1 in (r # rs, d2))"

text \<open>
  \<open>run_ops\<close> applies a list of operations in order and collects their answers. A concrete
  machine whose every step agrees with an abstract one through \<open>view\<close> gives the same
  answers on every list of operations.
\<close>

fun run_ops :: "('o \<Rightarrow> 's \<Rightarrow> 'r \<times> 's) \<Rightarrow> 'o list \<Rightarrow> 's \<Rightarrow> 'r list \<times> 's" where
  "run_ops f [] s = ([], s)"
| "run_ops f (op # ops) s =
     (let (r, s1) = f op s; (rs, s2) = run_ops f ops s1 in (r # rs, s2))"

lemma run_ops_simulates:
  assumes step: "\<And>op c. ok c \<Longrightarrow> ok (snd (f op c)) \<and> g op (view c) = (fst (f op c), view (snd (f op c)))"
  shows "ok c \<Longrightarrow> ok (snd (run_ops f ops c))
    \<and> run_ops g ops (view c) = (fst (run_ops f ops c), view (snd (run_ops f ops c)))"
proof (induction ops arbitrary: c)
  case (Cons op ops)
  from step [OF Cons.prems, of op] Cons.IH [of "snd (f op c)"] show ?case
    by (simp add: case_prod_beta Let_def)
qed simp

section \<open>Sums over the threads of a system\<close>

lemma sum_list_swap:
  fixes f :: "'a \<Rightarrow> 'b::comm_monoid_add"
  shows "i < length xs \<Longrightarrow> f (xs ! i) + sum_list (map f (xs[i := x])) = f x + sum_list (map f xs)"
proof (induction xs arbitrary: i)
  case (Cons y ys)
  then show ?case
  proof (cases i)
    case (Suc j)
    then have "f (ys ! j) + sum_list (map f (ys[j := x])) = f x + sum_list (map f ys)"
      using Cons by simp
    then show ?thesis using Suc by (simp add: add.left_commute)
  qed (simp add: add.left_commute)
qed simp

text \<open>How many elements of a list have a property.\<close>

definition number :: "('a \<Rightarrow> bool) \<Rightarrow> 'a list \<Rightarrow> nat" where
  "number f xs = sum_list (map (\<lambda>x. of_bool (f x)) xs)"

lemma number_update:
  "i < length xs \<Longrightarrow> number f (xs[i := x]) + of_bool (f (xs ! i)) = number f xs + of_bool (f x)"
  using sum_list_swap [of i xs "\<lambda>x. of_bool (f x) :: nat" x] by (simp add: number_def)

lemma number_zero: "number f xs = 0 \<longleftrightarrow> (\<forall>x \<in> set xs. \<not> f x)"
  by (induction xs) (auto simp: number_def)

lemma number_pos: "0 < number f xs \<longleftrightarrow> (\<exists>x \<in> set xs. f x)"
  using number_zero [of f xs] by auto

lemma number_replicate: "number f (replicate n x) = n * of_bool (f x)"
  by (induction n) (auto simp: number_def)

section \<open>Interfaces\<close>

subsection \<open>Tag encodings\<close>

text \<open>
  Several components keep an enumeration in an atomic byte. What a reader relies on is
  that decoding an encoded value gives the value back, possibly wrapped (\<open>emb\<close>) where
  the decoder is partial.
\<close>

locale tag_codec =
  fixes enc :: "'a \<Rightarrow> u8" and dec :: "u8 \<Rightarrow> 'b" and emb :: "'a \<Rightarrow> 'b"
  assumes dec_enc: "dec (enc x) = emb x"
    and emb_eqD: "emb x = emb y \<Longrightarrow> x = y"
begin

lemma enc_eq_iff: "enc x = enc y \<longleftrightarrow> x = y"
  using dec_enc emb_eqD by metis

lemma dec_eq_emb_iff: "dec (enc x) = emb y \<longleftrightarrow> x = y"
  using dec_enc emb_eqD by metis

end

subsection \<open>Hysteresis\<close>

text \<open>
  Three components change a remembered choice only after seeing the same observation
  twice running. The client of such a component relies on two laws: an observation that
  agrees with the active choice keeps it, and the same observation twice in a row becomes
  the active choice.
\<close>

locale hysteresis =
  fixes step :: "'s \<Rightarrow> 'o \<Rightarrow> 's" and active :: "'s \<Rightarrow> 'o option" and ok :: "'o \<Rightarrow> bool"
  assumes agree_keeps: "ok x \<Longrightarrow> active s = Some x \<Longrightarrow> active (step s x) = Some x"
    and twice_adopts: "ok x \<Longrightarrow> active (step (step s x) x) = Some x"
begin

lemma run_keeps: "ok x \<Longrightarrow> active s = Some x \<Longrightarrow> active (foldl step s (replicate n x)) = Some x"
  by (induction n arbitrary: s) (simp_all add: agree_keeps)

lemma steady_adopts:
  assumes "ok x" and "2 \<le> n"
  shows "active (foldl step s (replicate n x)) = Some x"
proof -
  obtain m where m: "n = Suc (Suc m)"
    using \<open>2 \<le> n\<close> by (metis Suc_le_D numeral_2_eq_2 Suc_le_mono)
  show ?thesis
    using assms(1) twice_adopts [OF assms(1)] by (simp add: m run_keeps)
qed

end

subsection \<open>Keyed stores\<close>

text \<open>
  A store that gives each key one value for life: an insert returns the value already
  there, or the new one, or nothing when the store is full; it never moves another key.
\<close>

locale keyed_store =
  fixes lookup :: "'s \<Rightarrow> 'k \<Rightarrow> 'v option"
    and insert :: "'s \<Rightarrow> 'k \<Rightarrow> 'v \<Rightarrow> 'v option \<times> 's"
    and invar :: "'s \<Rightarrow> bool"
  assumes insert_invar: "invar s \<Longrightarrow> invar (snd (insert s k v))"
    and insert_hit: "invar s \<Longrightarrow> lookup s k = Some v' \<Longrightarrow> insert s k v = (Some v', s)"
    and insert_new: "invar s \<Longrightarrow> lookup s k = None \<Longrightarrow> insert s k v = (Some v', s')
           \<Longrightarrow> v' = v \<and> lookup s' = (lookup s)(k \<mapsto> v)"
    and insert_full: "invar s \<Longrightarrow> insert s k v = (None, s') \<Longrightarrow> s' = s"
begin

lemma insert_keeps:
  assumes "invar s" and "lookup s k' = Some v'"
  shows "lookup (snd (insert s k v)) k' = Some v'"
proof (cases "lookup s k")
  case (Some w)
  with assms show ?thesis by (simp add: insert_hit)
next
  case None
  then have "k' \<noteq> k" using assms(2) by auto
  obtain r s' where ins: "insert s k v = (r, s')" by fastforce
  show ?thesis
  proof (cases r)
    case None
    with ins assms show ?thesis using insert_full [OF assms(1)] by fastforce
  next
    case (Some w)
    with ins have "lookup s' = (lookup s)(k \<mapsto> v)"
      using insert_new [OF assms(1) \<open>lookup s k = None\<close>] by blast
    with ins assms \<open>k' \<noteq> k\<close> show ?thesis by simp
  qed
qed

lemma insert_returns_lookup:
  assumes "invar s" and "insert s k v = (Some w, s')"
  shows "lookup s' k = Some w"
proof (cases "lookup s k")
  case None
  then show ?thesis using insert_new [OF assms(1) None assms(2)] by simp
next
  case (Some x)
  then show ?thesis using insert_hit [OF assms(1) Some, of v] assms(2) by simp
qed

lemma inserts_keep:
  assumes "invar s" and "lookup s k' = Some v'"
  shows "invar (foldl (\<lambda>s (k, v). snd (insert s k v)) s kvs)
    \<and> lookup (foldl (\<lambda>s (k, v). snd (insert s k v)) s kvs) k' = Some v'"
  using assms
proof (induction kvs arbitrary: s)
  case Nil
  then show ?case by simp
next
  case (Cons kv kvs)
  then show ?case by (cases kv) (simp add: insert_invar insert_keeps)
qed

lemma insert_again:
  assumes "invar s" and "insert s k v = (Some w, s')"
  shows "insert (foldl (\<lambda>s (k, v). snd (insert s k v)) s' kvs) k u
    = (Some w, foldl (\<lambda>s (k, v). snd (insert s k v)) s' kvs)"
proof -
  have "invar s'" using insert_invar [OF assms(1)] assms(2) by (metis snd_conv)
  then show ?thesis
    using inserts_keep [OF _ insert_returns_lookup [OF assms]] by (blast intro: insert_hit)
qed

end

lemma clamp_word_bounds: "lo \<le> hi \<Longrightarrow> lo \<le> clamp_word lo hi x \<and> clamp_word lo hi x \<le> hi"
  by (auto simp: clamp_word_def)

end
