(* ===== verification/Foundation.thy ===== *)
theory Foundation
  imports Prelude
begin

text \<open>
  The vocabulary shared across the dispatch stack: \<open>src/src/foundation.rs\<close> (quality
  variants, scheduler tiers, hardware classes) and \<open>src/src/dispatch_profile.rs\<close> (the
  five dispatch profiles with the defaults each one carries).
\<close>

section \<open>Quality variants\<close>

datatype variant = Correct | Faithful | Fast

definition variant_ALL :: "variant list" where
  "variant_ALL = [Correct, Faithful, Fast]"

fun requires_bit_exact :: "variant \<Rightarrow> bool" where
  "requires_bit_exact v = (case v of Correct \<Rightarrow> True | _ \<Rightarrow> False)"

fun variant_display :: "variant \<Rightarrow> string" where
  "variant_display Correct = ''correct''"
| "variant_display Faithful = ''faithful''"
| "variant_display Fast = ''fast''"

section \<open>Scheduler tiers\<close>

datatype sched_tier = Inline | Local | Hierarchical | Federated

definition sched_tier_ALL :: "sched_tier list" where
  "sched_tier_ALL = [Inline, Local, Hierarchical, Federated]"

fun spin_rounds :: "sched_tier \<Rightarrow> u32" where
  "spin_rounds Inline = 0"
| "spin_rounds Local = 8"
| "spin_rounds Hierarchical = 32"
| "spin_rounds Federated = 0"

fun sched_tier_display :: "sched_tier \<Rightarrow> string" where
  "sched_tier_display Inline = ''inline''"
| "sched_tier_display Local = ''local''"
| "sched_tier_display Hierarchical = ''hierarchical''"
| "sched_tier_display Federated = ''federated''"

section \<open>Hardware classes\<close>

datatype hw_class =
    Scalar | Sse2 | Avx2 | Avx512f | Avx512Bf16 | Avx512Vnni | Avx512Vbmi2 | AvxVnniVex
  | Gfni | Avx512Fp16 | Avx10_2 | Neon | Sve2 | Sme | AmxBf16 | AmxInt8 | AmxFp16
  | TensorCoreHopper | TensorCoreBlackwell

fun is_matrix_extension :: "hw_class \<Rightarrow> bool" where
  "is_matrix_extension Sme = True"
| "is_matrix_extension AmxBf16 = True"
| "is_matrix_extension AmxInt8 = True"
| "is_matrix_extension AmxFp16 = True"
| "is_matrix_extension TensorCoreHopper = True"
| "is_matrix_extension TensorCoreBlackwell = True"
| "is_matrix_extension _ = False"

fun hw_class_display :: "hw_class \<Rightarrow> string" where
  "hw_class_display Scalar = ''scalar''"
| "hw_class_display Sse2 = ''sse2''"
| "hw_class_display Avx2 = ''avx2''"
| "hw_class_display Avx512f = ''avx512f''"
| "hw_class_display Avx512Bf16 = ''avx512bf16''"
| "hw_class_display Avx512Vnni = ''avx512vnni''"
| "hw_class_display Avx512Vbmi2 = ''avx512vbmi2''"
| "hw_class_display AvxVnniVex = ''avx-vnni''"
| "hw_class_display Gfni = ''gfni''"
| "hw_class_display Avx512Fp16 = ''avx512fp16''"
| "hw_class_display Avx10_2 = ''avx10.2''"
| "hw_class_display Neon = ''neon''"
| "hw_class_display Sve2 = ''sve2''"
| "hw_class_display Sme = ''sme''"
| "hw_class_display AmxBf16 = ''amx-bf16''"
| "hw_class_display AmxInt8 = ''amx-int8''"
| "hw_class_display AmxFp16 = ''amx-fp16''"
| "hw_class_display TensorCoreHopper = ''tc-hopper''"
| "hw_class_display TensorCoreBlackwell = ''tc-blackwell''"

lemma hw_class_display_eq_iff: "hw_class_display a = hw_class_display b \<longleftrightarrow> a = b"
  by (cases a; cases b) simp_all

section \<open>Deque tiers\<close>

text \<open>
  \<open>src/src/sched/deque_tier.rs\<close>. The source derives \<open>Ord\<close> from the declaration
  order, so the type is an instance of \<open>linorder\<close> with the order of the
  discriminants.
\<close>

datatype deque_tier = SmtLocal | IntraCcx | CrossCcx | Public

fun deque_tier_idx :: "deque_tier \<Rightarrow> nat" where
  "deque_tier_idx SmtLocal = 0"
| "deque_tier_idx IntraCcx = 1"
| "deque_tier_idx CrossCcx = 2"
| "deque_tier_idx Public = 3"

lemma deque_tier_idx_eq_iff: "deque_tier_idx a = deque_tier_idx b \<longleftrightarrow> a = b"
  by (cases a; cases b) simp_all

instantiation deque_tier :: linorder
begin

definition less_eq_deque_tier :: "deque_tier \<Rightarrow> deque_tier \<Rightarrow> bool" where
  "less_eq_deque_tier a b \<longleftrightarrow> deque_tier_idx a \<le> deque_tier_idx b"

definition less_deque_tier :: "deque_tier \<Rightarrow> deque_tier \<Rightarrow> bool" where
  "less_deque_tier a b \<longleftrightarrow> deque_tier_idx a < deque_tier_idx b"

instance
  by standard (auto simp: less_eq_deque_tier_def less_deque_tier_def deque_tier_idx_eq_iff)

end

fun deque_tier_from_idx :: "nat \<Rightarrow> deque_tier option" where
  "deque_tier_from_idx i =
     (if i = 0 then Some SmtLocal
      else if i = 1 then Some IntraCcx
      else if i = 2 then Some CrossCcx
      else if i = 3 then Some Public
      else None)"

fun deque_tier_label :: "deque_tier \<Rightarrow> string" where
  "deque_tier_label SmtLocal = ''smt_local''"
| "deque_tier_label IntraCcx = ''intra_ccx''"
| "deque_tier_label CrossCcx = ''cross_ccx''"
| "deque_tier_label Public = ''public''"

definition deque_tier_all :: "deque_tier list" where
  "deque_tier_all = [SmtLocal, IntraCcx, CrossCcx, Public]"

definition deque_tier_default :: deque_tier where
  "deque_tier_default = Public"

definition peer_distance :: "usize \<Rightarrow> usize \<Rightarrow> usize \<Rightarrow> deque_tier" where
  "peer_distance self_idx peer_idx ccx_size =
     (if ccx_size = 0 then Public
      else if drop_bit 1 self_idx = drop_bit 1 peer_idx then SmtLocal
      else if self_idx div ccx_size = peer_idx div ccx_size then IntraCcx
      else Public)"

definition thief_may_steal :: "deque_tier \<Rightarrow> deque_tier \<Rightarrow> bool" where
  "thief_may_steal thief_distance owner_tier \<longleftrightarrow> thief_distance \<le> owner_tier"

lemma deque_tier_idx_roundtrip [simp]: "deque_tier_from_idx (deque_tier_idx t) = Some t"
  by (cases t) simp_all

lemma deque_tier_from_idx_Some: "deque_tier_from_idx i = Some t \<longleftrightarrow> i = deque_tier_idx t"
  by (cases t) (auto split: if_splits)

lemma peer_distance_sym: "peer_distance a b c = peer_distance b a c"
  by (auto simp: peer_distance_def)

lemma peer_distance_range: "peer_distance a b c \<noteq> CrossCcx"
  by (simp add: peer_distance_def)

section \<open>Dispatch profiles\<close>

datatype dispatch_profile = LatencyBound | PortBound | MemoryBound | Streaming | Unspecified

fun default_ns_per_elem :: "dispatch_profile \<Rightarrow> u32 option" where
  "default_ns_per_elem LatencyBound = Some 600"
| "default_ns_per_elem PortBound = Some 12"
| "default_ns_per_elem MemoryBound = Some 50"
| "default_ns_per_elem Streaming = Some 50"
| "default_ns_per_elem Unspecified = None"

fun default_oversubscription_log2 :: "dispatch_profile \<Rightarrow> u8" where
  "default_oversubscription_log2 LatencyBound = 2"
| "default_oversubscription_log2 PortBound = 1"
| "default_oversubscription_log2 MemoryBound = 1"
| "default_oversubscription_log2 Streaming = 1"
| "default_oversubscription_log2 Unspecified = 1"

fun is_latency_bound :: "dispatch_profile \<Rightarrow> bool" where
  "is_latency_bound p = (p = LatencyBound \<or> p = MemoryBound)"

fun profile_use_mailbox_routing :: "dispatch_profile \<Rightarrow> bool" where
  "profile_use_mailbox_routing p = False"

fun profile_deque_tier_hint :: "dispatch_profile \<Rightarrow> deque_tier option" where
  "profile_deque_tier_hint p = None"

lemma default_oversubscription_bounds:
  "1 \<le> default_oversubscription_log2 p \<and> default_oversubscription_log2 p \<le> 3"
  by (cases p) simp_all

end
