(* ===== verification/Routing.thy ===== *)
theory Routing
  imports Foundation
begin

text \<open>
  The small routing axes a plan consults: the K-gating backing
  (\<open>src/src/sched/k_gating.rs\<close>), the declarative workload shapes
  (\<open>src/src/sched/workload_shape.rs\<close>), the cooperative fan-out route
  (\<open>src/src/sched/adaptive_cooperative.rs\<close>) and the bisect-variant route
  (\<open>src/src/sched/adaptive_variant_routing.rs\<close>). The last two live in one atomic byte
  each; the byte is the state, and every read decodes it.
\<close>

section \<open>K-gating\<close>

datatype k_gating = CounterOnly | PerSlot | Auto

record calibration_result =
  per_slot_ns :: u64
  counter_only_ns :: u64
  winner :: k_gating

text \<open>
  The two timings are what the calibration loops measure on the host; they are the
  function's inputs here.
\<close>

definition run_calibration :: "u64 \<Rightarrow> u64 \<Rightarrow> calibration_result" where
  "run_calibration measured_per_slot measured_counter_only =
     \<lparr>per_slot_ns = measured_per_slot, counter_only_ns = measured_counter_only,
      winner = (if measured_per_slot < measured_counter_only then PerSlot else CounterOnly)\<rparr>"

text \<open>
  \<open>KGating::resolved\<close> with the \<open>OnceLock\<close> it fills threaded through: the cell's content
  before and after.
\<close>

fun k_gating_resolved ::
  "calibration_result \<Rightarrow> k_gating option \<Rightarrow> k_gating \<Rightarrow> k_gating \<times> k_gating option" where
  "k_gating_resolved m cell Auto =
     (case cell of Some g \<Rightarrow> (g, cell) | None \<Rightarrow> (winner m, Some (winner m)))"
| "k_gating_resolved m cell other = (other, cell)"

lemma run_calibration_winner: "winner (run_calibration a b) \<noteq> Auto"
  by (simp add: run_calibration_def)

section \<open>Workload shapes\<close>

datatype workload_shape =
    Shape_Streaming
  | Shape_ProducerFast (burst: u32)
  | Shape_WorkSteal (n_consumers: u32) (ws_batch_size: u32)
  | Shape_Cooperative (n_cores: u32)
  | Shape_VariantRace (n_variants: u32)

record workload_shape_hints =
  hint_use_mailbox_routing :: bool
  hint_oversubscription_log2 :: "u8 option"
  hint_use_burst :: bool

fun shape_hints :: "workload_shape \<Rightarrow> workload_shape_hints" where
  "shape_hints Shape_Streaming =
     \<lparr>hint_use_mailbox_routing = False, hint_oversubscription_log2 = None,
      hint_use_burst = False\<rparr>"
| "shape_hints (Shape_ProducerFast b) =
     \<lparr>hint_use_mailbox_routing = False,
      hint_oversubscription_log2 = Some (if 64 \<le> b then 2 else 1), hint_use_burst = True\<rparr>"
| "shape_hints (Shape_WorkSteal c _) =
     \<lparr>hint_use_mailbox_routing = False,
      hint_oversubscription_log2 = Some (if 8 \<le> c then 2 else 1), hint_use_burst = False\<rparr>"
| "shape_hints (Shape_Cooperative n) =
     \<lparr>hint_use_mailbox_routing = (8 \<le> n), hint_oversubscription_log2 = None,
      hint_use_burst = True\<rparr>"
| "shape_hints (Shape_VariantRace _) =
     \<lparr>hint_use_mailbox_routing = False, hint_oversubscription_log2 = Some 0,
      hint_use_burst = False\<rparr>"

lemma shape_hints_oversubscription_bound:
  "hint_oversubscription_log2 (shape_hints s) = Some k \<Longrightarrow> k \<le> 2"
  by (cases s) (auto split: if_splits)

section \<open>Cooperative routing\<close>

datatype cooperative_routing = Coop_Auto | ForceTree | ForceMailbox | ForceDeque

fun coop_routing_of_tag :: "u8 \<Rightarrow> cooperative_routing" where
  "coop_routing_of_tag tag =
     (if tag = 1 then ForceTree
      else if tag = 2 then ForceMailbox
      else if tag = 3 then ForceDeque
      else Coop_Auto)"

fun coop_tag_of_routing :: "cooperative_routing \<Rightarrow> u8" where
  "coop_tag_of_routing Coop_Auto = 0"
| "coop_tag_of_routing ForceTree = 1"
| "coop_tag_of_routing ForceMailbox = 2"
| "coop_tag_of_routing ForceDeque = 3"

definition active_cooperative_routing :: "u8 \<Rightarrow> cooperative_routing" where
  "active_cooperative_routing active_tag = coop_routing_of_tag active_tag"

definition migrate_cooperative_routing :: "cooperative_routing \<Rightarrow> u8 \<Rightarrow> u8" where
  "migrate_cooperative_routing routing active_tag = coop_tag_of_routing routing"

lemma coop_tag_roundtrip: "coop_routing_of_tag (coop_tag_of_routing r) = r"
  by (cases r) simp_all

interpretation coop_tags: tag_codec coop_tag_of_routing coop_routing_of_tag "\<lambda>r. r"
  by unfold_locales (rule coop_tag_roundtrip, simp)

section \<open>Bisect-variant routing\<close>

datatype bisect_variant = ProducerMaxLenWorkers | RayonStyleReplenish

datatype vendor = Intel | Amd | Other_vendor

datatype variant_routing = VR_Auto | VR_Default | ComputeBatchAdaptive

definition COMPUTE_BATCH_LARGE_N :: u32 where
  "COMPUTE_BATCH_LARGE_N = 50000"

fun cpuid_default_routing :: "vendor \<Rightarrow> variant_routing" where
  "cpuid_default_routing Amd = ComputeBatchAdaptive"
| "cpuid_default_routing Intel = VR_Default"
| "cpuid_default_routing Other_vendor = VR_Default"

fun variant_routing_of_tag :: "u8 \<Rightarrow> variant_routing" where
  "variant_routing_of_tag tag =
     (if tag = 1 then VR_Default else if tag = 2 then ComputeBatchAdaptive else VR_Auto)"

fun variant_tag_of_routing :: "variant_routing \<Rightarrow> u8" where
  "variant_tag_of_routing VR_Auto = 0"
| "variant_tag_of_routing VR_Default = 1"
| "variant_tag_of_routing ComputeBatchAdaptive = 2"

lemma variant_tag_roundtrip: "variant_routing_of_tag (variant_tag_of_routing r) = r"
  by (cases r) simp_all

interpretation variant_tags: tag_codec variant_tag_of_routing variant_routing_of_tag "\<lambda>r. r"
  by unfold_locales (rule variant_tag_roundtrip, simp)

definition active_variant_routing :: "vendor \<Rightarrow> u8 \<Rightarrow> variant_routing" where
  "active_variant_routing v active_tag =
     (case variant_routing_of_tag active_tag of
        VR_Auto \<Rightarrow> cpuid_default_routing v
      | named \<Rightarrow> named)"

definition migrate_variant_routing :: "variant_routing \<Rightarrow> u8 \<Rightarrow> u8" where
  "migrate_variant_routing routing active_tag = variant_tag_of_routing routing"

text \<open>
  The source's \<open>unreachable!\<close> arm is a branch of its own: \<open>Inl ()\<close> is the panic.
\<close>

definition pick_variant_under ::
  "vendor \<Rightarrow> variant_routing \<Rightarrow> dispatch_profile \<Rightarrow> u32 \<Rightarrow> unit + bisect_variant option" where
  "pick_variant_under v routing profile batch_size =
     (case (case routing of VR_Auto \<Rightarrow> cpuid_default_routing v | named \<Rightarrow> named) of
        VR_Default \<Rightarrow> Inr None
      | VR_Auto \<Rightarrow> Inl ()
      | ComputeBatchAdaptive \<Rightarrow>
          (if profile \<noteq> PortBound then Inr None
           else if COMPUTE_BATCH_LARGE_N \<le> batch_size then Inr (Some ProducerMaxLenWorkers)
           else Inr (Some RayonStyleReplenish)))"

definition pick_variant_for_profile ::
  "vendor \<Rightarrow> u8 \<Rightarrow> dispatch_profile \<Rightarrow> u32 \<Rightarrow> unit + bisect_variant option" where
  "pick_variant_for_profile v active_tag profile batch_size =
     pick_variant_under v (active_variant_routing v active_tag) profile batch_size"

lemma cpuid_default_not_Auto [simp]: "cpuid_default_routing v \<noteq> VR_Auto"
  by (cases v) simp_all

lemma active_variant_routing_not_Auto [simp]: "active_variant_routing v t \<noteq> VR_Auto"
  by (simp add: active_variant_routing_def split: variant_routing.splits)

lemma pick_variant_under_total: "pick_variant_under v r p b \<noteq> Inl ()"
  by (cases r; cases v) (auto simp: pick_variant_under_def)

lemma pick_variant_for_profile_total: "\<exists>bv. pick_variant_for_profile v t p b = Inr bv"
  by (cases "pick_variant_for_profile v t p b")
    (use pick_variant_under_total in \<open>auto simp: pick_variant_for_profile_def\<close>)

end
