(* ===== verification/Site_Table.thy ===== *)
theory Site_Table
  imports Prelude
begin

text \<open>
  The insert-only open-addressing tables of \<open>src/src/sched/call_site.rs\<close>
  (\<open>table_lookup\<close>, \<open>table_insert\<close>, the location table and the key table) and the
  backend registry's table of \<open>src/src/backend/registry.rs\<close> (\<open>find\<close>, \<open>install\<close>).
  A slot is an atomic pointer that is null until one node is published into it, so a
  table is a list of optional nodes; a node is its key and its payload. The number of
  slots is a power of two and indices are masked, as in the sources. An uncontended
  compare-exchange on a null slot succeeds.
\<close>

type_synonym ('k, 'v) table = "('k \<times> 'v) option list"

definition table_mask :: "('k, 'v) table \<Rightarrow> usize" where
  "table_mask tbl = of_nat (length tbl) - 1"

fun lookup_loop :: "nat \<Rightarrow> ('k, 'v) table \<Rightarrow> usize \<Rightarrow> 'k \<Rightarrow> ('k \<times> 'v) option" where
  "lookup_loop 0 tbl idx key = None"
| "lookup_loop (Suc n) tbl idx key =
     (case tbl ! unat idx of
        None \<Rightarrow> None
      | Some node \<Rightarrow>
          if fst node = key then Some node
          else lookup_loop n tbl ((idx + 1) AND table_mask tbl) key)"

definition table_lookup :: "('k, 'v) table \<Rightarrow> usize \<Rightarrow> 'k \<Rightarrow> ('k \<times> 'v) option" where
  "table_lookup tbl start key = lookup_loop (length tbl) tbl (start AND table_mask tbl) key"

fun insert_loop :: "nat \<Rightarrow> ('k, 'v) table \<Rightarrow> usize \<Rightarrow> 'k \<Rightarrow> 'v \<Rightarrow> 'v option \<times> ('k, 'v) table" where
  "insert_loop 0 tbl idx key build = (None, tbl)"
| "insert_loop (Suc n) tbl idx key build =
     (case tbl ! unat idx of
        None \<Rightarrow> (Some build, tbl[unat idx := Some (key, build)])
      | Some node \<Rightarrow>
          if fst node = key then (Some (snd node), tbl)
          else insert_loop n tbl ((idx + 1) AND table_mask tbl) key build)"

definition table_insert ::
  "('k, 'v) table \<Rightarrow> usize \<Rightarrow> 'k \<Rightarrow> 'v \<Rightarrow> 'v option \<times> ('k, 'v) table" where
  "table_insert tbl start key build =
     insert_loop (length tbl) tbl (start AND table_mask tbl) key build"

definition table_nodes :: "('k, 'v) table \<Rightarrow> ('k \<times> 'v) list" where
  "table_nodes tbl = List.map_filter (\<lambda>slot. slot) tbl"

definition SITE_SLOTS :: nat where "SITE_SLOTS = 2048"
definition KEY_SLOTS :: nat where "KEY_SLOTS = 4096"

definition key_slot :: "u64 \<Rightarrow> usize" where
  "key_slot key = drop_bit 32 (key * 0x9E3779B97F4A7C15)"

section \<open>Masked indices\<close>

definition pow2_table :: "('k, 'v) table \<Rightarrow> bool" where
  "pow2_table tbl \<longleftrightarrow> (\<exists>k < 64. length tbl = 2 ^ k)"

lemma unat_and_table_mask:
  assumes "pow2_table tbl"
  shows "unat (w AND table_mask tbl) = unat w mod length tbl"
proof -
  obtain k where k: "k < 64" "length tbl = 2 ^ k" using assms by (auto simp: pow2_table_def)
  have "table_mask tbl = mask k"
    by (simp add: table_mask_def k mask_eq_exp_minus_1)
  then have "w AND table_mask tbl = take_bit k w" by (simp only: take_bit_eq_mask)
  then have "unat (w AND table_mask tbl) = take_bit k (unat w)"
    by (simp only: unsigned_take_bit_eq)
  then show ?thesis by (simp only: k take_bit_eq_mod)
qed

lemma pow2_table_pos: "pow2_table tbl \<Longrightarrow> 0 < length tbl"
  by (auto simp: pow2_table_def)

lemma pow2_table_update [simp]: "pow2_table (tbl[i := x]) = pow2_table tbl"
  by (simp add: pow2_table_def)

lemma unat_next_index:
  assumes "pow2_table tbl" and "unat idx < length tbl"
  shows "unat ((idx + 1) AND table_mask tbl) = Suc (unat idx) mod length tbl"
proof -
  obtain k where k: "k < 64" "length tbl = 2 ^ k" using assms(1) by (auto simp: pow2_table_def)
  have "(2 :: nat) ^ k < 2 ^ 64" using k(1) by (rule power_strict_increasing) simp
  then have "unat (idx + 1) = Suc (unat idx)"
    using assms(2) k by (simp add: unat_word_ariths)
  then show ?thesis by (simp add: unat_and_table_mask [OF assms(1)])
qed

section \<open>Probe paths\<close>

text \<open>
  \<open>clear_path tbl s k d\<close>: the \<open>d\<close> slots probed from \<open>s\<close> are all taken by other keys.
\<close>

definition clear_path :: "('k, 'v) table \<Rightarrow> nat \<Rightarrow> 'k \<Rightarrow> nat \<Rightarrow> bool" where
  "clear_path tbl s k d \<longleftrightarrow>
     (\<forall>e < d. \<exists>node. tbl ! ((s + e) mod length tbl) = Some node \<and> fst node \<noteq> k)"

lemma clear_path_0 [simp]: "clear_path tbl s k 0"
  by (simp add: clear_path_def)

lemma clear_path_Suc:
  "clear_path tbl s k (Suc d) \<longleftrightarrow>
     (\<exists>node. tbl ! (s mod length tbl) = Some node \<and> fst node \<noteq> k)
     \<and> clear_path tbl (Suc s mod length tbl) k d"
proof -
  have shift: "(Suc s mod length tbl + e) mod length tbl = (s + Suc e) mod length tbl" for e
    by (simp add: mod_add_left_eq)
  show ?thesis
    unfolding clear_path_def shift by (auto simp: less_Suc_eq_0_disj)
qed

definition hits :: "('k, 'v) table \<Rightarrow> nat \<Rightarrow> 'k \<Rightarrow> nat \<Rightarrow> ('k \<times> 'v) option \<Rightarrow> bool" where
  "hits tbl s k d slot \<longleftrightarrow> clear_path tbl s k d \<and> tbl ! ((s + d) mod length tbl) = slot"

lemma hits_Suc:
  "tbl ! (s mod length tbl) = Some node \<Longrightarrow> fst node \<noteq> k \<Longrightarrow>
   hits tbl (Suc s mod length tbl) k d slot = hits tbl s k (Suc d) slot"
  by (simp add: hits_def clear_path_Suc mod_add_left_eq)

lemma lookup_loop_Some:
  assumes "pow2_table tbl" and "unat idx < length tbl"
  shows "lookup_loop n tbl idx k = Some node \<longleftrightarrow>
    (\<exists>d < n. hits tbl (unat idx) k d (Some node) \<and> fst node = k)"
  using assms(2)
proof (induction n arbitrary: idx)
  case 0
  then show ?case by simp
next
  case (Suc n)
  let ?next = "(idx + 1) AND table_mask tbl"
  have nx: "unat ?next = Suc (unat idx) mod length tbl" "unat ?next < length tbl"
    using unat_next_index [OF assms(1) Suc.prems] pow2_table_pos [OF assms(1)] by simp_all
  have here: "unat idx mod length tbl = unat idx" using Suc.prems by simp
  show ?case
  proof (cases "tbl ! unat idx")
    case None
    then have "\<not> hits tbl (unat idx) k d (Some node)" for d
      by (cases d) (simp_all add: hits_def clear_path_Suc here)
    with None show ?thesis by simp
  next
    case (Some other)
    show ?thesis
    proof (cases "fst other = k")
      case True
      then have "hits tbl (unat idx) k d (Some node) \<longleftrightarrow> d = 0 \<and> node = other" for d
        using Some by (cases d) (auto simp: hits_def clear_path_Suc here)
      with Some True show ?thesis by auto
    next
      case False
      then have "lookup_loop (Suc n) tbl idx k = lookup_loop n tbl ?next k"
        using Some by simp
      also have "\<dots> = Some node \<longleftrightarrow> (\<exists>d < n. hits tbl (unat idx) k (Suc d) (Some node) \<and> fst node = k)"
        unfolding Suc.IH [OF nx(2)] nx(1)
        using hits_Suc [of tbl "unat idx" other k] Some False by (simp add: here)
      also have "\<dots> \<longleftrightarrow> (\<exists>d < Suc n. hits tbl (unat idx) k d (Some node) \<and> fst node = k)"
        using Some False by (auto simp: less_Suc_eq_0_disj hits_def here)
      finally show ?thesis .
    qed
  qed
qed

text \<open>The three ways an insert ends.\<close>

lemma insert_loop_cases:
  assumes "pow2_table tbl" and "unat idx < length tbl"
  shows "(\<exists>d < n. \<exists>v. hits tbl (unat idx) k d (Some (k, v)) \<and> insert_loop n tbl idx k b = (Some v, tbl))
    \<or> (\<exists>d < n. hits tbl (unat idx) k d None \<and>
         insert_loop n tbl idx k b = (Some b, tbl[(unat idx + d) mod length tbl := Some (k, b)]))
    \<or> clear_path tbl (unat idx) k n \<and> insert_loop n tbl idx k b = (None, tbl)"
  using assms(2)
proof (induction n arbitrary: idx)
  case 0
  then show ?case by simp
next
  case (Suc n)
  let ?next = "(idx + 1) AND table_mask tbl"
  have nx: "unat ?next = Suc (unat idx) mod length tbl" "unat ?next < length tbl"
    using unat_next_index [OF assms(1) Suc.prems] pow2_table_pos [OF assms(1)] by simp_all
  have here: "unat idx mod length tbl = unat idx" using Suc.prems by simp
  show ?case
  proof (cases "tbl ! unat idx")
    case None
    then have "hits tbl (unat idx) k 0 None" by (simp add: hits_def here)
    moreover have "insert_loop (Suc n) tbl idx k b
        = (Some b, tbl[(unat idx + 0) mod length tbl := Some (k, b)])"
      using None here by simp
    ultimately show ?thesis by blast
  next
    case (Some other)
    show ?thesis
    proof (cases "fst other = k")
      case True
      then have "hits tbl (unat idx) k 0 (Some (k, snd other))"
        using Some by (auto simp: hits_def here)
      moreover have "insert_loop (Suc n) tbl idx k b = (Some (snd other), tbl)"
        using Some True by simp
      ultimately show ?thesis by blast
    next
      case False
      have eq: "insert_loop (Suc n) tbl idx k b = insert_loop n tbl ?next k b"
        using Some False by simp
      have shift: "hits tbl (unat ?next) k d slot = hits tbl (unat idx) k (Suc d) slot" for d slot
        using hits_Suc [of tbl "unat idx" other k] Some False by (simp add: here nx(1))
      have path: "clear_path tbl (unat ?next) k n = clear_path tbl (unat idx) k (Suc n)"
        using Some False by (simp add: clear_path_Suc here nx(1))
      have slot: "(unat ?next + d) mod length tbl = (unat idx + Suc d) mod length tbl" for d
        by (simp add: nx(1) mod_add_left_eq)
      from Suc.IH [OF nx(2)] show ?thesis
        unfolding eq shift path slot by (meson Suc_less_eq)
    qed
  qed
qed

section \<open>Tables that only inserts built\<close>

text \<open>
  \<open>st\<close> is where a key's probe starts: the key itself for a location's hash, the
  multiplicative hash for a caller's key, the hasher's output for a backend id.
\<close>

definition table_ok :: "('k \<Rightarrow> usize) \<Rightarrow> ('k, 'v) table \<Rightarrow> bool" where
  "table_ok st tbl \<longleftrightarrow> pow2_table tbl \<and>
     (\<forall>j < length tbl. \<forall>node. tbl ! j = Some node \<longrightarrow>
        (\<exists>d < length tbl. j = (unat (st (fst node)) + d) mod length tbl
           \<and> clear_path tbl (unat (st (fst node))) (fst node) d))"

definition table_has :: "('k, 'v) table \<Rightarrow> 'k \<times> 'v \<Rightarrow> bool" where
  "table_has tbl node \<longleftrightarrow> (\<exists>j < length tbl. tbl ! j = Some node)"

definition empty_table :: "nat \<Rightarrow> ('k, 'v) table" where
  "empty_table n = replicate n None"

lemma table_ok_empty: "k < 64 \<Longrightarrow> table_ok st (empty_table (2 ^ k))"
  by (auto simp: table_ok_def empty_table_def pow2_table_def)

lemma table_ok_pow2 [dest]: "table_ok st tbl \<Longrightarrow> pow2_table tbl"
  by (simp add: table_ok_def)

lemma empty_slot: "i < n \<Longrightarrow> empty_table n ! i = None"
  by (simp add: empty_table_def)

lemma empty_table_loops:
  assumes "unat idx < n" and "0 < m"
  shows "lookup_loop m (empty_table n) idx k = None"
    and "insert_loop m (empty_table n) idx k b = (Some b, (empty_table n)[unat idx := Some (k, b)])"
  using assms(2) by (cases m; simp add: empty_slot [OF assms(1)])+

lemma empty_table_ops:
  assumes "m < 64"
  shows "table_lookup (empty_table (2 ^ m) :: ('k, 'v) table) w k = None"
    and "table_insert (empty_table (2 ^ m)) w k b =
      (Some b, (empty_table (2 ^ m))[unat (w AND table_mask (empty_table (2 ^ m) :: ('k, 'v) table)) := Some (k :: 'k, b :: 'v)])"
proof -
  have pow: "pow2_table (empty_table (2 ^ m) :: ('k, 'v) table)"
    by (rule table_ok_pow2 [OF table_ok_empty [OF assms]])
  have len: "length (empty_table (2 ^ m) :: ('k, 'v) table) = 2 ^ m" by (simp add: empty_table_def)
  have lt: "unat (w AND table_mask (empty_table (2 ^ m) :: ('k, 'v) table)) < 2 ^ m"
    using unat_and_table_mask [OF pow, of w] len by simp
  have pos: "0 < (2 :: nat) ^ m" by simp
  show "table_lookup (empty_table (2 ^ m) :: ('k, 'v) table) w k = None"
    unfolding table_lookup_def using empty_table_loops(1) [OF lt pos, of k] by (simp add: len)
  show "table_insert (empty_table (2 ^ m)) w k b =
      (Some b, (empty_table (2 ^ m))[unat (w AND table_mask (empty_table (2 ^ m) :: ('k, 'v) table)) := Some (k, b)])"
    unfolding table_insert_def len using empty_table_loops(2) [OF lt pos, of k b] .
qed

lemma clear_path_start: "clear_path tbl (s mod length tbl) k d = clear_path tbl s k d"
  by (simp add: clear_path_def mod_add_left_eq)

lemma hits_start: "hits tbl (s mod length tbl) k d slot = hits tbl s k d slot"
  by (simp add: hits_def clear_path_start mod_add_left_eq)

lemma masked_start:
  assumes "pow2_table tbl"
  shows "unat (w AND table_mask tbl) < length tbl"
    and "hits tbl (unat (w AND table_mask tbl)) k d slot = hits tbl (unat w) k d slot"
    and "clear_path tbl (unat (w AND table_mask tbl)) k d = clear_path tbl (unat w) k d"
    and "(unat (w AND table_mask tbl) + d) mod length tbl = (unat w + d) mod length tbl"
  using pow2_table_pos [OF assms]
  by (simp_all add: unat_and_table_mask [OF assms] hits_start clear_path_start mod_add_left_eq)

lemma table_lookup_hits:
  assumes "pow2_table tbl"
  shows "table_lookup tbl w k = Some node \<longleftrightarrow>
    (\<exists>d < length tbl. hits tbl (unat w) k d (Some node) \<and> fst node = k)"
  unfolding table_lookup_def
  using lookup_loop_Some [OF assms masked_start(1) [OF assms]]
  by (simp add: masked_start(2) [OF assms])

lemma table_lookup_iff:
  assumes "table_ok st tbl"
  shows "table_lookup tbl (st k) k = Some node \<longleftrightarrow> table_has tbl node \<and> fst node = k"
proof
  have pow: "pow2_table tbl" using assms by blast
  assume "table_lookup tbl (st k) k = Some node"
  then show "table_has tbl node \<and> fst node = k"
    using pow2_table_pos [OF pow]
    by (auto simp: table_lookup_hits [OF pow] hits_def table_has_def intro: mod_less_divisor)
next
  have pow: "pow2_table tbl" using assms by blast
  assume "table_has tbl node \<and> fst node = k"
  then obtain j where "j < length tbl" "tbl ! j = Some node" "fst node = k"
    by (auto simp: table_has_def)
  with assms obtain d where "d < length tbl" "j = (unat (st k) + d) mod length tbl"
      "clear_path tbl (unat (st k)) k d"
    unfolding table_ok_def by blast
  with \<open>tbl ! j = Some node\<close> \<open>fst node = k\<close> show "table_lookup tbl (st k) k = Some node"
    by (auto simp: table_lookup_hits [OF pow] hits_def)
qed

lemma clear_path_update:
  assumes "clear_path tbl s k d" and "tbl ! j = None"
  shows "clear_path (tbl[j := x]) s k d"
  using assms unfolding clear_path_def by (metis length_list_update nth_list_update_neq option.simps(3))

lemma table_ok_add:
  assumes "table_ok st tbl" and "hits tbl (unat (st k)) k d None" and "d < length tbl"
  shows "table_ok st (tbl[(unat (st k) + d) mod length tbl := Some (k, v)])"
proof -
  let ?j = "(unat (st k) + d) mod length tbl"
  have none: "tbl ! ?j = None" using assms(2) by (simp add: hits_def)
  have "\<exists>d' < length tbl. j = (unat (st (fst node)) + d') mod length tbl
      \<and> clear_path (tbl[?j := Some (k, v)]) (unat (st (fst node))) (fst node) d'"
    if j: "j < length tbl" "tbl[?j := Some (k, v)] ! j = Some node" for j node
  proof (cases "j = ?j")
    case True
    with j have "node = (k, v)" by simp
    with True assms none show ?thesis
      by (auto simp: hits_def intro!: exI [of _ d] clear_path_update)
  next
    case False
    with j have "tbl ! j = Some node" by simp
    with assms(1) j(1) obtain d' where "d' < length tbl"
        "j = (unat (st (fst node)) + d') mod length tbl"
        "clear_path tbl (unat (st (fst node))) (fst node) d'"
      unfolding table_ok_def by blast
    with none show ?thesis by (blast intro: clear_path_update)
  qed
  with assms(1) show ?thesis by (simp add: table_ok_def)
qed

lemma table_has_add:
  assumes "j < length tbl" and "tbl ! j = None"
  shows "table_has (tbl[j := Some new]) node \<longleftrightarrow> node = new \<or> table_has tbl node"
  using assms unfolding table_has_def
  by (metis length_list_update nth_list_update option.inject option.simps(3))

lemma table_insert_cases:
  assumes "pow2_table tbl"
  obtains (hit) d v where "d < length tbl" "hits tbl (unat (st k)) k d (Some (k, v))"
      "table_insert tbl (st k) k b = (Some v, tbl)"
    | (new) d where "d < length tbl" "hits tbl (unat (st k)) k d None"
      "table_insert tbl (st k) k b = (Some b, tbl[(unat (st k) + d) mod length tbl := Some (k, b)])"
    | (full) "clear_path tbl (unat (st k)) k (length tbl)"
      "table_insert tbl (st k) k b = (None, tbl)"
  using insert_loop_cases [OF assms masked_start(1) [OF assms, of "st k"],
      where n = "length tbl" and k = k and b = b]
  unfolding masked_start(2-4) [OF assms] table_insert_def [symmetric] by blast

section \<open>The contract\<close>

abbreviation lookup_value :: "('k \<Rightarrow> usize) \<Rightarrow> ('k, 'v) table \<Rightarrow> 'k \<Rightarrow> 'v option" where
  "lookup_value st tbl k \<equiv> map_option snd (table_lookup tbl (st k) k)"

lemma lookup_value_iff:
  "table_ok st tbl \<Longrightarrow> lookup_value st tbl k = Some v \<longleftrightarrow> table_has tbl (k, v)"
  by (auto simp: table_lookup_iff)

lemma lookup_value_eqI:
  assumes "table_ok st tbl" and "\<And>v. table_has tbl (k, v) \<longleftrightarrow> x = Some v"
  shows "lookup_value st tbl k = x"
  using assms(2) lookup_value_iff [OF assms(1)] by (metis not_Some_eq)

interpretation tables:
  keyed_store "lookup_value st" "\<lambda>tbl k v. table_insert tbl (st k) k v" "table_ok st"
proof unfold_locales
  fix tbl k v
  assume ok: "table_ok st tbl"
  then have pow: "pow2_table tbl" by blast
  show "table_ok st (snd (table_insert tbl (st k) k v))"
    using pow by (cases rule: table_insert_cases [where st = st and k = k and b = v])
      (simp_all add: ok table_ok_add [OF ok])
next
  fix tbl k v v'
  assume ok: "table_ok st tbl" and look: "lookup_value st tbl k = Some v'"
  then have pow: "pow2_table tbl" by blast
  obtain e where e: "e < length tbl" "hits tbl (unat (st k)) k e (Some (k, v'))"
    using look by (auto simp: table_lookup_hits [OF pow])
  show "table_insert tbl (st k) k v = (Some v', tbl)"
    using pow
  proof (cases rule: table_insert_cases [where st = st and k = k and b = v])
    case (hit d w)
    then have "table_lookup tbl (st k) k = Some (k, w)"
      by (auto simp: table_lookup_hits [OF pow])
    with look hit show ?thesis by simp
  next
    case (new d)
    then have "d < e \<or> d = e \<or> e < d" by linarith
    with new e show ?thesis by (auto simp: hits_def clear_path_def)
  next
    case full
    with e show ?thesis by (auto simp: hits_def clear_path_def)
  qed
next
  fix tbl k v v' tbl'
  assume ok: "table_ok st tbl" and none: "lookup_value st tbl k = None"
    and ins: "table_insert tbl (st k) k v = (Some v', tbl')"
  have pow: "pow2_table tbl" using ok by blast
  show "v' = v \<and> lookup_value st tbl' = (lookup_value st tbl)(k \<mapsto> v)"
    using pow
  proof (cases rule: table_insert_cases [where st = st and k = k and b = v])
    case (hit d w)
    then have "table_lookup tbl (st k) k = Some (k, w)"
      by (auto simp: table_lookup_hits [OF pow])
    with none show ?thesis by simp
  next
    case (new d)
    let ?j = "(unat (st k) + d) mod length tbl"
    have j: "?j < length tbl" "tbl ! ?j = None"
      using new(2) pow2_table_pos [OF pow] by (simp_all add: hits_def)
    have tbl': "tbl' = tbl[?j := Some (k, v)]" "v' = v" using new(3) ins by simp_all
    have absent: "\<not> table_has tbl (k, w)" for w
      using none lookup_value_iff [OF ok, of k w] by simp
    have "lookup_value st tbl' k' = ((lookup_value st tbl)(k \<mapsto> v)) k'" for k'
      by (rule lookup_value_eqI)
        (use table_ok_add [OF ok new(2,1)] absent lookup_value_iff [OF ok]
          in \<open>auto simp: tbl' table_has_add [OF j]\<close>)
    with tbl' show ?thesis by auto
  next
    case full
    with ins show ?thesis by simp
  qed
next
  fix tbl k v tbl'
  assume ok: "table_ok st tbl" and ins: "table_insert tbl (st k) k v = (None, tbl')"
  have pow: "pow2_table tbl" using ok by blast
  show "tbl' = tbl"
    using pow by (cases rule: table_insert_cases [where st = st and k = k and b = v]) (use ins in auto)
qed

end
