(* ===== verification/Table_Race.thy ===== *)
theory Table_Race
  imports Site_Table
begin

text \<open>
  Concurrent inserts into the open-addressing table: \<open>table_insert\<close> of
  \<open>src/src/sched/call_site.rs\<close> with each atomic access a step of its own. A thread is
  about to load a slot, or has loaded null and is about to compare-exchange, or has
  returned. Loads and exchanges of one slot are taken as sequentially consistent.
\<close>

section \<open>Threads\<close>

datatype 'v insert_pc =
    Probe nat usize
  | Exchange nat usize
  | Returned "'v option"

record ('k, 'v) inserter =
  in_key :: 'k
  in_build :: 'v
  in_pc :: "'v insert_pc"

definition insert_start :: "('k \<Rightarrow> usize) \<Rightarrow> ('k, 'v) table \<Rightarrow> 'k \<Rightarrow> 'v \<Rightarrow> ('k, 'v) inserter" where
  "insert_start st tbl k b =
     \<lparr>in_key = k, in_build = b, in_pc = Probe (length tbl) (st k AND table_mask tbl)\<rparr>"

text \<open>What a thread does after it saw a node in the slot it probes.\<close>

definition insert_seen ::
  "('k, 'v) table \<Rightarrow> nat \<Rightarrow> usize \<Rightarrow> 'k \<times> 'v \<Rightarrow> ('k, 'v) inserter \<Rightarrow> ('k, 'v) inserter" where
  "insert_seen tbl n idx node t =
     (if fst node = in_key t then t\<lparr>in_pc := Returned (Some (snd node))\<rparr>
      else t\<lparr>in_pc := Probe n ((idx + 1) AND table_mask tbl)\<rparr>)"

fun insert_thread_step ::
  "('k, 'v) table \<Rightarrow> ('k, 'v) inserter \<Rightarrow> ('k, 'v) table \<times> ('k, 'v) inserter" where
  "insert_thread_step tbl t =
     (case in_pc t of
        Probe 0 idx \<Rightarrow> (tbl, t\<lparr>in_pc := Returned None\<rparr>)
      | Probe (Suc n) idx \<Rightarrow>
          (case tbl ! unat idx of
             None \<Rightarrow> (tbl, t\<lparr>in_pc := Exchange n idx\<rparr>)
           | Some node \<Rightarrow> (tbl, insert_seen tbl n idx node t))
      | Exchange n idx \<Rightarrow>
          (case tbl ! unat idx of
             None \<Rightarrow> (tbl[unat idx := Some (in_key t, in_build t)],
                      t\<lparr>in_pc := Returned (Some (in_build t))\<rparr>)
           | Some taken \<Rightarrow> (tbl, insert_seen tbl n idx taken t))
      | Returned r \<Rightarrow> (tbl, t))"

inductive insert_step ::
  "('k, 'v) table \<times> ('k, 'v) inserter list \<Rightarrow> ('k, 'v) table \<times> ('k, 'v) inserter list \<Rightarrow> bool"
where
  insert_step: "i < length ts \<Longrightarrow> insert_thread_step tbl (ts ! i) = (tbl', t') \<Longrightarrow>
     insert_step (tbl, ts) (tbl', ts[i := t'])"

inductive_cases insert_stepE: "insert_step s s'"

section \<open>The invariant\<close>

definition at_probe :: "('k \<Rightarrow> usize) \<Rightarrow> ('k, 'v) table \<Rightarrow> 'k \<Rightarrow> nat \<Rightarrow> usize \<Rightarrow> bool" where
  "at_probe st tbl k d idx \<longleftrightarrow>
     unat idx = (unat (st k) + d) mod length tbl \<and> clear_path tbl (unat (st k)) k d"

definition thread_ok :: "('k \<Rightarrow> usize) \<Rightarrow> ('k, 'v) table \<Rightarrow> ('k, 'v) inserter \<Rightarrow> bool" where
  "thread_ok st tbl t =
     (case in_pc t of
        Probe n idx \<Rightarrow> n \<le> length tbl \<and> at_probe st tbl (in_key t) (length tbl - n) idx
      | Exchange n idx \<Rightarrow> n < length tbl \<and> at_probe st tbl (in_key t) (length tbl - Suc n) idx
      | Returned (Some v) \<Rightarrow> table_has tbl (in_key t, v)
      | Returned None \<Rightarrow> clear_path tbl (unat (st (in_key t))) (in_key t) (length tbl))"

lemma thread_ok_at:
  "in_pc t = Probe n idx \<Longrightarrow> thread_ok st tbl t \<longleftrightarrow>
     n \<le> length tbl \<and> at_probe st tbl (in_key t) (length tbl - n) idx"
  "in_pc t = Exchange n idx \<Longrightarrow> thread_ok st tbl t \<longleftrightarrow>
     n < length tbl \<and> at_probe st tbl (in_key t) (length tbl - Suc n) idx"
  "in_pc t = Returned (Some v) \<Longrightarrow> thread_ok st tbl t \<longleftrightarrow> table_has tbl (in_key t, v)"
  "in_pc t = Returned None \<Longrightarrow> thread_ok st tbl t \<longleftrightarrow>
     clear_path tbl (unat (st (in_key t))) (in_key t) (length tbl)"
  by (simp_all add: thread_ok_def)

definition insert_race_ok ::
  "('k \<Rightarrow> usize) \<Rightarrow> ('k, 'v) table \<times> ('k, 'v) inserter list \<Rightarrow> bool" where
  "insert_race_ok st s \<longleftrightarrow> table_ok st (fst s) \<and> (\<forall>t \<in> set (snd s). thread_ok st (fst s) t)"

lemma insert_start_ok:
  assumes "table_ok st tbl"
  shows "thread_ok st tbl (insert_start st tbl k b)"
  using assms unat_and_table_mask [of tbl "st k"]
  by (auto simp: thread_ok_def insert_start_def at_probe_def)

lemma at_probe_next:
  assumes pow: "pow2_table tbl" and at: "at_probe st tbl k d idx"
    and node: "tbl ! unat idx = Some node" "fst node \<noteq> k"
  shows "at_probe st tbl k (Suc d) ((idx + 1) AND table_mask tbl)"
proof -
  have lt: "unat idx < length tbl"
    using at pow2_table_pos [OF pow] by (simp add: at_probe_def)
  have "unat ((idx + 1) AND table_mask tbl) = (unat (st k) + Suc d) mod length tbl"
    using at by (simp add: unat_next_index [OF pow lt] at_probe_def mod_Suc_eq)
  moreover have "clear_path tbl (unat (st k)) k (Suc d)"
    using at node by (cases node) (auto simp: at_probe_def clear_path_def less_Suc_eq)
  ultimately show ?thesis by (simp add: at_probe_def)
qed

lemma insert_seen_ok:
  assumes pow: "pow2_table tbl" and n: "n < length tbl"
    and at: "at_probe st tbl (in_key t) (length tbl - Suc n) idx"
    and node: "tbl ! unat idx = Some node"
  shows "thread_ok st tbl (insert_seen tbl n idx node t)"
proof (cases "fst node = in_key t")
  case True
  have "unat idx < length tbl"
    using at pow2_table_pos [OF pow] by (simp add: at_probe_def)
  with True node show ?thesis
    by (cases node) (auto simp: insert_seen_def thread_ok_def table_has_def)
next
  case False
  have "at_probe st tbl (in_key t) (Suc (length tbl - Suc n)) ((idx + 1) AND table_mask tbl)"
    by (rule at_probe_next [OF pow at node False])
  then show ?thesis
    using False n by (simp add: insert_seen_def thread_ok_def Suc_diff_Suc)
qed

text \<open>What one thread publishes leaves what every other thread knows true.\<close>

lemma thread_ok_publish:
  assumes "thread_ok st tbl t" and "tbl ! j = None" and "j < length tbl"
  shows "thread_ok st (tbl[j := Some node]) t"
  using assms clear_path_update [OF _ assms(2)] table_has_add [OF assms(3,2)]
  by (auto simp: thread_ok_def at_probe_def split: insert_pc.splits option.splits)

lemma insert_thread_step_ok:
  assumes ok: "table_ok st tbl" and t: "thread_ok st tbl t"
    and step: "insert_thread_step tbl t = (tbl', t')"
  shows "table_ok st tbl' \<and> thread_ok st tbl' t'
    \<and> (tbl' = tbl \<or> (\<exists>j node. j < length tbl \<and> tbl ! j = None \<and> tbl' = tbl[j := Some node]))"
proof -
  have pow: "pow2_table tbl" using ok by blast
  show ?thesis
  proof (cases "in_pc t")
    case (Probe n idx)
    show ?thesis
    proof (cases n)
      case 0
      with Probe t step ok show ?thesis by (auto simp: thread_ok_def at_probe_def)
    next
      case (Suc m)
      with Probe t have at: "m < length tbl" "at_probe st tbl (in_key t) (length tbl - Suc m) idx"
        by (simp_all add: thread_ok_at)
      show ?thesis
      proof (cases "tbl ! unat idx")
        case None
        with Probe Suc step ok at show ?thesis by (auto simp: thread_ok_at)
      next
        case (Some node)
        with Probe Suc step ok insert_seen_ok [OF pow at] show ?thesis by auto
      qed
    qed
  next
    case (Exchange n idx)
    with t have at: "n < length tbl" "at_probe st tbl (in_key t) (length tbl - Suc n) idx"
      by (simp_all add: thread_ok_def)
    show ?thesis
    proof (cases "tbl ! unat idx")
      case None
      let ?d = "length tbl - Suc n"
      have j: "unat idx = (unat (st (in_key t)) + ?d) mod length tbl" "unat idx < length tbl"
        using at pow2_table_pos [OF pow] by (simp_all add: at_probe_def)
      have "table_ok st (tbl[unat idx := Some (in_key t, in_build t)])"
        unfolding j(1) using at None j(1)
        by (intro table_ok_add [OF ok]) (simp_all add: hits_def at_probe_def)
      with Exchange None step j(2) show ?thesis
        by (auto simp: thread_ok_def table_has_add)
    next
      case (Some node)
      with Exchange step ok insert_seen_ok [OF pow at] show ?thesis by auto
    qed
  next
    case (Returned r)
    with ok t step show ?thesis by auto
  qed
qed

lemma insert_race_ok_step:
  assumes "insert_race_ok st s" and "insert_step s s'"
  shows "insert_race_ok st s'"
  using assms(2)
proof (cases rule: insert_step.cases)
  case (insert_step i ts tbl tbl' t')
  have ok: "table_ok st tbl" "\<forall>t \<in> set ts. thread_ok st tbl t"
    using assms(1) insert_step(1) by (simp_all add: insert_race_ok_def)
  have one: "table_ok st tbl' \<and> thread_ok st tbl' t'
    \<and> (tbl' = tbl \<or> (\<exists>j node. j < length tbl \<and> tbl ! j = None \<and> tbl' = tbl[j := Some node]))"
    using insert_step(3,4) ok by (intro insert_thread_step_ok) auto
  then have "\<forall>t \<in> set ts. thread_ok st tbl' t"
    using ok(2) thread_ok_publish by blast
  with one insert_step(2,3) show ?thesis
    using set_update_subset_insert [of ts i t'] by (auto simp: insert_race_ok_def)
qed

lemma insert_race_ok_run: "insert_step\<^sup>*\<^sup>* s s' \<Longrightarrow> insert_race_ok st s \<Longrightarrow> insert_race_ok st s'"
  by (induction rule: rtranclp_induct) (auto intro: insert_race_ok_step)

lemma returned_lookup:
  assumes "insert_race_ok st (tbl, ts)" and "t \<in> set ts" and "in_pc t = Returned (Some v)"
  shows "lookup_value st tbl (in_key t) = Some v"
  using assms lookup_value_iff [of st tbl "in_key t" v]
  by (auto simp: insert_race_ok_def thread_ok_def)

lemma table_has_path:
  assumes "table_ok st tbl" and "clear_path tbl (unat (st k)) k (length tbl)"
  shows "\<not> table_has tbl (k, v)"
proof
  assume "table_has tbl (k, v)"
  then obtain j where "j < length tbl" "tbl ! j = Some (k, v)" by (auto simp: table_has_def)
  with assms(1) obtain d where "d < length tbl" "j = (unat (st k) + d) mod length tbl"
    unfolding table_ok_def by fastforce
  with assms(2) \<open>tbl ! j = Some (k, v)\<close> show False by (auto simp: clear_path_def)
qed

lemma returned_full:
  assumes "insert_race_ok st (tbl, ts)" and "t \<in> set ts" and "in_pc t = Returned None"
  shows "lookup_value st tbl (in_key t) = None"
proof -
  have ok: "table_ok st tbl" and "thread_ok st tbl t"
    using assms by (simp_all add: insert_race_ok_def)
  then have "\<not> table_has tbl (in_key t, v)" for v
    using assms(3) by (simp add: thread_ok_at table_has_path [OF ok])
  then have "lookup_value st tbl (in_key t) \<noteq> Some v" for v
    using lookup_value_iff [OF ok] by blast
  then show ?thesis using not_Some_eq by blast
qed

section \<open>Progress\<close>

fun pc_left :: "'v insert_pc \<Rightarrow> nat" where
  "pc_left (Probe n idx) = 2 * n + 1"
| "pc_left (Exchange n idx) = 2 * n + 2"
| "pc_left (Returned r) = 0"

lemma insert_step_left:
  assumes "insert_thread_step tbl t = (tbl', t')" and "pc_left (in_pc t) \<noteq> 0"
  shows "pc_left (in_pc t') < pc_left (in_pc t)"
  using assms
  by (auto simp: insert_seen_def split: insert_pc.splits nat.splits option.splits if_splits)

end
