(* ===== verification/Adaptive_Profile.thy ===== *)
theory Adaptive_Profile
  imports Foundation
begin

text \<open>
  \<open>src/src/sched/adaptive_profile.rs\<close>: workload classes and leaf shapes, the process-wide
  profile tag, the classification thresholds and their calibration, the static and the
  observed classifier, and the hysteresis that decides when an observation changes the
  active class. The module's statics are values passed in and returned.
\<close>

section \<open>Workload classes and leaf shapes\<close>

datatype workload_class =
  FineGrain_class | PortBound_class | LatencyBound_class | MemoryBound_class | Streaming_class

fun to_dispatch_profile :: "workload_class \<Rightarrow> dispatch_profile" where
  "to_dispatch_profile FineGrain_class = PortBound"
| "to_dispatch_profile PortBound_class = PortBound"
| "to_dispatch_profile LatencyBound_class = LatencyBound"
| "to_dispatch_profile MemoryBound_class = MemoryBound"
| "to_dispatch_profile Streaming_class = Streaming"

datatype leaf_shape =
  PortCompute | LatencyCompute | Streaming_shape | Gather | Unknown_shape

fun to_workload_class :: "leaf_shape \<Rightarrow> workload_class option" where
  "to_workload_class PortCompute = Some PortBound_class"
| "to_workload_class LatencyCompute = Some LatencyBound_class"
| "to_workload_class Streaming_shape = Some Streaming_class"
| "to_workload_class Gather = Some MemoryBound_class"
| "to_workload_class Unknown_shape = None"

section \<open>Tags\<close>

definition TAG_LATENCY_BOUND :: u8 where [simp]: "TAG_LATENCY_BOUND = 0"
definition TAG_PORT_BOUND :: u8 where [simp]: "TAG_PORT_BOUND = 1"
definition TAG_MEMORY_BOUND :: u8 where [simp]: "TAG_MEMORY_BOUND = 2"
definition TAG_UNSPECIFIED :: u8 where [simp]: "TAG_UNSPECIFIED = 3"
definition TAG_STREAMING :: u8 where [simp]: "TAG_STREAMING = 4"
definition TAG_FINE_GRAIN :: u8 where [simp]: "TAG_FINE_GRAIN = 5"

definition ACTIVE_PROFILE_TAG_DEFAULT :: u8 where
  "ACTIVE_PROFILE_TAG_DEFAULT = TAG_PORT_BOUND"

fun profile_of_tag :: "u8 \<Rightarrow> dispatch_profile" where
  "profile_of_tag tag =
     (if tag = TAG_LATENCY_BOUND then LatencyBound
      else if tag = TAG_PORT_BOUND then PortBound
      else if tag = TAG_MEMORY_BOUND then MemoryBound
      else if tag = TAG_STREAMING then Streaming
      else Unspecified)"

fun tag_of_profile :: "dispatch_profile \<Rightarrow> u8" where
  "tag_of_profile LatencyBound = TAG_LATENCY_BOUND"
| "tag_of_profile PortBound = TAG_PORT_BOUND"
| "tag_of_profile MemoryBound = TAG_MEMORY_BOUND"
| "tag_of_profile Streaming = TAG_STREAMING"
| "tag_of_profile Unspecified = TAG_UNSPECIFIED"

lemma profile_tag_roundtrip: "profile_of_tag (tag_of_profile p) = p"
  by (cases p) simp_all

interpretation profile_tags: tag_codec tag_of_profile profile_of_tag "\<lambda>p. p"
  by unfold_locales (rule profile_tag_roundtrip, simp)

fun class_of_profile :: "dispatch_profile \<Rightarrow> workload_class" where
  "class_of_profile LatencyBound = LatencyBound_class"
| "class_of_profile PortBound = PortBound_class"
| "class_of_profile MemoryBound = MemoryBound_class"
| "class_of_profile Streaming = Streaming_class"
| "class_of_profile Unspecified = PortBound_class"

text \<open>The static \<open>ACTIVE_PROFILE_TAG\<close> is the argument and the result.\<close>

definition active_dispatch_profile :: "u8 \<Rightarrow> dispatch_profile" where
  "active_dispatch_profile active_tag = profile_of_tag active_tag"

definition migrate_dispatch_profile :: "dispatch_profile \<Rightarrow> u8 \<Rightarrow> u8" where
  "migrate_dispatch_profile profile active_tag = tag_of_profile profile"

definition migrate_workload_class :: "workload_class \<Rightarrow> u8 \<Rightarrow> u8" where
  "migrate_workload_class class active_tag =
     migrate_dispatch_profile (to_dispatch_profile class) active_tag"

definition active_workload_class :: "u8 \<Rightarrow> workload_class" where
  "active_workload_class active_tag = class_of_profile (active_dispatch_profile active_tag)"

fun workload_class_to_tag :: "workload_class \<Rightarrow> u8" where
  "workload_class_to_tag FineGrain_class = TAG_FINE_GRAIN"
| "workload_class_to_tag PortBound_class = TAG_PORT_BOUND"
| "workload_class_to_tag LatencyBound_class = TAG_LATENCY_BOUND"
| "workload_class_to_tag MemoryBound_class = TAG_MEMORY_BOUND"
| "workload_class_to_tag Streaming_class = TAG_STREAMING"

definition class_tag_encode :: "workload_class \<Rightarrow> u8" where
  "class_tag_encode class = workload_class_to_tag class"

fun class_tag_decode :: "u8 \<Rightarrow> workload_class option" where
  "class_tag_decode tag =
     (if tag = TAG_LATENCY_BOUND then Some LatencyBound_class
      else if tag = TAG_PORT_BOUND then Some PortBound_class
      else if tag = TAG_MEMORY_BOUND then Some MemoryBound_class
      else if tag = TAG_STREAMING then Some Streaming_class
      else if tag = TAG_FINE_GRAIN then Some FineGrain_class
      else None)"

lemma class_tag_roundtrip: "class_tag_decode (class_tag_encode c) = Some c"
  by (cases c) (simp_all add: class_tag_encode_def)

interpretation class_tags: tag_codec class_tag_encode class_tag_decode Some
  by unfold_locales (rule class_tag_roundtrip, simp)

declare class_tag_decode.simps [simp del] profile_of_tag.simps [simp del]

lemma class_of_to_profile:
  "class_of_profile (to_dispatch_profile c) = (if c = FineGrain_class then PortBound_class else c)"
  by (cases c) simp_all

lemma active_after_migrate:
  "active_workload_class (migrate_workload_class c t)
     = (if c = FineGrain_class then PortBound_class else c)"
  by (simp add: active_workload_class_def migrate_workload_class_def active_dispatch_profile_def
      migrate_dispatch_profile_def profile_tags.dec_enc class_of_to_profile)

section \<open>Thresholds\<close>

record class_thresholds =
  fine_grain_ns :: u64
  port_heavy_ns :: u64
  memory_latency_ns :: u64
  cv2_low_per_mille :: u64
  cv2_high_per_mille :: u64
  trivial_reduce_cycles :: u64

definition class_thresholds_new_defaults :: class_thresholds where
  "class_thresholds_new_defaults =
     \<lparr>fine_grain_ns = 50, port_heavy_ns = 500, memory_latency_ns = 2000,
      cv2_low_per_mille = 50, cv2_high_per_mille = 500, trivial_reduce_cycles = 30000\<rparr>"

text \<open>
  The calibration's arithmetic. What the host's clocks measure is passed in: the 64 join
  samples, the cycles of each pass over the reduce body (the minimum over all of them,
  each at least one cycle, is taken as the source does) and the wall time of the
  square-root probe with the SMT siblings off and on.
\<close>

record threshold_calibration =
  cal_join_ns :: u64
  cal_fine_grain_ns :: u64
  cal_trivial_reduce_measured_cycles :: u64
  cal_trivial_reduce_cycles :: u64
  cal_smt_ratio_per_mille :: u64
  cal_memory_latency_ns :: u64

definition calibrate_class_thresholds_into ::
  "u64 list \<Rightarrow> u64 list \<Rightarrow> u64 \<Rightarrow> u64 \<Rightarrow> class_thresholds
     \<Rightarrow> threshold_calibration \<times> class_thresholds" where
  "calibrate_class_thresholds_into samples cycles off_measured on_measured target =
     (let join_ns = max (sort samples ! (length samples div 2)) 1;
          fine = clamp_word 25 200 (join_ns div 256);
          best_cycles = foldl (\<lambda>best dt. min best (max dt 1)) (- 1) cycles;
          trivial = clamp_word 5000 200000 (sat_mul best_cycles 8);
          off_ns = max off_measured 1;
          on_ns = max on_measured 1;
          ratio = sat_mul on_ns 1000 div off_ns;
          current = memory_latency_ns target;
          nudged = (if ratio \<le> 950 then sat_sub current 250
                    else if 1050 \<le> ratio then sat_add current 250
                    else current);
          latency = clamp_word 1000 4000 nudged
      in (\<lparr>cal_join_ns = join_ns, cal_fine_grain_ns = fine,
           cal_trivial_reduce_measured_cycles = best_cycles,
           cal_trivial_reduce_cycles = trivial,
           cal_smt_ratio_per_mille = ratio, cal_memory_latency_ns = latency\<rparr>,
          target\<lparr>fine_grain_ns := fine, trivial_reduce_cycles := trivial,
                 memory_latency_ns := latency\<rparr>))"

text \<open>The bands the thresholds are held to, and their order.\<close>

definition thresholds_ok :: "class_thresholds \<Rightarrow> bool" where
  "thresholds_ok t \<longleftrightarrow>
     fine_grain_ns t < port_heavy_ns t \<and> port_heavy_ns t < memory_latency_ns t
     \<and> cv2_low_per_mille t < cv2_high_per_mille t"

section \<open>Classification\<close>

definition class_from_mean :: "class_thresholds \<Rightarrow> u64 \<Rightarrow> workload_class option" where
  "class_from_mean t mean_ns =
     (if mean_ns < fine_grain_ns t then Some FineGrain_class
      else if mean_ns < port_heavy_ns t then Some PortBound_class
      else None)"

definition class_from_spread :: "class_thresholds \<Rightarrow> u64 \<Rightarrow> workload_class" where
  "class_from_spread t cv2 =
     (if cv2 < cv2_low_per_mille t then Streaming_class
      else if cv2 < cv2_high_per_mille t then MemoryBound_class
      else LatencyBound_class)"

definition classify_observed :: "class_thresholds \<Rightarrow> u64 \<Rightarrow> u64 \<Rightarrow> workload_class" where
  "classify_observed t mean_ns cv2 =
     (case class_from_mean t mean_ns of
        Some class \<Rightarrow> class
      | None \<Rightarrow> class_from_spread t cv2)"

definition classify_window ::
  "class_thresholds \<Rightarrow> u64 \<Rightarrow> u64 option \<Rightarrow> workload_class option" where
  "classify_window t mean_ns cv2 =
     (case (class_from_mean t mean_ns, cv2) of
        (Some class, _) \<Rightarrow> Some class
      | (None, Some c) \<Rightarrow> Some (class_from_spread t c)
      | (None, None) \<Rightarrow> None)"

definition infer_class_static_with_shape ::
  "class_thresholds \<Rightarrow> u8 \<Rightarrow> u32 \<Rightarrow> u32 option \<Rightarrow> leaf_shape \<Rightarrow> workload_class" where
  "infer_class_static_with_shape t k_outer batch_size est shape =
     (case to_workload_class shape of
        Some class \<Rightarrow>
          (case est of
             Some ns \<Rightarrow>
               (if sat_mul (ucast ns :: u64) (ucast batch_size) < 50000 then FineGrain_class
                else class)
           | None \<Rightarrow> class)
      | None \<Rightarrow>
          (case est of
             Some ns \<Rightarrow>
               (if sat_mul (ucast ns :: u64) (ucast batch_size) < 50000 then FineGrain_class
                else if memory_latency_ns t \<le> ucast ns then LatencyBound_class
                else if port_heavy_ns t \<le> ucast ns then MemoryBound_class
                else if ucast ns < fine_grain_ns t \<and> 65536 \<le> batch_size then Streaming_class
                else PortBound_class)
           | None \<Rightarrow>
               (if 7 \<le> k_outer then LatencyBound_class
                else if k_outer \<le> 3 \<and> 16384 \<le> batch_size then Streaming_class
                else if batch_size \<le> 32 then LatencyBound_class
                else PortBound_class)))"

definition infer_class_static ::
  "class_thresholds \<Rightarrow> u8 \<Rightarrow> u32 \<Rightarrow> u32 option \<Rightarrow> workload_class" where
  "infer_class_static t k_outer batch_size est =
     infer_class_static_with_shape t k_outer batch_size est Unknown_shape"

section \<open>Facts about the classifiers\<close>

text \<open>
  The bands a calibrated threshold set stays in. \<open>port_heavy_ns\<close> and the two spread
  limits are never calibrated.
\<close>

definition thresholds_band :: "class_thresholds \<Rightarrow> bool" where
  "thresholds_band t \<longleftrightarrow>
     25 \<le> fine_grain_ns t \<and> fine_grain_ns t \<le> 200 \<and> port_heavy_ns t = 500
     \<and> 1000 \<le> memory_latency_ns t \<and> memory_latency_ns t \<le> 4000
     \<and> cv2_low_per_mille t = 50 \<and> cv2_high_per_mille t = 500
     \<and> 5000 \<le> trivial_reduce_cycles t \<and> trivial_reduce_cycles t \<le> 200000"

lemma thresholds_band_ok: "thresholds_band t \<Longrightarrow> thresholds_ok t"
  by (auto simp: thresholds_band_def thresholds_ok_def word_order_to_nat)

lemma thresholds_band_defaults: "thresholds_band class_thresholds_new_defaults"
  by (simp add: thresholds_band_def class_thresholds_new_defaults_def)

lemma thresholds_band_calibrate:
  "thresholds_band t \<Longrightarrow> thresholds_band (snd (calibrate_class_thresholds_into js cs off on t))"
  using clamp_word_bounds [of "25 :: u64" 200] clamp_word_bounds [of "1000 :: u64" 4000]
    clamp_word_bounds [of "5000 :: u64" 200000]
  by (simp add: thresholds_band_def calibrate_class_thresholds_into_def Let_def)

lemma classify_window_Some:
  "classify_window t m (Some c) = Some (classify_observed t m c)"
  by (simp add: classify_window_def classify_observed_def split: option.splits)

lemma classify_window_None:
  "classify_window t m None = class_from_mean t m"
  by (simp add: classify_window_def split: option.splits)

lemmas classify_defs = classify_observed_def class_from_mean_def class_from_spread_def

end
