(* ===== verification/Observer.thy ===== *)
theory Observer
  imports Adaptive_Profile
begin

text \<open>
  The closing loop: \<open>src/src/sched/split_observer.rs\<close> (the process-wide leaf counters, the
  spread readings and the split multiplier) and the observer half of
  \<open>src/src/sched/adaptive_profile.rs\<close> (\<open>PendingRun\<close>, \<open>window_reading\<close>,
  \<open>tick_auto_classify\<close>). The statics of the two modules are the fields of one record.
  Counters are 64-bit words, so \<open>fetch_add\<close> is the wrapping \<open>+\<close>. A compare-exchange
  loop is one atomic read-modify-write.
\<close>

section \<open>Leaf counters\<close>

record leaf_stats =
  ls_count :: u64
  ls_sum_ns :: u64
  ls_sumsq_scaled :: u64
  ls_items :: u64
  ls_sumsq_per_item :: u64

definition leaf_stats_zero :: leaf_stats where
  "leaf_stats_zero =
     \<lparr>ls_count = 0, ls_sum_ns = 0, ls_sumsq_scaled = 0, ls_items = 0, ls_sumsq_per_item = 0\<rparr>"

definition observed_mean_leaf_ns :: "leaf_stats \<Rightarrow> u64 option" where
  "observed_mean_leaf_ns stats =
     (if ls_count stats < 4 then None else Some (ls_sum_ns stats div ls_count stats))"

definition observed_per_item_ns :: "leaf_stats \<Rightarrow> u64 option" where
  "observed_per_item_ns stats =
     (if ls_count stats < 4 \<or> ls_items stats = 0 then None
      else Some (ls_sum_ns stats div ls_items stats))"

text \<open>The square of a mean in units of \<open>2^16\<close>, formed in 128 bits and cut to 64.\<close>

definition mean_square_scaled :: "u64 \<Rightarrow> u64" where
  "mean_square_scaled mean = ucast (drop_bit 16 (sat_mul (ucast mean :: u128) (ucast mean)))"

definition per_item_cv_squared_per_mille :: "leaf_stats \<Rightarrow> u64 option" where
  "per_item_cv_squared_per_mille stats =
     (if ls_count stats < 4 \<or> ls_items stats = 0 then None
      else
        let mean_ns = ls_sum_ns stats div ls_items stats;
            mean_sq = mean_square_scaled mean_ns
        in if mean_sq = 0 then None
           else
             let spread = sat_sub (ls_sumsq_per_item stats) (sat_mul mean_sq (ls_items stats));
                 var = spread div ls_items stats
             in Some (sat_mul var 1000 div mean_sq))"

definition leaf_cv_squared_per_mille :: "leaf_stats \<Rightarrow> u64 option" where
  "leaf_cv_squared_per_mille stats =
     (if ls_count stats < 4 then None
      else
        let n = ls_count stats;
            mean_scaled = drop_bit 8 (ls_sum_ns stats) div n
        in if mean_scaled = 0 then None
           else
             let sumsq_per_n = ls_sumsq_scaled stats div n;
                 mean_sq = sat_mul mean_scaled mean_scaled;
                 var = sat_sub sumsq_per_n mean_sq
             in Some (sat_mul var 1000 div max mean_sq 1))"

section \<open>The split multiplier\<close>

definition MIN_WINDOW_EVENTS :: u64 where
  "MIN_WINDOW_EVENTS = 100"

definition multiplier_for_window :: "u64 \<Rightarrow> u64 \<Rightarrow> u64 option \<Rightarrow> u32 \<Rightarrow> u32" where
  "multiplier_for_window total_pops total_steals cv2 current =
     (let total = sat_add total_pops total_steals
      in if total < MIN_WINDOW_EVENTS then current
         else
           let steal_per_mille = (total_steals * 1000) div total;
               from_steal = (if 300 \<le> steal_per_mille then 4
                             else if 50 \<le> steal_per_mille then 2 else 1);
               from_variance = (case cv2 of
                   Some c \<Rightarrow> (if 500 \<le> c then 4 else if 50 \<le> c then 2 else 1)
                 | None \<Rightarrow> from_steal)
           in min (max from_steal from_variance) 8)"

section \<open>Pending runs\<close>

definition AUTO_MIGRATION_HYSTERESIS :: u32 where
  "AUTO_MIGRATION_HYSTERESIS = 2"

definition AUTO_CLASSIFY_QUANTUM :: u64 where
  "AUTO_CLASSIFY_QUANTUM = 16"

fun bucket_index :: "workload_class \<Rightarrow> u8" where
  "bucket_index FineGrain_class = 0"
| "bucket_index PortBound_class = 1"
| "bucket_index Streaming_class = 2"
| "bucket_index MemoryBound_class = 2"
| "bucket_index LatencyBound_class = 3"

definition bucket_distance :: "workload_class \<Rightarrow> workload_class \<Rightarrow> u8" where
  "bucket_distance a b =
     (if bucket_index a < bucket_index b then bucket_index b - bucket_index a
      else bucket_index a - bucket_index b)"

record pending_run =
  pr_tag :: u8
  pr_run :: u32

definition pending_fresh :: pending_run where
  "pending_fresh = \<lparr>pr_tag = TAG_PORT_BOUND, pr_run = 0\<rparr>"

definition pending_packed :: "pending_run \<Rightarrow> u64" where
  "pending_packed p = push_bit 32 (ucast (pr_tag p)) OR ucast (pr_run p)"

definition pending_unpacked :: "u64 \<Rightarrow> pending_run" where
  "pending_unpacked w = \<lparr>pr_tag = ucast (drop_bit 32 w), pr_run = ucast w\<rparr>"

definition pending_observe ::
  "pending_run \<Rightarrow> workload_class \<Rightarrow> workload_class \<Rightarrow> u64 \<Rightarrow> workload_class option \<times> pending_run"
where
  "pending_observe p active observed dcount =
     (let tag = workload_class_to_tag observed
      in if active \<noteq> observed \<and> 2 \<le> bucket_distance active observed \<and> 64 \<le> dcount
         then (Some observed, \<lparr>pr_tag = tag, pr_run = 0\<rparr>)
         else if pr_tag p \<noteq> tag then (None, \<lparr>pr_tag = tag, pr_run = 1\<rparr>)
         else
           let run = sat_add (pr_run p) 1;
               migrate = AUTO_MIGRATION_HYSTERESIS \<le> run \<and> active \<noteq> observed
           in (if migrate then Some observed else None, \<lparr>pr_tag = tag, pr_run = run\<rparr>))"

section \<open>The tick\<close>

text \<open>
  The reading of a delta window: per item when the samples carried item counts, per leaf
  otherwise. The caller guarantees \<open>dcount\<close> is not zero.
\<close>

definition window_reading :: "u64 \<Rightarrow> u64 \<Rightarrow> u64 \<Rightarrow> u64 \<Rightarrow> u64 \<Rightarrow> u64 \<times> u64 option" where
  "window_reading dcount dsum dsumsq ditems dsumsq_per_item =
     (case checked_div dsum ditems of
        Some mean \<Rightarrow>
          let mean_sq = mean_square_scaled mean;
              spread = (if 0 < mean_sq
                then Some (let var = sat_sub dsumsq_per_item (sat_mul mean_sq ditems) div ditems
                           in sat_mul var 1000 div mean_sq)
                else None)
          in (mean, spread)
      | None \<Rightarrow>
          let mean = dsum div dcount;
              scaled_mean = drop_bit 8 dsum div dcount;
              spread = (if 0 < scaled_mean
                then Some (let sumsq_per_n = dsumsq div dcount;
                               mean_sq = sat_mul scaled_mean scaled_mean;
                               var = sat_sub sumsq_per_n mean_sq
                           in sat_mul var 1000 div mean_sq)
                else None)
          in (mean, spread))"

record observer =
  ob_leaf :: leaf_stats
  ob_split_multiplier :: u32
  ob_pending :: u64
  ob_last :: leaf_stats
  ob_active_tag :: u8
  ob_thresholds :: class_thresholds

definition observer_init :: observer where
  "observer_init =
     \<lparr>ob_leaf = leaf_stats_zero, ob_split_multiplier = 2,
      ob_pending = pending_packed pending_fresh, ob_last = leaf_stats_zero,
      ob_active_tag = ACTIVE_PROFILE_TAG_DEFAULT,
      ob_thresholds = class_thresholds_new_defaults\<rparr>"

definition snapshot_leaf_stats :: "observer \<Rightarrow> leaf_stats" where
  "snapshot_leaf_stats ob = ob_leaf ob"

definition reset_leaf_stats :: "observer \<Rightarrow> observer" where
  "reset_leaf_stats ob = ob\<lparr>ob_leaf := leaf_stats_zero\<rparr>"

definition reset_auto_classify_state :: "observer \<Rightarrow> observer" where
  "reset_auto_classify_state ob =
     ob\<lparr>ob_pending := pending_packed pending_fresh, ob_last := leaf_stats_zero\<rparr>"

definition set_split_multiplier :: "u32 \<Rightarrow> observer \<Rightarrow> observer" where
  "set_split_multiplier value ob = ob\<lparr>ob_split_multiplier := clamp_word 1 8 value\<rparr>"

definition split_multiplier :: "observer \<Rightarrow> u32" where
  "split_multiplier ob = ob_split_multiplier ob"

text \<open>The decision at the end of a tick: the pending word and the active tag change together.\<close>

definition auto_decide :: "u64 \<Rightarrow> workload_class \<Rightarrow> observer \<Rightarrow> observer" where
  "auto_decide dcount observed ob =
     (let active = active_workload_class (ob_active_tag ob);
          (migrate, next) = pending_observe (pending_unpacked (ob_pending ob)) active observed dcount;
          ob1 = ob\<lparr>ob_pending := pending_packed next\<rparr>
      in case migrate of
           Some class \<Rightarrow> ob1\<lparr>ob_active_tag := migrate_workload_class class (ob_active_tag ob1)\<rparr>
         | None \<Rightarrow> ob1)"

definition tick_auto_classify :: "observer \<Rightarrow> observer" where
  "tick_auto_classify ob =
     (let stats = snapshot_leaf_stats ob;
          prev = ob_last ob;
          dcount = sat_sub (ls_count stats) (ls_count prev)
      in if dcount < 4 then ob
         else
           let dsum = sat_sub (ls_sum_ns stats) (ls_sum_ns prev);
               dsumsq = sat_sub (ls_sumsq_scaled stats) (ls_sumsq_scaled prev);
               ditems = sat_sub (ls_items stats) (ls_items prev);
               dsumsq_per_item = sat_sub (ls_sumsq_per_item stats) (ls_sumsq_per_item prev);
               ob1 = ob\<lparr>ob_last := stats\<rparr>;
               (mean_ns, cv2) = window_reading dcount dsum dsumsq ditems dsumsq_per_item
           in case classify_window (ob_thresholds ob1) mean_ns cv2 of
                None \<Rightarrow> ob1
              | Some observed \<Rightarrow> auto_decide dcount observed ob1)"

definition record_leaf_time_ns :: "u64 \<Rightarrow> observer \<Rightarrow> observer" where
  "record_leaf_time_ns nanos ob =
     (let l = ob_leaf ob; scaled = drop_bit 8 nanos
      in ob\<lparr>ob_leaf := l\<lparr>ls_sum_ns := ls_sum_ns l + nanos,
                         ls_sumsq_scaled := ls_sumsq_scaled l + sat_mul scaled scaled,
                         ls_count := ls_count l + 1\<rparr>\<rparr>)"

definition record_leaf_batch ::
  "u64 \<Rightarrow> u64 \<Rightarrow> u64 \<Rightarrow> u64 \<Rightarrow> u64 \<Rightarrow> observer \<Rightarrow> observer" where
  "record_leaf_batch sum_ns sumsq_scaled cnt items sumsq_per_item ob =
     (let l = ob_leaf ob;
          prior = ls_count l;
          new_total = prior + cnt;
          ob1 = ob\<lparr>ob_leaf :=
                    \<lparr>ls_count = new_total,
                     ls_sum_ns = ls_sum_ns l + sum_ns,
                     ls_sumsq_scaled = ls_sumsq_scaled l + sumsq_scaled,
                     ls_items = ls_items l + items,
                     ls_sumsq_per_item = ls_sumsq_per_item l + sumsq_per_item\<rparr>\<rparr>
      in if prior div AUTO_CLASSIFY_QUANTUM \<noteq> new_total div AUTO_CLASSIFY_QUANTUM
         then tick_auto_classify ob1 else ob1)"

text \<open>
  One sampling pass over the arena's worker counters (pops and steal hits per worker);
  the result is the multiplier the caller stores.
\<close>

definition sample_and_compute :: "(u64 \<times> u64) list \<Rightarrow> observer \<Rightarrow> u32 \<times> observer" where
  "sample_and_compute worker_stats ob =
     (let total_pops = foldl (\<lambda>acc (p, _). sat_add acc p) 0 worker_stats;
          total_steals = foldl (\<lambda>acc (_, s). sat_add acc s) 0 worker_stats;
          current = ob_split_multiplier ob
      in if sat_add total_pops total_steals < MIN_WINDOW_EVENTS then (current, ob)
         else
           let cv2 = leaf_cv_squared_per_mille (snapshot_leaf_stats ob);
               mult = multiplier_for_window total_pops total_steals cv2 current
           in (mult, reset_leaf_stats ob))"

text \<open>The observer's loop body: sample, store the new multiplier.\<close>

definition observer_sample :: "(u64 \<times> u64) list \<Rightarrow> observer \<Rightarrow> observer" where
  "observer_sample worker_stats ob =
     (let (new_mult, ob1) = sample_and_compute worker_stats ob
      in ob1\<lparr>ob_split_multiplier := new_mult\<rparr>)"

section \<open>Facts about the observer\<close>

lemma pending_packed_roundtrip: "pending_unpacked (pending_packed p) = p"
proof (cases p)
  case (fields tag run)
  have "ucast (drop_bit 32 (push_bit 32 (ucast tag :: u64) OR ucast run)) = tag"
    by (rule bit_word_eqI) (auto simp: bit_simps dest: bit_imp_le_length)
  moreover have "ucast (push_bit 32 (ucast tag :: u64) OR ucast run) = run"
    by (rule bit_word_eqI) (auto simp: bit_simps)
  ultimately show ?thesis
    by (simp add: fields pending_packed_def pending_unpacked_def)
qed

lemma mean_square_max: "mean_sq \<noteq> 0 \<Longrightarrow> max mean_sq 1 = (mean_sq :: u64)"
  by (simp add: max_def word_order_to_nat)

lemma sat_mul_self_nonzero: "m \<noteq> 0 \<Longrightarrow> sat_mul m m \<noteq> (0 :: u64)"
proof -
  assume "m \<noteq> 0"
  then have "0 < unat m" by (simp add: unat_gt_0)
  then have "0 < unat (sat_mul m m)" by (simp add: unat_sat_mul)
  then show ?thesis by (metis less_irrefl unat_0)
qed

lemma window_reading_items:
  "ls_items s \<noteq> 0 \<Longrightarrow> 4 \<le> ls_count s \<Longrightarrow>
   window_reading (ls_count s) (ls_sum_ns s) (ls_sumsq_scaled s) (ls_items s) (ls_sumsq_per_item s)
     = (ls_sum_ns s div ls_items s, per_item_cv_squared_per_mille s)"
  by (simp add: window_reading_def per_item_cv_squared_per_mille_def checked_div_def Let_def
      word_gt_0 not_less)

lemma window_reading_leaves:
  "ls_items s = 0 \<Longrightarrow> 4 \<le> ls_count s \<Longrightarrow>
   window_reading (ls_count s) (ls_sum_ns s) (ls_sumsq_scaled s) (ls_items s) (ls_sumsq_per_item s)
     = (ls_sum_ns s div ls_count s, leaf_cv_squared_per_mille s)"
  by (simp add: window_reading_def leaf_cv_squared_per_mille_def checked_div_def Let_def
      word_gt_0 not_less mean_square_max sat_mul_self_nonzero)

subsection \<open>The class decision\<close>

abbreviation ob_active :: "observer \<Rightarrow> workload_class" where
  "ob_active ob \<equiv> active_workload_class (ob_active_tag ob)"

lemma auto_decide_active:
  "ob_active (auto_decide n c ob) =
     (case fst (pending_observe (pending_unpacked (ob_pending ob)) (ob_active ob) c n) of
        Some m \<Rightarrow> (if m = FineGrain_class then PortBound_class else m)
      | None \<Rightarrow> ob_active ob)"
  by (simp add: auto_decide_def Let_def active_after_migrate split: prod.splits option.splits)

lemma auto_decide_pending:
  "pending_unpacked (ob_pending (auto_decide n c ob)) =
     snd (pending_observe (pending_unpacked (ob_pending ob)) (ob_active ob) c n)"
  by (simp add: auto_decide_def Let_def pending_packed_roundtrip split: prod.splits option.splits)

lemma pending_observe_agree [simp]: "fst (pending_observe p c c n) = None"
  by (simp add: pending_observe_def Let_def)

lemma pending_observe_Some: "fst (pending_observe p a c n) = Some m \<Longrightarrow> m = c \<and> a \<noteq> c"
  by (auto simp: pending_observe_def Let_def split: if_splits)

lemma sat_add_one_ge2: "r \<noteq> 0 \<Longrightarrow> 2 \<le> sat_add r (1 :: u32)"
proof -
  assume "r \<noteq> 0"
  then have "0 < unat r" by (simp add: unat_gt_0)
  then show ?thesis by (simp add: word_le_nat_alt unat_sat_add)
qed

lemma sat_add_one_nonzero: "sat_add r (1 :: u32) \<noteq> 0"
proof -
  have "0 < unat (sat_add r (1 :: u32))" by (simp add: unat_sat_add)
  then show ?thesis by (metis less_irrefl unat_0)
qed

lemma pending_observe_waits:
  assumes "fst (pending_observe p a c n) = None"
  shows "pr_tag (snd (pending_observe p a c n)) = workload_class_to_tag c
     \<and> pr_run (snd (pending_observe p a c n)) \<noteq> 0"
  using assms sat_add_one_nonzero by (auto simp: pending_observe_def Let_def split: if_splits)

lemma pending_observe_ready:
  assumes "pr_tag p = workload_class_to_tag c" and "pr_run p \<noteq> 0" and "a \<noteq> c"
  shows "fst (pending_observe p a c n) = Some c"
  using assms sat_add_one_ge2 [of "pr_run p"]
  by (simp add: pending_observe_def Let_def AUTO_MIGRATION_HYSTERESIS_def)

lemma pending_observe_twice:
  assumes "fst (pending_observe p a c n) = None" and "a \<noteq> c"
  shows "fst (pending_observe (snd (pending_observe p a c n)) a c n') = Some c"
  using pending_observe_waits [OF assms(1)] assms(2) pending_observe_ready by blast

interpretation auto_hysteresis:
  hysteresis "\<lambda>ob c. auto_decide n c ob" "\<lambda>ob. Some (ob_active ob)" "\<lambda>c. c \<noteq> FineGrain_class"
proof unfold_locales
  fix c ob
  assume "c \<noteq> FineGrain_class" and "Some (ob_active ob) = Some c"
  then show "Some (ob_active (auto_decide n c ob)) = Some c"
    by (simp add: auto_decide_active)
next
  fix c ob
  assume c: "c \<noteq> FineGrain_class"
  let ?ob1 = "auto_decide n c ob"
  let ?r = "pending_observe (pending_unpacked (ob_pending ob)) (ob_active ob) c n"
  show "Some (ob_active (auto_decide n c ?ob1)) = Some c"
  proof (cases "fst ?r")
    case None
    then have "ob_active ?ob1 = ob_active ob" by (simp add: auto_decide_active)
    then show ?thesis
      using c pending_observe_twice [OF None, of n]
      by (cases "ob_active ob = c") (simp_all add: auto_decide_active [of n c ?ob1] auto_decide_pending)
  next
    case (Some m)
    with c have "ob_active ?ob1 = c"
      by (auto simp: auto_decide_active dest: pending_observe_Some)
    then show ?thesis by (simp add: auto_decide_active [of n c ?ob1])
  qed
qed

end
