(* ===== verification/Ewma.thy ===== *)
theory Ewma
  imports Prelude
begin

text \<open>
  The averaged cells of \<open>src/src/sched/call_site.rs\<close>: one 64-bit word packs a sample count
  (the top 8 bits) and a smoothed value in nanoseconds (the low 56 bits). The first eight
  samples are averaged with equal weight, later ones exponentially.
\<close>

definition EWMA_COUNT_SHIFT :: nat where [simp]: "EWMA_COUNT_SHIFT = 56"

definition EWMA_VALUE_MASK :: u64 where
  "EWMA_VALUE_MASK = push_bit EWMA_COUNT_SHIFT 1 - 1"

definition EWMA_ALPHA_RECIP :: u64 where "EWMA_ALPHA_RECIP = 8"

definition EWMA_WARM_SAMPLES :: u64 where "EWMA_WARM_SAMPLES = EWMA_ALPHA_RECIP"

definition ewma_count :: "u64 \<Rightarrow> u64" where
  "ewma_count packed = drop_bit EWMA_COUNT_SHIFT packed"

definition ewma_value :: "u64 \<Rightarrow> u64" where
  "ewma_value packed = packed AND EWMA_VALUE_MASK"

definition ewma_update :: "u64 \<Rightarrow> u64 \<Rightarrow> u64" where
  "ewma_update packed sample_ns =
     (let cnt = drop_bit EWMA_COUNT_SHIFT packed;
          old = packed AND EWMA_VALUE_MASK;
          sample = max sample_ns 1 AND EWMA_VALUE_MASK;
          (new, cnt') =
            (if cnt = 0 then (sample, 1)
             else if cnt < EWMA_WARM_SAMPLES
               then ((old * cnt + sample) div (cnt + 1), cnt + 1)
             else (sat_add (old - old div EWMA_ALPHA_RECIP) (sample div EWMA_ALPHA_RECIP), cnt))
      in push_bit EWMA_COUNT_SHIFT cnt' OR (max new 1 AND EWMA_VALUE_MASK))"

section \<open>The packed word\<close>

lemma mask56: "EWMA_VALUE_MASK = mask 56"
  by (simp add: EWMA_VALUE_MASK_def mask_eq_exp_minus_1)

lemma ewma_value_take_bit: "ewma_value w = take_bit 56 w"
  by (simp add: ewma_value_def mask56 take_bit_eq_mask)

lemma unat_ewma_value: "unat (ewma_value w) = unat w mod 2 ^ 56"
  by (simp add: ewma_value_take_bit take_bit_eq_mod unat_mod)

lemma unat_ewma_count: "unat (ewma_count w) = unat w div 2 ^ 56"
  by (simp add: ewma_count_def drop_bit_eq_div unat_div)

lemma ewma_value_lt: "unat (ewma_value w) < 2 ^ 56"
  by (simp add: unat_ewma_value)

lemma ewma_value_pack: "ewma_value (push_bit 56 c OR (v AND EWMA_VALUE_MASK)) = v AND EWMA_VALUE_MASK"
  unfolding ewma_value_def mask56
  by (rule bit_word_eqI) (auto simp: bit_simps)

lemma ewma_count_pack:
  assumes "unat c < 256"
  shows "ewma_count (push_bit 56 c OR (v AND EWMA_VALUE_MASK)) = c"
proof -
  have "\<not> bit c n" if "8 \<le> n" for n
  proof -
    have "c = take_bit 8 c"
      using assms by (simp add: word_unat_eq_iff take_bit_eq_mod unat_mod)
    then show ?thesis using that by (metis bit_take_bit_iff not_less)
  qed
  then show ?thesis
    unfolding ewma_count_def mask56
    by (intro bit_word_eqI) (auto simp: bit_simps, (metis add.commute linorder_not_less)+)
qed

section \<open>One update\<close>

text \<open>The update on natural numbers: \<open>c\<close> samples so far, value \<open>v\<close>, new sample \<open>q\<close>.\<close>

fun ewma_next :: "nat \<Rightarrow> nat \<Rightarrow> nat \<Rightarrow> nat \<times> nat" where
  "ewma_next c v q =
     (if c = 0 then (1, q)
      else if c < 8 then (Suc c, (v * c + q) div Suc c)
      else (c, v - v div 8 + q div 8))"

lemma weighted_mean_bounds:
  fixes v q c :: nat
  shows "min v q \<le> (v * c + q) div Suc c \<and> (v * c + q) div Suc c \<le> max v q"
proof
  have "min v q * Suc c = min v q * c + min v q" by simp
  also have "\<dots> \<le> v * c + q" by (intro add_mono mult_right_mono) simp_all
  finally show "min v q \<le> (v * c + q) div Suc c"
    by (simp only: less_eq_div_iff_mult_less_eq zero_less_Suc)
  have "v * c + q \<le> max v q * c + max v q" by (intro add_mono mult_right_mono) simp_all
  also have "\<dots> = max v q * Suc c" by simp
  finally show "(v * c + q) div Suc c \<le> max v q"
    by (metis div_le_mono nonzero_mult_div_cancel_right nat.distinct(1))
qed

lemma smoothed_bounds:
  fixes v q :: nat
  shows "min v q \<le> v - v div 8 + q div 8 \<and> v - v div 8 + q div 8 \<le> max v q"
  by (auto simp: min_def max_def)

lemma ewma_next_bounds:
  assumes "c \<noteq> 0"
  shows "min v q \<le> snd (ewma_next c v q) \<and> snd (ewma_next c v q) \<le> max v q"
  using assms weighted_mean_bounds [of v q c] smoothed_bounds [of v q] by (simp del: div_mult_self1)

lemma ewma_next_count: "fst (ewma_next c v q) = (if c < 8 then Suc c else c)"
  by simp

declare ewma_next.simps [simp del]

lemma unat_ewma_value_of:
  assumes "unat x < 2 ^ 56"
  shows "x AND EWMA_VALUE_MASK = x"
  using assms unat_ewma_value [of x] by (simp add: ewma_value_def word_unat_eq_iff)

lemma ewma_update_packs:
  fixes p s :: u64
  assumes s: "0 < unat s" "unat s < 2 ^ 56"
  shows "unat (ewma_count (ewma_update p s)) = fst (ewma_next (unat (ewma_count p)) (unat (ewma_value p)) (unat s))"
    and "unat (ewma_value (ewma_update p s)) =
      max 1 (snd (ewma_next (unat (ewma_count p)) (unat (ewma_value p)) (unat s)))"
proof -
  let ?c = "ewma_count p" and ?v = "ewma_value p"
  have sample: "max s 1 AND EWMA_VALUE_MASK = s"
  proof -
    have "1 \<le> s" using s by (simp add: word_le_nat_alt)
    then have "max s 1 = s" by (rule max.absorb1)
    with s show ?thesis by (simp add: unat_ewma_value_of)
  qed
  have c256: "unat ?c < 256"
    using unat_u64_lt [of p] by (simp add: unat_ewma_count less_mult_imp_div_less)
  have v: "unat ?v < 2 ^ 56" by (rule ewma_value_lt)
  obtain new cnt where nc: "(new, cnt) =
      (if ?c = 0 then (s, 1)
       else if ?c < EWMA_WARM_SAMPLES then ((?v * ?c + s) div (?c + 1), ?c + 1)
       else (sat_add (?v - ?v div EWMA_ALPHA_RECIP) (s div EWMA_ALPHA_RECIP), ?c))"
    by (metis surj_pair)
  have upd: "ewma_update p s = push_bit 56 cnt OR (max new 1 AND EWMA_VALUE_MASK)"
    unfolding ewma_update_def Let_def sample ewma_count_def [of p, symmetric]
      ewma_value_def [of p, symmetric] nc [symmetric]
    by simp
  have new: "(unat cnt, unat new) = ewma_next (unat ?c) (unat ?v) (unat s)"
  proof (cases "?c = 0")
    case True
    with nc show ?thesis by (simp add: ewma_next.simps)
  next
    case nz: False
    show ?thesis
    proof (cases "unat ?c < 8")
      case True
      have "unat ?v * unat ?c \<le> 2 ^ 56 * 8" using v True by (intro mult_mono) simp_all
      with s have lt: "unat ?v * unat ?c + unat s < 2 ^ 64" by simp
      have "unat (?v * ?c + s) = unat ?v * unat ?c + unat s"
        using lt by (simp add: unat_word_ariths)
      moreover have "unat (?c + 1) = Suc (unat ?c)"
        using True by (simp add: unat_word_ariths)
      ultimately show ?thesis
        using nc nz True
        by (simp add: ewma_next.simps EWMA_WARM_SAMPLES_def EWMA_ALPHA_RECIP_def unat_div
            word_less_nat_alt unat_eq_0)
    next
      case False
      have "unat ?v div 8 \<le> unat ?v" by simp
      moreover have "unat (?v - ?v div 8) = unat ?v - unat ?v div 8"
        by (subst unat_sub) (simp_all add: word_le_nat_alt unat_div)
      ultimately show ?thesis
        using nc nz False v s
        by (simp add: ewma_next.simps EWMA_WARM_SAMPLES_def EWMA_ALPHA_RECIP_def unat_div
            word_less_nat_alt unat_eq_0 unat_sat_add)
    qed
  qed
  have cnt: "unat cnt < 256"
  proof -
    have "unat cnt = fst (ewma_next (unat ?c) (unat ?v) (unat s))"
      using new by (metis fst_conv)
    then show ?thesis using c256 by (simp add: ewma_next_count)
  qed
  have "unat new \<le> max (unat ?v) (unat s)"
    using new ewma_next_bounds [of "unat ?c" "unat ?v" "unat s"]
    by (cases "unat ?c = 0") (auto simp: ewma_next.simps dest: sym)
  then have mx: "unat (max new 1) < 2 ^ 56"
    using v s by (auto simp: max_def split: if_splits)
  show "unat (ewma_count (ewma_update p s)) = fst (ewma_next (unat ?c) (unat ?v) (unat s))"
    by (simp add: upd ewma_count_pack [OF cnt] new [symmetric])
  have "ewma_value (ewma_update p s) = max new 1"
    unfolding upd ewma_value_pack using mx by (rule unat_ewma_value_of)
  then show "unat (ewma_value (ewma_update p s)) = max 1 (snd (ewma_next (unat ?c) (unat ?v) (unat s)))"
    by (simp add: new [symmetric] max_def word_le_nat_alt)
qed

end
