(* ===== verification/Call_Site.thy ===== *)
theory Call_Site
  imports Observer Ewma
begin

text \<open>
  The per-call-site adaptive state of \<open>src/src/sched/call_site.rs\<close>: what one dispatch site
  has learned (its workload class, its leaf statistics, its window readings, the A/B arms,
  the placement and split averages, the seed depth). Every field of the struct is an
  atomic; an operation is a function from the state to the new state. The struct's flat
  fields are grouped: the leaf counters and their last-tick copies are two values of one
  record, the three spread windows three values of another, the two pairs of policy arms
  two values of a third.
\<close>

section \<open>The state\<close>

definition TAG_UNINIT :: u8 where "TAG_UNINIT = 0xFF"
definition SITE_CLASSIFY_QUANTUM :: u64 where "SITE_CLASSIFY_QUANTUM = 16"
definition SITE_MIGRATION_HYSTERESIS :: u32 where "SITE_MIGRATION_HYSTERESIS = 2"
definition FULL_WEIGHT :: u64 where "FULL_WEIGHT = 1000"
definition ARM_TRIAL_CADENCE :: u32 where "ARM_TRIAL_CADENCE = 16"
definition ARM_MIN_SAMPLES :: u32 where "ARM_MIN_SAMPLES = 3"
definition PLACEMENT_REPROBE_CADENCE :: u32 where "PLACEMENT_REPROBE_CADENCE = 32"
definition PLACEMENT_BUCKETS :: nat where [simp]: "PLACEMENT_BUCKETS = 40"
definition DEPTH_UNSET :: u32 where "DEPTH_UNSET = - 1"
definition OCCUPANCY_UNREPORTED :: u32 where "OCCUPANCY_UNREPORTED = - 1"
definition SEED_DEPTH_HYSTERESIS :: u32 where "SEED_DEPTH_HYSTERESIS = 2"
definition REDUCE_COST_MAX_SAMPLES :: u32 where "REDUCE_COST_MAX_SAMPLES = 16"
definition REDUCE_COST_MIN_SAMPLES :: u32 where "REDUCE_COST_MIN_SAMPLES = 4"

datatype policy_arm = Default_arm | Alternative_arm

datatype placement = Place_Cpu | Place_Backend | Place_Race

record site_counters =
  sc_count :: u64
  sc_sum_ns :: u64
  sc_sumsq_scaled :: u64
  sc_items :: u64
  sc_sumsq_per_item :: u64
  sc_weight_sum :: u64
  sc_oncore_items :: u64
  sc_oncore_sum :: u64
  sc_oncore_sumsq :: u64

definition site_counters_zero :: site_counters where
  "site_counters_zero =
     \<lparr>sc_count = 0, sc_sum_ns = 0, sc_sumsq_scaled = 0, sc_items = 0, sc_sumsq_per_item = 0,
      sc_weight_sum = 0, sc_oncore_items = 0, sc_oncore_sum = 0, sc_oncore_sumsq = 0\<rparr>"

record spread_window =
  sw_cv2 :: u64
  sw_min :: u64
  sw_max :: u64
  sw_ticks :: u64

definition spread_window_new :: spread_window where
  "spread_window_new = \<lparr>sw_cv2 = 0, sw_min = - 1, sw_max = 0, sw_ticks = 0\<rparr>"

record arm_bank =
  ab_ewma0 :: u64
  ab_ewma1 :: u64
  ab_samples0 :: u32
  ab_samples1 :: u32
  ab_calls :: u32

definition arm_bank_new :: arm_bank where
  "arm_bank_new = \<lparr>ab_ewma0 = 0, ab_ewma1 = 0, ab_samples0 = 0, ab_samples1 = 0, ab_calls = 0\<rparr>"

record call_site =
  cs_active_tag :: u8
  cs_pending_tag :: u8
  cs_pending_run :: u32
  cs_leaf :: site_counters
  cs_last :: site_counters
  cs_window_mean_ns :: u64
  cs_window_ticks :: u64
  cs_window :: spread_window
  cs_window_wall :: spread_window
  cs_window_oncore :: spread_window
  cs_arm :: arm_bank
  cs_routing :: arm_bank
  cs_place_cpu_ns :: "u64 list"
  cs_place_backend_ns :: "u64 list"
  cs_place_calls :: "u32 list"
  cs_split_cpu :: u64
  cs_split_backend :: u64
  cs_split_cpu_by_size :: "u64 list"
  cs_split_backend_by_size :: "u64 list"
  cs_reduce_cost_sum_cycles :: u64
  cs_reduce_cost_samples :: u32
  cs_collapse_overran :: bool
  cs_active_depth :: u32
  cs_pending_depth :: u32
  cs_depth_run :: u32
  cs_recent_occupancy_pct :: u32
  cs_pool_thread_ticks :: u64
  cs_pool_wall_ticks :: u64
  cs_last_seed_depth :: u32
  cs_seed_depth_flips :: u32

definition call_site_new :: call_site where
  "call_site_new =
     \<lparr>cs_active_tag = TAG_UNINIT, cs_pending_tag = TAG_UNINIT, cs_pending_run = 0,
      cs_leaf = site_counters_zero, cs_last = site_counters_zero,
      cs_window_mean_ns = 0, cs_window_ticks = 0,
      cs_window = spread_window_new, cs_window_wall = spread_window_new,
      cs_window_oncore = spread_window_new,
      cs_arm = arm_bank_new, cs_routing = arm_bank_new,
      cs_place_cpu_ns = replicate PLACEMENT_BUCKETS 0,
      cs_place_backend_ns = replicate PLACEMENT_BUCKETS 0,
      cs_place_calls = replicate PLACEMENT_BUCKETS 0,
      cs_split_cpu = 0, cs_split_backend = 0,
      cs_split_cpu_by_size = replicate PLACEMENT_BUCKETS 0,
      cs_split_backend_by_size = replicate PLACEMENT_BUCKETS 0,
      cs_reduce_cost_sum_cycles = 0, cs_reduce_cost_samples = 0,
      cs_collapse_overran = False,
      cs_active_depth = DEPTH_UNSET, cs_pending_depth = DEPTH_UNSET, cs_depth_run = 0,
      cs_recent_occupancy_pct = OCCUPANCY_UNREPORTED,
      cs_pool_thread_ticks = 0, cs_pool_wall_ticks = 0,
      cs_last_seed_depth = DEPTH_UNSET, cs_seed_depth_flips = 0\<rparr>"

text \<open>
  \<open>reset\<close> stores field by field: zero into the counters and the cells of every bank, the
  sentinels into tags, depths and occupancy, \<open>u64::MAX\<close> into the minima.
\<close>

definition reset_window :: "spread_window \<Rightarrow> spread_window" where
  "reset_window w = w\<lparr>sw_cv2 := 0, sw_max := 0, sw_ticks := 0, sw_min := - 1\<rparr>"

definition reset_arms :: "arm_bank \<Rightarrow> arm_bank" where
  "reset_arms b = b\<lparr>ab_calls := 0, ab_ewma0 := 0, ab_ewma1 := 0, ab_samples0 := 0, ab_samples1 := 0\<rparr>"

definition reset_counters :: "site_counters \<Rightarrow> site_counters" where
  "reset_counters c =
     c\<lparr>sc_count := 0, sc_sum_ns := 0, sc_sumsq_scaled := 0, sc_items := 0,
       sc_sumsq_per_item := 0, sc_weight_sum := 0, sc_oncore_items := 0, sc_oncore_sum := 0,
       sc_oncore_sumsq := 0\<rparr>"

definition site_reset :: "call_site \<Rightarrow> call_site" where
  "site_reset s =
     s\<lparr>cs_active_tag := TAG_UNINIT, cs_pending_tag := TAG_UNINIT,
       cs_leaf := reset_counters (cs_leaf s), cs_last := reset_counters (cs_last s),
       cs_window_mean_ns := 0, cs_window_ticks := 0,
       cs_window := reset_window (cs_window s),
       cs_window_wall := reset_window (cs_window_wall s),
       cs_window_oncore := reset_window (cs_window_oncore s),
       cs_split_cpu := 0, cs_split_backend := 0, cs_reduce_cost_sum_cycles := 0,
       cs_pool_thread_ticks := 0, cs_pool_wall_ticks := 0,
       cs_pending_run := 0, cs_reduce_cost_samples := 0, cs_depth_run := 0,
       cs_seed_depth_flips := 0,
       cs_active_depth := DEPTH_UNSET, cs_pending_depth := DEPTH_UNSET,
       cs_last_seed_depth := DEPTH_UNSET,
       cs_arm := reset_arms (cs_arm s), cs_routing := reset_arms (cs_routing s),
       cs_place_cpu_ns := map (\<lambda>_. 0) (cs_place_cpu_ns s),
       cs_place_backend_ns := map (\<lambda>_. 0) (cs_place_backend_ns s),
       cs_split_cpu_by_size := map (\<lambda>_. 0) (cs_split_cpu_by_size s),
       cs_split_backend_by_size := map (\<lambda>_. 0) (cs_split_backend_by_size s),
       cs_place_calls := map (\<lambda>_. 0) (cs_place_calls s),
       cs_recent_occupancy_pct := OCCUPANCY_UNREPORTED, cs_collapse_overran := False\<rparr>"

section \<open>Small operations\<close>

definition record_seed_depth :: "usize \<Rightarrow> call_site \<Rightarrow> call_site" where
  "record_seed_depth depth s =
     (let d = ucast depth;
          previous = cs_last_seed_depth s;
          s1 = s\<lparr>cs_last_seed_depth := d\<rparr>
      in if previous \<noteq> DEPTH_UNSET \<and> previous \<noteq> d
         then s1\<lparr>cs_seed_depth_flips := cs_seed_depth_flips s1 + 1\<rparr> else s1)"

definition add_pool_ticks :: "u64 \<Rightarrow> u64 \<Rightarrow> call_site \<Rightarrow> call_site" where
  "add_pool_ticks thread_ticks wall_ticks s =
     s\<lparr>cs_pool_thread_ticks := cs_pool_thread_ticks s + thread_ticks,
       cs_pool_wall_ticks := cs_pool_wall_ticks s + wall_ticks\<rparr>"

definition pool_ticks :: "call_site \<Rightarrow> u64 \<times> u64" where
  "pool_ticks s = (cs_pool_thread_ticks s, cs_pool_wall_ticks s)"

definition record_occupancy :: "u32 \<Rightarrow> call_site \<Rightarrow> call_site" where
  "record_occupancy percent s = s\<lparr>cs_recent_occupancy_pct := min percent 100\<rparr>"

definition recent_occupancy :: "call_site \<Rightarrow> u32 option" where
  "recent_occupancy s =
     (if cs_recent_occupancy_pct s = OCCUPANCY_UNREPORTED then None
      else Some (cs_recent_occupancy_pct s))"

definition stabilize_seed_depth :: "usize \<Rightarrow> call_site \<Rightarrow> usize \<times> call_site" where
  "stabilize_seed_depth observed s =
     (let obs = ucast observed :: u32;
          active = cs_active_depth s
      in if active = DEPTH_UNSET then (observed, s\<lparr>cs_active_depth := obs\<rparr>)
         else if obs = active then (observed, s\<lparr>cs_depth_run := 0\<rparr>)
         else
           let previous_pending = cs_pending_depth s;
               s1 = s\<lparr>cs_pending_depth := obs\<rparr>;
               (run, s2) =
                 (if previous_pending = obs
                  then (sat_add (cs_depth_run s1) 1, s1\<lparr>cs_depth_run := cs_depth_run s1 + 1\<rparr>)
                  else (1, s1\<lparr>cs_depth_run := 1\<rparr>))
           in if SEED_DEPTH_HYSTERESIS \<le> run
              then (observed, s2\<lparr>cs_active_depth := obs, cs_depth_run := 0\<rparr>)
              else (ucast active, s2))"

definition seeded_depth :: "call_site \<Rightarrow> u32 option" where
  "seeded_depth s = (if cs_active_depth s = DEPTH_UNSET then None else Some (cs_active_depth s))"

definition note_collapsed_body :: "u64 \<Rightarrow> u64 \<Rightarrow> call_site \<Rightarrow> call_site" where
  "note_collapsed_body elapsed_ns threshold_ns s =
     (if threshold_ns < elapsed_ns then s\<lparr>cs_collapse_overran := True\<rparr> else s)"

definition learned_class :: "call_site \<Rightarrow> workload_class option" where
  "learned_class s = class_tag_decode (cs_active_tag s)"

section \<open>Recording leaves\<close>

definition per_item_cv2 :: "u64 \<Rightarrow> u64 \<Rightarrow> u64 \<Rightarrow> u64 option" where
  "per_item_cv2 sumsq_per_item mean items =
     (let mean_sq = sat_mul (ucast mean :: u128) (ucast mean);
          expected = sat_mul mean_sq (ucast items)
      in if expected = 0 then None
         else
           let total = push_bit 16 (ucast sumsq_per_item :: u128);
               spread = sat_sub total expected
           in Some (ucast (sat_mul spread 1000 div expected)))"

definition batch_weight_per_mille :: "u64 \<Rightarrow> u64 \<Rightarrow> u64 option" where
  "batch_weight_per_mille on_core_ticks wall_ticks =
     (if wall_ticks = 0 then None
      else
        let share = sat_mul (ucast on_core_ticks :: u128) (ucast FULL_WEIGHT) div ucast wall_ticks
        in Some (min (ucast share) FULL_WEIGHT))"

definition publish_min :: "u64 \<Rightarrow> u64 \<Rightarrow> u64" where
  "publish_min slot val = (if val < slot then val else slot)"

definition publish_max :: "u64 \<Rightarrow> u64 \<Rightarrow> u64" where
  "publish_max slot val = (if slot < val then val else slot)"

definition publish_count :: "u64 \<Rightarrow> u64" where
  "publish_count slot = slot + 1"

definition publish_spread :: "u64 option \<Rightarrow> spread_window \<Rightarrow> spread_window" where
  "publish_spread cv2 w =
     (case cv2 of
        None \<Rightarrow> w
      | Some c \<Rightarrow>
          w\<lparr>sw_cv2 := c, sw_min := publish_min (sw_min w) c, sw_max := publish_max (sw_max w) c,
            sw_ticks := publish_count (sw_ticks w)\<rparr>)"

text \<open>
  The end of a tick: what one classified window does to the active and the pending tag.
\<close>

definition site_decide :: "u64 \<Rightarrow> call_site \<Rightarrow> workload_class \<Rightarrow> call_site" where
  "site_decide dcount s observed =
     (let observed_tag = class_tag_encode observed
      in case class_tag_decode (cs_active_tag s) of
           None \<Rightarrow>
             s\<lparr>cs_active_tag := observed_tag, cs_pending_tag := observed_tag, cs_pending_run := 0\<rparr>
         | Some active_class \<Rightarrow>
             if active_class \<noteq> observed then
               if 2 \<le> bucket_distance active_class observed \<and> 64 \<le> dcount then
                 s\<lparr>cs_active_tag := observed_tag, cs_pending_tag := observed_tag,
                   cs_pending_run := 0\<rparr>
               else if cs_pending_tag s = observed_tag then
                 let run = sat_add (cs_pending_run s) 1;
                     s1 = s\<lparr>cs_pending_run := cs_pending_run s + 1\<rparr>
                 in if SITE_MIGRATION_HYSTERESIS \<le> run
                    then s1\<lparr>cs_active_tag := observed_tag\<rparr> else s1
               else s\<lparr>cs_pending_tag := observed_tag, cs_pending_run := 1\<rparr>
             else s\<lparr>cs_pending_tag := observed_tag, cs_pending_run := 0\<rparr>)"

definition site_window :: "site_counters \<Rightarrow> site_counters \<Rightarrow> u64 \<times> u64 option \<times> u64 option" where
  "site_window cur prev =
     (let dsum = sat_sub (sc_sum_ns cur) (sc_sum_ns prev);
          dsumsq = sat_sub (sc_sumsq_scaled cur) (sc_sumsq_scaled prev);
          ditems = sat_sub (sc_items cur) (sc_items prev);
          dsumsq_per_item = sat_sub (sc_sumsq_per_item cur) (sc_sumsq_per_item prev);
          dweight = max (sat_sub (sc_weight_sum cur) (sc_weight_sum prev)) 1;
          d_oncore_items = sat_sub (sc_oncore_items cur) (sc_oncore_items prev);
          d_oncore_sum = sat_sub (sc_oncore_sum cur) (sc_oncore_sum prev);
          d_oncore_sumsq = sat_sub (sc_oncore_sumsq cur) (sc_oncore_sumsq prev);
          oncore_cv2 = Option.bind (checked_div d_oncore_sum d_oncore_items)
            (\<lambda>mean. per_item_cv2 d_oncore_sumsq mean d_oncore_items);
          per_item = checked_div dsum ditems;
          (mean_ns, wall_cv2) =
            (case per_item of
               Some mean \<Rightarrow> (mean, per_item_cv2 dsumsq_per_item mean ditems)
             | None \<Rightarrow>
                 let mean = dsum div dweight;
                     scaled_mean = drop_bit 8 dsum div dweight;
                     spread = (if 0 < scaled_mean
                       then Some (let sumsq_per_n = dsumsq div dweight;
                                      mean_sq = sat_mul scaled_mean scaled_mean;
                                      var = sat_sub sumsq_per_n mean_sq
                                  in sat_mul var 1000 div mean_sq)
                       else None)
                 in (mean, spread))
      in (mean_ns, wall_cv2, if per_item = None then None else oncore_cv2))"

definition site_tick :: "class_thresholds \<Rightarrow> call_site \<Rightarrow> call_site" where
  "site_tick t s =
     (let cur = cs_leaf s; prev = cs_last s;
          dcount = sat_sub (sc_count cur) (sc_count prev)
      in if dcount < 4 then s
         else
           let (mean_ns, wall_cv2, oncore_used) = site_window cur prev;
               cv2 = (case oncore_used of Some c \<Rightarrow> Some c | None \<Rightarrow> wall_cv2);
               s1 = s\<lparr>cs_last := cur, cs_window_mean_ns := mean_ns,
                      cs_window_ticks := publish_count (cs_window_ticks s),
                      cs_window := publish_spread cv2 (cs_window s),
                      cs_window_wall := publish_spread wall_cv2 (cs_window_wall s),
                      cs_window_oncore := publish_spread oncore_used (cs_window_oncore s)\<rparr>
           in case classify_window t mean_ns cv2 of
                None \<Rightarrow> s1
              | Some observed \<Rightarrow> site_decide dcount s1 observed)"

definition record_batch_weighted ::
  "class_thresholds \<Rightarrow> u64 \<Rightarrow> u64 \<Rightarrow> u64 \<Rightarrow> u64 \<Rightarrow> u64 \<Rightarrow> u64 option \<Rightarrow> call_site \<Rightarrow> call_site"
where
  "record_batch_weighted t sum_ns sumsq_scaled cnt items sumsq_per_item weight_per_mille s =
     (let w = min (case weight_per_mille of Some w \<Rightarrow> w | None \<Rightarrow> FULL_WEIGHT) FULL_WEIGHT;
          scale = (\<lambda>v. sat_mul v w);
          l = cs_leaf s;
          prior = sc_count l;
          new_total = prior + cnt;
          s1 = s\<lparr>cs_leaf := l\<lparr>sc_sum_ns := sc_sum_ns l + scale sum_ns,
                               sc_sumsq_scaled := sc_sumsq_scaled l + scale sumsq_scaled,
                               sc_items := sc_items l + scale items,
                               sc_sumsq_per_item := sc_sumsq_per_item l + scale sumsq_per_item,
                               sc_weight_sum := sc_weight_sum l + scale cnt,
                               sc_count := new_total\<rparr>\<rparr>
      in if prior div SITE_CLASSIFY_QUANTUM \<noteq> new_total div SITE_CLASSIFY_QUANTUM
         then site_tick t s1 else s1)"

definition record_batch_site_only ::
  "class_thresholds \<Rightarrow> u64 \<Rightarrow> u64 \<Rightarrow> u64 \<Rightarrow> u64 \<Rightarrow> u64 \<Rightarrow> call_site \<Rightarrow> call_site" where
  "record_batch_site_only t sum_ns sumsq_scaled cnt items sumsq_per_item s =
     record_batch_weighted t sum_ns sumsq_scaled cnt items sumsq_per_item None s"

definition record_batch ::
  "u64 \<Rightarrow> u64 \<Rightarrow> u64 \<Rightarrow> u64 \<Rightarrow> u64 \<Rightarrow> observer \<times> call_site \<Rightarrow> observer \<times> call_site" where
  "record_batch sum_ns sumsq_scaled cnt items sumsq_per_item obs_site =
     (let ob = record_leaf_batch sum_ns sumsq_scaled cnt items sumsq_per_item (fst obs_site)
      in (ob, record_batch_site_only (ob_thresholds ob) sum_ns sumsq_scaled cnt items
                sumsq_per_item (snd obs_site)))"

definition record_oncore_batch :: "u64 \<Rightarrow> u64 \<Rightarrow> u64 \<Rightarrow> call_site \<Rightarrow> call_site" where
  "record_oncore_batch oncore_sum oncore_sumsq_per_item items s =
     (if items = 0 then s
      else
        let l = cs_leaf s
        in s\<lparr>cs_leaf := l\<lparr>sc_oncore_sum := sc_oncore_sum l + oncore_sum,
                         sc_oncore_sumsq := sc_oncore_sumsq l + oncore_sumsq_per_item,
                         sc_oncore_items := sc_oncore_items l + items\<rparr>\<rparr>)"

section \<open>Readings\<close>

definition per_item_oncore_cv2_per_mille :: "call_site \<Rightarrow> u64 option" where
  "per_item_oncore_cv2_per_mille s =
     (let items = sc_oncore_items (cs_leaf s)
      in if items = 0 then None
         else per_item_cv2 (sc_oncore_sumsq (cs_leaf s)) (sc_oncore_sum (cs_leaf s) div items) items)"

definition site_cv2_per_mille :: "call_site \<Rightarrow> u64 option" where
  "site_cv2_per_mille s =
     (if sc_count (cs_leaf s) < 4 then None
      else
        let sum = sc_sum_ns (cs_leaf s);
            sumsq = sc_sumsq_scaled (cs_leaf s);
            n = max (sc_weight_sum (cs_leaf s)) 1;
            mean_scaled = drop_bit 8 sum div n
        in if mean_scaled = 0 then None
           else
             let sumsq_per_n = sumsq div n;
                 mean_sq = sat_mul mean_scaled mean_scaled;
                 var = sat_sub sumsq_per_n mean_sq
             in Some (sat_mul var 1000 div mean_sq))"

definition leaves_under_spread_unit :: "call_site \<Rightarrow> bool" where
  "leaves_under_spread_unit s \<longleftrightarrow>
     \<not> sc_count (cs_leaf s) < 4
     \<and> drop_bit 8 (sc_sum_ns (cs_leaf s)) div max (sc_weight_sum (cs_leaf s)) 1 = 0"

definition site_leaf_sum_ns :: "call_site \<Rightarrow> u64" where
  "site_leaf_sum_ns s =
     (let weight = sc_weight_sum (cs_leaf s)
      in if weight = 0 then 0
         else sat_mul (sc_sum_ns (cs_leaf s) div weight) (sc_count (cs_leaf s)))"

definition per_item_ns :: "call_site \<Rightarrow> u64 option" where
  "per_item_ns s =
     (if sc_count (cs_leaf s) < 4 then None
      else if sc_items (cs_leaf s) = 0 then None
      else Some (sc_sum_ns (cs_leaf s) div sc_items (cs_leaf s)))"

definition per_item_cv2_per_mille :: "call_site \<Rightarrow> u64 option" where
  "per_item_cv2_per_mille s =
     (if sc_count (cs_leaf s) < 4 then None
      else
        let items = sc_items (cs_leaf s)
        in if items = 0 then None
           else per_item_cv2 (sc_sumsq_per_item (cs_leaf s)) (sc_sum_ns (cs_leaf s) div items) items)"

definition window_mean :: "call_site \<Rightarrow> u64 option" where
  "window_mean s = (if cs_window_ticks s = 0 then None else Some (cs_window_mean_ns s))"

text \<open>The value and the range of a spread window, absent while it was never published.\<close>

definition spread_value :: "spread_window \<Rightarrow> u64 option" where
  "spread_value w = (if sw_ticks w = 0 then None else Some (sw_cv2 w))"

definition spread_range :: "spread_window \<Rightarrow> (u64 \<times> u64) option" where
  "spread_range w = (if sw_ticks w = 0 then None else Some (sw_min w, sw_max w))"

section \<open>Policy arms\<close>

fun arm_idx :: "policy_arm \<Rightarrow> nat" where
  "arm_idx Default_arm = 0"
| "arm_idx Alternative_arm = 1"

definition better_arm :: "arm_bank \<Rightarrow> policy_arm" where
  "better_arm b = (if ewma_value (ab_ewma1 b) < ewma_value (ab_ewma0 b) then Alternative_arm
                   else Default_arm)"

fun other_arm :: "policy_arm \<Rightarrow> policy_arm" where
  "other_arm Default_arm = Alternative_arm"
| "other_arm Alternative_arm = Default_arm"

text \<open>
  \<open>choose_arm\<close> with the alternative allowed and \<open>choose_routing_arm\<close> are the same body
  over two banks of fields.
\<close>

definition bank_choose :: "arm_bank \<Rightarrow> policy_arm \<times> arm_bank" where
  "bank_choose b =
     (let calls = ab_calls b;
          b1 = b\<lparr>ab_calls := calls + 1\<rparr>;
          s0 = ab_samples0 b;
          s1 = ab_samples1 b
      in if s0 < ARM_MIN_SAMPLES \<or> s1 < ARM_MIN_SAMPLES
         then (if s1 < s0 then Alternative_arm else Default_arm, b1)
         else
           let best = better_arm b
           in if calls mod ARM_TRIAL_CADENCE = ARM_TRIAL_CADENCE - 1 then (other_arm best, b1)
              else (best, b1))"

fun bank_record :: "policy_arm \<Rightarrow> u64 \<Rightarrow> arm_bank \<Rightarrow> arm_bank" where
  "bank_record Default_arm wall_ns b =
     b\<lparr>ab_ewma0 := ewma_update (ab_ewma0 b) wall_ns, ab_samples0 := ab_samples0 b + 1\<rparr>"
| "bank_record Alternative_arm wall_ns b =
     b\<lparr>ab_ewma1 := ewma_update (ab_ewma1 b) wall_ns, ab_samples1 := ab_samples1 b + 1\<rparr>"

definition choose_arm :: "bool \<Rightarrow> call_site \<Rightarrow> policy_arm \<times> call_site" where
  "choose_arm alternative_allowed s =
     (if \<not> alternative_allowed then (Default_arm, s)
      else let (arm, b) = bank_choose (cs_arm s) in (arm, s\<lparr>cs_arm := b\<rparr>))"

definition choose_routing_arm :: "call_site \<Rightarrow> policy_arm \<times> call_site" where
  "choose_routing_arm s = (let (arm, b) = bank_choose (cs_routing s) in (arm, s\<lparr>cs_routing := b\<rparr>))"

definition record_arm :: "policy_arm \<Rightarrow> u64 \<Rightarrow> call_site \<Rightarrow> call_site" where
  "record_arm arm wall_ns s = s\<lparr>cs_arm := bank_record arm wall_ns (cs_arm s)\<rparr>"

definition record_routing_arm :: "policy_arm \<Rightarrow> u64 \<Rightarrow> call_site \<Rightarrow> call_site" where
  "record_routing_arm arm wall_ns s = s\<lparr>cs_routing := bank_record arm wall_ns (cs_routing s)\<rparr>"

definition arm_ewmas :: "call_site \<Rightarrow> u64 \<times> u64" where
  "arm_ewmas s = (ewma_value (ab_ewma0 (cs_arm s)), ewma_value (ab_ewma1 (cs_arm s)))"

definition routing_ewmas :: "call_site \<Rightarrow> u64 \<times> u64" where
  "routing_ewmas s = (ewma_value (ab_ewma0 (cs_routing s)), ewma_value (ab_ewma1 (cs_routing s)))"

section \<open>Placement and splits\<close>

text \<open>\<open>u64::leading_zeros\<close> of the standard library, over the number of significant bits.\<close>

definition leading_zeros64 :: "u64 \<Rightarrow> nat" where
  "leading_zeros64 w = 64 - bit_length (unat w)"

definition site_bucket :: "u32 \<Rightarrow> nat" where
  "site_bucket batch =
     min (63 - leading_zeros64 (ucast (max batch 1))) (PLACEMENT_BUCKETS - 1)"

definition choose_placement :: "u32 \<Rightarrow> call_site \<Rightarrow> placement \<times> call_site" where
  "choose_placement batch s =
     (let b = site_bucket batch;
          calls = cs_place_calls s ! b;
          s1 = s\<lparr>cs_place_calls := (cs_place_calls s)[b := calls + 1]\<rparr>;
          cpu = ewma_value (cs_place_cpu_ns s ! b);
          dev = ewma_value (cs_place_backend_ns s ! b)
      in (if cpu = 0 \<or> dev = 0 then Place_Race
          else if calls mod PLACEMENT_REPROBE_CADENCE = PLACEMENT_REPROBE_CADENCE - 1 then Place_Race
          else if cpu \<le> dev then Place_Cpu else Place_Backend, s1))"

definition ewma_cell_update :: "nat \<Rightarrow> u64 option \<Rightarrow> u64 list \<Rightarrow> u64 list" where
  "ewma_cell_update b ns cells =
     (case ns of None \<Rightarrow> cells | Some v \<Rightarrow> cells[b := ewma_update (cells ! b) v])"

definition record_placement :: "u32 \<Rightarrow> u64 option \<Rightarrow> u64 option \<Rightarrow> call_site \<Rightarrow> call_site" where
  "record_placement batch cpu_ns backend_ns s =
     (let b = site_bucket batch
      in s\<lparr>cs_place_cpu_ns := ewma_cell_update b cpu_ns (cs_place_cpu_ns s),
           cs_place_backend_ns := ewma_cell_update b backend_ns (cs_place_backend_ns s)\<rparr>)"

definition placement_ewmas :: "u32 \<Rightarrow> call_site \<Rightarrow> u64 \<times> u64" where
  "placement_ewmas batch s =
     (let b = site_bucket batch
      in (ewma_value (cs_place_cpu_ns s ! b), ewma_value (cs_place_backend_ns s ! b)))"

definition cpu_share_per_mille :: "u64 \<Rightarrow> u64 \<Rightarrow> u32" where
  "cpu_share_per_mille c g =
     (let total = max (sat_add c g) 1
      in ucast (clamp_word 50 950 (sat_mul g 1000 div total)))"

definition split_cpu_share_per_mille :: "call_site \<Rightarrow> u32" where
  "split_cpu_share_per_mille s =
     (let c = ewma_value (cs_split_cpu s);
          g = ewma_value (cs_split_backend s)
      in if c = 0 \<or> g = 0 then 500 else cpu_share_per_mille c g)"

definition split_sample :: "usize \<Rightarrow> u64 \<Rightarrow> u64 option" where
  "split_sample items ns = (if 0 < items then Some (max (ns div items) 1) else None)"

definition record_split :: "usize \<Rightarrow> u64 \<Rightarrow> usize \<Rightarrow> u64 \<Rightarrow> call_site \<Rightarrow> call_site" where
  "record_split cpu_items cpu_ns backend_items backend_ns s =
     s\<lparr>cs_split_cpu := (case split_sample cpu_items cpu_ns of
            Some v \<Rightarrow> ewma_update (cs_split_cpu s) v | None \<Rightarrow> cs_split_cpu s),
       cs_split_backend := (case split_sample backend_items backend_ns of
            Some v \<Rightarrow> ewma_update (cs_split_backend s) v | None \<Rightarrow> cs_split_backend s)\<rparr>"

definition split_cpu_share_per_mille_for :: "u32 \<Rightarrow> call_site \<Rightarrow> u32" where
  "split_cpu_share_per_mille_for n s =
     (let b = site_bucket n;
          c = ewma_value (cs_split_cpu_by_size s ! b);
          g = ewma_value (cs_split_backend_by_size s ! b)
      in if c = 0 \<or> g = 0 then split_cpu_share_per_mille s else cpu_share_per_mille c g)"

definition record_split_for :: "u32 \<Rightarrow> usize \<Rightarrow> u64 \<Rightarrow> usize \<Rightarrow> u64 \<Rightarrow> call_site \<Rightarrow> call_site" where
  "record_split_for n cpu_items cpu_ns backend_items backend_ns s =
     (let b = site_bucket n;
          s1 = s\<lparr>cs_split_cpu_by_size :=
                    ewma_cell_update b (split_sample cpu_items cpu_ns) (cs_split_cpu_by_size s),
                  cs_split_backend_by_size :=
                    ewma_cell_update b (split_sample backend_items backend_ns)
                      (cs_split_backend_by_size s)\<rparr>
      in record_split cpu_items cpu_ns backend_items backend_ns s1)"

definition reduce_cost_wants_sample :: "call_site \<Rightarrow> bool" where
  "reduce_cost_wants_sample s \<longleftrightarrow> cs_reduce_cost_samples s < REDUCE_COST_MAX_SAMPLES"

definition record_reduce_cost_sample :: "u64 \<Rightarrow> call_site \<Rightarrow> call_site" where
  "record_reduce_cost_sample cycles s =
     s\<lparr>cs_reduce_cost_sum_cycles := cs_reduce_cost_sum_cycles s + cycles,
       cs_reduce_cost_samples := cs_reduce_cost_samples s + 1\<rparr>"

definition reduce_cost_avg_cycles :: "call_site \<Rightarrow> u64 option" where
  "reduce_cost_avg_cycles s =
     (let n = cs_reduce_cost_samples s
      in if n < REDUCE_COST_MIN_SAMPLES then None
         else Some (cs_reduce_cost_sum_cycles s div ucast n))"

end
