(* ===== verification/Call_Site_Laws.thy ===== *)
theory Call_Site_Laws
  imports Call_Site
begin

text \<open>
  What the operations of a call site guarantee: hysteresis of the learned class and of the
  seed depth, the window ranges, the arm trials, the placement buckets, the split share
  and the neutrality of batch weights.
\<close>

section \<open>Well-formed sites\<close>

definition site_wf :: "call_site \<Rightarrow> bool" where
  "site_wf s \<longleftrightarrow>
     length (cs_place_cpu_ns s) = PLACEMENT_BUCKETS
     \<and> length (cs_place_backend_ns s) = PLACEMENT_BUCKETS
     \<and> length (cs_place_calls s) = PLACEMENT_BUCKETS
     \<and> length (cs_split_cpu_by_size s) = PLACEMENT_BUCKETS
     \<and> length (cs_split_backend_by_size s) = PLACEMENT_BUCKETS"

definition spread_ok :: "spread_window \<Rightarrow> bool" where
  "spread_ok w \<longleftrightarrow> (sw_ticks w = 0 \<or> (sw_min w \<le> sw_cv2 w \<and> sw_cv2 w \<le> sw_max w))"

definition windows_ok :: "call_site \<Rightarrow> bool" where
  "windows_ok s \<longleftrightarrow> spread_ok (cs_window s) \<and> spread_ok (cs_window_wall s) \<and> spread_ok (cs_window_oncore s)"

lemma map_zero_40: "length xs = 40 \<Longrightarrow> map (\<lambda>_. 0) xs = replicate 40 0"
  by (simp add: map_replicate_const)

lemma site_reset_new: "site_wf s \<Longrightarrow> site_reset s = call_site_new"
  by (cases s)
    (simp add: site_reset_def call_site_new_def site_wf_def map_zero_40 reset_window_def
      reset_arms_def reset_counters_def spread_window_new_def arm_bank_new_def
      site_counters_zero_def)

lemma spread_ok_publish: "spread_ok w \<Longrightarrow> spread_ok (publish_spread c w)"
  by (auto simp: spread_ok_def publish_spread_def publish_min_def publish_max_def
      split: option.splits)

section \<open>The learned class\<close>

lemma site_decide_frame [simp]:
  "cs_window (site_decide n s c) = cs_window s"
  "cs_window_wall (site_decide n s c) = cs_window_wall s"
  "cs_window_oncore (site_decide n s c) = cs_window_oncore s"
  "cs_leaf (site_decide n s c) = cs_leaf s"
  "cs_place_cpu_ns (site_decide n s c) = cs_place_cpu_ns s"
  "cs_place_backend_ns (site_decide n s c) = cs_place_backend_ns s"
  "cs_place_calls (site_decide n s c) = cs_place_calls s"
  "cs_split_cpu_by_size (site_decide n s c) = cs_split_cpu_by_size s"
  "cs_split_backend_by_size (site_decide n s c) = cs_split_backend_by_size s"
  by (simp_all add: site_decide_def Let_def split: option.splits)

lemma decode_encode [simp]: "class_tag_decode (class_tag_encode c) = Some c"
  by (rule class_tags.dec_enc)

lemma sat_add_one_one: "sat_add (1 :: u32) 1 = 2"
  by (simp add: sat_add_def)

definition site_learns :: "call_site \<Rightarrow> workload_class \<Rightarrow> bool" where
  "site_learns s c \<longleftrightarrow> cs_pending_tag s = class_tag_encode c \<and> cs_pending_run s \<noteq> 0"

lemma site_decide_agree: "learned_class s = Some c \<Longrightarrow> learned_class (site_decide n s c) = Some c"
  by (simp add: learned_class_def site_decide_def)

lemma site_decide_ready:
  assumes "site_learns s c"
  shows "learned_class (site_decide n s c) = Some c"
  using assms sat_add_one_ge2 [of "cs_pending_run s"]
  by (auto simp: site_learns_def learned_class_def site_decide_def Let_def
      SITE_MIGRATION_HYSTERESIS_def split: option.splits)

lemma site_decide_first:
  "learned_class (site_decide n s c) = Some c
   \<or> site_learns (site_decide n s c) c \<and> learned_class (site_decide n s c) = learned_class s"
proof (cases "cs_pending_run s = 0")
  case True
  then show ?thesis
    by (auto simp: site_learns_def learned_class_def site_decide_def Let_def
        SITE_MIGRATION_HYSTERESIS_def sat_add_def
        split: option.splits)
next
  case False
  then show ?thesis
    using sat_add_one_ge2 [of "cs_pending_run s"]
    by (auto simp: site_learns_def learned_class_def site_decide_def Let_def
        SITE_MIGRATION_HYSTERESIS_def split: option.splits)
qed

interpretation site_hysteresis: hysteresis "site_decide n" learned_class "\<lambda>_. True"
proof unfold_locales
  show "learned_class (site_decide n s c) = Some c" if "learned_class s = Some c" for s c
    using that by (rule site_decide_agree)
  show "learned_class (site_decide n (site_decide n s c) c) = Some c" for s c
    using site_decide_first [of n s c] site_decide_ready site_decide_agree by blast
qed

lemma site_decide_agree_settles: "learned_class s = Some c \<Longrightarrow> cs_pending_run (site_decide n s c) = 0"
  by (simp add: site_decide_def learned_class_def)

lemma site_decide_outlier:
  assumes "learned_class s = Some a" and "a \<noteq> c" and "bucket_distance a c < 2 \<or> n < 64"
    and "cs_pending_run s = 0"
  shows "learned_class (site_decide n s c) = Some a"
  using assms sat_add_one_one
  by (auto simp: learned_class_def site_decide_def Let_def SITE_MIGRATION_HYSTERESIS_def
      sat_add_def)

lemma site_tick_windows_ok: "windows_ok s \<Longrightarrow> windows_ok (site_tick t s)"
  by (simp add: site_tick_def Let_def windows_ok_def spread_ok_publish split: option.splits prod.splits)

lemma site_tick_wf: "site_wf s \<Longrightarrow> site_wf (site_tick t s)"
  by (simp add: site_tick_def Let_def site_wf_def split: option.splits prod.splits)

section \<open>The seed depth\<close>

lemma ucast_u32_u64 [simp]: "ucast (ucast (d :: u32) :: u64) = d"
  by (rule bit_word_eqI) (auto simp: bit_simps dest: bit_imp_le_length)

definition depth_ready :: "call_site \<Rightarrow> u32 \<Rightarrow> bool" where
  "depth_ready s d \<longleftrightarrow> cs_pending_depth s = d \<and> cs_depth_run s \<noteq> 0"

lemma stabilize_agree:
  "seeded_depth s = Some d \<Longrightarrow>
   stabilize_seed_depth (ucast d) s = (ucast d, s\<lparr>cs_depth_run := 0\<rparr>)"
proof -
  assume "seeded_depth s = Some d"
  then have "cs_active_depth s = d" and "d \<noteq> DEPTH_UNSET"
    by (simp_all add: seeded_depth_def split: if_splits)
  then show ?thesis
    by (simp only: stabilize_seed_depth_def Let_def ucast_u32_u64 if_False if_True simp_thms)
qed

lemma stabilize_ready:
  assumes "depth_ready s d" and "d \<noteq> DEPTH_UNSET"
  shows "seeded_depth (snd (stabilize_seed_depth (ucast d) s)) = Some d"
  using assms sat_add_one_ge2 [of "cs_depth_run s"]
  by (auto simp: depth_ready_def seeded_depth_def stabilize_seed_depth_def Let_def
      SEED_DEPTH_HYSTERESIS_def)

lemma stabilize_first:
  assumes "d \<noteq> DEPTH_UNSET"
  shows "seeded_depth (snd (stabilize_seed_depth (ucast d) s)) = Some d
    \<or> depth_ready (snd (stabilize_seed_depth (ucast d) s)) d"
  using assms sat_add_one_ge2 [of "cs_depth_run s"]
  by (cases "cs_depth_run s = 0")
    (auto simp: depth_ready_def seeded_depth_def stabilize_seed_depth_def Let_def
      SEED_DEPTH_HYSTERESIS_def sat_add_def)

interpretation depth_hysteresis:
  hysteresis "\<lambda>s d. snd (stabilize_seed_depth (ucast d) s)" seeded_depth "\<lambda>d. d \<noteq> DEPTH_UNSET"
proof unfold_locales
  fix s d
  show "seeded_depth (snd (stabilize_seed_depth (ucast d) s)) = Some d"
    if "d \<noteq> DEPTH_UNSET" "seeded_depth s = Some d"
    using stabilize_agree [OF that(2)] that(2) by (simp add: seeded_depth_def split: if_splits)
next
  fix s d
  assume d: "d \<noteq> DEPTH_UNSET"
  let ?s1 = "snd (stabilize_seed_depth (ucast d) s)"
  show "seeded_depth (snd (stabilize_seed_depth (ucast d) ?s1)) = Some d"
    using stabilize_first [OF d, of s]
  proof
    assume "seeded_depth ?s1 = Some d"
    then show ?thesis
      using stabilize_agree [of ?s1 d] by (simp add: seeded_depth_def split: if_splits)
  qed (rule stabilize_ready [OF _ d])
qed

lemma stabilize_outlier:
  assumes "seeded_depth s = Some a" and "ucast obs \<noteq> a" and "cs_depth_run s = 0"
  shows "fst (stabilize_seed_depth obs s) = ucast a"
    and "seeded_depth (snd (stabilize_seed_depth obs s)) = Some a"
  using assms
  by (auto simp: seeded_depth_def stabilize_seed_depth_def Let_def SEED_DEPTH_HYSTERESIS_def
      sat_add_def split: if_splits)

end
