(* ===== verification/Site_Registry.thy ===== *)
theory Site_Registry
  imports Site_Table Call_Site_Laws
begin

text \<open>
  The process-wide registry of call sites (\<open>src/src/sched/call_site.rs\<close>): the table of
  located sites, the table of keyed sites, the overflow counters and the leaked states
  themselves. A leaked \<open>CallSiteState\<close> is named by its address, an index into the list of
  all of them; address 0 is the static \<open>KEY_OVERFLOW_SITE\<close>. A \<open>&'static CallSiteState\<close>
  (\<open>SiteRef\<close>) is such an address. \<open>key_of\<close> is the hash of a source location.
\<close>

type_synonym site_ref = nat

record 'loc registry =
  rg_heap :: "call_site list"
  rg_sites :: "(u64, 'loc \<times> site_ref) table"
  rg_keys :: "(u64, site_ref) table"
  rg_site_overflow :: u64
  rg_key_overflow :: u64

definition KEY_OVERFLOW_SITE :: site_ref where [simp]: "KEY_OVERFLOW_SITE = 0"

definition registry_new :: "'loc registry" where
  "registry_new =
     \<lparr>rg_heap = [call_site_new], rg_sites = empty_table SITE_SLOTS,
      rg_keys = empty_table KEY_SLOTS, rg_site_overflow = 0, rg_key_overflow = 0\<rparr>"

definition leak_site :: "site_ref \<Rightarrow> call_site list \<Rightarrow> call_site list" where
  "leak_site a heap = (if a = length heap then heap @ [call_site_new] else heap)"

section \<open>Operations\<close>

definition site_lookup :: "u64 \<Rightarrow> 'loc registry \<Rightarrow> (u64 \<times> 'loc \<times> site_ref) option" where
  "site_lookup key r = table_lookup (rg_sites r) key key"

text \<open>
  The closure that builds the node runs only when the probe reaches an empty slot; the
  address it allocates is then the one the insert returns.
\<close>

definition site_insert :: "u64 \<Rightarrow> 'loc \<Rightarrow> 'loc registry \<Rightarrow> site_ref \<times> 'loc registry" where
  "site_insert key loc r =
     (let fresh = length (rg_heap r)
      in case table_insert (rg_sites r) key key (loc, fresh) of
           (Some (l, a), tbl) \<Rightarrow> (a, r\<lparr>rg_sites := tbl, rg_heap := leak_site a (rg_heap r)\<rparr>)
         | (None, tbl) \<Rightarrow>
             (fresh, r\<lparr>rg_sites := tbl, rg_site_overflow := rg_site_overflow r + 1,
                       rg_heap := leak_site fresh (rg_heap r)\<rparr>))"

definition site_for_key :: "u64 \<Rightarrow> 'loc registry \<Rightarrow> site_ref \<times> 'loc registry" where
  "site_for_key key r =
     (let slot = key_slot key
      in case table_lookup (rg_keys r) slot key of
           Some node \<Rightarrow> (snd node, r)
         | None \<Rightarrow>
             (case table_insert (rg_keys r) slot key (length (rg_heap r)) of
                (Some a, tbl) \<Rightarrow> (a, r\<lparr>rg_keys := tbl, rg_heap := leak_site a (rg_heap r)\<rparr>)
              | (None, tbl) \<Rightarrow>
                  (KEY_OVERFLOW_SITE,
                   r\<lparr>rg_keys := tbl, rg_key_overflow := rg_key_overflow r + 1\<rparr>)))"

text \<open>\<open>site_for_location\<close> over the calling thread's one-slot cache.\<close>

definition site_for_location ::
  "('loc \<Rightarrow> u64) \<Rightarrow> 'loc \<Rightarrow> ('loc \<times> site_ref) option \<times> 'loc registry
    \<Rightarrow> site_ref \<times> ('loc \<times> site_ref) option \<times> 'loc registry"
where
  "site_for_location key_of loc cr =
     (let (cached, r) = cr
      in case cached of
           Some (l, a) \<Rightarrow>
             if l = loc then (a, cached, r)
             else (case site_lookup (key_of loc) r of
                     Some node \<Rightarrow> (snd (snd node), Some (loc, snd (snd node)), r)
                   | None \<Rightarrow> let (b, r') = site_insert (key_of loc) loc r in (b, Some (loc, b), r'))
         | None \<Rightarrow>
             (case site_lookup (key_of loc) r of
                Some node \<Rightarrow> (snd (snd node), Some (loc, snd (snd node)), r)
              | None \<Rightarrow> let (b, r') = site_insert (key_of loc) loc r in (b, Some (loc, b), r')))"

definition registered_sites :: "'loc registry \<Rightarrow> ('loc \<times> site_ref) list" where
  "registered_sites r = map snd (table_nodes (rg_sites r))"

definition registered_keyed_sites :: "'loc registry \<Rightarrow> (u64 \<times> site_ref) list" where
  "registered_keyed_sites r = table_nodes (rg_keys r)"

definition reset_at :: "site_ref \<Rightarrow> 'loc registry \<Rightarrow> 'loc registry" where
  "reset_at a r = r\<lparr>rg_heap := (rg_heap r)[a := site_reset (rg_heap r ! a)]\<rparr>"

definition reset_all_sites :: "'loc registry \<Rightarrow> nat \<times> 'loc registry" where
  "reset_all_sites r =
     (let r1 = fold (\<lambda>node. reset_at (snd (snd node))) (table_nodes (rg_sites r)) r;
          r2 = fold (\<lambda>node. reset_at (snd node)) (table_nodes (rg_keys r1)) r1;
          swept = length (table_nodes (rg_sites r)) + length (table_nodes (rg_keys r1))
      in if 0 < rg_key_overflow r2 then (swept + 1, reset_at KEY_OVERFLOW_SITE r2)
         else (swept, r2))"

section \<open>The invariant\<close>

text \<open>Every registered node names a leaked state of its own.\<close>

definition keys_ok :: "'loc registry \<Rightarrow> bool" where
  "keys_ok r \<longleftrightarrow> table_ok key_slot (rg_keys r)
     \<and> (\<forall>k a. table_has (rg_keys r) (k, a) \<longrightarrow> 0 < a \<and> a < length (rg_heap r))
     \<and> (\<forall>k k' a. table_has (rg_keys r) (k, a) \<longrightarrow> table_has (rg_keys r) (k', a) \<longrightarrow> k = k')"

definition sites_ok :: "'loc registry \<Rightarrow> bool" where
  "sites_ok r \<longleftrightarrow> table_ok (\<lambda>k. k) (rg_sites r)
     \<and> (\<forall>k l a. table_has (rg_sites r) (k, l, a) \<longrightarrow> 0 < a \<and> a < length (rg_heap r))
     \<and> (\<forall>k k' l l' a. table_has (rg_sites r) (k, l, a) \<longrightarrow> table_has (rg_sites r) (k', l', a)
          \<longrightarrow> k = k')"

definition registry_ok :: "'loc registry \<Rightarrow> bool" where
  "registry_ok r \<longleftrightarrow> keys_ok r \<and> sites_ok r
     \<and> (\<forall>k k' l a. table_has (rg_keys r) (k, a) \<longrightarrow> \<not> table_has (rg_sites r) (k', l, a))
     \<and> rg_heap r \<noteq> [] \<and> (\<forall>s \<in> set (rg_heap r). site_wf s)"

lemma site_wf_new: "site_wf call_site_new"
  by (simp add: site_wf_def call_site_new_def)

lemma table_has_empty [simp]: "\<not> table_has (empty_table n) node"
  by (simp add: table_has_def empty_table_def)

lemma registry_ok_new: "registry_ok registry_new"
  by (simp add: registry_ok_def keys_ok_def sites_ok_def registry_new_def SITE_SLOTS_def
      KEY_SLOTS_def site_wf_new table_ok_empty [of 11, simplified] table_ok_empty [of 12, simplified])

section \<open>What one request does\<close>

lemma insert_outcome:
  assumes "table_ok st tbl"
  obtains (hit) v where "table_has tbl (k, v)" "table_insert tbl (st k) k b = (Some v, tbl)"
    | (new) tbl' where "table_insert tbl (st k) k b = (Some b, tbl')" "table_ok st tbl'"
        "\<And>node. table_has tbl' node \<longleftrightarrow> node = (k, b) \<or> table_has tbl node"
        "\<exists>j < length tbl. tbl ! j = None"
    | (full) "table_insert tbl (st k) k b = (None, tbl)" "\<forall>j < length tbl. tbl ! j \<noteq> None"
proof -
  have pow: "pow2_table tbl" using assms by blast
  show thesis
    using pow
  proof (cases rule: table_insert_cases [where st = st and k = k and b = b])
    case (hit d v)
    then have "table_has tbl (k, v)"
      using mod_less_divisor [OF pow2_table_pos [OF pow]] unfolding hits_def table_has_def by blast
    from this hit(3) show thesis by (rule that(1))
  next
    case (new d)
    let ?j = "(unat (st k) + d) mod length tbl"
    have j: "?j < length tbl" "tbl ! ?j = None"
      using new(2) pow2_table_pos [OF pow] by (simp_all add: hits_def)
    show thesis
      by (rule that(2) [OF new(3) table_ok_add [OF assms new(2,1)] table_has_add [OF j]])
        (use j in blast)
  next
    case full
    have "tbl ! j \<noteq> None" if "j < length tbl" for j
    proof -
      let ?s = "unat (st k) mod length tbl"
      let ?e = "(j + (length tbl - ?s)) mod length tbl"
      have pos: "0 < length tbl" by (rule pow2_table_pos [OF pow])
      then have "?s \<le> length tbl" by simp
      then have "(?s + (j + (length tbl - ?s))) mod length tbl = j"
        using that by simp
      then have "(unat (st k) + ?e) mod length tbl = j"
        by (simp add: mod_add_left_eq mod_add_right_eq)
      moreover have "?e < length tbl" using pos by simp
      ultimately show ?thesis using full(1) by (fastforce simp: clear_path_def)
    qed
    with full(2) show thesis by (intro that(3)) auto
  qed
qed


definition key_bound :: "u64 \<Rightarrow> site_ref \<Rightarrow> 'loc registry \<Rightarrow> bool" where
  "key_bound k a r \<longleftrightarrow>
     (if a = KEY_OVERFLOW_SITE
      then (\<forall>j < length (rg_keys r). rg_keys r ! j \<noteq> None) \<and> (\<forall>b. \<not> table_has (rg_keys r) (k, b))
      else table_has (rg_keys r) (k, a))"

lemma key_lookup_iff:
  "registry_ok r \<Longrightarrow>
   table_lookup (rg_keys r) (key_slot k) k = Some node \<longleftrightarrow> table_has (rg_keys r) node \<and> fst node = k"
  by (rule table_lookup_iff) (simp add: registry_ok_def keys_ok_def)

lemma site_lookup_iff:
  "registry_ok r \<Longrightarrow> site_lookup k r = Some node \<longleftrightarrow> table_has (rg_sites r) node \<and> fst node = k"
  unfolding site_lookup_def
  by (rule table_lookup_iff [where st = "\<lambda>k. k"]) (simp add: registry_ok_def sites_ok_def)

lemma site_for_key_cases:
  assumes "registry_ok r"
  obtains (hit) a where "table_has (rg_keys r) (k, a)" "site_for_key k r = (a, r)"
    | (new) tbl' where "site_for_key k r = (length (rg_heap r),
          r\<lparr>rg_keys := tbl', rg_heap := rg_heap r @ [call_site_new]\<rparr>)"
        "table_ok key_slot tbl'" "\<And>b. \<not> table_has (rg_keys r) (k, b)"
        "\<And>node. table_has tbl' node \<longleftrightarrow> node = (k, length (rg_heap r)) \<or> table_has (rg_keys r) node"
        "\<exists>j < length (rg_keys r). rg_keys r ! j = None"
    | (full) "site_for_key k r = (0, r\<lparr>rg_key_overflow := rg_key_overflow r + 1\<rparr>)"
        "key_bound k 0 r"
proof (cases "table_lookup (rg_keys r) (key_slot k) k")
  case (Some node)
  then have "table_has (rg_keys r) (k, snd node)"
    using key_lookup_iff [OF assms] by (cases node) auto
  moreover have "site_for_key k r = (snd node, r)"
    using Some by (simp add: site_for_key_def)
  ultimately show thesis by (rule that(1))
next
  case None
  then have absent: "\<not> table_has (rg_keys r) (k, b)" for b
    using key_lookup_iff [OF assms, of k "(k, b)"] by auto
  have ok: "table_ok key_slot (rg_keys r)"
    using assms by (simp add: registry_ok_def keys_ok_def)
  show thesis
    using ok
  proof (cases rule: insert_outcome [where st = key_slot and k = k and b = "length (rg_heap r)"])
    case (hit v)
    with absent show thesis by blast
  next
    case (new tbl')
    have "site_for_key k r = (length (rg_heap r),
        r\<lparr>rg_keys := tbl', rg_heap := rg_heap r @ [call_site_new]\<rparr>)"
      using None new(1) by (simp add: site_for_key_def Let_def leak_site_def)
    from that(2) [OF this new(2) absent new(3,4)] show thesis .
  next
    case full
    have "site_for_key k r = (0, r\<lparr>rg_key_overflow := rg_key_overflow r + 1\<rparr>)"
      using None full(1) by (simp add: site_for_key_def Let_def)
    moreover have "key_bound k 0 r"
      using full(2) absent by (simp add: key_bound_def)
    ultimately show thesis by (rule that(3))
  qed
qed

lemma site_insert_cases:
  assumes "registry_ok r" and "site_lookup k r = None"
  obtains (new) tbl' where "site_insert k loc r = (length (rg_heap r),
          r\<lparr>rg_sites := tbl', rg_heap := rg_heap r @ [call_site_new]\<rparr>)"
        "table_ok (\<lambda>k. k) tbl'" "\<And>l b. \<not> table_has (rg_sites r) (k, l, b)"
        "\<And>node. table_has tbl' node \<longleftrightarrow>
           node = (k, loc, length (rg_heap r)) \<or> table_has (rg_sites r) node"
        "\<exists>j < length (rg_sites r). rg_sites r ! j = None"
    | (full) "site_insert k loc r = (length (rg_heap r),
          r\<lparr>rg_site_overflow := rg_site_overflow r + 1, rg_heap := rg_heap r @ [call_site_new]\<rparr>)"
        "\<forall>j < length (rg_sites r). rg_sites r ! j \<noteq> None" "\<And>l b. \<not> table_has (rg_sites r) (k, l, b)"
proof -
  have ok: "table_ok (\<lambda>k. k) (rg_sites r)"
    using assms by (simp add: registry_ok_def sites_ok_def)
  have absent: "\<not> table_has (rg_sites r) (k, l, b)" for l b
    using site_lookup_iff [OF assms(1), of k "(k, l, b)"] assms(2) by auto
  show thesis
    using ok
  proof (cases rule: insert_outcome [where st = "\<lambda>k. k" and k = k and b = "(loc, length (rg_heap r))"])
    case (hit v)
    with absent show thesis by (cases v) blast
  next
    case (new tbl')
    have "site_insert k loc r = (length (rg_heap r),
        r\<lparr>rg_sites := tbl', rg_heap := rg_heap r @ [call_site_new]\<rparr>)"
      using new(1) by (simp add: site_insert_def Let_def leak_site_def)
    from that(1) [OF this new(2) absent new(3,4)] show thesis .
  next
    case full
    then have "site_insert k loc r = (length (rg_heap r),
          r\<lparr>rg_site_overflow := rg_site_overflow r + 1, rg_heap := rg_heap r @ [call_site_new]\<rparr>)"
      by (simp add: site_insert_def Let_def leak_site_def)
    from this full(2) absent show thesis by (rule that(2))
  qed
qed

text \<open>The next address is registered nowhere.\<close>

lemma fresh_address:
  assumes "registry_ok r"
  shows "\<not> table_has (rg_keys r) (k, length (rg_heap r))"
    and "\<not> table_has (rg_sites r) (k, l, length (rg_heap r))"
  using assms unfolding registry_ok_def keys_ok_def sites_ok_def by (meson less_irrefl)+

lemma registry_ok_key: "registry_ok r \<Longrightarrow> registry_ok (snd (site_for_key k r))"
proof -
  assume ok: "registry_ok r"
  then show ?thesis
  proof (cases rule: site_for_key_cases [where k = k])
    case (hit a)
    with ok show ?thesis by simp
  next
    case (new tbl')
    show ?thesis
      using ok fresh_address [OF ok] unfolding new(1)
      by (auto simp: registry_ok_def keys_ok_def sites_ok_def new(2,4) site_wf_new
          less_Suc_eq dest: new(3) [THEN notE])
  next
    case full
    with ok show ?thesis by (simp add: registry_ok_def keys_ok_def sites_ok_def)
  qed
qed


lemma registry_ok_insert:
  assumes ok: "registry_ok r" and none: "site_lookup k r = None"
  shows "registry_ok (snd (site_insert k loc r))"
  using ok none
proof (cases rule: site_insert_cases [where loc = loc])
  case (new tbl')
  show ?thesis
    using ok fresh_address [OF ok] unfolding new(1)
    by (auto simp: registry_ok_def keys_ok_def sites_ok_def new(2,4) site_wf_new
        less_Suc_eq dest: new(3) [THEN notE])
next
  case full
  with ok show ?thesis
    by (auto simp: registry_ok_def keys_ok_def sites_ok_def site_wf_new less_Suc_eq)
qed

lemma site_insert_keys [simp]: "rg_keys (snd (site_insert k loc r)) = rg_keys r"
  by (simp add: site_insert_def Let_def split: option.splits prod.splits)

lemma site_for_key_sites [simp]: "rg_sites (snd (site_for_key k r)) = rg_sites r"
  by (simp add: site_for_key_def Let_def split: option.splits prod.splits)

lemma site_for_location_registry:
  "snd (snd (site_for_location key_of loc (c, r))) = r
   \<or> site_lookup (key_of loc) r = None
     \<and> snd (snd (site_for_location key_of loc (c, r))) = snd (site_insert (key_of loc) loc r)"
  by (auto simp: site_for_location_def split: option.splits prod.splits)

lemma registry_ok_location:
  "registry_ok r \<Longrightarrow> registry_ok (snd (snd (site_for_location key_of loc (c, r))))"
  using site_for_location_registry [of key_of loc c r] registry_ok_insert by metis

section \<open>Sequences of requests\<close>

datatype 'loc site_request =
    Ask_key u64
  | Ask_loc nat 'loc
  | Reset_all

type_synonym 'loc site_world = "(nat \<Rightarrow> ('loc \<times> site_ref) option) \<times> 'loc registry"

lemma reset_fold_frame:
  "rg_keys (fold (\<lambda>node. reset_at (f node)) ns r) = rg_keys r"
  "rg_sites (fold (\<lambda>node. reset_at (f node)) ns r) = rg_sites r"
  "rg_key_overflow (fold (\<lambda>node. reset_at (f node)) ns r) = rg_key_overflow r"
  "length (rg_heap (fold (\<lambda>node. reset_at (f node)) ns r)) = length (rg_heap r)"
  by (induction ns arbitrary: r) (simp_all add: reset_at_def)

lemma reset_all_frame [simp]:
  "rg_keys (snd (reset_all_sites r)) = rg_keys r"
  "rg_sites (snd (reset_all_sites r)) = rg_sites r"
  "length (rg_heap (snd (reset_all_sites r))) = length (rg_heap r)"
  by (simp_all add: reset_all_sites_def Let_def reset_fold_frame reset_at_def)

lemma site_wf_reset: "site_wf s \<Longrightarrow> site_wf (site_reset s)"
  by (simp add: site_reset_new site_wf_new)

definition heap_wf :: "'loc registry \<Rightarrow> bool" where
  "heap_wf r \<longleftrightarrow> (\<forall>s \<in> set (rg_heap r). site_wf s)"

lemma reset_at_wf:
  assumes "heap_wf r"
  shows "heap_wf (reset_at a r)"
proof (cases "a < length (rg_heap r)")
  case True
  with assms have "site_wf (site_reset (rg_heap r ! a))"
    by (simp add: heap_wf_def site_wf_reset)
  with assms set_update_subset_insert [of "rg_heap r" a] show ?thesis
    by (auto simp: heap_wf_def reset_at_def)
next
  case False
  with assms show ?thesis by (simp add: heap_wf_def reset_at_def list_update_beyond)
qed

lemma reset_fold_wf: "heap_wf r \<Longrightarrow> heap_wf (fold (\<lambda>node. reset_at (f node)) ns r)"
  by (induction ns arbitrary: r) (simp_all add: reset_at_wf)

lemma reset_all_wf: "heap_wf r \<Longrightarrow> heap_wf (snd (reset_all_sites r))"
  by (simp add: reset_all_sites_def Let_def reset_fold_wf reset_at_wf del: KEY_OVERFLOW_SITE_def)

lemma registry_ok_reset:
  assumes "registry_ok r"
  shows "registry_ok (snd (reset_all_sites r))"
proof -
  have "rg_heap (snd (reset_all_sites r)) \<noteq> []"
    using assms reset_all_frame(3) [of r] by (metis length_0_conv registry_ok_def)
  with assms reset_all_wf [of r] show ?thesis
    by (simp add: registry_ok_def keys_ok_def sites_ok_def heap_wf_def)
qed

fun request_step :: "('loc \<Rightarrow> u64) \<Rightarrow> 'loc site_request \<Rightarrow> 'loc site_world \<Rightarrow> 'loc site_world" where
  "request_step key_of (Ask_key k) (c, r) = (c, snd (site_for_key k r))"
| "request_step key_of (Ask_loc tid loc) (c, r) =
     (let (a, c', r') = site_for_location key_of loc (c tid, r) in (c(tid := c'), r'))"
| "request_step key_of Reset_all (c, r) = (c, snd (reset_all_sites r))"

definition requests :: "('loc \<Rightarrow> u64) \<Rightarrow> 'loc site_request list \<Rightarrow> 'loc site_world \<Rightarrow> 'loc site_world"
  where "requests key_of qs w = fold (request_step key_of) qs w"

lemma request_step_snd:
  "snd (request_step key_of q (c, r)) =
     (case q of Ask_key k \<Rightarrow> snd (site_for_key k r)
      | Ask_loc tid loc \<Rightarrow> snd (snd (site_for_location key_of loc (c tid, r)))
      | Reset_all \<Rightarrow> snd (reset_all_sites r))"
  by (cases q) (simp_all split: prod.splits)

lemma request_step_ok: "registry_ok (snd w) \<Longrightarrow> registry_ok (snd (request_step key_of q w))"
  by (cases w; cases q)
    (simp_all add: request_step_snd registry_ok_key registry_ok_location registry_ok_reset
      del: request_step.simps)

lemma requests_ok: "registry_ok (snd w) \<Longrightarrow> registry_ok (snd (requests key_of qs w))"
  unfolding requests_def by (induction qs arbitrary: w) (simp_all add: request_step_ok)

section \<open>A key's site is for life\<close>

lemma site_for_key_bound:
  assumes "registry_ok r"
  shows "key_bound k (fst (site_for_key k r)) (snd (site_for_key k r))"
  using assms
proof (cases rule: site_for_key_cases [where k = k])
  case (hit a)
  with assms show ?thesis by (auto simp: key_bound_def registry_ok_def keys_ok_def)
next
  case (new tbl')
  with assms show ?thesis by (auto simp: key_bound_def registry_ok_def)
next
  case full
  then show ?thesis by (simp add: key_bound_def)
qed

lemma key_bound_returns:
  assumes "registry_ok r" and "key_bound k a r"
  shows "fst (site_for_key k r) = a"
  using assms(1)
proof (cases rule: site_for_key_cases [where k = k])
  case (hit b)
  have "table_has (rg_keys r) (k, a)"
    using assms(2) hit(1) by (auto simp: key_bound_def split: if_splits)
  then have "a = b"
    using hit(1) key_lookup_iff [OF assms(1), of k] by (metis fst_conv option.inject prod.inject)
  with hit show ?thesis by simp
next
  case (new tbl')
  with assms(2) show ?thesis by (fastforce simp: key_bound_def split: if_splits)
next
  case full
  with assms(2) show ?thesis by (auto simp: key_bound_def split: if_splits)
qed

lemma key_bound_cong: "rg_keys r' = rg_keys r \<Longrightarrow> key_bound k a r' = key_bound k a r"
  by (simp add: key_bound_def)

lemma key_bound_key:
  assumes "registry_ok r" and "key_bound k a r"
  shows "key_bound k a (snd (site_for_key k' r))"
  using assms(1)
proof (cases rule: site_for_key_cases [where k = k'])
  case (hit b)
  with assms show ?thesis by simp
next
  case (new tbl')
  with assms(2) show ?thesis by (auto simp: key_bound_def split: if_splits)
next
  case full
  with assms(2) show ?thesis by (simp add: key_bound_def)
qed

lemma site_for_location_keys:
  "rg_keys (snd (snd (site_for_location key_of loc (c, r)))) = rg_keys r"
  using site_for_location_registry [of key_of loc c r] by auto

lemma key_bound_step:
  assumes "registry_ok (snd w)" and "key_bound k a (snd w)"
  shows "key_bound k a (snd (request_step key_of q w))"
proof (cases w)
  case (Pair c r)
  show ?thesis
  proof (cases q)
    case (Ask_key k')
    with assms Pair show ?thesis by (simp add: key_bound_key)
  next
    case (Ask_loc tid loc)
    with assms Pair show ?thesis
      unfolding Pair Ask_loc request_step_snd
      by (simp add: key_bound_cong [OF site_for_location_keys])
  next
    case Reset_all
    with assms Pair show ?thesis by (simp add: key_bound_def)
  qed
qed

lemma key_bound_requests:
  "registry_ok (snd w) \<Longrightarrow> key_bound k a (snd w) \<Longrightarrow> key_bound k a (snd (requests key_of qs w))"
  unfolding requests_def
  by (induction qs arbitrary: w) (simp_all add: request_step_ok key_bound_step)


lemma key_bound_unique: "registry_ok r \<Longrightarrow> key_bound k a r \<Longrightarrow> key_bound k' a r \<Longrightarrow> 0 < a \<Longrightarrow> k = k'"
  unfolding registry_ok_def keys_ok_def key_bound_def by auto

section \<open>A location's site is for life\<close>

definition loc_bound :: "u64 \<Rightarrow> site_ref \<Rightarrow> 'loc registry \<Rightarrow> bool" where
  "loc_bound k a r \<longleftrightarrow> (\<exists>l. table_has (rg_sites r) (k, l, a))"

definition loc_missed :: "u64 \<Rightarrow> 'loc registry \<Rightarrow> bool" where
  "loc_missed k r \<longleftrightarrow>
     (\<forall>j < length (rg_sites r). rg_sites r ! j \<noteq> None) \<and> (\<forall>a. \<not> loc_bound k a r)"

definition cache_ok :: "('loc \<Rightarrow> u64) \<Rightarrow> 'loc registry \<Rightarrow> ('loc \<times> site_ref) option \<Rightarrow> bool" where
  "cache_ok key_of r c =
     (case c of None \<Rightarrow> True
      | Some (l, a) \<Rightarrow> loc_bound (key_of l) a r \<or> loc_missed (key_of l) r)"

definition world_ok :: "('loc \<Rightarrow> u64) \<Rightarrow> 'loc site_world \<Rightarrow> bool" where
  "world_ok key_of w \<longleftrightarrow> registry_ok (snd w) \<and> (\<forall>tid. cache_ok key_of (snd w) (fst w tid))"

lemma loc_bound_lookup:
  assumes "registry_ok r" and "loc_bound k a r"
  obtains l where "site_lookup k r = Some (k, l, a)"
  using assms site_lookup_iff [OF assms(1), of k] unfolding loc_bound_def by fastforce

lemma loc_bound_unique:
  assumes "registry_ok r" and "loc_bound k a r" and "loc_bound k b r"
  shows "a = b"
  using loc_bound_lookup [OF assms(1,2)] loc_bound_lookup [OF assms(1,3)]
  by (metis option.inject prod.inject)

lemma loc_bound_insert:
  assumes ok: "registry_ok r" and none: "site_lookup k r = None"
  shows "loc_bound k' a r \<Longrightarrow> loc_bound k' a (snd (site_insert k loc r))"
    and "loc_missed k' r \<Longrightarrow> loc_missed k' (snd (site_insert k loc r))"
    and "loc_bound k (fst (site_insert k loc r)) (snd (site_insert k loc r))
      \<or> loc_missed k (snd (site_insert k loc r))"
  using ok none
  by (cases rule: site_insert_cases [where loc = loc]; auto simp: loc_bound_def loc_missed_def)+

lemma loc_bound_frame [simp]:
  "loc_bound k a (snd (site_for_key k' r)) = loc_bound k a r"
  "loc_missed k (snd (site_for_key k' r)) = loc_missed k r"
  "loc_bound k a (snd (reset_all_sites r)) = loc_bound k a r"
  "loc_missed k (snd (reset_all_sites r)) = loc_missed k r"
  by (simp_all add: loc_bound_def loc_missed_def)

lemma site_for_location_result:
  assumes ok: "registry_ok r"
    and cache: "cache_ok key_of r c"
    and res: "site_for_location key_of loc (c, r) = (a, c', r')"
  shows "c' = Some (loc, a)" and "loc_bound (key_of loc) a r' \<or> loc_missed (key_of loc) r'"
    and "loc_bound k b r \<Longrightarrow> loc_bound k b r'" and "loc_missed k r \<Longrightarrow> loc_missed k r'"
proof -
  consider (hit) "c = Some (loc, a)" "r' = r" "c' = c"
    | (table) node where "site_lookup (key_of loc) r = Some node" "a = snd (snd node)" "r' = r"
        "c' = Some (loc, a)"
    | (fresh) "site_lookup (key_of loc) r = None" "site_insert (key_of loc) loc r = (a, r')"
        "c' = Some (loc, a)"
    using res
    by (auto simp: site_for_location_def split: option.splits prod.splits if_splits)
  then have "c' = Some (loc, a) \<and> (loc_bound (key_of loc) a r' \<or> loc_missed (key_of loc) r')
    \<and> (loc_bound k b r \<longrightarrow> loc_bound k b r') \<and> (loc_missed k r \<longrightarrow> loc_missed k r')"
  proof cases
    case hit
    with cache show ?thesis by (simp add: cache_ok_def)
  next
    case table
    then have "loc_bound (key_of loc) a r"
      using site_lookup_iff [OF ok, of "key_of loc" node]
      by (cases node) (auto simp: loc_bound_def)
    with table show ?thesis by simp
  next
    case fresh
    with loc_bound_insert [OF ok fresh(1), where loc = loc] show ?thesis by simp
  qed
  then show "c' = Some (loc, a)" "loc_bound (key_of loc) a r' \<or> loc_missed (key_of loc) r'"
    "loc_bound k b r \<Longrightarrow> loc_bound k b r'" "loc_missed k r \<Longrightarrow> loc_missed k r'" by blast+
qed

lemma cache_ok_mono:
  assumes "\<And>k b. loc_bound k b r \<Longrightarrow> loc_bound k b r'" and "\<And>k. loc_missed k r \<Longrightarrow> loc_missed k r'"
    and "cache_ok key_of r c"
  shows "cache_ok key_of r' c"
  using assms by (auto simp: cache_ok_def split: option.splits)

lemma request_step_loc:
  assumes w: "world_ok key_of w"
  shows "world_ok key_of (request_step key_of q w)"
    and "loc_bound k b (snd w) \<Longrightarrow> loc_bound k b (snd (request_step key_of q w))"
proof -
  obtain c r where cr: "w = (c, r)" by (cases w)
  have ok: "registry_ok r" and ok': "registry_ok (snd (request_step key_of q w))"
    using w request_step_ok [of w key_of q] by (auto simp: world_ok_def cr)
  have "world_ok key_of (request_step key_of q w)
    \<and> (loc_bound k b r \<longrightarrow> loc_bound k b (snd (request_step key_of q w)))"
  proof (cases q)
    case (Ask_loc tid loc)
    obtain a c' r' where res: "site_for_location key_of loc (c tid, r) = (a, c', r')"
      by (cases "site_for_location key_of loc (c tid, r)") auto
    have cache: "cache_ok key_of r (c t)" for t
      using w by (simp add: world_ok_def cr)
    note facts = site_for_location_result [OF ok cache res]
    have "cache_ok key_of r' (c t)" for t
      by (rule cache_ok_mono [OF facts(3,4) cache])
    moreover have "cache_ok key_of r' c'"
      using facts(1,2) by (simp add: cache_ok_def)
    ultimately show ?thesis
      using ok' facts(3) by (simp add: world_ok_def cr Ask_loc res)
  next
    case (Ask_key k')
    have "cache_ok key_of (snd (site_for_key k' r)) (c t)" for t
      by (rule cache_ok_mono [of r]) (use w in \<open>simp_all add: world_ok_def cr\<close>)
    then show ?thesis
      using ok' by (simp add: world_ok_def cr Ask_key)
  next
    case Reset_all
    have "cache_ok key_of (snd (reset_all_sites r)) (c t)" for t
      by (rule cache_ok_mono [of r]) (use w in \<open>simp_all add: world_ok_def cr\<close>)
    then show ?thesis
      using ok' by (simp add: world_ok_def cr Reset_all)
  qed
  then show "world_ok key_of (request_step key_of q w)"
    "loc_bound k b (snd w) \<Longrightarrow> loc_bound k b (snd (request_step key_of q w))"
    by (simp_all add: cr)
qed

lemma requests_loc:
  "world_ok key_of w \<Longrightarrow> world_ok key_of (requests key_of qs w)"
  "world_ok key_of w \<Longrightarrow> loc_bound k b (snd w) \<Longrightarrow> loc_bound k b (snd (requests key_of qs w))"
  unfolding requests_def
  by (induction qs arbitrary: w) (simp_all add: request_step_loc)

lemma loc_bound_returns:
  assumes w: "world_ok key_of (c, r)" and b: "loc_bound (key_of loc) a r"
  shows "fst (site_for_location key_of loc (c tid, r)) = a"
proof -
  obtain a' c' r' where res: "site_for_location key_of loc (c tid, r) = (a', c', r')"
    by (cases "site_for_location key_of loc (c tid, r)") auto
  have ok: "registry_ok r"
    and cache: "cache_ok key_of r (c tid)"
    using w by (auto simp: world_ok_def)
  note facts = site_for_location_result [OF ok cache res]
  have "registry_ok r'" using registry_ok_location [OF ok] res by (metis snd_conv)
  moreover have "loc_bound (key_of loc) a r'" by (rule facts(3) [OF b])
  ultimately show ?thesis
    using facts(2) loc_bound_unique by (auto simp: loc_missed_def res)
qed

section \<open>Resetting\<close>

lemma reset_fold_heap:
  assumes "heap_wf r"
  shows "rg_heap (fold (\<lambda>node. reset_at (f node)) ns r) ! i =
    (if i \<in> f ` set ns \<and> i < length (rg_heap r) then call_site_new else rg_heap r ! i)"
  using assms
proof (induction ns arbitrary: r)
  case (Cons n ns)
  have "site_reset (rg_heap r ! f n) = call_site_new" if "f n < length (rg_heap r)"
    using Cons.prems that by (auto simp: heap_wf_def intro: site_reset_new)
  then have "rg_heap (reset_at (f n) r) ! i =
      (if i = f n \<and> i < length (rg_heap r) then call_site_new else rg_heap r ! i)"
    by (cases "f n < length (rg_heap r)") (auto simp: reset_at_def nth_list_update list_update_beyond
        eq_commute [of i "f n"])
  then show ?case
    using Cons.IH [OF reset_at_wf [OF Cons.prems]] by (auto simp: reset_at_def)
qed simp

lemma set_table_nodes: "set (table_nodes tbl) = {node. Some node \<in> set tbl}"
  by (induction tbl) (auto simp: table_nodes_def List.map_filter_def split: option.splits)

lemma table_nodes_iff: "node \<in> set (table_nodes tbl) \<longleftrightarrow> table_has tbl node"
  by (auto simp: set_table_nodes table_has_def in_set_conv_nth)

lemma swept_sites: "a \<in> (\<lambda>node. snd (snd node)) ` set (table_nodes (rg_sites r)) \<longleftrightarrow> (\<exists>k. loc_bound k a r)"
  by (force simp: image_iff table_nodes_iff loc_bound_def)

lemma swept_keys: "a \<in> snd ` set (table_nodes (rg_keys r)) \<longleftrightarrow> (\<exists>k. table_has (rg_keys r) (k, a))"
  by (force simp: image_iff table_nodes_iff)

lemma bound_address:
  assumes "registry_ok r" and "table_has (rg_keys r) (k, a) \<or> loc_bound k a r"
  shows "a < length (rg_heap r)"
  using assms unfolding registry_ok_def keys_ok_def sites_ok_def loc_bound_def by blast

lemma reset_all_bound:
  assumes ok: "registry_ok r"
    and a: "table_has (rg_keys r) (k, a) \<or> loc_bound k a r \<or> a = 0 \<and> 0 < rg_key_overflow r"
  shows "rg_heap (snd (reset_all_sites r)) ! a = call_site_new"
proof -
  have wf: "heap_wf r" using ok by (simp add: registry_ok_def heap_wf_def)
  let ?r1 = "fold (\<lambda>node. reset_at (snd (snd node))) (table_nodes (rg_sites r)) r"
  let ?r2 = "fold (\<lambda>node. reset_at (snd node)) (table_nodes (rg_keys r)) ?r1"
  have wf1: "heap_wf ?r1" and wf2: "heap_wf ?r2" by (simp_all add: reset_fold_wf wf)
  have r2: "rg_heap ?r2 ! a = call_site_new" if "table_has (rg_keys r) (k, a) \<or> loc_bound k a r"
  proof -
    have "a < length (rg_heap r)" by (rule bound_address [OF ok that])
    with that show ?thesis
      unfolding reset_fold_heap [OF wf1] reset_fold_heap [OF wf] reset_fold_frame swept_sites
        swept_keys by auto
  qed
  have len: "length (rg_heap ?r2) = length (rg_heap r)" "rg_key_overflow ?r2 = rg_key_overflow r"
    "rg_keys ?r1 = rg_keys r"
    by (simp_all add: reset_fold_frame)
  have pos: "0 < length (rg_heap r)" using ok by (simp add: registry_ok_def)
  have zero: "site_reset (rg_heap ?r2 ! 0) = call_site_new"
    using wf2 pos len(1) by (auto simp: heap_wf_def intro!: site_reset_new)
  show ?thesis
  proof (cases "a = 0 \<and> 0 < rg_key_overflow r")
    case True
    then show ?thesis
      using pos zero by (simp add: reset_all_sites_def Let_def len reset_at_def)
  next
    case False
    with a have "rg_heap ?r2 ! a = call_site_new" using r2 by blast
    moreover have "rg_heap (reset_at 0 ?r2) ! a = call_site_new"
      if "rg_heap ?r2 ! a = call_site_new"
      using that zero pos len(1) by (simp add: reset_at_def nth_list_update)
    ultimately show ?thesis by (simp add: reset_all_sites_def Let_def len)
  qed
qed

end
