(* ===== verification/Placement_Laws.thy ===== *)
theory Placement_Laws
  imports Call_Site_Laws
begin

text \<open>
  What the measuring half of a call site guarantees: the smoothed averages stay inside the
  range of their samples, the two arms are explored evenly and then tried once in sixteen
  rounds, the size buckets are powers of two, the split favours the faster half inside
  fixed bounds, and the weight of a batch does not move the per-item reading.
\<close>

section \<open>Averages over a run of samples\<close>

definition ewma_run :: "u64 list \<Rightarrow> u64 \<Rightarrow> u64" where
  "ewma_run qs p = fold (\<lambda>q p. ewma_update p q) qs p"

lemma ewma_run_simps [simp]:
  "ewma_run [] p = p"
  "ewma_run (q # qs) p = ewma_run qs (ewma_update p q)"
  by (simp_all add: ewma_run_def)

definition ewma_within :: "u64 \<Rightarrow> u64 \<Rightarrow> u64 \<Rightarrow> bool" where
  "ewma_within lo hi p \<longleftrightarrow> ewma_count p \<noteq> 0 \<and> lo \<le> ewma_value p \<and> ewma_value p \<le> hi"

lemma ewma_count_update_pos:
  assumes "0 < unat q" "unat q < 2 ^ 56"
  shows "ewma_count (ewma_update p q) \<noteq> 0"
proof -
  have "unat (ewma_count (ewma_update p q)) \<noteq> 0"
    using ewma_update_packs(1) [OF assms, of p] by (auto simp: ewma_next_count)
  then show ?thesis by auto
qed

lemma ewma_update_within:
  assumes q: "0 < unat q" "unat q < 2 ^ 56" and b: "lo \<le> q" "q \<le> hi"
    and p: "ewma_count p = 0 \<or> ewma_within lo hi p"
  shows "ewma_within lo hi (ewma_update p q)"
proof -
  let ?v = "unat (ewma_value (ewma_update p q))"
  have v: "?v = max 1 (snd (ewma_next (unat (ewma_count p)) (unat (ewma_value p)) (unat q)))"
    by (rule ewma_update_packs(2) [OF q])
  have "unat lo \<le> ?v \<and> ?v \<le> unat hi"
  proof (cases "ewma_count p = 0")
    case True
    then show ?thesis using v b q by (simp add: ewma_next.simps word_le_nat_alt max_def)
  next
    case False
    then have c: "unat (ewma_count p) \<noteq> 0"
      by (simp add: unat_eq_0)
    show ?thesis
      using v ewma_next_bounds [OF c, of "unat (ewma_value p)" "unat q"] p b q False
      by (auto simp: ewma_within_def word_le_nat_alt max_def split: if_splits)
  qed
  then show ?thesis
    using ewma_count_update_pos [OF q] by (simp add: ewma_within_def word_le_nat_alt)
qed

lemma ewma_run_within:
  assumes "\<forall>q \<in> set qs. 0 < unat q \<and> unat q < 2 ^ 56 \<and> lo \<le> q \<and> q \<le> hi"
    and "ewma_within lo hi p"
  shows "ewma_within lo hi (ewma_run qs p)"
  using assms
proof (induction qs arbitrary: p)
  case (Cons q qs)
  then have "ewma_within lo hi (ewma_update p q)"
    by (intro ewma_update_within) auto
  with Cons show ?case by simp
qed simp

lemma ewma_run_fresh:
  assumes "\<forall>q \<in> set qs. 0 < unat q \<and> unat q < 2 ^ 56 \<and> lo \<le> q \<and> q \<le> hi" and "qs \<noteq> []"
  shows "ewma_within lo hi (ewma_run qs 0)"
  using assms
  by (cases qs) (auto intro!: ewma_run_within ewma_update_within simp: ewma_count_def)

section \<open>Policy arms\<close>

definition arm_round :: "u64 \<Rightarrow> arm_bank \<Rightarrow> arm_bank" where
  "arm_round wall_ns b = (let (arm, b1) = bank_choose b in bank_record arm wall_ns b1)"

definition arm_rounds :: "u64 list \<Rightarrow> arm_bank \<Rightarrow> arm_bank" where
  "arm_rounds ws b = fold arm_round ws b"

definition bank_warm :: "nat \<Rightarrow> arm_bank \<Rightarrow> bool" where
  "bank_warm n b \<longleftrightarrow>
     3 \<le> unat (ab_samples0 b) \<and> unat (ab_samples0 b) + n < 2 ^ 32
     \<and> 3 \<le> unat (ab_samples1 b) \<and> unat (ab_samples1 b) + n < 2 ^ 32"

definition arm_is_trial :: "arm_bank \<Rightarrow> bool" where
  "arm_is_trial b \<longleftrightarrow> fst (bank_choose b) \<noteq> better_arm b"

fun arm_trials :: "u64 list \<Rightarrow> arm_bank \<Rightarrow> nat" where
  "arm_trials [] b = 0"
| "arm_trials (w # ws) b = (if arm_is_trial b then 1 else 0) + arm_trials ws (arm_round w b)"

lemma other_arm_neq [simp]: "other_arm a \<noteq> a"
  by (cases a) auto

lemma arm_round_calls [simp]: "ab_calls (arm_round w b) = ab_calls b + 1"
  by (cases "fst (bank_choose b)")
    (auto simp: arm_round_def bank_choose_def Let_def split: prod.splits if_splits)

lemma bank_record_warm:
  assumes "bank_warm (Suc n) b"
  shows "bank_warm n (bank_record a w (b\<lparr>ab_calls := c\<rparr>))"
  using assms by (cases a) (auto simp: bank_warm_def unat_word_ariths)

lemma bank_choose_snd: "snd (bank_choose b) = b\<lparr>ab_calls := ab_calls b + 1\<rparr>"
  by (simp add: bank_choose_def Let_def)

lemma arm_round_warm: "bank_warm (Suc n) b \<Longrightarrow> bank_warm n (arm_round w b)"
  using bank_choose_snd [of b] bank_record_warm
  by (auto simp: arm_round_def split: prod.splits)

lemma arm_is_trial_warm:
  assumes "bank_warm n b"
  shows "arm_is_trial b \<longleftrightarrow> unat (ab_calls b) mod 16 = 15"
proof -
  have "\<not> ab_samples0 b < 3" and "\<not> ab_samples1 b < 3"
    using assms by (auto simp: bank_warm_def word_less_nat_alt)
  moreover have "ab_calls b mod 16 = 15 \<longleftrightarrow> unat (ab_calls b) mod 16 = 15"
    by (simp add: word_unat_eq_iff unat_mod)
  ultimately show ?thesis
    by (auto simp: arm_is_trial_def bank_choose_def Let_def ARM_MIN_SAMPLES_def
        ARM_TRIAL_CADENCE_def)
qed

fun trial_hits :: "nat \<Rightarrow> nat \<Rightarrow> nat" where
  "trial_hits 0 c = 0"
| "trial_hits (Suc n) c = (if c mod 16 = 15 then 1 else 0) + trial_hits n (Suc c)"

lemma trial_hits_mod: "trial_hits n (c mod 2 ^ 32) = trial_hits n c"
proof (induction n arbitrary: c)
  case (Suc n)
  have "trial_hits n (Suc (c mod 2 ^ 32)) = trial_hits n (Suc c)"
    using Suc.IH [of "Suc (c mod 2 ^ 32)"] Suc.IH [of "Suc c"] by (simp add: mod_Suc_eq)
  moreover have "c mod 2 ^ 32 mod 16 = c mod 16"
    by (rule mod_mod_cancel) simp
  ultimately show ?case by simp
qed simp

lemma arm_trials_hits:
  "bank_warm (length ws) b \<Longrightarrow> arm_trials ws b = trial_hits (length ws) (unat (ab_calls b))"
proof (induction ws arbitrary: b)
  case (Cons w ws)
  have "unat (ab_calls b + 1) = Suc (unat (ab_calls b)) mod 2 ^ 32"
    by (simp add: unat_word_ariths)
  then have "trial_hits (length ws) (unat (ab_calls b + 1)) = trial_hits (length ws) (Suc (unat (ab_calls b)))"
    using trial_hits_mod by simp
  then show ?case
    using Cons.IH [OF arm_round_warm] Cons.prems arm_is_trial_warm [OF Cons.prems] by simp
qed simp

lemma trial_hits_mod_16: "trial_hits n (c mod 16) = trial_hits n c"
proof (induction n arbitrary: c)
  case (Suc n)
  show ?case
    using Suc.IH [of "Suc (c mod 16)"] Suc.IH [of "Suc c"] by (simp add: mod_Suc_eq)
qed simp

lemma trial_hits_16_table: "list_all (\<lambda>r. trial_hits 16 r = 1) [0..<16]"
  by code_simp

lemma trial_hits_16: "trial_hits 16 c = 1"
proof -
  have "c mod 16 \<in> set [0..<16]" by simp
  then have "trial_hits 16 (c mod 16) = 1"
    using trial_hits_16_table unfolding list_all_iff by blast
  then show ?thesis by (simp only: trial_hits_mod_16)
qed


text \<open>Both arms of a fresh bank are measured three times each in its first six rounds.\<close>

lemma arm_rounds_explore:
  assumes "length ws = 6"
  shows "ab_samples0 (arm_rounds ws arm_bank_new) = 3 \<and> ab_samples1 (arm_rounds ws arm_bank_new) = 3"
proof -
  obtain a b c d e f where "ws = [a, b, c, d, e, f]"
    using assms by (auto simp: numeral_eq_Suc length_Suc_conv)
  then show ?thesis
    by (simp add: arm_rounds_def arm_round_def bank_choose_def arm_bank_new_def Let_def
        ARM_MIN_SAMPLES_def)
qed

section \<open>Size buckets\<close>

lemma bit_length_u32:
  assumes "0 < unat (w :: u32)"
  shows "bit_length (unat w) \<le> 32"
proof (rule ccontr)
  assume "\<not> ?thesis"
  then have "(2 :: nat) ^ 32 \<le> 2 ^ (bit_length (unat w) - 1)"
    by (intro power_increasing) auto
  with bit_length_pow [OF assms] unat_u32_lt [of w] show False by simp
qed

lemma site_bucket_bit_length:
  assumes "0 < unat batch"
  shows "site_bucket batch = bit_length (unat batch) - 1"
proof -
  have "max batch 1 = batch"
    using assms by (intro max.absorb1) (simp add: word_le_nat_alt)
  moreover have "unat (ucast batch :: u64) = unat batch"
    by (simp add: unat_widen)
  ultimately show ?thesis
    using bit_length_u32 [OF assms] bit_length_pow [OF assms]
    by (simp add: site_bucket_def leading_zeros64_def)
qed

lemma site_bucket_log:
  assumes "0 < unat batch"
  shows "2 ^ site_bucket batch \<le> unat batch" and "unat batch < 2 ^ Suc (site_bucket batch)"
  using bit_length_pow [OF assms] by (simp_all add: site_bucket_bit_length [OF assms])

lemma site_bucket_lt: "site_bucket batch < 40"
  by (simp add: site_bucket_def)

section \<open>Placement\<close>

lemma choose_placement_race:
  "fst (choose_placement batch s) = Place_Race \<longleftrightarrow>
     fst (placement_ewmas batch s) = 0 \<or> snd (placement_ewmas batch s) = 0
     \<or> cs_place_calls s ! site_bucket batch mod 32 = 31"
  by (auto simp: choose_placement_def placement_ewmas_def Let_def PLACEMENT_REPROBE_CADENCE_def)

lemma choose_placement_faster:
  assumes "fst (choose_placement batch s) \<noteq> Place_Race"
  shows "fst (choose_placement batch s) =
    (if fst (placement_ewmas batch s) \<le> snd (placement_ewmas batch s) then Place_Cpu
     else Place_Backend)"
  using assms
  by (auto simp: choose_placement_def placement_ewmas_def Let_def split: if_splits)

lemma ewma_cell_update_length [simp]: "length (ewma_cell_update b v xs) = length xs"
  by (simp add: ewma_cell_update_def split: option.splits)

lemma ewma_cell_update_nth:
  assumes "b < length xs"
  shows "ewma_cell_update b v xs ! i =
    (case v of Some x \<Rightarrow> if i = b then ewma_update (xs ! b) x else xs ! i | None \<Rightarrow> xs ! i)"
  using assms by (simp add: ewma_cell_update_def nth_list_update split: option.splits)

lemma record_placement_ewmas:
  assumes "site_wf s"
  shows "placement_ewmas batch (record_placement batch' c g s) =
    (if site_bucket batch = site_bucket batch'
     then (ewma_value (case c of Some x \<Rightarrow> ewma_update (cs_place_cpu_ns s ! site_bucket batch) x
                                | None \<Rightarrow> cs_place_cpu_ns s ! site_bucket batch),
           ewma_value (case g of Some x \<Rightarrow> ewma_update (cs_place_backend_ns s ! site_bucket batch) x
                                | None \<Rightarrow> cs_place_backend_ns s ! site_bucket batch))
     else placement_ewmas batch s)"
  using assms site_bucket_lt [of batch']
  by (auto simp: placement_ewmas_def record_placement_def Let_def site_wf_def
      ewma_cell_update_nth split: option.splits)


section \<open>Splits\<close>

lemma clamp_nat: "a \<le> b \<Longrightarrow> unat (clamp_word a b (x :: u64)) = max (unat a) (min (unat b) (unat x))"
  by (auto simp: clamp_word_def max_def min_def word_le_nat_alt word_less_nat_alt)

lemma unat_cpu_share:
  "unat (cpu_share_per_mille c g) =
     max 50 (min 950
       (min (unat g * 1000) (2 ^ 64 - 1) div max (min (unat c + unat g) (2 ^ 64 - 1)) 1))"
proof -
  let ?x = "sat_mul g 1000 div max (sat_add c g) 1"
  have small: "unat (clamp_word 50 950 ?x) < 2 ^ 32"
    by (simp add: clamp_nat)
  have nums: "unat (1000 :: u64) = 1000" "unat (50 :: u64) = 50" "unat (950 :: u64) = 950" by simp_all
  have sats: "unat (sat_mul g 1000) = min (unat g * 1000) (2 ^ 64 - 1)"
    "unat (sat_add c g) = min (unat c + unat g) (2 ^ 64 - 1)"
    using unat_sat_mul [of g 1000] unat_sat_add [of c g] by simp_all
  have mx: "unat (max (sat_add c g) 1) = max (unat (sat_add c g)) 1"
    by (auto simp: max_def word_le_nat_alt)
  have "unat (cpu_share_per_mille c g) = unat (clamp_word 50 950 ?x)"
    using small
    by (simp add: cpu_share_per_mille_def Let_def unsigned_ucast_eq unsigned_take_bit_eq
        take_bit_eq_mod)
  also have "\<dots> = max (unat (50 :: u64)) (min (unat (950 :: u64)) (unat ?x))"
    by (rule clamp_nat) simp
  also have "unat ?x = min (unat g * 1000) (2 ^ 64 - 1) div max (min (unat c + unat g) (2 ^ 64 - 1)) 1"
    by (simp only: unat_div mx sats)
  finally show ?thesis by (simp only: nums)
qed

lemma share_bounds: "50 \<le> unat (cpu_share_per_mille c g) \<and> unat (cpu_share_per_mille c g) \<le> 950"
  by (simp add: unat_cpu_share)

lemma share_exact:
  assumes "unat c < 2 ^ 54" and "unat g < 2 ^ 54" and "0 < unat g"
  shows "unat (cpu_share_per_mille c g) =
    max 50 (min 950 (unat g * 1000 div (unat c + unat g)))"
proof -
  have "max (min (unat c + unat g) (2 ^ 64 - 1)) 1 = unat c + unat g"
    and "min (unat g * 1000) (2 ^ 64 - 1) = unat g * 1000"
    using assms by simp_all
  then show ?thesis by (simp only: unat_cpu_share)
qed

text \<open>The half that is the faster per element gets at least half of the elements.\<close>

lemma share_favours:
  fixes c g :: nat
  assumes "0 < g"
  shows "c \<le> g \<Longrightarrow> 500 \<le> g * 1000 div (c + g)" and "g \<le> c \<Longrightarrow> g * 1000 div (c + g) \<le> 500"
proof -
  show "500 \<le> g * 1000 div (c + g)" if "c \<le> g"
    using that assms by (simp add: less_eq_div_iff_mult_less_eq)
  show "g * 1000 div (c + g) \<le> 500" if "g \<le> c"
  proof -
    have "g * 1000 \<le> 500 * (c + g)" using that by simp
    then have "g * 1000 div (c + g) \<le> 500 * (c + g) div (c + g)" by (rule div_le_mono)
    also have "\<dots> = 500" using assms by (intro nonzero_mult_div_cancel_right) simp
    finally show ?thesis .
  qed
qed

lemma share_faster_half:
  assumes "unat c < 2 ^ 54" and "unat g < 2 ^ 54" and "0 < unat g"
  shows "c \<le> g \<Longrightarrow> 500 \<le> unat (cpu_share_per_mille c g)"
    and "g \<le> c \<Longrightarrow> unat (cpu_share_per_mille c g) \<le> 500"
  using share_favours [OF assms(3), of "unat c"] share_exact [OF assms]
  by (auto simp: word_le_nat_alt)

section \<open>Batch weights\<close>

lemma site_decide_leaf_tick [simp]: "cs_leaf (site_tick t s) = cs_leaf s"
  by (simp add: site_tick_def Let_def split: option.splits prod.splits)

lemma record_batch_weighted_leaf:
  "cs_leaf (record_batch_weighted t ns sq cnt items sqi wt s) =
     (let w = min (case wt of Some w \<Rightarrow> w | None \<Rightarrow> FULL_WEIGHT) FULL_WEIGHT; l = cs_leaf s
      in l\<lparr>sc_sum_ns := sc_sum_ns l + sat_mul ns w,
           sc_sumsq_scaled := sc_sumsq_scaled l + sat_mul sq w,
           sc_items := sc_items l + sat_mul items w,
           sc_sumsq_per_item := sc_sumsq_per_item l + sat_mul sqi w,
           sc_weight_sum := sc_weight_sum l + sat_mul cnt w,
           sc_count := sc_count l + cnt\<rparr>)"
  by (simp add: record_batch_weighted_def Let_def)

lemma batch_weight_le: "batch_weight_per_mille on wall = Some w \<Longrightarrow> w \<le> FULL_WEIGHT"
  by (auto simp: batch_weight_per_mille_def Let_def split: if_splits)

lemma scaled_ratio:
  fixes a b w :: u64
  assumes "unat a * unat w < 2 ^ 64" and "unat b * unat w < 2 ^ 64" and "0 < unat w"
  shows "sat_mul a w div sat_mul b w = a div b"
  using assms by (simp add: word_unat_eq_iff unat_div unat_sat_mul min_def)

lemma weight_neutral:
  assumes "unat items * 1000 < 2 ^ 64" and "unat ns * 1000 < 2 ^ 64"
    and "0 < unat items" and "4 \<le> unat cnt" and "0 < unat w" and "w \<le> FULL_WEIGHT"
    and fresh: "cs_leaf s = site_counters_zero"
  shows "per_item_ns (record_batch_weighted t ns sq cnt items sqi (Some w) s) = Some (ns div items)"
proof -
  have w: "unat w \<le> 1000"
    using assms(6) by (simp add: word_le_nat_alt FULL_WEIGHT_def)
  have i: "unat items * unat w < 2 ^ 64" and m: "unat ns * unat w < 2 ^ 64"
    using assms(1,2) w le_less_trans [OF mult_le_mono2 [OF w]] by blast+
  have "unat (sat_mul items w) \<noteq> 0"
    using i assms(3,5) by (simp add: unat_sat_mul min_def)
  then have "sat_mul items w \<noteq> 0" by (metis unat_0)
  moreover have "\<not> cnt < 4" using assms(4) by (simp add: word_less_nat_alt)
  ultimately show ?thesis
    using scaled_ratio [OF m i assms(5)] assms(6)
    by (simp add: per_item_ns_def record_batch_weighted_leaf fresh site_counters_zero_def Let_def
        min_absorb1)
qed

end
