(* ===== verification/Site_Life.thy ===== *)
theory Site_Life
  imports Placement_Laws Site_Table
begin

text \<open>
  The life of one call site: every public operation that changes it is a step, and the
  shape of its banks and the order of its window ranges hold in every state it reaches.
\<close>

inductive site_step :: "call_site \<Rightarrow> call_site \<Rightarrow> bool" where
  Step_batch: "site_step s (record_batch_weighted t ns sq cnt items sqi weight s)"
| Step_site_only: "site_step s (record_batch_site_only t ns sq cnt items sqi s)"
| Step_oncore: "site_step s (record_oncore_batch items ns sq s)"
| Step_reset: "site_step s (site_reset s)"
| Step_seed_depth: "site_step s (record_seed_depth d s)"
| Step_ticks: "site_step s (add_pool_ticks thread wall s)"
| Step_occupancy: "site_step s (record_occupancy pct s)"
| Step_stabilize: "site_step s (snd (stabilize_seed_depth d s))"
| Step_collapsed: "site_step s (note_collapsed_body ns threshold s)"
| Step_choose_arm: "site_step s (snd (choose_arm allowed s))"
| Step_choose_routing: "site_step s (snd (choose_routing_arm s))"
| Step_arm: "site_step s (record_arm arm ns s)"
| Step_routing: "site_step s (record_routing_arm arm ns s)"
| Step_place: "site_step s (snd (choose_placement batch s))"
| Step_placed: "site_step s (record_placement batch cpu backend s)"
| Step_split: "site_step s (record_split ci cns bi bns s)"
| Step_split_for: "site_step s (record_split_for n ci cns bi bns s)"
| Step_reduce: "site_step s (record_reduce_cost_sample cycles s)"

lemmas site_operation_defs =
  record_batch_weighted_def record_batch_site_only_def record_oncore_batch_def
  record_seed_depth_def add_pool_ticks_def record_occupancy_def stabilize_seed_depth_def
  note_collapsed_body_def choose_arm_def choose_routing_arm_def record_arm_def
  record_routing_arm_def choose_placement_def record_placement_def record_split_def
  record_split_for_def record_reduce_cost_sample_def

definition site_ok :: "call_site \<Rightarrow> bool" where
  "site_ok s \<longleftrightarrow> site_wf s \<and> windows_ok s"

lemma site_ok_frame:
  assumes "site_ok s"
    and "length (cs_place_cpu_ns s') = length (cs_place_cpu_ns s)"
    and "length (cs_place_backend_ns s') = length (cs_place_backend_ns s)"
    and "length (cs_place_calls s') = length (cs_place_calls s)"
    and "length (cs_split_cpu_by_size s') = length (cs_split_cpu_by_size s)"
    and "length (cs_split_backend_by_size s') = length (cs_split_backend_by_size s)"
    and "cs_window s' = cs_window s" "cs_window_wall s' = cs_window_wall s"
    and "cs_window_oncore s' = cs_window_oncore s"
  shows "site_ok s'"
  using assms by (simp add: site_ok_def site_wf_def windows_ok_def)

lemma site_ok_new: "site_ok call_site_new"
  by (simp add: site_ok_def site_wf_def windows_ok_def spread_ok_def call_site_new_def
      spread_window_new_def)

lemma site_ok_tick: "site_ok s \<Longrightarrow> site_ok (site_tick t s)"
  by (simp add: site_ok_def site_tick_wf site_tick_windows_ok)

lemma site_ok_batch:
  assumes "site_ok s"
  shows "site_ok (record_batch_weighted t ns sq cnt items sqi weight s)"
proof -
  have leaf: "site_ok (s\<lparr>cs_leaf := l\<rparr>)" for l by (rule site_ok_frame [OF assms]) simp_all
  show ?thesis using leaf site_ok_tick by (simp add: record_batch_weighted_def Let_def)
qed

lemma site_ok_step:
  assumes "site_step s s'" and ok: "site_ok s"
  shows "site_ok s'"
  using assms(1)
proof cases
  case Step_reset
  with ok show ?thesis by (simp add: site_ok_def site_reset_new site_ok_new [unfolded site_ok_def])
next
  case Step_batch
  with ok site_ok_batch show ?thesis by blast
next
  case Step_site_only
  with ok site_ok_batch show ?thesis by (simp add: record_batch_site_only_def)
qed (rule site_ok_frame [OF ok];
    auto simp: site_operation_defs Let_def split: prod.splits option.splits)+

lemma site_ok_run: "site_step\<^sup>*\<^sup>* s s' \<Longrightarrow> site_ok s \<Longrightarrow> site_ok s'"
  by (induction rule: rtranclp_induct) (auto intro: site_ok_step)

end
