(* ===== verification/Observer_Laws.thy ===== *)
theory Observer_Laws
  imports Observer
begin

text \<open>
  Two facts of the observer as a whole: the split multiplier stays within its range under
  every sample, and the process-wide classifier is blind after a sample empties the leaf
  counters under its snapshot.
\<close>

section \<open>The split multiplier\<close>

lemma multiplier_for_window_cases:
  "multiplier_for_window pops steals cv2 current \<in> {current, 1, 2, 4}"
  by (simp add: multiplier_for_window_def Let_def split: option.splits)

definition multiplier_ok :: "observer \<Rightarrow> bool" where
  "multiplier_ok ob \<longleftrightarrow> 1 \<le> split_multiplier ob \<and> split_multiplier ob \<le> 8"

lemma multiplier_ok_sample:
  assumes "multiplier_ok ob"
  shows "multiplier_ok (observer_sample ws ob)"
proof -
  have "1 \<le> m \<and> m \<le> 8" if "m \<in> {ob_split_multiplier ob, 1, 2, 4}" for m :: u32
    using that assms by (auto simp: multiplier_ok_def split_multiplier_def)
  with multiplier_for_window_cases show ?thesis
    using assms by (auto simp: observer_sample_def sample_and_compute_def Let_def multiplier_ok_def
        split_multiplier_def reset_leaf_stats_def)
qed

lemma multiplier_ok_set: "multiplier_ok (set_split_multiplier v ob)"
  using clamp_word_bounds [of "1 :: u32" 8 v]
  by (simp add: multiplier_ok_def split_multiplier_def set_split_multiplier_def)

section \<open>The classifier after a sample\<close>

type_synonym leaf_batch = "u64 \<times> u64 \<times> u64 \<times> u64 \<times> u64"

fun record_leaf :: "leaf_batch \<Rightarrow> observer \<Rightarrow> observer" where
  "record_leaf (sum_ns, sumsq, cnt, items, sumsqi) ob =
     record_leaf_batch sum_ns sumsq cnt items sumsqi ob"

definition leaf_batches :: "leaf_batch list \<Rightarrow> observer \<Rightarrow> observer" where
  "leaf_batches bs ob = fold record_leaf bs ob"

definition leaves :: "leaf_batch list \<Rightarrow> nat" where
  "leaves bs = sum_list (map (\<lambda>(_, _, cnt, _, _). unat cnt) bs)"

lemma tick_blind:
  assumes "unat (ls_count (ob_leaf ob)) < unat (ls_count (ob_last ob)) + 4"
  shows "tick_auto_classify ob = ob"
proof -
  have "unat (sat_sub (ls_count (ob_leaf ob)) (ls_count (ob_last ob))) < 4"
    using assms by (simp add: unat_sat_sub)
  then have "sat_sub (ls_count (ob_leaf ob)) (ls_count (ob_last ob)) < 4"
    by (simp add: word_less_nat_alt)
  then show ?thesis by (simp add: tick_auto_classify_def snapshot_leaf_stats_def Let_def)
qed

lemma record_leaf_blind:
  assumes "unat (ls_count (ob_leaf ob)) + unat cnt < unat (ls_count (ob_last ob)) + 4"
    and "unat (ls_count (ob_leaf ob)) + unat cnt < 2 ^ 64"
  shows "\<exists>l. record_leaf (ns, sq, cnt, items, sqi) ob = ob\<lparr>ob_leaf := l\<rparr>
    \<and> unat (ls_count l) = unat (ls_count (ob_leaf ob)) + unat cnt"
proof -
  have sum: "unat (ls_count (ob_leaf ob) + cnt) = unat (ls_count (ob_leaf ob)) + unat cnt"
    using assms(2) by (simp add: unat_word_ariths)
  have "tick_auto_classify (ob\<lparr>ob_leaf := l\<rparr>) = ob\<lparr>ob_leaf := l\<rparr>"
    if "ls_count l = ls_count (ob_leaf ob) + cnt" for l
    using that assms(1) sum by (intro tick_blind) simp
  then show ?thesis
    by (auto simp: record_leaf_batch_def Let_def sum)
qed

lemma leaf_batches_blind:
  assumes "unat (ls_count (ob_leaf ob)) + leaves bs < unat (ls_count (ob_last ob)) + 4"
    and "unat (ls_count (ob_leaf ob)) + leaves bs < 2 ^ 64"
  shows "\<exists>l. leaf_batches bs ob = ob\<lparr>ob_leaf := l\<rparr>"
  using assms
proof (induction bs arbitrary: ob)
  case Nil
  have "leaf_batches [] ob = ob\<lparr>ob_leaf := ob_leaf ob\<rparr>" by (simp add: leaf_batches_def)
  then show ?case by blast
next
  case (Cons b bs)
  obtain ns sq cnt items sqi where b: "b = (ns, sq, cnt, items, sqi)" by (cases b) blast
  with Cons.prems obtain l where l: "record_leaf b ob = ob\<lparr>ob_leaf := l\<rparr>"
      "unat (ls_count l) = unat (ls_count (ob_leaf ob)) + unat cnt"
    using record_leaf_blind [of ob cnt ns sq items sqi] by (auto simp: leaves_def)
  with Cons.prems Cons.IH [of "ob\<lparr>ob_leaf := l\<rparr>"] b show ?case
    by (auto simp: leaf_batches_def leaves_def)
qed

end
