(* ===== verification/Backend_Registry.thy ===== *)
theory Backend_Registry
  imports Site_Registry
begin

text \<open>
  The dispatch targets (\<open>src/src/backend/mod.rs\<close>) and the process-wide backend registry
  (\<open>src/src/backend/registry.rs\<close>): an open-addressed table of sixty-four entries whose
  ids are written once and whose implementations are replaceable. An \<open>Arc\<close> of a backend
  is a record of what the trait object answers; \<open>br_instance\<close> tells allocations apart.
  \<open>key_of\<close> is the hash of an id. The panic of a full table is the value \<open>Inl\<close>.
\<close>

section \<open>Backends\<close>

datatype backend =
    Cpu
  | Cuda u32
  | Rocm u32
  | Metal u32
  | Tpu u32
  | Ane
  | Wasm u32
  | SharedMemoryWorker u32
  | Custom u32

fun backend_name :: "backend \<Rightarrow> string" where
  "backend_name Cpu = ''cpu''"
| "backend_name (Cuda d) = ''cuda''"
| "backend_name (Rocm d) = ''rocm''"
| "backend_name (Metal d) = ''metal''"
| "backend_name (Tpu d) = ''tpu''"
| "backend_name Ane = ''ane''"
| "backend_name (Wasm d) = ''wasm''"
| "backend_name (SharedMemoryWorker b) = ''shared-mem''"
| "backend_name (Custom n) = ''custom''"

fun is_simt :: "backend \<Rightarrow> bool" where
  "is_simt (Cuda d) = True"
| "is_simt (Rocm d) = True"
| "is_simt (Metal d) = True"
| "is_simt (Tpu d) = True"
| "is_simt b = False"

record backend_capabilities =
  simt_width :: u32
  max_threads_in_flight :: u32
  launch_latency_ns :: u32
  h2d_bw_bytes_per_sec :: u64

text \<open>\<open>threads\<close> is what \<open>available_parallelism\<close> answers, or 1.\<close>

definition cpu_defaults :: "usize \<Rightarrow> backend_capabilities" where
  "cpu_defaults threads =
     \<lparr>simt_width = 1, max_threads_in_flight = ucast threads, launch_latency_ns = 100,
      h2d_bw_bytes_per_sec = 0\<rparr>"

datatype backend_error =
    NotSupported
  | DeviceUnavailable backend
  | KernelCompile string
  | Launch string
  | Memory string

fun backend_error_display :: "backend_error \<Rightarrow> string" where
  "backend_error_display NotSupported = ''backend operation not supported''"
| "backend_error_display (DeviceUnavailable b) = ''backend device unavailable: '' @ backend_name b"
| "backend_error_display (KernelCompile msg) = ''kernel compile failed: '' @ msg"
| "backend_error_display (Launch msg) = ''kernel launch failed: '' @ msg"
| "backend_error_display (Memory msg) = ''backend memory error: '' @ msg"

record backend_ref =
  br_id :: backend
  br_caps :: backend_capabilities
  br_instance :: nat

definition cpu_backend_new :: "usize \<Rightarrow> backend_ref" where
  "cpu_backend_new threads = \<lparr>br_id = Cpu, br_caps = cpu_defaults threads, br_instance = 0\<rparr>"

section \<open>The registry\<close>

type_synonym backend_table = "(backend, backend_ref) table"

record backends_state =
  bs_table :: backend_table
  bs_cpu_ready :: bool

datatype registry_panic = Backend_table_full

definition BACKEND_SLOTS :: nat where "BACKEND_SLOTS = 64"

definition backends_state_new :: backends_state where
  "backends_state_new = \<lparr>bs_table = empty_table BACKEND_SLOTS, bs_cpu_ready = False\<rparr>"

fun find_loop :: "nat \<Rightarrow> backend_table \<Rightarrow> usize \<Rightarrow> backend \<Rightarrow> nat option" where
  "find_loop 0 tbl idx i = None"
| "find_loop (Suc n) tbl idx i =
     (case tbl ! unat idx of
        None \<Rightarrow> None
      | Some entry \<Rightarrow>
          if fst entry = i then Some (unat idx)
          else find_loop n tbl ((idx + 1) AND table_mask tbl) i)"

definition find_entry :: "(backend \<Rightarrow> u64) \<Rightarrow> backend_table \<Rightarrow> backend \<Rightarrow> nat option" where
  "find_entry key_of tbl i = find_loop (length tbl) tbl (key_of i AND table_mask tbl) i"

fun install_loop ::
  "nat \<Rightarrow> backend_table \<Rightarrow> usize \<Rightarrow> backend \<Rightarrow> backend_ref \<Rightarrow> registry_panic + backend_table" where
  "install_loop 0 tbl idx i fresh = Inl Backend_table_full"
| "install_loop (Suc n) tbl idx i fresh =
     (case tbl ! unat idx of
        None \<Rightarrow> Inr (tbl[unat idx := Some (i, fresh)])
      | Some other \<Rightarrow>
          if fst other = i then Inr (tbl[unat idx := Some (i, fresh)])
          else install_loop n tbl ((idx + 1) AND table_mask tbl) i fresh)"

definition install ::
  "(backend \<Rightarrow> u64) \<Rightarrow> backend_table \<Rightarrow> backend \<Rightarrow> backend_ref \<Rightarrow> registry_panic + backend_table" where
  "install key_of tbl i fresh =
     (case find_entry key_of tbl i of
        Some j \<Rightarrow> Inr (tbl[j := Some (i, fresh)])
      | None \<Rightarrow> install_loop (length tbl) tbl (key_of i AND table_mask tbl) i fresh)"

definition ensure_cpu ::
  "(backend \<Rightarrow> u64) \<Rightarrow> usize \<Rightarrow> backends_state \<Rightarrow> registry_panic + backends_state" where
  "ensure_cpu key_of threads s =
     (if bs_cpu_ready s then Inr s
      else case install key_of (bs_table s) Cpu (cpu_backend_new threads) of
             Inl p \<Rightarrow> Inl p
           | Inr tbl \<Rightarrow> Inr (s\<lparr>bs_table := tbl, bs_cpu_ready := True\<rparr>))"

definition register_backend ::
  "(backend \<Rightarrow> u64) \<Rightarrow> usize \<Rightarrow> backend_ref \<Rightarrow> backends_state \<Rightarrow> registry_panic + backends_state" where
  "register_backend key_of threads b s =
     (case ensure_cpu key_of threads s of
        Inl p \<Rightarrow> Inl p
      | Inr s1 \<Rightarrow>
          (case install key_of (bs_table s1) (br_id b) b of
             Inl p \<Rightarrow> Inl p
           | Inr tbl \<Rightarrow> Inr (s1\<lparr>bs_table := tbl\<rparr>)))"

definition backend_by_id ::
  "(backend \<Rightarrow> u64) \<Rightarrow> usize \<Rightarrow> backend \<Rightarrow> backends_state
    \<Rightarrow> registry_panic + (backend_ref option \<times> backends_state)" where
  "backend_by_id key_of threads i s =
     (case ensure_cpu key_of threads s of
        Inl p \<Rightarrow> Inl p
      | Inr s1 \<Rightarrow>
          Inr (case find_entry key_of (bs_table s1) i of
                 None \<Rightarrow> None
               | Some j \<Rightarrow> map_option snd (bs_table s1 ! j), s1))"

definition backends ::
  "(backend \<Rightarrow> u64) \<Rightarrow> usize \<Rightarrow> backends_state \<Rightarrow> registry_panic + (backend_ref list \<times> backends_state)" where
  "backends key_of threads s =
     (case ensure_cpu key_of threads s of
        Inl p \<Rightarrow> Inl p
      | Inr s1 \<Rightarrow> Inr (map snd (table_nodes (bs_table s1)), s1))"

text \<open>\<open>cpu_backend\<close>: the inner \<open>None\<close> is the panic of \<open>expect\<close>.\<close>

definition cpu_backend ::
  "(backend \<Rightarrow> u64) \<Rightarrow> usize \<Rightarrow> backends_state
    \<Rightarrow> registry_panic + (backend_ref option \<times> backends_state)" where
  "cpu_backend key_of threads s = backend_by_id key_of threads Cpu s"

section \<open>The table as a map\<close>

lemma find_loop_lookup:
  "lookup_loop n tbl idx i = Some e \<Longrightarrow>
   \<exists>j. find_loop n tbl idx i = Some j \<and> tbl ! j = Some e"
  "lookup_loop n tbl idx i = None \<Longrightarrow> find_loop n tbl idx i = None"
  by (induction n arbitrary: idx) (auto split: option.splits if_splits)

lemma find_loop_index:
  assumes pow: "pow2_table tbl"
  shows "unat idx < length tbl \<Longrightarrow> find_loop n tbl idx i = Some j \<Longrightarrow> j < length tbl"
proof (induction n arbitrary: idx)
  case (Suc n)
  have "unat ((idx + 1) AND table_mask tbl) < length tbl"
    using pow2_table_pos [OF pow] by (simp add: unat_next_index [OF pow Suc.prems(1)])
  with Suc show ?case by (auto split: option.splits if_splits)
qed simp

lemma install_loop_insert:
  "lookup_loop n tbl idx i = None \<Longrightarrow>
   install_loop n tbl idx i b =
     (case insert_loop n tbl idx i b of (Some v, tbl') \<Rightarrow> Inr tbl' | (None, tbl') \<Rightarrow> Inl Backend_table_full)"
  by (induction n arbitrary: idx) (auto split: option.splits if_splits)

lemma find_entry_cases:
  assumes "pow2_table tbl"
  obtains (found) j b where "find_entry key_of tbl i = Some j" "j < length tbl"
      "tbl ! j = Some (i, b)" "table_lookup tbl (key_of i) i = Some (i, b)"
    | (absent) "find_entry key_of tbl i = None" "table_lookup tbl (key_of i) i = None"
proof (cases "table_lookup tbl (key_of i) i")
  case None
  with that(2) find_loop_lookup(2) show thesis by (simp add: table_lookup_def find_entry_def)
next
  case (Some e)
  then have "fst e = i" by (auto simp: table_lookup_hits [OF assms])
  with Some find_loop_lookup(1) find_loop_index [OF assms masked_start(1) [OF assms]] that(1)
  show thesis
    unfolding table_lookup_def find_entry_def by (metis prod.collapse)
qed

lemma table_ok_replace:
  assumes ok: "table_ok st tbl" and j: "j < length tbl" "tbl ! j = Some (i, b)"
  shows "table_ok st (tbl[j := Some (i, b')])"
proof -
  have path: "clear_path (tbl[j := Some (i, b')]) s k d = clear_path tbl s k d" for s k d
    using j by (auto simp: clear_path_def nth_list_update)
  show ?thesis
    unfolding table_ok_def
  proof (intro conjI allI impI)
    show "pow2_table (tbl[j := Some (i, b')])" using ok by (simp add: table_ok_def)
  next
    fix m node
    assume m: "m < length (tbl[j := Some (i, b')])" "tbl[j := Some (i, b')] ! m = Some node"
    then obtain b'' where "tbl ! m = Some (fst node, b'')"
      using j by (cases "m = j") (auto simp: prod_eq_iff)
    with m ok show "\<exists>d < length (tbl[j := Some (i, b')]).
        m = (unat (st (fst node)) + d) mod length (tbl[j := Some (i, b')])
        \<and> clear_path (tbl[j := Some (i, b')]) (unat (st (fst node))) (fst node) d"
      unfolding path length_list_update table_ok_def by fastforce
  qed
qed


text \<open>
  A store whose entries are replaceable: an update that succeeds binds its key and leaves
  every other key alone, and a known key can always be updated.
\<close>

locale upsert_store =
  fixes lookup :: "'s \<Rightarrow> 'k \<Rightarrow> 'v option"
    and upsert :: "'s \<Rightarrow> 'k \<Rightarrow> 'v \<Rightarrow> 'e + 's"
    and invar :: "'s \<Rightarrow> bool"
  assumes upsert_ok: "invar s \<Longrightarrow> upsert s k v = Inr s' \<Longrightarrow> invar s' \<and> lookup s' = (lookup s)(k \<mapsto> v)"
    and upsert_known: "invar s \<Longrightarrow> lookup s k \<noteq> None \<Longrightarrow> \<exists>s'. upsert s k v = Inr s'"
begin

fun upserts :: "'s \<Rightarrow> ('k \<times> 'v) list \<Rightarrow> 'e + 's" where
  "upserts s [] = Inr s"
| "upserts s ((k, v) # kvs) = (case upsert s k v of Inl e \<Rightarrow> Inl e | Inr s' \<Rightarrow> upserts s' kvs)"

lemma upserts_lookup:
  assumes "invar s" and "upserts s kvs = Inr s'"
  shows "invar s' \<and> lookup s' = lookup s ++ map_of (rev kvs)"
  using assms
proof (induction kvs arbitrary: s)
  case (Cons kv kvs)
  obtain k v where kv: "kv = (k, v)" by (cases kv)
  with Cons.prems obtain s1 where s1: "upsert s k v = Inr s1" "upserts s1 kvs = Inr s'"
    by (auto split: sum.splits)
  with upsert_ok [OF Cons.prems(1)] have "invar s1" "lookup s1 = (lookup s)(k \<mapsto> v)" by blast+
  with Cons.IH [OF _ s1(2)] show ?case by (simp add: kv map_add_def fun_eq_iff split: option.splits)
qed simp

lemma upserts_known:
  assumes "invar s" and "fst ` set kvs \<subseteq> dom (lookup s)"
  shows "\<exists>s'. upserts s kvs = Inr s'"
  using assms
proof (induction kvs arbitrary: s)
  case (Cons kv kvs)
  obtain k v where kv: "kv = (k, v)" by (cases kv)
  with Cons.prems upsert_known obtain s1 where s1: "upsert s k v = Inr s1" by fastforce
  have "invar s1" "lookup s1 = (lookup s)(k \<mapsto> v)"
    using upsert_ok [OF Cons.prems(1) s1] by blast+
  then have "\<exists>s'. upserts s1 kvs = Inr s'"
    using Cons.prems(2) by (intro Cons.IH) auto
  then show ?case by (simp add: kv s1)
qed simp

end

definition installed :: "('k \<Rightarrow> usize) \<Rightarrow> ('k, 'v) table \<Rightarrow> 'k \<Rightarrow> 'v option" where
  "installed st tbl k = lookup_value st tbl k"

lemma installed_iff: "table_ok st tbl \<Longrightarrow> installed st tbl k = Some v \<longleftrightarrow> table_has tbl (k, v)"
  unfolding installed_def by (rule lookup_value_iff)

lemma installed_table: "table_lookup tbl (st k) k = None \<longleftrightarrow> installed st tbl k = None"
  by (simp add: installed_def)

lemma installed_replace:
  assumes ok: "table_ok st tbl" and j: "j < length tbl" "tbl ! j = Some (i, b)"
  shows "installed st (tbl[j := Some (i, b')]) = (installed st tbl)(i \<mapsto> b')"
proof
  fix k
  have one: "m = j" if m: "m < length tbl" "tbl ! m = Some (i, c)" for m c
  proof -
    obtain d where d: "j = (unat (st i) + d) mod length tbl" "clear_path tbl (unat (st i)) i d"
      using ok j unfolding table_ok_def by fastforce
    obtain e where e: "m = (unat (st i) + e) mod length tbl" "clear_path tbl (unat (st i)) i e"
      using ok m unfolding table_ok_def by fastforce
    have apart: "\<not> a < a'"
      if "clear_path tbl (unat (st i)) i a'" "tbl ! ((unat (st i) + a) mod length tbl) = Some (i, x)" for a a' x
      using that by (auto simp: clear_path_def)
    have "\<not> e < d" using apart [OF d(2)] e(1) m(2) by metis
    moreover have "\<not> d < e" using apart [OF e(2)] d(1) j(2) by metis
    ultimately show ?thesis using d(1) e(1) by simp
  qed
  have "table_has (tbl[j := Some (i, b')]) (k, v) \<longleftrightarrow>
      (if k = i then v = b' else table_has tbl (k, v))" for v
  proof (cases "k = i")
    case True
    have "m < length tbl \<Longrightarrow> tbl[j := Some (i, b')] ! m = Some (i, v) \<longleftrightarrow> m = j \<and> v = b'" for m
      using j(1) one [of m v] by (metis nth_list_update_eq nth_list_update_neq option.inject prod.inject)
    with True j(1) show ?thesis by (auto simp: table_has_def)
  next
    case False
    then have "tbl[j := Some (i, b')] ! m = Some (k, v) \<longleftrightarrow> tbl ! m = Some (k, v)" for m
      using j by (cases "m = j") simp_all
    with False show ?thesis by (simp add: table_has_def)
  qed
  then have "installed st (tbl[j := Some (i, b')]) k = Some v \<longleftrightarrow>
      ((installed st tbl)(i \<mapsto> b')) k = Some v" for v
    using installed_iff [OF table_ok_replace [OF ok j], of b' k v] installed_iff [OF ok, of k v]
    by auto
  then show "installed st (tbl[j := Some (i, b')]) k = ((installed st tbl)(i \<mapsto> b')) k"
    by (metis not_Some_eq)
qed

lemma install_new_eq:
  assumes "pow2_table tbl" and "table_lookup tbl (key_of i) i = None"
  shows "install key_of tbl i b =
    (case table_insert tbl (key_of i) i b of (Some v, tbl') \<Rightarrow> Inr tbl' | (None, tbl') \<Rightarrow> Inl Backend_table_full)"
  using assms(1)
proof (cases rule: find_entry_cases [where key_of = key_of and i = i])
  case (found j c)
  with assms(2) show ?thesis by simp
next
  case absent
  then show ?thesis
    unfolding install_def table_insert_def by (simp add: install_loop_insert table_lookup_def)
qed

interpretation installs: upsert_store "installed key_of" "install key_of" "table_ok key_of"
proof unfold_locales
  fix s s' :: backend_table and i b
  assume ok: "table_ok key_of s" and ins: "install key_of s i b = Inr s'"
  have pow: "pow2_table s" using ok by blast
  show "table_ok key_of s' \<and> installed key_of s' = (installed key_of s)(i \<mapsto> b)"
    using pow
  proof (cases rule: find_entry_cases [where key_of = key_of and i = i])
    case (found j c)
    with ins have "s' = s[j := Some (i, b)]" by (simp add: install_def)
    with table_ok_replace [OF ok found(2,3)] installed_replace [OF ok found(2,3)]
    show ?thesis by simp
  next
    case absent
    then obtain v where v: "table_insert s (key_of i) i b = (Some v, s')"
      using ins by (auto simp: install_new_eq [OF pow] split: prod.splits option.splits)
    have "lookup_value key_of s i = None" using absent by simp
    from tables.insert_new [OF ok this v] tables.insert_invar [OF ok, of i b] v
    show ?thesis by (simp add: installed_def [abs_def])
  qed
next
  fix s :: backend_table and i b
  assume ok: "table_ok key_of s" and known: "installed key_of s i \<noteq> None"
  have "pow2_table s" using ok by blast
  then show "\<exists>s'. install key_of s i b = Inr s'"
  proof (cases rule: find_entry_cases [where key_of = key_of and i = i])
    case (found j c)
    then show ?thesis by (simp add: install_def)
  next
    case absent
    with known show ?thesis by (simp add: installed_def)
  qed
qed

lemma install_full:
  assumes ok: "table_ok key_of tbl"
  shows "install key_of tbl i b = Inl p \<longleftrightarrow>
    installed key_of tbl i = None \<and> (\<forall>j < length tbl. tbl ! j \<noteq> None)"
proof (cases "table_lookup tbl (key_of i) i")
  case None
  have pow: "pow2_table tbl" using ok by blast
  show ?thesis
    using ok
  proof (cases rule: insert_outcome [where k = i and b = b])
    case (hit v)
    then show ?thesis using None table_lookup_iff [OF ok, of i "(i, v)"] by simp
  next
    case (new tbl')
    then show ?thesis using None by (auto simp: install_new_eq [where key_of = key_of and i = i, OF pow None])
  next
    case full
    then show ?thesis
      using None by (cases p) (simp add: install_new_eq [where key_of = key_of and i = i, OF pow None] installed_def)
  qed
next
  case (Some e)
  then have "installed key_of tbl i \<noteq> None" by (simp add: installed_def)
  with installs.upsert_known [OF ok this, of b] show ?thesis by auto
qed

section \<open>The registry as a map\<close>

definition backends_ok :: "(backend \<Rightarrow> u64) \<Rightarrow> backends_state \<Rightarrow> bool" where
  "backends_ok key_of s \<longleftrightarrow> table_ok key_of (bs_table s) \<and> length (bs_table s) = BACKEND_SLOTS
     \<and> (if bs_cpu_ready s then installed key_of (bs_table s) Cpu \<noteq> None
        else bs_table s = empty_table BACKEND_SLOTS)
     \<and> (\<forall>i b. installed key_of (bs_table s) i = Some b \<longrightarrow> br_id b = i)"

lemma backends_ok_new: "backends_ok key_of backends_state_new"
proof -
  let ?e = "empty_table BACKEND_SLOTS :: backend_table"
  have ok: "table_ok key_of ?e"
    using table_ok_empty [of 6 key_of] by (simp add: BACKEND_SLOTS_def)
  then have "installed key_of ?e i \<noteq> Some b" for i b
    unfolding installed_iff [OF ok] by simp
  then have "installed key_of ?e i = None" for i
    by (metis not_Some_eq)
  moreover have "length ?e = BACKEND_SLOTS"
    by (simp add: empty_table_def)
  ultimately show ?thesis
    using ok by (simp only: backends_ok_def backends_state_new_def backends_state.select_convs
        if_False option.distinct simp_thms)
qed

lemma install_length: "install key_of tbl i b = Inr tbl' \<Longrightarrow> length tbl' = length tbl"
proof -
  have "install_loop n tbl idx i b = Inr tbl' \<Longrightarrow> length tbl' = length tbl" for n idx
    by (induction n arbitrary: idx) (auto split: option.splits if_splits)
  then show "install key_of tbl i b = Inr tbl' \<Longrightarrow> length tbl' = length tbl"
    by (auto simp: install_def split: option.splits)
qed

lemma ensure_cpu_ok:
  assumes ok: "backends_ok key_of s"
  obtains s1 where "ensure_cpu key_of threads s = Inr s1" "backends_ok key_of s1" "bs_cpu_ready s1"
    "installed key_of (bs_table s1) = (if bs_cpu_ready s then installed key_of (bs_table s)
       else (installed key_of (bs_table s))(Cpu \<mapsto> cpu_backend_new threads))"
proof (cases "bs_cpu_ready s")
  case True
  with ok that show thesis by (simp add: ensure_cpu_def)
next
  case False
  have tbl: "table_ok key_of (bs_table s)" "bs_table s = empty_table BACKEND_SLOTS"
    using ok False unfolding backends_ok_def by (blast, argo)
  have "bs_table s ! 0 = None" "0 < length (bs_table s)"
    by (simp_all add: tbl(2) empty_table_def BACKEND_SLOTS_def)
  then have "install key_of (bs_table s) Cpu (cpu_backend_new threads) \<noteq> Inl p" for p
    using install_full [OF tbl(1)] by blast
  then obtain t where t: "install key_of (bs_table s) Cpu (cpu_backend_new threads) = Inr t"
    by (cases "install key_of (bs_table s) Cpu (cpu_backend_new threads)") auto
  note up = installs.upsert_ok [OF tbl(1) t]
  have "backends_ok key_of (s\<lparr>bs_table := t, bs_cpu_ready := True\<rparr>)"
    using ok up install_length [OF t]
    by (auto simp: backends_ok_def cpu_backend_new_def split: if_splits)
  then show thesis
    using that [of "s\<lparr>bs_table := t, bs_cpu_ready := True\<rparr>"] False t up
    by (simp add: ensure_cpu_def)
qed

definition registered :: "(backend \<Rightarrow> u64) \<Rightarrow> usize \<Rightarrow> backends_state \<Rightarrow> backend \<Rightarrow> backend_ref option" where
  "registered key_of threads s i =
     (case backend_by_id key_of threads i s of Inl p \<Rightarrow> None | Inr (b, s') \<Rightarrow> b)"

lemma backend_by_id_eq:
  assumes ok: "backends_ok key_of s" and e: "ensure_cpu key_of threads s = Inr s1"
  shows "backend_by_id key_of threads i s = Inr (installed key_of (bs_table s1) i, s1)"
proof -
  have "table_ok key_of (bs_table s1)"
    using ensure_cpu_ok [OF ok, of threads] e unfolding backends_ok_def by (metis sum.inject(2))
  then have "pow2_table (bs_table s1)" by blast
  then show ?thesis
    by (cases rule: find_entry_cases [where key_of = key_of and i = i])
      (simp_all add: backend_by_id_def e installed_def)
qed

lemma registered_eq:
  assumes "backends_ok key_of s"
  shows "registered key_of threads s =
    (if bs_cpu_ready s then installed key_of (bs_table s)
     else (installed key_of (bs_table s))(Cpu \<mapsto> cpu_backend_new threads))"
proof -
  obtain s1 where s1: "ensure_cpu key_of threads s = Inr s1"
    "installed key_of (bs_table s1) = (if bs_cpu_ready s then installed key_of (bs_table s)
       else (installed key_of (bs_table s))(Cpu \<mapsto> cpu_backend_new threads))"
    using ensure_cpu_ok [OF assms, of threads] .
  show ?thesis
    unfolding s1(2) [symmetric]
    by (simp add: fun_eq_iff registered_def backend_by_id_eq [OF assms s1(1)])
qed

lemma register_backend_ok:
  assumes ok: "backends_ok key_of s" and reg: "register_backend key_of threads b s = Inr s'"
  shows "backends_ok key_of s'"
    and "registered key_of threads s' = (registered key_of threads s)(br_id b \<mapsto> b)"
proof -
  obtain s1 where s1: "ensure_cpu key_of threads s = Inr s1" "backends_ok key_of s1"
    "bs_cpu_ready s1" "installed key_of (bs_table s1) = registered key_of threads s"
    using ensure_cpu_ok [OF ok, of threads] unfolding registered_eq [OF ok] .
  then obtain t where t: "install key_of (bs_table s1) (br_id b) b = Inr t"
    "s' = s1\<lparr>bs_table := t\<rparr>"
    using reg by (auto simp: register_backend_def split: sum.splits)
  have tok: "table_ok key_of (bs_table s1)" using s1(2) by (simp add: backends_ok_def)
  note up = installs.upsert_ok [OF tok t(1)]
  show ok': "backends_ok key_of s'"
    using s1(2,3) up install_length [OF t(1)] by (auto simp: backends_ok_def t(2))
  show "registered key_of threads s' = (registered key_of threads s)(br_id b \<mapsto> b)"
  proof -
    have "bs_cpu_ready s'" "bs_table s' = t" using s1(3) by (simp_all add: t(2))
    then have "registered key_of threads s' = installed key_of t"
      using registered_eq [OF ok'] by simp
    also have "\<dots> = (registered key_of threads s)(br_id b \<mapsto> b)" using up s1(4) by simp
    finally show ?thesis .
  qed
qed

lemma cpu_backend_present:
  assumes "backends_ok key_of s"
  shows "\<exists>b s'. cpu_backend key_of threads s = Inr (Some b, s') \<and> br_id b = Cpu"
proof -
  obtain s1 where s1: "ensure_cpu key_of threads s = Inr s1" "backends_ok key_of s1" "bs_cpu_ready s1"
    using ensure_cpu_ok [OF assms, of threads] .
  then obtain b where "installed key_of (bs_table s1) Cpu = Some b" "br_id b = Cpu"
    unfolding backends_ok_def by (metis not_Some_eq)
  then show ?thesis
    by (simp add: cpu_backend_def backend_by_id_eq [OF assms s1(1)])
qed

end
