(* ===== verification/Plan.thy ===== *)
theory Plan
  imports Routing Backend_Registry
begin

text \<open>
  The job plan of \<open>src/src/sched/plan.rs\<close>: the record every dispatch carries, its
  constructors and builders, the values it derives, and the tier it picks. What the source
  reads from process-wide atomics (class thresholds, the two routing bytes, the leaf
  observer, the learned call sites) is the record \<open>host_env\<close>; a \<open>SiteRef\<close> is an index
  into its sites.
\<close>

section \<open>The environment a plan reads\<close>

record host_env =
  he_thresholds :: class_thresholds
  he_vendor :: vendor
  he_variant_tag :: u8
  he_coop_tag :: u8
  he_observer :: observer
  he_smt_from_window :: bool
  he_smt_decisions :: "u64 \<times> u64"
  he_collapse_threshold_ns :: u64
  he_num_nodes :: usize
  he_sites :: "call_site list"

text \<open>
  \<open>HOST_COLLAPSE_THRESHOLD_NS\<close> is zero until the host is measured; \<open>measured\<close> is what
  the measurement that \<open>inline_collapse_threshold_ns\<close> forces would store.
\<close>

definition measured_collapse_threshold_ns :: "host_env \<Rightarrow> u64 option" where
  "measured_collapse_threshold_ns e =
     (if he_collapse_threshold_ns e = 0 then None else Some (he_collapse_threshold_ns e))"

definition is_multi_node :: "host_env \<Rightarrow> bool" where
  "is_multi_node e \<longleftrightarrow> 2 \<le> he_num_nodes e"

section \<open>The plan\<close>

record job_plan =
  jp_k_outer :: u8
  jp_batch_size :: u32
  jp_hw_class :: hw_class
  jp_variant :: variant
  jp_numa_hint :: "u32 option"
  jp_use_smt :: bool
  jp_estimated_per_item_ns :: "u32 option"
  jp_estimated_per_item_ns_explicit :: bool
  jp_task_overhead_ns :: "u32 option"
  jp_task_span_ns :: "u32 option"
  jp_effective_task_count :: "u32 option"
  jp_k_inner_log2 :: "u8 option"
  jp_backend_hint :: "backend option"
  jp_oversubscription_log2 :: "u8 option"
  jp_oversubscription_log2_explicit :: bool
  jp_spin_before_yield_ns :: "u64 option"
  jp_worker_cap :: "u32 option"
  jp_bisect_variant :: "bisect_variant option"
  jp_use_mailbox_routing :: bool
  jp_leaf_shape :: leaf_shape
  jp_deque_tier_hint :: "deque_tier option"
  jp_cooperative_routing :: cooperative_routing
  jp_site :: "site_ref option"
  jp_profile_explicit :: bool

definition plan_bare :: "u8 \<Rightarrow> u32 \<Rightarrow> job_plan" where
  "plan_bare k_outer batch_size =
     \<lparr>jp_k_outer = k_outer, jp_batch_size = batch_size, jp_hw_class = Scalar,
      jp_variant = Faithful, jp_numa_hint = None, jp_use_smt = False,
      jp_estimated_per_item_ns = None, jp_estimated_per_item_ns_explicit = False,
      jp_task_overhead_ns = None, jp_task_span_ns = None, jp_effective_task_count = None,
      jp_k_inner_log2 = None, jp_backend_hint = None, jp_oversubscription_log2 = None,
      jp_oversubscription_log2_explicit = False, jp_spin_before_yield_ns = None,
      jp_worker_cap = None, jp_bisect_variant = None, jp_use_mailbox_routing = False,
      jp_leaf_shape = Unknown_shape, jp_deque_tier_hint = None,
      jp_cooperative_routing = Coop_Auto, jp_site = None, jp_profile_explicit = False\<rparr>"

text \<open>\<open>Inl ()\<close> is the \<open>unreachable!\<close> of the variant table.\<close>

definition set_profile_with ::
  "host_env \<Rightarrow> u8 \<Rightarrow> u32 \<Rightarrow> dispatch_profile \<Rightarrow> bool \<Rightarrow> unit + job_plan" where
  "set_profile_with e k_outer batch_size profile explicit =
     (case pick_variant_for_profile (he_vendor e) (he_variant_tag e) profile batch_size of
        Inl p \<Rightarrow> Inl p
      | Inr bv \<Rightarrow>
          Inr \<lparr>jp_k_outer = k_outer, jp_batch_size = batch_size, jp_hw_class = Scalar,
            jp_variant = Faithful, jp_numa_hint = None, jp_use_smt = is_latency_bound profile,
            jp_estimated_per_item_ns = default_ns_per_elem profile,
            jp_estimated_per_item_ns_explicit = False,
            jp_task_overhead_ns = None, jp_task_span_ns = None, jp_effective_task_count = None,
            jp_k_inner_log2 = None, jp_backend_hint = None,
            jp_oversubscription_log2 = Some (default_oversubscription_log2 profile),
            jp_oversubscription_log2_explicit = False, jp_spin_before_yield_ns = None,
            jp_worker_cap = None, jp_bisect_variant = bv,
            jp_use_mailbox_routing = profile_use_mailbox_routing profile,
            jp_leaf_shape = Unknown_shape, jp_deque_tier_hint = profile_deque_tier_hint profile,
            jp_cooperative_routing = active_cooperative_routing (he_coop_tag e),
            jp_site = None, jp_profile_explicit = explicit\<rparr>)"

definition set_profile :: "host_env \<Rightarrow> u8 \<Rightarrow> u32 \<Rightarrow> dispatch_profile \<Rightarrow> unit + job_plan" where
  "set_profile e k_outer batch_size profile = set_profile_with e k_outer batch_size profile True"

definition plan_new :: "host_env \<Rightarrow> u8 \<Rightarrow> u32 \<Rightarrow> unit + job_plan" where
  "plan_new e k_outer batch_size =
     (let class = infer_class_static (he_thresholds e) k_outer batch_size None
      in case set_profile_with e k_outer batch_size (to_dispatch_profile class) False of
           Inl p \<Rightarrow> Inl p
         | Inr plan \<Rightarrow> Inr (plan\<lparr>jp_leaf_shape := Unknown_shape\<rparr>))"

text \<open>\<open>latency_bound\<close> is what the caller's \<open>OpClass\<close> answers.\<close>

definition for_op_generic :: "host_env \<Rightarrow> u8 \<Rightarrow> u32 \<Rightarrow> bool \<Rightarrow> job_plan" where
  "for_op_generic e k_outer batch_size latency_bound =
     (plan_bare k_outer batch_size)
       \<lparr>jp_use_smt := latency_bound,
        jp_cooperative_routing := active_cooperative_routing (he_coop_tag e),
        jp_profile_explicit := True\<rparr>"

section \<open>Builders\<close>

definition with_deque_tier_hint :: "deque_tier \<Rightarrow> job_plan \<Rightarrow> job_plan" where
  "with_deque_tier_hint tier p = p\<lparr>jp_deque_tier_hint := Some tier\<rparr>"

definition with_mailbox_routing :: "bool \<Rightarrow> job_plan \<Rightarrow> job_plan" where
  "with_mailbox_routing enable p = p\<lparr>jp_use_mailbox_routing := enable\<rparr>"

definition with_cooperative_routing :: "cooperative_routing \<Rightarrow> job_plan \<Rightarrow> job_plan" where
  "with_cooperative_routing routing p = p\<lparr>jp_cooperative_routing := routing\<rparr>"

definition with_workload_shape :: "workload_shape \<Rightarrow> job_plan \<Rightarrow> job_plan" where
  "with_workload_shape shape p =
     (let h = shape_hints shape;
          p1 = p\<lparr>jp_use_mailbox_routing := hint_use_mailbox_routing h\<rparr>
      in case hint_oversubscription_log2 h of
           Some over \<Rightarrow>
             p1\<lparr>jp_oversubscription_log2 := Some over, jp_oversubscription_log2_explicit := True\<rparr>
         | None \<Rightarrow> p1)"

text \<open>The four fields every re-derivation of a profile writes.\<close>

definition apply_profile :: "dispatch_profile \<Rightarrow> job_plan \<Rightarrow> job_plan" where
  "apply_profile profile p =
     p\<lparr>jp_use_smt := is_latency_bound profile,
       jp_oversubscription_log2 := Some (default_oversubscription_log2 profile),
       jp_use_mailbox_routing := profile_use_mailbox_routing profile,
       jp_deque_tier_hint := profile_deque_tier_hint profile\<rparr>"

definition with_leaf_shape :: "host_env \<Rightarrow> leaf_shape \<Rightarrow> job_plan \<Rightarrow> job_plan" where
  "with_leaf_shape e shape p =
     (let p1 = p\<lparr>jp_leaf_shape := shape\<rparr>;
          caller_estimate = (if jp_estimated_per_item_ns_explicit p1
                             then jp_estimated_per_item_ns p1 else None);
          class = infer_class_static_with_shape (he_thresholds e) (jp_k_outer p1)
                    (jp_batch_size p1) caller_estimate shape;
          profile = to_dispatch_profile class;
          p2 = apply_profile profile p1
      in if jp_estimated_per_item_ns p2 = None
         then p2\<lparr>jp_estimated_per_item_ns := default_ns_per_elem profile\<rparr> else p2)"

definition with_site :: "site_ref \<Rightarrow> job_plan \<Rightarrow> job_plan" where
  "with_site site p = p\<lparr>jp_site := Some site\<rparr>"

definition with_site_if_none :: "site_ref \<Rightarrow> job_plan \<Rightarrow> job_plan" where
  "with_site_if_none site p = (if jp_site p = None then p\<lparr>jp_site := Some site\<rparr> else p)"

definition caller_pinned :: "job_plan \<Rightarrow> bool" where
  "caller_pinned p \<longleftrightarrow>
     jp_profile_explicit p \<or> jp_estimated_per_item_ns_explicit p \<or> jp_leaf_shape p \<noteq> Unknown_shape"

definition apply_site_class :: "host_env \<Rightarrow> job_plan \<Rightarrow> job_plan" where
  "apply_site_class e p =
     (if caller_pinned p then p
      else case jp_site p of
        None \<Rightarrow> p
      | Some site \<Rightarrow>
          (case learned_class (he_sites e ! site) of
             None \<Rightarrow> p
           | Some class \<Rightarrow>
               let profile = to_dispatch_profile class;
                   p1 = apply_profile profile p
               in (case default_ns_per_elem profile of
                     Some ns \<Rightarrow> p1\<lparr>jp_estimated_per_item_ns := Some ns\<rparr>
                   | None \<Rightarrow> p1)))"

definition apply_site_class_measured ::
  "host_env \<Rightarrow> job_plan \<Rightarrow> (job_plan \<times> policy_arm option) \<times> host_env" where
  "apply_site_class_measured e p =
     (if caller_pinned p then ((p, None), e)
      else case jp_site p of
        None \<Rightarrow> ((p, None), e)
      | Some site \<Rightarrow>
          if learned_class (he_sites e ! site) = None then ((p, None), e)
          else
            let (arm, s1) = choose_routing_arm (he_sites e ! site);
                e1 = e\<lparr>he_sites := (he_sites e)[site := s1]\<rparr>
            in (case arm of
                  Default_arm \<Rightarrow> ((apply_site_class e1 p, Some arm), e1)
                | Alternative_arm \<Rightarrow> ((p, Some arm), e1)))"

definition with_hw_class :: "hw_class \<Rightarrow> job_plan \<Rightarrow> job_plan" where
  "with_hw_class hw p = p\<lparr>jp_hw_class := hw\<rparr>"

definition with_variant :: "variant \<Rightarrow> job_plan \<Rightarrow> job_plan" where
  "with_variant v p = p\<lparr>jp_variant := v\<rparr>"

definition with_numa_hint :: "u32 \<Rightarrow> job_plan \<Rightarrow> job_plan" where
  "with_numa_hint node p = p\<lparr>jp_numa_hint := Some node\<rparr>"

definition with_smt :: "job_plan \<Rightarrow> job_plan" where
  "with_smt p = p\<lparr>jp_use_smt := True\<rparr>"

definition with_estimated_per_item_ns :: "host_env \<Rightarrow> u32 \<Rightarrow> job_plan \<Rightarrow> job_plan" where
  "with_estimated_per_item_ns e ns_per_item p =
     (let p1 = p\<lparr>jp_estimated_per_item_ns := Some ns_per_item,
                 jp_estimated_per_item_ns_explicit := True\<rparr>
      in if jp_profile_explicit p1 then p1
         else
           let class = infer_class_static_with_shape (he_thresholds e) (jp_k_outer p1)
                         (jp_batch_size p1) (Some ns_per_item) (jp_leaf_shape p1)
           in apply_profile (to_dispatch_profile class) p1)"

definition with_cost_ns_per_elem :: "host_env \<Rightarrow> u32 \<Rightarrow> job_plan \<Rightarrow> job_plan" where
  "with_cost_ns_per_elem e ns p = with_estimated_per_item_ns e ns p"

definition with_task_overhead_ns :: "u32 \<Rightarrow> job_plan \<Rightarrow> job_plan" where
  "with_task_overhead_ns ns p = p\<lparr>jp_task_overhead_ns := Some ns\<rparr>"

definition with_task_span_ns :: "u32 \<Rightarrow> job_plan \<Rightarrow> job_plan" where
  "with_task_span_ns ns p = p\<lparr>jp_task_span_ns := Some ns\<rparr>"

definition with_effective_task_count :: "u32 \<Rightarrow> job_plan \<Rightarrow> job_plan" where
  "with_effective_task_count n p = p\<lparr>jp_effective_task_count := Some n\<rparr>"

definition with_k_inner_log2 :: "u8 \<Rightarrow> job_plan \<Rightarrow> job_plan" where
  "with_k_inner_log2 l p = p\<lparr>jp_k_inner_log2 := Some l\<rparr>"

definition with_backend :: "backend \<Rightarrow> job_plan \<Rightarrow> job_plan" where
  "with_backend b p = p\<lparr>jp_backend_hint := Some b\<rparr>"

definition with_spin_before_yield_ns :: "u64 \<Rightarrow> job_plan \<Rightarrow> job_plan" where
  "with_spin_before_yield_ns ns p = p\<lparr>jp_spin_before_yield_ns := Some ns\<rparr>"

definition with_oversubscription_log2 :: "u8 \<Rightarrow> job_plan \<Rightarrow> job_plan" where
  "with_oversubscription_log2 l p =
     p\<lparr>jp_oversubscription_log2 := Some (min l 3), jp_oversubscription_log2_explicit := True\<rparr>"

definition with_workers :: "u32 \<Rightarrow> job_plan \<Rightarrow> job_plan" where
  "with_workers workers p = p\<lparr>jp_worker_cap := Some (max workers 1)\<rparr>"

definition with_bisect_variant :: "bisect_variant \<Rightarrow> job_plan \<Rightarrow> job_plan" where
  "with_bisect_variant v p = p\<lparr>jp_bisect_variant := Some v\<rparr>"

section \<open>Derived values\<close>

definition estimated_total_ns :: "job_plan \<Rightarrow> u64 option" where
  "estimated_total_ns p =
     map_option (\<lambda>per_item. sat_mul (ucast per_item) (ucast (jp_batch_size p)))
       (jp_estimated_per_item_ns p)"

definition k_inner_lanes :: "job_plan \<Rightarrow> usize" where
  "k_inner_lanes p =
     (case jp_k_inner_log2 p of
        None \<Rightarrow> 1
      | Some log2 \<Rightarrow> push_bit (unat (min (ucast log2 :: u32) 63)) 1)"

definition effective_ns_per_elem :: "job_plan \<Rightarrow> u32 option" where
  "effective_ns_per_elem p = jp_estimated_per_item_ns p"

definition effective_spin_before_yield_ns :: "host_env \<Rightarrow> job_plan \<Rightarrow> u64" where
  "effective_spin_before_yield_ns e p =
     (case jp_spin_before_yield_ns p of
        Some ns \<Rightarrow> ns
      | None \<Rightarrow>
          let budget = (case measured_collapse_threshold_ns e of Some b \<Rightarrow> b | None \<Rightarrow> 0)
          in (case effective_ns_per_elem p of
                Some per \<Rightarrow> if budget \<le> ucast per then 0 else budget
              | None \<Rightarrow> budget))"

definition effective_oversubscription_log2 :: "job_plan \<Rightarrow> u8" where
  "effective_oversubscription_log2 p =
     (case jp_oversubscription_log2 p of Some l \<Rightarrow> l | None \<Rightarrow> 1)"

definition effective_leaves_per_worker :: "host_env \<Rightarrow> job_plan \<Rightarrow> usize" where
  "effective_leaves_per_worker e p =
     (if jp_oversubscription_log2_explicit p
      then push_bit (unat (effective_oversubscription_log2 p)) 1
      else max (ucast (split_multiplier (he_observer e))) 1)"

definition effective_workers :: "usize \<Rightarrow> job_plan \<Rightarrow> usize" where
  "effective_workers arena_workers p =
     max (case jp_worker_cap p of
            Some cap \<Rightarrow> min (ucast cap) arena_workers
          | None \<Rightarrow> arena_workers) 1"

definition capped_to_caller :: "job_plan \<Rightarrow> bool" where
  "capped_to_caller p \<longleftrightarrow> jp_worker_cap p = Some 1"

definition without_worker_cap :: "job_plan \<Rightarrow> job_plan" where
  "without_worker_cap p = p\<lparr>jp_worker_cap := None\<rparr>"

definition count_smt_decision :: "bool \<Rightarrow> host_env \<Rightarrow> host_env" where
  "count_smt_decision decided e =
     e\<lparr>he_smt_decisions := (let (off, on) = he_smt_decisions e
        in if decided then (off, on + 1) else (off + 1, on))\<rparr>"

definition site_spread :: "host_env \<Rightarrow> call_site \<Rightarrow> u64 option" where
  "site_spread e s =
     (if he_smt_from_window e
      then (case spread_value (cs_window s) of Some c \<Rightarrow> Some c | None \<Rightarrow> site_cv2_per_mille s)
      else site_cv2_per_mille s)"

definition effective_use_smt :: "host_env \<Rightarrow> job_plan \<Rightarrow> bool \<times> host_env" where
  "effective_use_smt e p =
     (if \<not> jp_use_smt p then (False, e)
      else
        let threshold = cv2_low_per_mille (he_thresholds e);
            from_stats = (case leaf_cv_squared_per_mille (snapshot_leaf_stats (he_observer e)) of
                            Some cv2 \<Rightarrow> \<not> cv2 < threshold | None \<Rightarrow> True)
        in case Option.bind (jp_site p) (\<lambda>site. site_spread e (he_sites e ! site)) of
             Some cv2 \<Rightarrow>
               let decided = threshold \<le> cv2
               in (decided, if he_smt_from_window e then count_smt_decision decided e else e)
           | None \<Rightarrow> (from_stats, e))"

definition pick_backend ::
  "(backend \<Rightarrow> u64) \<Rightarrow> usize \<Rightarrow> backends_state \<Rightarrow> job_plan
    \<Rightarrow> registry_panic + (backend_ref option \<times> backends_state)" where
  "pick_backend key_of threads s p =
     (case jp_backend_hint p of
        None \<Rightarrow> cpu_backend key_of threads s
      | Some hint \<Rightarrow>
          (case backend_by_id key_of threads hint s of
             Inl q \<Rightarrow> Inl q
           | Inr (Some b, s1) \<Rightarrow> Inr (Some b, s1)
           | Inr (None, s1) \<Rightarrow> cpu_backend key_of threads s1))"

definition capped_by_allowed_width :: "usize \<Rightarrow> bool \<Rightarrow> usize \<Rightarrow> usize" where
  "capped_by_allowed_width running lever_on allowed =
     (if lever_on then min running allowed else running)"

text \<open>
  \<open>resolved_workers\<close>, with the two widths of the arena, the lever and the allowed width
  as arguments.
\<close>

definition resolved_workers ::
  "usize \<Rightarrow> usize \<Rightarrow> bool \<Rightarrow> usize \<Rightarrow> host_env \<Rightarrow> job_plan \<Rightarrow> usize \<times> host_env" where
  "resolved_workers total_workers primary_workers lever_on allowed e p =
     (let (smt, e1) = effective_use_smt e p;
          running = (if smt then total_workers else primary_workers)
      in (effective_workers (capped_by_allowed_width running lever_on allowed) p, e1))"

end
