(* ===== verification/Tier_Pick.thy ===== *)
theory Tier_Pick
  imports Plan
begin

text \<open>
  The numeric decisions of \<open>src/src/sched/plan.rs\<close>: the integer square root, the
  square-root law for the chunk count, and the choice of the scheduler tier. Arithmetic
  that overflows \<open>u64\<close> panics in a build with overflow checks; it is the value \<open>Inl\<close>
  here. The square root starts from a floating-point estimate, which is an argument.
\<close>

section \<open>Integer square root\<close>

datatype overflow = Overflow

definition mul_checked :: "u64 \<Rightarrow> u64 \<Rightarrow> overflow + u64" where
  "mul_checked a b = (if 2 ^ 64 \<le> unat a * unat b then Inl Overflow else Inr (a * b))"

definition add_checked :: "u64 \<Rightarrow> u64 \<Rightarrow> overflow + u64" where
  "add_checked a b = (if 2 ^ 64 \<le> unat a + unat b then Inl Overflow else Inr (a + b))"

lemma mul_checked_Inr: "mul_checked a b = Inr c \<longleftrightarrow> unat a * unat b < 2 ^ 64 \<and> c = a * b"
  by (auto simp: mul_checked_def)

lemma add_checked_Inr: "add_checked a b = Inr c \<longleftrightarrow> unat a + unat b < 2 ^ 64 \<and> c = a + b"
  by (auto simp: add_checked_def)

text \<open>The two Newton steps; \<open>None\<close> is the early return of zero.\<close>

fun newton_steps :: "nat \<Rightarrow> u64 \<Rightarrow> u64 \<Rightarrow> overflow + u64 option" where
  "newton_steps 0 n x = Inr (Some x)"
| "newton_steps (Suc k) n x =
     (if x = 0 then Inr None
      else case add_checked x (n div x) of
             Inl p \<Rightarrow> Inl p
           | Inr s \<Rightarrow>
               let y = drop_bit 1 s
               in if x \<le> y then Inr (Some x) else newton_steps k n y)"

function sqrt_down :: "u64 \<Rightarrow> u64 \<Rightarrow> overflow + u64" where
  "sqrt_down n x =
     (case mul_checked x x of
        Inl p \<Rightarrow> Inl p
      | Inr sq \<Rightarrow> if n < sq then sqrt_down n (x - 1) else Inr x)"
  by pat_completeness auto
termination
proof (relation "measure (\<lambda>(n, x). unat x)")
  show "((n, x - 1), n, x) \<in> measure (\<lambda>(n, x). unat x)"
    if "mul_checked x x = Inr sq" "n < sq" for n x sq :: u64
  proof -
    have "x \<noteq> 0" using that by (auto simp: mul_checked_Inr)
    then show ?thesis by (simp add: unat_minus_one unat_gt_0)
  qed
qed simp

function sqrt_up :: "u64 \<Rightarrow> u64 \<Rightarrow> overflow + u64" where
  "sqrt_up n x =
     (case add_checked x 1 of
        Inl p \<Rightarrow> Inl p
      | Inr x1 \<Rightarrow>
          (case mul_checked x1 x1 of
             Inl p \<Rightarrow> Inl p
           | Inr sq \<Rightarrow> if sq \<le> n then sqrt_up n x1 else Inr x))"
  by pat_completeness auto
termination
proof (relation "measure (\<lambda>(n, x). 2 ^ 64 - unat x)")
  show "((n, x1), n, x) \<in> measure (\<lambda>(n, x). 2 ^ 64 - unat x)"
    if "add_checked x 1 = Inr x1" for n x x1 :: u64
  proof -
    have "unat x + 1 < 2 ^ 64" "x1 = x + 1" using that by (simp_all add: add_checked_Inr)
    then have "unat x1 = unat x + 1" by (simp add: unat_word_ariths)
    then show ?thesis using \<open>unat x + 1 < 2 ^ 64\<close> by simp
  qed
qed simp

declare sqrt_down.simps [simp del] sqrt_up.simps [simp del]

definition integer_sqrt :: "u64 \<Rightarrow> u64 \<Rightarrow> overflow + u64" where
  "integer_sqrt estimate n =
     (if n < 2 then Inr n
      else case newton_steps 2 n estimate of
             Inl p \<Rightarrow> Inl p
           | Inr None \<Rightarrow> Inr 0
           | Inr (Some x) \<Rightarrow>
               (case sqrt_down n x of Inl p \<Rightarrow> Inl p | Inr x1 \<Rightarrow> sqrt_up n x1))"

section \<open>Chunk counts\<close>

definition as_count :: "u64 \<Rightarrow> u32" where
  "as_count c = ucast (min c (ucast (- 1 :: u32)))"

definition optimal_chunk_count_for ::
  "(u64 \<Rightarrow> u64) \<Rightarrow> usize \<Rightarrow> usize \<Rightarrow> job_plan \<Rightarrow> overflow + u32 option" where
  "optimal_chunk_count_for estimate workers n p =
     (case (jp_estimated_per_item_ns p, jp_task_overhead_ns p) of
        (Some per, Some over) \<Rightarrow>
          let per_item = ucast per :: u64;
              overhead = ucast over;
              fixed = sat_add overhead (ucast (case jp_task_span_ns p of Some s \<Rightarrow> s | None \<Rightarrow> 0))
          in if n = 0 \<or> fixed = 0 \<or> per_item = 0 then Inr (Some (as_count n))
             else
               let w_total = sat_mul per_item n;
                   pw = max workers 1;
                   radicand = (case checked_div (sat_mul w_total pw) fixed of Some r \<Rightarrow> r | None \<Rightarrow> 0)
               in (case integer_sqrt (estimate radicand) radicand of
                     Inl q \<Rightarrow> Inl q
                   | Inr c_opt \<Rightarrow> Inr (Some (as_count (min (max c_opt 1) n))))
      | _ \<Rightarrow> Inr None)"

definition optimal_chunk_count ::
  "(u64 \<Rightarrow> u64) \<Rightarrow> usize \<Rightarrow> job_plan \<Rightarrow> overflow + u32 option" where
  "optimal_chunk_count estimate workers p =
     optimal_chunk_count_for estimate workers
       (ucast (case jp_effective_task_count p of Some c \<Rightarrow> c | None \<Rightarrow> jp_batch_size p)) p"

section \<open>Tiers\<close>

definition promotes_on_tile_count :: "bool \<Rightarrow> u32 \<Rightarrow> bool \<Rightarrow> bool" where
  "promotes_on_tile_count matrix batch_size explicit_estimate \<longleftrightarrow>
     matrix \<and> 1 < batch_size \<and> \<not> explicit_estimate"

definition kband_for :: "u8 \<Rightarrow> sched_tier" where
  "kband_for k =
     (if k \<le> 4 then Inline
      else if 5 \<le> k \<and> k \<le> 7 then Local
      else if 8 \<le> k \<and> k \<le> 10 then Hierarchical
      else Federated)"

definition heavy_override :: "u64 \<Rightarrow> job_plan \<Rightarrow> bool" where
  "heavy_override inline_collapse_ns p \<longleftrightarrow>
     jp_estimated_per_item_ns_explicit p
     \<and> (case jp_estimated_per_item_ns p of
          Some ns \<Rightarrow> inline_collapse_ns \<le> sat_mul (ucast ns) (ucast (jp_batch_size p))
        | None \<Rightarrow> False)"

text \<open>\<open>inline_collapse_ns\<close> is what \<open>inline_collapse_threshold_ns\<close> measured on the host.\<close>

definition pick_tier :: "u64 \<Rightarrow> host_env \<Rightarrow> job_plan \<Rightarrow> sched_tier" where
  "pick_tier inline_collapse_ns e p =
     (if jp_leaf_shape p \<noteq> Unknown_shape \<and> 8 \<le> jp_batch_size p then
        (let base = (case kband_for (jp_k_outer p) of Inline \<Rightarrow> Local | other \<Rightarrow> other)
         in case base of
              Local \<Rightarrow> Local
            | Hierarchical \<Rightarrow> if is_multi_node e then Hierarchical else Local
            | Federated \<Rightarrow> Federated
            | Inline \<Rightarrow> Local)
      else
        (let heavy = heavy_override inline_collapse_ns p;
             tile = promotes_on_tile_count (is_matrix_extension (jp_hw_class p)) (jp_batch_size p)
                      (jp_estimated_per_item_ns_explicit p)
         in case kband_for (jp_k_outer p) of
              Inline \<Rightarrow>
                if 256 \<le> jp_batch_size p \<or> heavy \<or> tile \<or> jp_use_smt p then Local else Inline
            | Local \<Rightarrow>
                if jp_batch_size p < 32 \<and> \<not> heavy \<and> \<not> tile \<and> \<not> jp_use_smt p then Inline else Local
            | Hierarchical \<Rightarrow>
                if \<not> is_multi_node e then
                  (if jp_batch_size p < 32 \<and> \<not> heavy \<and> \<not> tile \<and> \<not> jp_use_smt p
                   then Inline else Local)
                else Hierarchical
            | Federated \<Rightarrow> Federated))"

end
