(* ===== verification/Plan_Laws.thy ===== *)
theory Plan_Laws
  imports Tier_Pick
begin

text \<open>
  What a plan guarantees: the integer square root is the floor of the root wherever its
  arithmetic fits, the chunk count follows the square-root law inside its bounds, a tier
  is picked inside the limits of the host, a caller's pins survive the learned class, and
  the derived worker counts and backends exist.
\<close>

section \<open>Integer square root\<close>

lemma unat_mult_fits: "unat (a :: u64) * unat b < 2 ^ 64 \<Longrightarrow> unat (a * b) = unat a * unat b"
  by (simp add: unat_word_ariths)

lemma unat_add_fits: "unat (a :: u64) + unat b < 2 ^ 64 \<Longrightarrow> unat (a + b) = unat a + unat b"
  by (simp add: unat_word_ariths)

lemma root_product_fits:
  fixes x :: nat
  assumes "x < 2 ^ 32"
  shows "x * x < 2 ^ 64"
proof -
  have "x * x < 2 ^ 32 * 2 ^ 32" using assms by (intro mult_strict_mono) auto
  then show ?thesis by simp
qed

lemma newton_steps_seed:
  assumes n: "2 \<le> unat n" "unat n < (2 ^ 32 - 1) ^ 2" and x: "0 < unat x" "unat x < 2 ^ 32"
  shows "\<exists>x'. newton_steps k n x = Inr (Some x') \<and> 0 < unat x' \<and> unat x' < 2 ^ 32"
  using x
proof (induction k arbitrary: x)
  case (Suc k)
  have xn: "x \<noteq> 0" using Suc.prems by auto
  have q: "unat (n div x) = unat n div unat x" by (simp add: unat_div)
  have fits: "unat x + unat (n div x) < 2 ^ 64"
  proof -
    have "unat n div unat x \<le> unat n" by (rule div_le_dividend)
    moreover have "unat n < 18446744065119617025" using n(2) by simp
    moreover have "unat x < 4294967296" using Suc.prems by simp
    ultimately have "unat x + unat n div unat x < 18446744073709551616" by linarith
    then show ?thesis by (simp add: q)
  qed
  have y: "unat (drop_bit 1 (x + n div x)) = (unat x + unat n div unat x) div 2"
    using unat_add_fits [OF fits] by (simp add: drop_bit_eq_div unat_div q)
  have "0 < unat (drop_bit 1 (x + n div x))"
  proof (cases "unat x = 1")
    case True
    then show ?thesis unfolding y using n by simp
  next
    case False
    then have "2 \<le> unat x" using Suc.prems by simp
    then show ?thesis unfolding y by simp
  qed
  moreover have "\<not> x \<le> drop_bit 1 (x + n div x) \<Longrightarrow> unat (drop_bit 1 (x + n div x)) < 2 ^ 32"
    using Suc.prems by (simp add: word_le_nat_alt)
  ultimately show ?case
    using Suc fits xn by (simp add: Let_def add_checked_def)
qed simp

lemma sqrt_down_result:
  assumes "unat x < 2 ^ 32"
  shows "\<exists>r. sqrt_down n x = Inr r \<and> unat r * unat r \<le> unat n \<and> unat r \<le> unat x"
  using assms
proof (induction n x rule: sqrt_down.induct)
  case (1 n x)
  have fits: "unat x * unat x < 2 ^ 64" by (rule root_product_fits [OF 1(2)])
  then have sq: "mul_checked x x = Inr (x * x)" "unat (x * x) = unat x * unat x"
    by (simp_all add: unat_mult_fits mul_checked_Inr)
  show ?case
  proof (cases "n < x * x")
    case True
    then have "x \<noteq> 0" by auto
    then have "unat (x - 1) = unat x - 1" by (simp add: unat_minus_one)
    moreover have "sqrt_down n x = sqrt_down n (x - 1)"
      by (subst sqrt_down.simps) (simp only: sq(1) sum.case True if_True)
    ultimately show ?thesis
      using 1(1) [OF sq(1) True] 1(2) by fastforce
  next
    case False
    have "sqrt_down n x = Inr x"
      by (subst sqrt_down.simps) (simp only: sq(1) sum.case False if_False)
    with False sq(2) show ?thesis by (simp add: word_less_nat_alt)
  qed
qed

lemma sqrt_up_result:
  assumes "unat n < (2 ^ 32 - 1) ^ 2" and "unat x * unat x \<le> unat n"
  shows "\<exists>r. sqrt_up n x = Inr r \<and> unat r * unat r \<le> unat n \<and> unat n < (unat r + 1) ^ 2"
  using assms
proof (induction n x rule: sqrt_up.induct)
  case (1 n x)
  have x: "unat x < 2 ^ 32 - 1"
  proof (rule ccontr)
    assume "\<not> ?thesis"
    then have "(2 ^ 32 - 1) * (2 ^ 32 - 1) \<le> unat x * unat x" by (intro mult_mono) auto
    with 1(2,3) show False by (simp add: power2_eq_square)
  qed
  then have fits: "unat x + unat (1 :: u64) < 2 ^ 64" by simp
  then have x1: "add_checked x 1 = Inr (x + 1)" "unat (x + 1) = unat x + 1"
    using unat_add_fits [OF fits] fits by (simp_all add: add_checked_Inr)
  then have sq: "unat (x + 1) * unat (x + 1) < 2 ^ 64"
    using x by (intro root_product_fits) simp
  then have sq1: "mul_checked (x + 1) (x + 1) = Inr ((x + 1) * (x + 1))"
    "unat ((x + 1) * (x + 1)) = (unat x + 1) * (unat x + 1)"
    using unat_mult_fits [OF sq] x1(2) sq by (simp_all add: mul_checked_Inr)
  show ?case
  proof (cases "(x + 1) * (x + 1) \<le> n")
    case True
    then have "unat (x + 1) * unat (x + 1) \<le> unat n"
      using sq1(2) x1(2) by (simp add: word_le_nat_alt)
    note ih = 1(1) [OF x1(1) sq1(1) True 1(2) this]
    have "sqrt_up n x = sqrt_up n (x + 1)"
      by (subst sqrt_up.simps) (simp only: x1(1) sq1(1) sum.case True if_True)
    with ih show ?thesis by simp
  next
    case False
    have "sqrt_up n x = Inr x"
      by (subst sqrt_up.simps) (simp only: x1(1) sq1(1) sum.case False if_False)
    with 1(3) False sq1(2) show ?thesis
      by (simp add: word_le_nat_alt power2_eq_square)
  qed
qed

lemma integer_sqrt_floor:
  assumes n: "unat n < (2 ^ 32 - 1) ^ 2" and seed: "2 \<le> unat n \<Longrightarrow> 0 < unat x \<and> unat x < 2 ^ 32"
  shows "\<exists>r. integer_sqrt x n = Inr r \<and> unat r ^ 2 \<le> unat n \<and> unat n < (unat r + 1) ^ 2"
proof (cases "unat n < 2")
  case True
  then have "n < 2" by (simp add: word_less_nat_alt)
  moreover from True have "unat n = 0 \<or> unat n = 1" by linarith
  ultimately show ?thesis by (auto simp: integer_sqrt_def power2_eq_square)
next
  case False
  then have two: "\<not> n < 2" "2 \<le> unat n" by (simp_all add: word_less_nat_alt)
  then have x: "0 < unat x" "unat x < 2 ^ 32" using seed by simp_all
  obtain x1 where x1: "newton_steps 2 n x = Inr (Some x1)" "0 < unat x1" "unat x1 < 2 ^ 32"
    using newton_steps_seed [OF two(2) n x] by blast
  obtain x2 where x2: "sqrt_down n x1 = Inr x2" "unat x2 * unat x2 \<le> unat n"
    using sqrt_down_result [OF x1(3)] by blast
  obtain r where "sqrt_up n x2 = Inr r" "unat r * unat r \<le> unat n" "unat n < (unat r + 1) ^ 2"
    using sqrt_up_result [OF n x2(2)] by blast
  with two(1) x1(1) x2(1) show ?thesis
    by (simp add: integer_sqrt_def power2_eq_square)
qed


text \<open>At and above \<open>(2 ^ 32 - 1) ^ 2\<close> the last comparison overflows, whatever the seed.\<close>

lemma sqrt_up_overflows:
  assumes "(2 ^ 32 - 1) ^ 2 \<le> unat n"
  shows "sqrt_up n x = Inl Overflow"
  using assms
proof (induction n x rule: sqrt_up.induct)
  case (1 n x)
  show ?case
  proof (cases "add_checked x 1")
    case (Inl p)
    then show ?thesis by (subst sqrt_up.simps) (cases p, simp)
  next
    case (Inr x1)
    show ?thesis
    proof (cases "mul_checked x1 x1")
      case (Inl p)
      then show ?thesis by (subst sqrt_up.simps) (cases p, simp only: Inr sum.case)
    next
      case sq: (Inr y)
      then have y: "unat x1 * unat x1 < 2 ^ 64" "y = x1 * x1" by (simp_all add: mul_checked_Inr)
      have "unat x1 \<le> 2 ^ 32 - 1"
      proof (rule ccontr)
        assume "\<not> ?thesis"
        then have "(2 ^ 32) * (2 ^ 32) \<le> unat x1 * unat x1" by (intro mult_mono) auto
        with y show False by simp
      qed
      then have "unat x1 * unat x1 \<le> (2 ^ 32 - 1) * (2 ^ 32 - 1)" by (intro mult_mono) auto
      then have le: "y \<le> n"
        using 1(2) y unat_mult_fits [OF y(1)] by (simp add: word_le_nat_alt power2_eq_square)
      have "sqrt_up n x = sqrt_up n x1"
        by (subst sqrt_up.simps) (simp only: Inr sq sum.case le if_True)
      with 1(1) [OF Inr sq le 1(2)] show ?thesis by simp
    qed
  qed
qed

lemma sqrt_down_bounds: "sqrt_down n x = Inl p \<Longrightarrow> p = Overflow"
  by (cases p) simp

lemma overflow_all [simp]: "(p :: overflow) = Overflow"
  by (cases p) simp

lemma newton_steps_pos:
  assumes "0 < unat x" and "2 \<le> unat n" and "newton_steps k n x = Inr r"
  shows "r \<noteq> None"
  using assms
proof (induction k arbitrary: x)
  case (Suc k)
  show ?case
  proof (cases "add_checked x (n div x)")
    case (Inl p)
    with Suc.prems show ?thesis by (auto split: if_splits)
  next
    case (Inr s)
    then have fits: "unat x + unat n div unat x < 2 ^ 64" and s: "s = x + n div x"
      by (simp_all add: unat_div add_checked_Inr)
    have half: "unat (drop_bit 1 s) = (unat x + unat n div unat x) div 2"
      using unat_add_fits [of x "n div x"] fits by (simp add: s drop_bit_eq_div unat_div)
    have "2 \<le> unat x + unat n div unat x"
      using Suc.prems(1,2) by (cases "unat x = 1") auto
    then have pos: "0 < unat (drop_bit 1 s)" unfolding half by simp
    have "x \<noteq> 0" using Suc.prems(1) by auto
    then have "newton_steps (Suc k) n x =
        (if x \<le> drop_bit 1 s then Inr (Some x) else newton_steps k n (drop_bit 1 s))"
      by (simp only: newton_steps.simps Inr sum.case Let_def if_False)
    with Suc.IH [OF pos Suc.prems(2)] Suc.prems(3) show ?thesis by (auto split: if_splits)
  qed
qed auto

lemma integer_sqrt_overflows:
  assumes "(2 ^ 32 - 1) ^ 2 \<le> unat n" and "0 < unat x"
  shows "integer_sqrt x n = Inl Overflow"
proof -
  have two: "2 \<le> unat n" using assms(1) by simp
  then have "\<not> n < 2" by (simp add: word_less_nat_alt)
  then show ?thesis
    using newton_steps_pos [OF assms(2) two, of 2] sqrt_up_overflows [OF assms(1)]
    by (auto simp: integer_sqrt_def split: sum.splits option.splits)
qed

declare overflow_all [simp del]

section \<open>Chunk counts\<close>

lemma unat_as_count: "unat (as_count c) = min (unat c) (2 ^ 32 - 1)"
proof -
  have "unat (ucast (- 1 :: u32) :: u64) = 2 ^ 32 - 1"
    unfolding unat_widen by (simp add: unsigned_minus_1_eq_mask mask_eq_exp_minus_1)
  then have m: "unat (min c (ucast (- 1 :: u32))) = min (unat c) (2 ^ 32 - 1)"
    by (auto simp: min_def word_le_nat_alt)
  have "unat (as_count c) = unat (min c (ucast (- 1 :: u32))) mod 2 ^ 32"
    by (simp add: as_count_def unsigned_ucast_eq unsigned_take_bit_eq take_bit_eq_mod)
  also have "\<dots> = min (unat c) (2 ^ 32 - 1)"
    unfolding m by simp
  finally show ?thesis .
qed

definition fixed_cost :: "job_plan \<Rightarrow> nat" where
  "fixed_cost p =
     (case jp_task_overhead_ns p of Some ov \<Rightarrow> unat ov | None \<Rightarrow> 0)
     + (case jp_task_span_ns p of Some s \<Rightarrow> unat s | None \<Rightarrow> 0)"


text \<open>The work times the workers over the fixed cost of a chunk, saturated as the source does.\<close>

definition chunk_radicand :: "u32 \<Rightarrow> usize \<Rightarrow> usize \<Rightarrow> job_plan \<Rightarrow> nat" where
  "chunk_radicand per workers n p =
     min (min (unat per * unat n) (2 ^ 64 - 1) * max (unat workers) 1) (2 ^ 64 - 1)
     div fixed_cost p"

lemma unat_max_one: "unat (max (w :: u64) 1) = max (unat w) 1"
  by (auto simp: max_def word_le_nat_alt)

lemma fixed_cost_word:
  "jp_task_overhead_ns p = Some ov \<Longrightarrow>
   unat (sat_add (ucast ov :: u64) (ucast (case jp_task_span_ns p of Some s \<Rightarrow> s | None \<Rightarrow> 0)))
     = fixed_cost p"
  using unat_u32_lt [of ov] unat_u32_lt [of "case jp_task_span_ns p of Some s \<Rightarrow> s | None \<Rightarrow> 0"]
  by (auto simp: fixed_cost_def unat_sat_add unat_widen split: option.splits)

lemma chunk_count_eq:
  assumes "jp_estimated_per_item_ns p = Some per" and over: "jp_task_overhead_ns p = Some ov"
    and "n \<noteq> 0" and "per \<noteq> 0" and f: "fixed_cost p \<noteq> 0"
  obtains radicand where "unat radicand = chunk_radicand per workers n p"
    "optimal_chunk_count_for estimate workers n p =
       (case integer_sqrt (estimate radicand) radicand of
          Inl q \<Rightarrow> Inl q | Inr c \<Rightarrow> Inr (Some (as_count (min (max c 1) n))))"
proof -
  let ?fixed = "sat_add (ucast ov :: u64) (ucast (case jp_task_span_ns p of Some s \<Rightarrow> s | None \<Rightarrow> 0))"
  let ?r = "sat_mul (sat_mul (ucast per :: u64) n) (max workers 1) div ?fixed"
  have fw: "unat ?fixed = fixed_cost p" by (rule fixed_cost_word [OF over])
  then have f0: "?fixed \<noteq> 0" using f by (metis unat_0)
  have p0: "(ucast per :: u64) \<noteq> 0"
    using assms(4) by (metis unat_eq_0 unat_widen)
  have "unat ?r = chunk_radicand per workers n p"
    unfolding unat_div fw chunk_radicand_def unat_sat_mul unat_max_one unat_widen by simp
  moreover have "optimal_chunk_count_for estimate workers n p =
       (case integer_sqrt (estimate ?r) ?r of
          Inl q \<Rightarrow> Inl q | Inr c \<Rightarrow> Inr (Some (as_count (min (max c 1) n))))"
    using assms f0 p0 by (simp add: optimal_chunk_count_for_def Let_def checked_div_def)
  ultimately show thesis by (rule that)
qed

lemma unat_clamped_count:
  "unat (as_count (min (max c 1) n)) = min (min (max (unat c) 1) (unat n)) (2 ^ 32 - 1)"
proof -
  have "unat (min (max c 1) n) = min (max (unat c) 1) (unat n)"
    by (auto simp: min_def max_def word_le_nat_alt)
  then show ?thesis by (simp only: unat_as_count)
qed

lemma chunk_count_law:
  assumes "jp_estimated_per_item_ns p = Some per" and "jp_task_overhead_ns p = Some ov"
    and "n \<noteq> 0" and "per \<noteq> 0" and "fixed_cost p \<noteq> 0"
    and small: "chunk_radicand per workers n p < (2 ^ 32 - 1) ^ 2"
    and seed: "\<And>r. 2 \<le> unat r \<Longrightarrow> unat r < (2 ^ 32 - 1) ^ 2 \<Longrightarrow>
      0 < unat (estimate r) \<and> unat (estimate r) < 2 ^ 32"
  shows "\<exists>root c. optimal_chunk_count_for estimate workers n p = Inr (Some c)
    \<and> root ^ 2 \<le> chunk_radicand per workers n p \<and> chunk_radicand per workers n p < (root + 1) ^ 2
    \<and> unat c = min (min (max root 1) (unat n)) (2 ^ 32 - 1)"
proof -
  obtain radicand where r: "unat radicand = chunk_radicand per workers n p"
    "optimal_chunk_count_for estimate workers n p =
       (case integer_sqrt (estimate radicand) radicand of
          Inl q \<Rightarrow> Inl q | Inr c \<Rightarrow> Inr (Some (as_count (min (max c 1) n))))"
    using chunk_count_eq [OF assms(1-5)] by metis
  obtain c where c: "integer_sqrt (estimate radicand) radicand = Inr c"
    "unat c ^ 2 \<le> unat radicand" "unat radicand < (unat c + 1) ^ 2"
    using integer_sqrt_floor [of radicand "estimate radicand"] small seed r(1) by metis
  have "optimal_chunk_count_for estimate workers n p = Inr (Some (as_count (min (max c 1) n)))"
    by (simp add: r(2) c(1))
  with c(2,3) r(1) unat_clamped_count [of c n] show ?thesis by metis
qed

lemma chunk_count_overflows:
  assumes "jp_estimated_per_item_ns p = Some per" and "jp_task_overhead_ns p = Some ov"
    and "n \<noteq> 0" and "per \<noteq> 0" and "fixed_cost p \<noteq> 0"
    and large: "(2 ^ 32 - 1) ^ 2 \<le> chunk_radicand per workers n p"
    and seed: "\<And>r. 2 \<le> unat r \<Longrightarrow> 0 < unat (estimate r)"
  shows "optimal_chunk_count_for estimate workers n p = Inl Overflow"
proof -
  obtain radicand where r: "unat radicand = chunk_radicand per workers n p"
    "optimal_chunk_count_for estimate workers n p =
       (case integer_sqrt (estimate radicand) radicand of
          Inl q \<Rightarrow> Inl q | Inr c \<Rightarrow> Inr (Some (as_count (min (max c 1) n))))"
    using chunk_count_eq [OF assms(1-5)] by metis
  have "integer_sqrt (estimate radicand) radicand = Inl Overflow"
    using large seed r(1) by (intro integer_sqrt_overflows) auto
  then show ?thesis by (simp add: r(2))
qed

section \<open>Tiers\<close>

lemma kband_cases:
  "kband_for k = Inline \<longleftrightarrow> unat k \<le> 4"
  "kband_for k = Local \<longleftrightarrow> 5 \<le> unat k \<and> unat k \<le> 7"
  "kband_for k = Hierarchical \<longleftrightarrow> 8 \<le> unat k \<and> unat k \<le> 10"
  "kband_for k = Federated \<longleftrightarrow> 11 \<le> unat k"
  by (auto simp: kband_for_def word_le_nat_alt)

lemma pick_tier_federated: "pick_tier t e p = Federated \<longleftrightarrow> kband_for (jp_k_outer p) = Federated"
  by (simp add: pick_tier_def Let_def split: sched_tier.splits)

lemma pick_tier_hierarchical:
  "pick_tier t e p = Hierarchical \<longleftrightarrow> kband_for (jp_k_outer p) = Hierarchical \<and> is_multi_node e"
  by (simp add: pick_tier_def Let_def split: sched_tier.splits)

definition wants_pool :: "u64 \<Rightarrow> job_plan \<Rightarrow> bool" where
  "wants_pool t p \<longleftrightarrow>
     heavy_override t p
     \<or> promotes_on_tile_count (is_matrix_extension (jp_hw_class p)) (jp_batch_size p)
         (jp_estimated_per_item_ns_explicit p)
     \<or> jp_use_smt p"

lemma pick_tier_inline:
  "pick_tier t e p = Inline \<longleftrightarrow>
     (jp_leaf_shape p = Unknown_shape \<or> jp_batch_size p < 8)
     \<and> \<not> wants_pool t p
     \<and> (case kband_for (jp_k_outer p) of
          Inline \<Rightarrow> jp_batch_size p < 256
        | Local \<Rightarrow> jp_batch_size p < 32
        | Hierarchical \<Rightarrow> jp_batch_size p < 32 \<and> \<not> is_multi_node e
        | Federated \<Rightarrow> False)"
  by (auto simp: pick_tier_def wants_pool_def Let_def not_le split: sched_tier.splits)

section \<open>Pins\<close>

lemma set_profile_with_total: "\<exists>p. set_profile_with e k b profile x = Inr p"
  using pick_variant_for_profile_total [of "he_vendor e" "he_variant_tag e" profile b]
  by (auto simp: set_profile_with_def)

lemma plan_new_total: "\<exists>p. plan_new e k b = Inr p \<and> \<not> caller_pinned p"
proof -
  obtain p where "set_profile_with e k b
      (to_dispatch_profile (infer_class_static (he_thresholds e) k b None)) False = Inr p"
    using set_profile_with_total by blast
  then show ?thesis
    by (auto simp: plan_new_def caller_pinned_def set_profile_with_def split: sum.splits)
qed

lemma apply_site_class_pinned: "caller_pinned p \<Longrightarrow> apply_site_class e p = p"
  by (simp add: apply_site_class_def)

lemma apply_site_class_learned:
  assumes "\<not> caller_pinned p" and "jp_site p = Some site"
    and "learned_class (he_sites e ! site) = Some class"
  shows "jp_use_smt (apply_site_class e p) = is_latency_bound (to_dispatch_profile class)"
    and "jp_oversubscription_log2 (apply_site_class e p) =
      Some (default_oversubscription_log2 (to_dispatch_profile class))"
    and "jp_oversubscription_log2_explicit (apply_site_class e p) = jp_oversubscription_log2_explicit p"
  using assms by (simp_all add: apply_site_class_def apply_profile_def Let_def split: option.splits)

text \<open>
  A factor the caller stated is not a pin: the learned class replaces the value and leaves
  the flag that says the caller stated it.
\<close>

lemma apply_site_class_replaces_factor:
  assumes "\<not> caller_pinned p" and "jp_site p = Some site"
    and "learned_class (he_sites e ! site) = Some LatencyBound_class"
  shows "effective_leaves_per_worker e (with_oversubscription_log2 0 p) = 1"
    and "effective_leaves_per_worker e (apply_site_class e (with_oversubscription_log2 0 p)) = 4"
proof -
  let ?q = "with_oversubscription_log2 0 p"
  have q: "\<not> caller_pinned ?q" "jp_site ?q = Some site" "jp_oversubscription_log2_explicit ?q"
    using assms by (simp_all add: with_oversubscription_log2_def caller_pinned_def)
  show "effective_leaves_per_worker e ?q = 1"
    by (simp add: effective_leaves_per_worker_def effective_oversubscription_log2_def
        with_oversubscription_log2_def)
  show "effective_leaves_per_worker e (apply_site_class e ?q) = 4"
    using q(3) apply_site_class_learned [OF q(1,2) assms(3)]
    by (simp add: effective_leaves_per_worker_def effective_oversubscription_log2_def
        push_bit_eq_mult)
qed

section \<open>Workers and backends\<close>

lemma effective_workers_bounds:
  assumes "1 \<le> arena"
  shows "1 \<le> effective_workers arena p \<and> effective_workers arena p \<le> arena"
  using assms
  by (auto simp: effective_workers_def max_def min_def split: option.splits)

lemma pick_backend_present:
  assumes ok: "backends_ok key_of s"
  shows "\<exists>b s'. pick_backend key_of threads s p = Inr (Some b, s')
    \<and> (case jp_backend_hint p of
         Some h \<Rightarrow> (case registered key_of threads s h of Some b' \<Rightarrow> b = b' | None \<Rightarrow> br_id b = Cpu)
       | None \<Rightarrow> br_id b = Cpu)"
proof (cases "jp_backend_hint p")
  case None
  with cpu_backend_present [OF ok, of threads] show ?thesis by (auto simp: pick_backend_def)
next
  case (Some h)
  obtain s1 where s1: "ensure_cpu key_of threads s = Inr s1" "backends_ok key_of s1"
    using ensure_cpu_ok [OF ok, of threads] by metis
  then have by_id: "backend_by_id key_of threads h s = Inr (registered key_of threads s h, s1)"
    using backend_by_id_eq [OF ok s1(1), of h] by (simp add: registered_def)
  show ?thesis
  proof (cases "registered key_of threads s h")
    case None
    with Some by_id cpu_backend_present [OF s1(2), of threads] show ?thesis
      by (auto simp: pick_backend_def)
  next
    case (Some b)
    with \<open>jp_backend_hint p = Some h\<close> by_id show ?thesis by (simp add: pick_backend_def)
  qed
qed

end
