(* ===== verification/Chase_Lev.thy ===== *)
theory Chase_Lev
  imports Prelude
begin

text \<open>
  The work-stealing deque of \<open>src/src/sched/chase_lev_local.rs\<close>, one operation at a time:
  the header, the owner's push and pop, the thief's steal, and the drop. Positions are
  \<open>int\<close> (the source's \<open>i64\<close> counts pushes and is taken never to reach its bounds). A slot
  of the buffer is \<open>None\<close> until it is written; the result \<open>None\<close> of an operation is the
  read of such a slot, which is undefined behaviour.
\<close>

datatype 'a steal = Success 'a | Empty | Retry

record 'a header =
  h_top :: int
  h_bottom :: int
  h_buffer :: "'a option list"

definition capacity :: "'a header \<Rightarrow> nat" where
  "capacity h = length (h_buffer h)"

definition slot_idx :: "'a header \<Rightarrow> int \<Rightarrow> nat" where
  "slot_idx h i = mask_slot (capacity h) i"

definition read_slot :: "'a header \<Rightarrow> int \<Rightarrow> 'a option" where
  "read_slot h i = h_buffer h ! slot_idx h i"

definition write_slot :: "int \<Rightarrow> 'a \<Rightarrow> 'a header \<Rightarrow> 'a header" where
  "write_slot i x h = h\<lparr>h_buffer := (h_buffer h)[slot_idx h i := Some x]\<rparr>"

definition new_chase_lev :: "nat \<Rightarrow> 'a header" where
  "new_chase_lev cap =
     \<lparr>h_top = 0, h_bottom = 0, h_buffer = replicate (next_power_of_two (max cap 2)) None\<rparr>"

definition cl_push :: "'a header \<Rightarrow> 'a \<Rightarrow> ('a + unit) \<times> 'a header" where
  "cl_push h item =
     (let b = h_bottom h;
          t = h_top h;
          size = b - t
      in if int (capacity h) \<le> size then (Inl item, h)
         else (Inr (), (write_slot b item h)\<lparr>h_bottom := b + 1\<rparr>))"

definition cl_pop :: "'a header \<Rightarrow> 'a steal option \<times> 'a header" where
  "cl_pop h =
     (let b = h_bottom h - 1;
          h1 = h\<lparr>h_bottom := b\<rparr>;
          t = h_top h1
      in if b < t then (Some Empty, h1\<lparr>h_bottom := b + 1\<rparr>)
         else
           case read_slot h1 b of
             None \<Rightarrow> (None, h1)
           | Some item \<Rightarrow>
               if t < b then (Some (Success item), h1)
               else
                 let won = (h_top h1 = t);
                     h2 = (if won then h1\<lparr>h_top := t + 1\<rparr> else h1);
                     h3 = h2\<lparr>h_bottom := b + 1\<rparr>
                 in (Some (if won then Success item else Empty), h3))"

definition cl_steal :: "'a header \<Rightarrow> 'a steal option \<times> 'a header" where
  "cl_steal h =
     (let t = h_top h;
          b = h_bottom h
      in if b \<le> t then (Some Empty, h)
         else
           case read_slot h t of
             None \<Rightarrow> (None, h)
           | Some item \<Rightarrow>
               let won = (h_top h = t)
               in if won then (Some (Success item), h\<lparr>h_top := t + 1\<rparr>) else (Some Retry, h))"

definition cl_is_empty :: "'a header \<Rightarrow> bool" where
  "cl_is_empty h \<longleftrightarrow> h_bottom h \<le> h_top h"

definition cl_len :: "'a header \<Rightarrow> nat" where
  "cl_len h = nat (max (h_bottom h - h_top h) 0)"

text \<open>What \<open>drop\<close> drops in place, in order.\<close>

definition cl_drop :: "'a header \<Rightarrow> 'a option list" where
  "cl_drop h = map (read_slot h) [h_top h..h_bottom h - 1]"

section \<open>Slots\<close>

definition pow2_buffer :: "'a header \<Rightarrow> bool" where
  "pow2_buffer h \<longleftrightarrow> (\<exists>k. capacity h = 2 ^ k)"

lemma capacity_pos: "pow2_buffer h \<Longrightarrow> 0 < capacity h"
  by (auto simp: pow2_buffer_def)

lemma slot_idx_lt: "pow2_buffer h \<Longrightarrow> slot_idx h i < capacity h"
  using mask_slot_lt by (auto simp: pow2_buffer_def slot_idx_def)

lemma slot_idx_neq:
  assumes "pow2_buffer h" and "i < j" and "j - i < int (capacity h)"
  shows "slot_idx h i \<noteq> slot_idx h j"
  using assms mask_slot_eq [of "capacity h" _ i j] by (auto simp: pow2_buffer_def slot_idx_def)

lemma write_slot_simps [simp]:
  "h_top (write_slot i x h) = h_top h"
  "h_bottom (write_slot i x h) = h_bottom h"
  "capacity (write_slot i x h) = capacity h"
  "slot_idx (write_slot i x h) = slot_idx h"
  "pow2_buffer (write_slot i x h) = pow2_buffer h"
  by (simp_all add: write_slot_def capacity_def slot_idx_def pow2_buffer_def fun_eq_iff)

lemma header_update_simps [simp]:
  "capacity (h\<lparr>h_top := t\<rparr>) = capacity h" "capacity (h\<lparr>h_bottom := b\<rparr>) = capacity h"
  "slot_idx (h\<lparr>h_top := t\<rparr>) = slot_idx h" "slot_idx (h\<lparr>h_bottom := b\<rparr>) = slot_idx h"
  "read_slot (h\<lparr>h_top := t\<rparr>) = read_slot h" "read_slot (h\<lparr>h_bottom := b\<rparr>) = read_slot h"
  "pow2_buffer (h\<lparr>h_top := t\<rparr>) = pow2_buffer h" "pow2_buffer (h\<lparr>h_bottom := b\<rparr>) = pow2_buffer h"
  by (simp_all add: capacity_def slot_idx_def pow2_buffer_def read_slot_def fun_eq_iff)

lemma read_write_same [simp]: "pow2_buffer h \<Longrightarrow> read_slot (write_slot i x h) i = Some x"
  using slot_idx_lt [of h i] by (simp add: read_slot_def) (simp add: write_slot_def capacity_def)

lemma read_write_other:
  assumes "pow2_buffer h" and "i \<noteq> j" and "\<bar>i - j\<bar> < int (capacity h)"
  shows "read_slot (write_slot i x h) j = read_slot h j"
proof -
  have "slot_idx h i \<noteq> slot_idx h j"
    using assms slot_idx_neq [OF assms(1), of i j] slot_idx_neq [OF assms(1), of j i]
    by (cases "i < j") fastforce+
  then show ?thesis by (simp add: read_slot_def) (simp add: write_slot_def)
qed

section \<open>The deque as a list\<close>

definition cl_abs :: "'a header \<Rightarrow> 'a list" where
  "cl_abs h = map (\<lambda>i. the (read_slot h i)) [h_top h..h_bottom h - 1]"

definition cl_ok :: "'a header \<Rightarrow> bool" where
  "cl_ok h \<longleftrightarrow> pow2_buffer h \<and> h_top h \<le> h_bottom h
     \<and> h_bottom h - h_top h \<le> int (capacity h)
     \<and> (\<forall>i. h_top h \<le> i \<and> i < h_bottom h \<longrightarrow> read_slot h i \<noteq> None)"

lemma cl_ok_new: "cl_ok (new_chase_lev cap)" and cl_abs_new: "cl_abs (new_chase_lev cap) = []"
  using next_power_of_two_pow [of "max cap 2"]
  by (auto simp: cl_ok_def new_chase_lev_def pow2_buffer_def capacity_def cl_abs_def)

lemma length_cl_abs: "cl_ok h \<Longrightarrow> length (cl_abs h) = nat (h_bottom h - h_top h)"
  by (simp add: cl_abs_def)


lemma cl_abs_write:
  assumes "pow2_buffer h" and "\<And>j. h_top h \<le> j \<Longrightarrow> j < h_bottom h \<Longrightarrow> i \<noteq> j \<and> \<bar>i - j\<bar> < int (capacity h)"
  shows "map (\<lambda>j. the (read_slot (write_slot i x h) j)) [h_top h..h_bottom h - 1] = cl_abs h"
  using assms by (auto simp: cl_abs_def read_write_other)

lemma cl_push_abs:
  assumes ok: "cl_ok h" and room: "length (cl_abs h) < capacity h"
  shows "\<exists>h'. cl_push h x = (Inr (), h') \<and> cl_ok h' \<and> cl_abs h' = cl_abs h @ [x]
    \<and> capacity h' = capacity h"
proof -
  let ?b = "h_bottom h" and ?h = "write_slot (h_bottom h) x h"
  let ?h' = "?h\<lparr>h_bottom := h_bottom h + 1\<rparr>"
  have pow: "pow2_buffer h" and size: "?b - h_top h < int (capacity h)" "h_top h \<le> ?b"
    using ok room by (auto simp: cl_ok_def cl_abs_def)
  have other: "read_slot ?h j = read_slot h j" if "h_top h \<le> j" "j < ?b" for j
    using that size by (intro read_write_other [OF pow]) auto
  have "cl_ok ?h'"
    using ok size other pow by (fastforce simp: cl_ok_def)
  moreover have "cl_abs ?h' = cl_abs h @ [x]"
    using size pow by (simp add: cl_abs_def upto_rec2 other)
  moreover have "cl_push h x = (Inr (), ?h')"
    using size by (simp add: cl_push_def Let_def)
  ultimately show ?thesis by simp
qed

lemma cl_push_full: "cl_ok h \<Longrightarrow> capacity h \<le> length (cl_abs h) \<Longrightarrow> cl_push h x = (Inl x, h)"
  by (simp add: cl_push_def cl_abs_def Let_def nat_le_iff cl_ok_def le_nat_iff)

lemma cl_abs_Nil: "cl_ok h \<Longrightarrow> cl_abs h = [] \<longleftrightarrow> h_bottom h = h_top h"
  by (auto simp: cl_abs_def cl_ok_def)

lemma cl_pop_empty: "cl_ok h \<Longrightarrow> cl_abs h = [] \<Longrightarrow> cl_pop h = (Some Empty, h)"
  by (simp add: cl_abs_Nil cl_pop_def Let_def)

lemma cl_pop_abs:
  assumes ok: "cl_ok h" and abs: "cl_abs h = xs @ [x]"
  shows "\<exists>h'. cl_pop h = (Some (Success x), h') \<and> cl_ok h' \<and> cl_abs h' = xs \<and> capacity h' = capacity h"
proof -
  let ?b = "h_bottom h - 1"
  have le: "h_top h \<le> ?b" using ok abs by (cases "h_bottom h = h_top h") (auto simp: cl_ok_def cl_abs_def)
  have "cl_abs h = map (\<lambda>i. the (read_slot h i)) [h_top h..?b - 1] @ [the (read_slot h ?b)]"
    using le by (simp add: cl_abs_def upto_rec2)
  with abs have xs: "xs = map (\<lambda>i. the (read_slot h i)) [h_top h..?b - 1]" "x = the (read_slot h ?b)"
    by auto
  have "read_slot h ?b \<noteq> None" using ok le by (auto simp: cl_ok_def)
  with xs(2) have x: "read_slot h ?b = Some x" by auto
  show ?thesis
    using ok le x xs(1)
    by (cases "h_top h < ?b") (auto simp: cl_pop_def Let_def cl_ok_def cl_abs_def)
qed

lemma cl_steal_empty: "cl_ok h \<Longrightarrow> cl_abs h = [] \<Longrightarrow> cl_steal h = (Some Empty, h)"
  by (simp add: cl_abs_Nil cl_steal_def Let_def)

lemma cl_steal_abs:
  assumes ok: "cl_ok h" and abs: "cl_abs h = x # xs"
  shows "\<exists>h'. cl_steal h = (Some (Success x), h') \<and> cl_ok h' \<and> cl_abs h' = xs \<and> capacity h' = capacity h"
proof -
  let ?t = "h_top h"
  have lt: "?t < h_bottom h" using ok abs by (cases "h_bottom h = h_top h") (auto simp: cl_ok_def cl_abs_def)
  then have "cl_abs h = the (read_slot h ?t) # map (\<lambda>i. the (read_slot h i)) [?t + 1..h_bottom h - 1]"
    by (simp add: cl_abs_def upto_rec1)
  with abs have xs: "x = the (read_slot h ?t)" "xs = map (\<lambda>i. the (read_slot h i)) [?t + 1..h_bottom h - 1]"
    by auto
  have "read_slot h ?t \<noteq> None" using ok lt by (auto simp: cl_ok_def)
  with xs(1) have "read_slot h ?t = Some x" by auto
  then show ?thesis
    using ok lt xs(2) by (auto simp: cl_steal_def Let_def cl_ok_def cl_abs_def)
qed

section \<open>The deque as a bounded list\<close>

text \<open>
  The abstract deque: a list of at most \<open>cap\<close> items, pushed and popped at its end and
  stolen from its front.
\<close>

datatype 'a deque_op = D_push 'a | D_pop | D_steal

datatype 'a deque_answer = Pushed "'a + unit" | Took "'a steal option"

fun deque_spec :: "nat \<Rightarrow> 'a deque_op \<Rightarrow> 'a list \<Rightarrow> 'a deque_answer \<times> 'a list" where
  "deque_spec cap (D_push x) xs =
     (if length xs < cap then (Pushed (Inr ()), xs @ [x]) else (Pushed (Inl x), xs))"
| "deque_spec cap D_pop xs =
     (if xs = [] then (Took (Some Empty), xs) else (Took (Some (Success (last xs))), butlast xs))"
| "deque_spec cap D_steal [] = (Took (Some Empty), [])"
| "deque_spec cap D_steal (x # xs) = (Took (Some (Success x)), xs)"

fun deque_apply :: "('d \<Rightarrow> 'a \<Rightarrow> ('a + unit) \<times> 'd) \<Rightarrow> ('d \<Rightarrow> 'a steal option \<times> 'd) \<Rightarrow>
    ('d \<Rightarrow> 'a steal option \<times> 'd) \<Rightarrow> 'a deque_op \<Rightarrow> 'd \<Rightarrow> 'a deque_answer \<times> 'd" where
  "deque_apply push pop steal (D_push x) d = (let (r, d') = push d x in (Pushed r, d'))"
| "deque_apply push pop steal D_pop d = (let (r, d') = pop d in (Took r, d'))"
| "deque_apply push pop steal D_steal d = (let (r, d') = steal d in (Took r, d'))"

abbreviation cl_apply :: "'a deque_op \<Rightarrow> 'a header \<Rightarrow> 'a deque_answer \<times> 'a header" where
  "cl_apply \<equiv> deque_apply cl_push cl_pop cl_steal"

section \<open>The contract of a work deque\<close>

text \<open>
  What a scheduler relies on: the owner pushes and pops at one end, a thief takes from the
  other, and a full deque hands the item back.
\<close>

locale work_deque =
  fixes push :: "'d \<Rightarrow> 'a \<Rightarrow> ('a + unit) \<times> 'd"
    and pop :: "'d \<Rightarrow> 'a steal option \<times> 'd"
    and steal :: "'d \<Rightarrow> 'a steal option \<times> 'd"
    and abs :: "'d \<Rightarrow> 'a list" and ok :: "'d \<Rightarrow> bool" and cap :: "'d \<Rightarrow> nat"
  assumes push_room: "ok d \<Longrightarrow> length (abs d) < cap d \<Longrightarrow>
      \<exists>d'. push d x = (Inr (), d') \<and> ok d' \<and> abs d' = abs d @ [x] \<and> cap d' = cap d"
    and push_full: "ok d \<Longrightarrow> cap d \<le> length (abs d) \<Longrightarrow> push d x = (Inl x, d)"
    and pop_none: "ok d \<Longrightarrow> abs d = [] \<Longrightarrow> pop d = (Some Empty, d)"
    and pop_last: "ok d \<Longrightarrow> abs d = xs @ [x] \<Longrightarrow>
      \<exists>d'. pop d = (Some (Success x), d') \<and> ok d' \<and> abs d' = xs \<and> cap d' = cap d"
    and steal_none: "ok d \<Longrightarrow> abs d = [] \<Longrightarrow> steal d = (Some Empty, d)"
    and steal_first: "ok d \<Longrightarrow> abs d = x # xs \<Longrightarrow>
      \<exists>d'. steal d = (Some (Success x), d') \<and> ok d' \<and> abs d' = xs \<and> cap d' = cap d"
begin

lemma push_pop:
  assumes "ok d" and "length (abs d) < cap d"
  shows "\<exists>d'. pop (snd (push d x)) = (Some (Success x), d') \<and> ok d' \<and> abs d' = abs d"
proof -
  obtain d1 where "push d x = (Inr (), d1)" "ok d1" "abs d1 = abs d @ [x]"
    using push_room [OF assms] by blast
  with pop_last [of d1 "abs d" x] show ?thesis by auto
qed

lemma apply_refines:
  assumes "ok d"
  shows "ok (snd (deque_apply push pop steal op d)) \<and> cap (snd (deque_apply push pop steal op d)) = cap d
    \<and> deque_spec (cap d) op (abs d) =
        (fst (deque_apply push pop steal op d), abs (snd (deque_apply push pop steal op d)))"
proof (cases op)
  case (D_push x)
  then show ?thesis
    using push_room [OF assms, of x] push_full [OF assms, of x] assms
    by (cases "length (abs d) < cap d") (auto simp: Let_def)
next
  case D_pop
  show ?thesis
  proof (cases "abs d" rule: rev_cases)
    case Nil
    with D_pop pop_none [OF assms] show ?thesis by (simp add: assms)
  next
    case (snoc xs x)
    from D_pop snoc pop_last [OF assms snoc] show ?thesis by auto
  qed
next
  case D_steal
  show ?thesis
  proof (cases "abs d")
    case Nil
    with D_steal steal_none [OF assms] show ?thesis by (simp add: assms)
  next
    case (Cons x xs)
    from D_steal Cons steal_first [OF assms Cons] show ?thesis by auto
  qed
qed

lemma run_refines:
  assumes "ok d"
  shows "run_ops (deque_spec (cap d)) ops (abs d) =
    (fst (run_ops (deque_apply push pop steal) ops d), abs (snd (run_ops (deque_apply push pop steal) ops d)))"
  using run_ops_simulates [where ok = "\<lambda>c. ok c \<and> cap c = cap d" and view = abs
      and f = "deque_apply push pop steal" and g = "deque_spec (cap d)"] apply_refines assms
  by (metis (no_types, lifting))

lemma drain_fifo:
  "ok d \<Longrightarrow> \<exists>d'. ok d' \<and> abs d' = []
     \<and> drain (length (abs d)) steal d = (map (\<lambda>x. Some (Success x)) (abs d), d')"
proof (induction "abs d" arbitrary: d)
  case (Cons x xs)
  obtain d1 where d1: "steal d = (Some (Success x), d1)" "ok d1" "abs d1 = xs"
    using steal_first [OF Cons.prems Cons.hyps(2) [symmetric]] by blast
  from Cons.hyps(1) [OF d1(3) [symmetric] d1(2)] d1(1,3)
  show ?case by (auto simp: Cons.hyps(2) [symmetric])
qed auto

lemma drain_lifo:
  "ok d \<Longrightarrow> \<exists>d'. ok d' \<and> abs d' = []
     \<and> drain (length (abs d)) pop d = (map (\<lambda>x. Some (Success x)) (rev (abs d)), d')"
proof (induction "abs d" arbitrary: d rule: rev_induct)
  case (snoc x xs)
  obtain d1 where d1: "pop d = (Some (Success x), d1)" "ok d1" "abs d1 = xs"
    using pop_last [OF snoc.prems snoc.hyps(2) [symmetric]] by blast
  from snoc.hyps(1) [OF d1(3) [symmetric] d1(2)] d1(1,3)
  show ?case by (auto simp: snoc.hyps(2) [symmetric])
qed auto

end

interpretation chase_lev: work_deque cl_push cl_pop cl_steal cl_abs cl_ok capacity
  by unfold_locales
    (fact cl_push_abs cl_push_full cl_pop_empty cl_pop_abs cl_steal_empty cl_steal_abs)+

end
