(* ===== verification/Chase_Lev_Race.thy ===== *)
theory Chase_Lev_Race
  imports Chase_Lev "HOL-Library.Multiset"
begin

text \<open>
  The deque of \<open>src/src/sched/chase_lev_local.rs\<close> under contention: one owner and any
  number of thieves, every load, store and compare-exchange of \<open>top\<close>, \<open>bottom\<close> and the
  slots a step of its own, interleaved in any order. The steps are sequentially
  consistent; the fences of the source are what make the two accesses that matter so
  (the owner's store of \<open>bottom\<close> before its load of \<open>top\<close>, the thief's load of \<open>top\<close>
  before its load of \<open>bottom\<close>). Two ghost lists record what was pushed and what was taken.
\<close>

section \<open>Threads\<close>

datatype 'a owner_pc =
    O_idle
  | O_push_top 'a int
  | O_push_write 'a int
  | O_push_publish 'a int
  | O_pop_store int
  | O_pop_top int
  | O_pop_restore int
  | O_pop_read int int
  | O_pop_cas int 'a
  | O_undefined

datatype 'a thief_pc =
    T_idle
  | T_bottom int
  | T_read int
  | T_cas int 'a
  | T_undefined

record 'a race =
  rc_header :: "'a header"
  rc_owner :: "'a owner_pc"
  rc_thieves :: "'a thief_pc list"
  rc_pushed :: "'a list"
  rc_taken :: "'a list"

definition race_start :: "nat \<Rightarrow> nat \<Rightarrow> 'a race" where
  "race_start cap n =
     \<lparr>rc_header = new_chase_lev cap, rc_owner = O_idle, rc_thieves = replicate n T_idle,
      rc_pushed = [], rc_taken = []\<rparr>"

text \<open>
  The first access of \<open>push\<close> and \<open>pop\<close> is the load of \<open>bottom\<close>, the first of \<open>steal\<close> the
  load of \<open>top\<close>.
\<close>

definition start_push :: "'a \<Rightarrow> 'a race \<Rightarrow> 'a race" where
  "start_push x s = s\<lparr>rc_owner := O_push_top x (h_bottom (rc_header s))\<rparr>"

definition start_pop :: "'a race \<Rightarrow> 'a race" where
  "start_pop s = s\<lparr>rc_owner := O_pop_store (h_bottom (rc_header s) - 1)\<rparr>"

definition owner_step :: "'a race \<Rightarrow> 'a race" where
  "owner_step s =
     (let h = rc_header s
      in case rc_owner s of
           O_idle \<Rightarrow> s
         | O_push_top x b \<Rightarrow>
             if int (capacity h) \<le> b - h_top h then s\<lparr>rc_owner := O_idle\<rparr>
             else s\<lparr>rc_owner := O_push_write x b\<rparr>
         | O_push_write x b \<Rightarrow>
             s\<lparr>rc_header := write_slot b x h, rc_owner := O_push_publish x b\<rparr>
         | O_push_publish x b \<Rightarrow>
             s\<lparr>rc_header := h\<lparr>h_bottom := b + 1\<rparr>, rc_owner := O_idle,
               rc_pushed := x # rc_pushed s\<rparr>
         | O_pop_store b \<Rightarrow> s\<lparr>rc_header := h\<lparr>h_bottom := b\<rparr>, rc_owner := O_pop_top b\<rparr>
         | O_pop_top b \<Rightarrow>
             let t = h_top h
             in if b < t then s\<lparr>rc_owner := O_pop_restore b\<rparr> else s\<lparr>rc_owner := O_pop_read b t\<rparr>
         | O_pop_restore b \<Rightarrow> s\<lparr>rc_header := h\<lparr>h_bottom := b + 1\<rparr>, rc_owner := O_idle\<rparr>
         | O_pop_read b t \<Rightarrow>
             (case read_slot h b of
                None \<Rightarrow> s\<lparr>rc_owner := O_undefined\<rparr>
              | Some item \<Rightarrow>
                  if t < b then s\<lparr>rc_owner := O_idle, rc_taken := item # rc_taken s\<rparr>
                  else s\<lparr>rc_owner := O_pop_cas b item\<rparr>)
         | O_pop_cas b item \<Rightarrow>
             if h_top h = b
             then s\<lparr>rc_header := h\<lparr>h_top := b + 1\<rparr>, rc_owner := O_pop_restore b,
                    rc_taken := item # rc_taken s\<rparr>
             else s\<lparr>rc_owner := O_pop_restore b\<rparr>
         | O_undefined \<Rightarrow> s)"

definition thief_step :: "nat \<Rightarrow> 'a race \<Rightarrow> 'a race" where
  "thief_step i s =
     (let h = rc_header s;
          goto = (\<lambda>pc. s\<lparr>rc_thieves := (rc_thieves s)[i := pc]\<rparr>)
      in case rc_thieves s ! i of
           T_idle \<Rightarrow> goto (T_bottom (h_top h))
         | T_bottom t \<Rightarrow> if h_bottom h \<le> t then goto T_idle else goto (T_read t)
         | T_read t \<Rightarrow>
             (case read_slot h t of None \<Rightarrow> goto T_undefined | Some item \<Rightarrow> goto (T_cas t item))
         | T_cas t item \<Rightarrow>
             if h_top h = t
             then (goto T_idle)\<lparr>rc_header := h\<lparr>h_top := t + 1\<rparr>, rc_taken := item # rc_taken s\<rparr>
             else goto T_idle
         | T_undefined \<Rightarrow> s)"

inductive race_step :: "'a race \<Rightarrow> 'a race \<Rightarrow> bool" where
  race_push: "rc_owner s = O_idle \<Longrightarrow> race_step s (start_push x s)"
| race_pop: "rc_owner s = O_idle \<Longrightarrow> race_step s (start_pop s)"
| race_owner: "race_step s (owner_step s)"
| race_thief: "i < length (rc_thieves s) \<Longrightarrow> race_step s (thief_step i s)"

section \<open>The invariant\<close>

text \<open>
  The bottom the deque really has: while the owner is inside a pop it has lowered
  \<open>bottom\<close> over an item it may still leave in place.
\<close>

definition real_bottom :: "'a race \<Rightarrow> int" where
  "real_bottom s =
     (case rc_owner s of
        O_pop_top b \<Rightarrow> b + 1
      | O_pop_restore b \<Rightarrow> b + 1
      | O_pop_read b t \<Rightarrow> if t < b then b else b + 1
      | O_pop_cas b x \<Rightarrow> b + 1
      | _ \<Rightarrow> h_bottom (rc_header s))"

definition owner_held :: "'a race \<Rightarrow> 'a list" where
  "owner_held s =
     (case rc_owner s of
        O_pop_read b t \<Rightarrow> if t < b then [the (read_slot (rc_header s) b)] else []
      | _ \<Rightarrow> [])"

definition residual :: "'a race \<Rightarrow> 'a list" where
  "residual s =
     map (\<lambda>i. the (read_slot (rc_header s) i)) [h_top (rc_header s)..real_bottom s - 1] @ owner_held s"

fun owner_ok :: "'a header \<Rightarrow> 'a owner_pc \<Rightarrow> bool" where
  "owner_ok h O_idle \<longleftrightarrow> True"
| "owner_ok h (O_push_top x b) \<longleftrightarrow> b = h_bottom h"
| "owner_ok h (O_push_write x b) \<longleftrightarrow> b = h_bottom h \<and> b - h_top h < int (capacity h)"
| "owner_ok h (O_push_publish x b) \<longleftrightarrow>
     b = h_bottom h \<and> b - h_top h < int (capacity h) \<and> read_slot h b = Some x"
| "owner_ok h (O_pop_store b) \<longleftrightarrow> b = h_bottom h - 1"
| "owner_ok h (O_pop_top b) \<longleftrightarrow> b = h_bottom h"
| "owner_ok h (O_pop_restore b) \<longleftrightarrow> b = h_bottom h \<and> h_top h = b + 1"
| "owner_ok h (O_pop_read b t) \<longleftrightarrow>
     b = h_bottom h \<and> t \<le> b \<and> t \<le> h_top h \<and> read_slot h b \<noteq> None"
| "owner_ok h (O_pop_cas b x) \<longleftrightarrow>
     b = h_bottom h \<and> b \<le> h_top h \<and> read_slot h b = Some x"
| "owner_ok h O_undefined \<longleftrightarrow> False"

fun thief_ok :: "'a header \<Rightarrow> int \<Rightarrow> 'a thief_pc \<Rightarrow> bool" where
  "thief_ok h l T_idle \<longleftrightarrow> True"
| "thief_ok h l (T_bottom t) \<longleftrightarrow> t \<le> h_top h \<and> (t < h_top h \<longrightarrow> read_slot h t \<noteq> None)"
| "thief_ok h l (T_read t) \<longleftrightarrow>
     t \<le> h_top h \<and> read_slot h t \<noteq> None \<and> (t = h_top h \<longrightarrow> t < l)"
| "thief_ok h l (T_cas t x) \<longleftrightarrow>
     t \<le> h_top h \<and> (t = h_top h \<longrightarrow> t < l \<and> read_slot h t = Some x)"
| "thief_ok h l T_undefined \<longleftrightarrow> False"

definition span_ok :: "'a header \<Rightarrow> int \<Rightarrow> bool" where
  "span_ok h l \<longleftrightarrow> pow2_buffer h \<and> h_top h \<le> l \<and> l - h_top h \<le> int (capacity h)
     \<and> h_bottom h \<le> l \<and> (\<forall>i. h_top h \<le> i \<and> i < l \<longrightarrow> read_slot h i \<noteq> None)"

definition race_inv :: "'a race \<Rightarrow> bool" where
  "race_inv s \<longleftrightarrow>
     span_ok (rc_header s) (real_bottom s)
     \<and> owner_ok (rc_header s) (rc_owner s)
     \<and> (\<forall>pc \<in> set (rc_thieves s). thief_ok (rc_header s) (real_bottom s) pc)
     \<and> mset (rc_pushed s) = mset (rc_taken s) + mset (residual s)"

lemma race_inv_start: "race_inv (race_start cap n)"
  using cl_ok_new [of cap] cl_abs_new [of cap]
  by (auto simp: race_inv_def race_start_def span_ok_def real_bottom_def residual_def
      owner_held_def cl_ok_def cl_abs_def new_chase_lev_def)

lemma read_slot_write_Some:
  assumes "pow2_buffer h" and "read_slot h j \<noteq> None"
  shows "read_slot (write_slot i x h) j \<noteq> None"
  using assms slot_idx_lt [OF assms(1), of i]
  by (cases "slot_idx h i = slot_idx h j")
    (simp_all add: read_slot_def write_slot_def slot_idx_def capacity_def nth_list_update)

section \<open>The owner's steps\<close>

lemma owner_step_inv:
  assumes "race_inv s"
  shows "race_inv (owner_step s)"
proof (cases "rc_owner s")
  case O_idle
  with assms show ?thesis by (simp add: owner_step_def)
next
  case (O_push_top x b)
  with assms show ?thesis
    by (simp add: race_inv_def owner_step_def Let_def real_bottom_def residual_def owner_held_def)
next
  case (O_push_write x b)
  let ?h = "rc_header s" and ?h' = "write_slot b x (rc_header s)"
  have l: "real_bottom s = h_bottom ?h" by (simp add: real_bottom_def O_push_write)
  have b: "b = h_bottom ?h" "b - h_top ?h < int (capacity ?h)" and pow: "pow2_buffer ?h"
    using assms by (simp_all add: race_inv_def O_push_write span_ok_def)
  have other: "read_slot ?h' j = read_slot ?h j" if "h_top ?h \<le> j" "j < b" for j
    using that b by (intro read_write_other [OF pow]) auto
  have "thief_ok ?h' (h_bottom ?h) pc" if "pc \<in> set (rc_thieves s)" for pc
  proof -
    have "thief_ok ?h (h_bottom ?h) pc" using assms that by (simp add: race_inv_def l)
    then show ?thesis
      using other read_slot_write_Some [OF pow] b by (cases pc) auto
  qed
  moreover have "residual (owner_step s) = residual s"
    using b(1) other
    by (simp add: residual_def owner_held_def real_bottom_def owner_step_def O_push_write)
  ultimately show ?thesis
    using assms b pow other
    by (auto simp: race_inv_def owner_step_def O_push_write span_ok_def real_bottom_def)
next
  case (O_push_publish x b)
  let ?h = "rc_header s"
  have b: "b = h_bottom ?h" "b - h_top ?h < int (capacity ?h)" "read_slot ?h b = Some x"
      "h_top ?h \<le> b"
    using assms by (auto simp: race_inv_def O_push_publish span_ok_def real_bottom_def)
  have init: "read_slot ?h i \<noteq> None" if "h_top ?h \<le> i" "i \<le> b" for i
    using assms b that
    by (cases "i = b") (auto simp: race_inv_def O_push_publish span_ok_def real_bottom_def)
  have "thief_ok (?h\<lparr>h_bottom := b + 1\<rparr>) (b + 1) pc" if "thief_ok ?h b pc" for pc
    using that by (cases pc) auto
  with assms b init show ?thesis
    by (auto simp: race_inv_def owner_step_def O_push_publish span_ok_def real_bottom_def
        residual_def owner_held_def upto_rec2)
next
  case (O_pop_store b)
  let ?h = "rc_header s"
  have "thief_ok (?h\<lparr>h_bottom := b\<rparr>) l pc" if "thief_ok ?h l pc" for pc l
    using that by (cases pc) auto
  with assms O_pop_store show ?thesis
    by (auto simp: race_inv_def owner_step_def span_ok_def real_bottom_def
        residual_def owner_held_def)
next
  case (O_pop_top b)
  let ?h = "rc_header s"
  show ?thesis
  proof (cases "b < h_top ?h")
    case True
    with assms O_pop_top show ?thesis
      by (auto simp: race_inv_def owner_step_def span_ok_def real_bottom_def Let_def
          residual_def owner_held_def)
  next
    case False
    have "thief_ok ?h b pc" if "thief_ok ?h (b + 1) pc" "h_top ?h < b" for pc
      using that by (cases pc) auto
    with assms O_pop_top False show ?thesis
      by (auto simp: race_inv_def owner_step_def span_ok_def real_bottom_def Let_def
          residual_def owner_held_def upto_rec2)
  qed
next
  case (O_pop_restore b)
  let ?h = "rc_header s"
  have "thief_ok (?h\<lparr>h_bottom := b + 1\<rparr>) l pc" if "thief_ok ?h l pc" for pc l
    using that by (cases pc) auto
  with assms O_pop_restore show ?thesis
    by (auto simp: race_inv_def owner_step_def span_ok_def real_bottom_def
        residual_def owner_held_def)
next
  case (O_pop_read b t)
  with assms show ?thesis
    by (auto simp: race_inv_def owner_step_def span_ok_def real_bottom_def
        residual_def owner_held_def split: option.splits)
next
  case (O_pop_cas b x)
  let ?h = "rc_header s"
  have "read_slot ?h b \<noteq> None" using assms by (auto simp: race_inv_def O_pop_cas)
  then have "thief_ok (?h\<lparr>h_top := b + 1\<rparr>) l pc" if "thief_ok ?h l pc" "h_top ?h = b" for pc l
    using that by (cases pc) auto
  note thieves = this
  show ?thesis
  proof (cases "h_top ?h = b")
    case True
    with assms O_pop_cas thieves show ?thesis
      by (auto simp: race_inv_def owner_step_def span_ok_def real_bottom_def Let_def
          residual_def owner_held_def upto_rec1 [of b b])
  next
    case False
    with assms O_pop_cas show ?thesis
      by (auto simp: race_inv_def owner_step_def span_ok_def real_bottom_def Let_def
          residual_def owner_held_def)
  qed
next
  case O_undefined
  with assms show ?thesis by (simp add: race_inv_def)
qed

section \<open>The thieves' steps\<close>

lemma real_bottom_thief [simp]:
  "real_bottom (s\<lparr>rc_thieves := ts\<rparr>) = real_bottom s"
  "real_bottom (s\<lparr>rc_taken := xs\<rparr>) = real_bottom s"
  by (simp_all add: real_bottom_def split: owner_pc.splits)

lemma residual_thief [simp]: "residual (s\<lparr>rc_thieves := ts\<rparr>) = residual s"
  by (simp add: residual_def owner_held_def split: owner_pc.splits)

lemma goto_inv:
  assumes "race_inv s" and "thief_ok (rc_header s) (real_bottom s) pc"
  shows "race_inv (s\<lparr>rc_thieves := (rc_thieves s)[i := pc]\<rparr>)"
  using assms set_update_subset_insert [of "rc_thieves s" i pc] by (auto simp: race_inv_def)

lemma steal_inv:
  assumes inv: "race_inv s" and i: "i < length (rc_thieves s)" and pc: "rc_thieves s ! i = T_cas t x"
    and top: "h_top (rc_header s) = t"
  shows "race_inv (s\<lparr>rc_thieves := (rc_thieves s)[i := T_idle],
    rc_header := (rc_header s)\<lparr>h_top := t + 1\<rparr>, rc_taken := x # rc_taken s\<rparr>)" (is "race_inv ?s'")
proof -
  let ?h = "rc_header s" and ?h' = "(rc_header s)\<lparr>h_top := t + 1\<rparr>" and ?l = "real_bottom s"
  have "thief_ok ?h ?l (T_cas t x)"
    using inv i pc unfolding race_inv_def by (metis nth_mem)
  then have t: "t < ?l" "read_slot ?h t = Some x" using top by simp_all
  have l': "real_bottom ?s' = ?l"
    by (simp add: real_bottom_def split: owner_pc.splits)
  have "owner_ok ?h' (rc_owner s)"
    using inv t top by (cases "rc_owner s") (auto simp: race_inv_def real_bottom_def)
  moreover have "thief_ok ?h' ?l pc'" if "thief_ok ?h ?l pc'" for pc'
    using that top t by (cases pc') auto
  moreover have "residual s = x # residual ?s'"
    using t top l' by (simp add: residual_def upto_rec1 owner_held_def split: owner_pc.splits)
  ultimately show ?thesis
    using inv t top set_update_subset_insert [of "rc_thieves s" i T_idle]
    by (auto simp: race_inv_def l' span_ok_def simp del: real_bottom_thief)
qed

lemma thief_step_inv:
  assumes inv: "race_inv s" and i: "i < length (rc_thieves s)"
  shows "race_inv (thief_step i s)"
proof -
  let ?h = "rc_header s" and ?l = "real_bottom s"
  have ok: "thief_ok ?h ?l (rc_thieves s ! i)" and span: "span_ok ?h ?l"
    using inv i by (simp_all add: race_inv_def)
  show ?thesis
  proof (cases "rc_thieves s ! i")
    case T_idle
    then show ?thesis by (simp add: thief_step_def goto_inv [OF inv])
  next
    case (T_bottom t)
    have "thief_ok ?h ?l (T_read t)" if "t < h_bottom ?h"
      using ok span that by (auto simp: T_bottom span_ok_def)
    then show ?thesis
      by (auto simp: thief_step_def Let_def T_bottom intro!: goto_inv [OF inv])
  next
    case (T_read t)
    with ok show ?thesis
      by (auto simp: thief_step_def intro!: goto_inv [OF inv])
  next
    case (T_cas t x)
    with steal_inv [OF inv i T_cas] show ?thesis
      by (auto simp: thief_step_def Let_def intro!: goto_inv [OF inv])
  next
    case T_undefined
    with ok show ?thesis by simp
  qed
qed


section \<open>Every interleaving\<close>

lemma start_inv:
  assumes "race_inv s" and "rc_owner s = O_idle"
  shows "race_inv (start_push x s)" and "race_inv (start_pop s)"
  using assms
  by (simp_all add: race_inv_def start_push_def start_pop_def real_bottom_def residual_def
      owner_held_def)

lemma race_step_inv: "race_step s s' \<Longrightarrow> race_inv s \<Longrightarrow> race_inv s'"
  by (induction rule: race_step.induct) (simp_all add: start_inv owner_step_inv thief_step_inv)

lemma race_run_inv: "race_step\<^sup>*\<^sup>* s s' \<Longrightarrow> race_inv s \<Longrightarrow> race_inv s'"
  by (induction rule: rtranclp_induct) (auto intro: race_step_inv)

lemma race_reachable_inv: "race_step\<^sup>*\<^sup>* (race_start cap n) s \<Longrightarrow> race_inv s"
  using race_run_inv race_inv_start by blast

lemma race_conserves:
  "race_inv s \<Longrightarrow> mset (rc_pushed s) = mset (rc_taken s) + mset (residual s)"
  by (simp add: race_inv_def)

lemma race_no_undefined:
  assumes "race_inv s"
  shows "rc_owner s \<noteq> O_undefined" and "T_undefined \<notin> set (rc_thieves s)"
  using assms by (auto simp: race_inv_def)

lemma race_idle_deque:
  assumes "race_inv s" and "rc_owner s = O_idle"
  shows "cl_ok (rc_header s)" and "residual s = cl_abs (rc_header s)"
  using assms
  by (auto simp: race_inv_def span_ok_def cl_ok_def real_bottom_def residual_def owner_held_def
      cl_abs_def)

section \<open>Progress\<close>

text \<open>
  The owner never waits: each of its operations is over after at most four of its own
  steps. A thief is over after at most three, and loses its exchange only to someone else
  who took the item.
\<close>

fun owner_left :: "'a owner_pc \<Rightarrow> nat" where
  "owner_left O_idle = 0"
| "owner_left (O_push_top x b) = 3"
| "owner_left (O_push_write x b) = 2"
| "owner_left (O_push_publish x b) = 1"
| "owner_left (O_pop_store b) = 5"
| "owner_left (O_pop_top b) = 4"
| "owner_left (O_pop_read b t) = 3"
| "owner_left (O_pop_cas b x) = 2"
| "owner_left (O_pop_restore b) = 1"
| "owner_left O_undefined = 0"

lemma owner_step_left:
  "owner_left (rc_owner s) \<noteq> 0 \<Longrightarrow> owner_left (rc_owner (owner_step s)) < owner_left (rc_owner s)"
  by (cases "rc_owner s") (auto simp: owner_step_def Let_def split: option.splits)

lemma thief_step_owner [simp]: "rc_owner (thief_step i s) = rc_owner s"
  by (auto simp: thief_step_def Let_def split: thief_pc.splits option.splits)

section \<open>Alone\<close>

text \<open>Run without interference, the owner's steps are the sequential operations.\<close>

lemma push_alone:
  assumes "rc_owner s = O_idle"
  shows "rc_header ((owner_step ^^ 3) (start_push x s)) = snd (cl_push (rc_header s) x)"
  by (simp add: numeral_3_eq_3 start_push_def owner_step_def cl_push_def Let_def)

lemma pop_alone:
  assumes "cl_ok (rc_header s)"
  shows "rc_header ((owner_step ^^ 5) (start_pop s)) = snd (cl_pop (rc_header s))"
proof (cases "h_bottom (rc_header s) = h_top (rc_header s)")
  case True
  then show ?thesis
    by (simp add: eval_nat_numeral start_pop_def owner_step_def cl_pop_def Let_def)
next
  case False
  with assms obtain x where "read_slot (rc_header s) (h_bottom (rc_header s) - 1) = Some x"
    unfolding cl_ok_def by (metis diff_add_cancel le_less less_add_one not_None_eq zle_diff1_eq zle_add1_eq_le)
  with assms False show ?thesis
    by (auto simp: eval_nat_numeral start_pop_def owner_step_def cl_pop_def Let_def cl_ok_def)
qed

end
