(* ===== verification/Flynnel_Ring.thy ===== *)
theory Flynnel_Ring
  imports Prelude
begin

text \<open>
  The bounded multi-producer multi-consumer ring of \<open>src/src/sched/flynnel_ring.rs\<close>, one
  operation at a time: the header, push, pop, their blocking forms, the length and the
  drop. Positions and sequence numbers are \<open>int\<close>; a slot is its sequence number and its
  data, \<open>None\<close> while nothing was ever written. The retry loops take fuel; \<open>None\<close> is a loop
  still running (or, in a read, a slot never written, which \<open>pop\<close> cannot reach).
\<close>

datatype 'a push_result = Push_ok | Push_full 'a

datatype 'a pop_result = Pop_ok 'a | Pop_empty

record 'a ring =
  fr_tail :: int
  fr_head :: int
  fr_slots :: "(int \<times> 'a option) list"

definition fr_capacity :: "'a ring \<Rightarrow> nat" where
  "fr_capacity r = length (fr_slots r)"

definition fr_idx :: "'a ring \<Rightarrow> int \<Rightarrow> nat" where
  "fr_idx r pos = mask_slot (fr_capacity r) pos"

definition fr_seq :: "'a ring \<Rightarrow> int \<Rightarrow> int" where
  "fr_seq r pos = fst (fr_slots r ! fr_idx r pos)"

definition fr_data :: "'a ring \<Rightarrow> int \<Rightarrow> 'a option" where
  "fr_data r pos = snd (fr_slots r ! fr_idx r pos)"

definition set_seq :: "int \<Rightarrow> int \<Rightarrow> 'a ring \<Rightarrow> 'a ring" where
  "set_seq pos s r = r\<lparr>fr_slots := (fr_slots r)[fr_idx r pos := (s, fr_data r pos)]\<rparr>"

definition set_data :: "int \<Rightarrow> 'a \<Rightarrow> 'a ring \<Rightarrow> 'a ring" where
  "set_data pos x r = r\<lparr>fr_slots := (fr_slots r)[fr_idx r pos := (fr_seq r pos, Some x)]\<rparr>"

definition fr_new :: "nat \<Rightarrow> 'a ring" where
  "fr_new cap =
     \<lparr>fr_tail = 0, fr_head = 0,
      fr_slots = map (\<lambda>i. (int i, None)) [0..<next_power_of_two (max cap 2)]\<rparr>"

definition fr_len :: "'a ring \<Rightarrow> nat" where
  "fr_len r = nat (max (fr_tail r - fr_head r) 0)"

definition fr_is_empty :: "'a ring \<Rightarrow> bool" where
  "fr_is_empty r \<longleftrightarrow> fr_len r = 0"

fun fr_push_loop :: "nat \<Rightarrow> int \<Rightarrow> 'a \<Rightarrow> 'a ring \<Rightarrow> ('a push_result \<times> 'a ring) option" where
  "fr_push_loop 0 pos item r = None"
| "fr_push_loop (Suc fuel) pos item r =
     (let diff = fr_seq r pos - pos
      in if diff = 0 then
           (if fr_tail r = pos
            then Some (Push_ok, set_seq pos (pos + 1) (set_data pos item (r\<lparr>fr_tail := pos + 1\<rparr>)))
            else fr_push_loop fuel (fr_tail r) item r)
         else if diff < 0 then Some (Push_full item, r)
         else fr_push_loop fuel (fr_tail r) item r)"

definition fr_push :: "nat \<Rightarrow> 'a ring \<Rightarrow> 'a \<Rightarrow> ('a push_result \<times> 'a ring) option" where
  "fr_push fuel r item = fr_push_loop fuel (fr_tail r) item r"

fun fr_pop_loop :: "nat \<Rightarrow> int \<Rightarrow> 'a ring \<Rightarrow> ('a pop_result \<times> 'a ring) option" where
  "fr_pop_loop 0 pos r = None"
| "fr_pop_loop (Suc fuel) pos r =
     (let diff = fr_seq r pos - (pos + 1)
      in if diff = 0 then
           (if fr_head r = pos
            then (case fr_data r pos of
                    None \<Rightarrow> None
                  | Some item \<Rightarrow>
                      Some (Pop_ok item, set_seq pos (pos + int (fr_capacity r)) (r\<lparr>fr_head := pos + 1\<rparr>)))
            else fr_pop_loop fuel (fr_head r) r)
         else if diff < 0 then Some (Pop_empty, r)
         else fr_pop_loop fuel (fr_head r) r)"

definition fr_pop :: "nat \<Rightarrow> 'a ring \<Rightarrow> ('a pop_result \<times> 'a ring) option" where
  "fr_pop fuel r = fr_pop_loop fuel (fr_head r) r"

text \<open>What \<open>drop\<close> drops: the published and unclaimed positions, in order.\<close>

definition fr_drop :: "'a ring \<Rightarrow> 'a option list" where
  "fr_drop r =
     map (fr_data r) (filter (\<lambda>pos. fr_seq r pos = pos + 1) [fr_head r..fr_tail r - 1])"

section \<open>Slots\<close>

definition fr_pow2 :: "'a ring \<Rightarrow> bool" where
  "fr_pow2 r \<longleftrightarrow> (\<exists>k. fr_capacity r = 2 ^ k) \<and> 2 \<le> fr_capacity r"

lemma fr_idx_lt: "fr_pow2 r \<Longrightarrow> fr_idx r pos < fr_capacity r"
  using mask_slot_lt by (auto simp: fr_pow2_def fr_idx_def)

lemma fr_idx_eq:
  "fr_pow2 r \<Longrightarrow> fr_idx r i = fr_idx r j \<Longrightarrow>
   i = j \<or> i + int (fr_capacity r) \<le> j \<or> j + int (fr_capacity r) \<le> i"
  unfolding fr_pow2_def fr_idx_def using mask_slot_eq by blast

lemma fr_idx_lap: "fr_pow2 r \<Longrightarrow> fr_idx r (i + int (fr_capacity r)) = fr_idx r i"
  unfolding fr_pow2_def fr_idx_def using mask_slot_add_cap by blast

lemma ring_update_simps [simp]:
  "fr_capacity (r\<lparr>fr_tail := t\<rparr>) = fr_capacity r" "fr_capacity (r\<lparr>fr_head := t\<rparr>) = fr_capacity r"
  "fr_capacity (set_seq p s r) = fr_capacity r" "fr_capacity (set_data p x r) = fr_capacity r"
  "fr_idx (r\<lparr>fr_tail := t\<rparr>) = fr_idx r" "fr_idx (r\<lparr>fr_head := t\<rparr>) = fr_idx r"
  "fr_idx (set_seq p s r) = fr_idx r" "fr_idx (set_data p x r) = fr_idx r"
  "fr_pow2 (r\<lparr>fr_tail := t\<rparr>) = fr_pow2 r" "fr_pow2 (r\<lparr>fr_head := t\<rparr>) = fr_pow2 r"
  "fr_pow2 (set_seq p s r) = fr_pow2 r" "fr_pow2 (set_data p x r) = fr_pow2 r"
  "fr_seq (r\<lparr>fr_tail := t\<rparr>) = fr_seq r" "fr_seq (r\<lparr>fr_head := t\<rparr>) = fr_seq r"
  "fr_data (r\<lparr>fr_tail := t\<rparr>) = fr_data r" "fr_data (r\<lparr>fr_head := t\<rparr>) = fr_data r"
  "fr_tail (set_seq p s r) = fr_tail r" "fr_head (set_seq p s r) = fr_head r"
  "fr_tail (set_data p x r) = fr_tail r" "fr_head (set_data p x r) = fr_head r"
  by (simp_all add: fr_capacity_def fr_idx_def fr_pow2_def fr_seq_def fr_data_def set_seq_def
      set_data_def fun_eq_iff)

lemma fr_seq_set_seq:
  "fr_pow2 r \<Longrightarrow> fr_seq (set_seq p s r) q = (if fr_idx r q = fr_idx r p then s else fr_seq r q)"
  using fr_idx_lt [of r p]
  by (simp add: fr_seq_def) (simp add: set_seq_def fr_seq_def fr_capacity_def nth_list_update)

lemma fr_data_set_seq:
  assumes "fr_pow2 r"
  shows "fr_data (set_seq p s r) q = fr_data r q"
  using fr_idx_lt [OF assms, of p]
  by (simp add: fr_data_def) (simp add: set_seq_def fr_data_def fr_capacity_def nth_list_update)

lemma fr_data_set_data:
  "fr_pow2 r \<Longrightarrow> fr_data (set_data p x r) q = (if fr_idx r q = fr_idx r p then Some x else fr_data r q)"
  using fr_idx_lt [of r p]
  by (simp add: fr_data_def) (simp add: set_data_def fr_data_def fr_capacity_def nth_list_update)

lemma fr_seq_set_data:
  assumes "fr_pow2 r"
  shows "fr_seq (set_data p x r) q = fr_seq r q"
  using fr_idx_lt [OF assms, of p]
  by (simp add: fr_seq_def) (simp add: set_data_def fr_seq_def fr_capacity_def nth_list_update)


lemmas ring_slots = fr_seq_set_seq fr_data_set_seq fr_data_set_data fr_seq_set_data

section \<open>The ring as a queue\<close>

definition fr_abs :: "'a ring \<Rightarrow> 'a list" where
  "fr_abs r = map (\<lambda>p. the (fr_data r p)) [fr_head r..fr_tail r - 1]"

definition fr_ok :: "'a ring \<Rightarrow> bool" where
  "fr_ok r \<longleftrightarrow> fr_pow2 r \<and> fr_head r \<le> fr_tail r
     \<and> fr_tail r \<le> fr_head r + int (fr_capacity r)
     \<and> (\<forall>p. fr_head r \<le> p \<and> p < fr_tail r \<longrightarrow> fr_seq r p = p + 1 \<and> fr_data r p \<noteq> None)
     \<and> (\<forall>p. fr_tail r \<le> p \<and> p < fr_head r + int (fr_capacity r) \<longrightarrow> fr_seq r p = p)"

lemma fr_new_pow2: "fr_pow2 (fr_new cap)"
  using next_power_of_two_pow [of "max cap 2"] next_power_of_two_ge [of "max cap 2"]
  by (auto simp: fr_pow2_def fr_new_def fr_capacity_def)

lemma fr_new_seq:
  "fr_seq (fr_new cap :: 'a ring) p = p mod int (fr_capacity (fr_new cap :: 'a ring))"
proof -
  let ?r = "fr_new cap :: 'a ring"
  obtain k where k: "fr_capacity ?r = 2 ^ k"
    using fr_new_pow2 [where ?'a = 'a and cap = cap] by (auto simp: fr_pow2_def)
  have lt: "fr_idx ?r p < fr_capacity ?r"
    by (rule fr_idx_lt [OF fr_new_pow2])
  have slots: "fr_slots ?r ! i = (int i, None)" if "i < fr_capacity ?r" for i
    using that by (simp add: fr_new_def fr_capacity_def)
  have "fr_seq ?r p = int (fr_idx ?r p)"
    by (simp add: fr_seq_def slots [OF lt])
  also have "\<dots> = p mod int (fr_capacity ?r)"
    by (simp add: fr_idx_def mask_slot_mod [OF k]) (simp add: k)
  finally show ?thesis .
qed

lemma fr_new_ends [simp]: "fr_tail (fr_new cap) = 0" "fr_head (fr_new cap) = 0"
  by (simp_all add: fr_new_def)

lemma fr_ok_new: "fr_ok (fr_new cap :: 'a ring)" and fr_abs_new: "fr_abs (fr_new cap :: 'a ring) = []"
  using fr_new_pow2 [where ?'a = 'a and cap = cap] by (simp_all add: fr_ok_def fr_new_seq fr_abs_def)

lemma length_fr_abs: "length (fr_abs r) = nat (fr_tail r - fr_head r)"
  by (simp add: fr_abs_def)

lemma fr_push_room:
  assumes ok: "fr_ok r" and room: "length (fr_abs r) < fr_capacity r"
  shows "\<exists>r'. fr_push (Suc fuel) r x = Some (Push_ok, r') \<and> fr_ok r' \<and> fr_abs r' = fr_abs r @ [x]
    \<and> fr_capacity r' = fr_capacity r"
proof -
  let ?p = "fr_tail r"
  let ?r' = "set_seq ?p (?p + 1) (set_data ?p x (r\<lparr>fr_tail := ?p + 1\<rparr>))"
  have pow: "fr_pow2 r" and lt: "?p < fr_head r + int (fr_capacity r)" "fr_head r \<le> ?p"
    using ok room by (auto simp: fr_ok_def length_fr_abs)
  then have seq: "fr_seq r ?p = ?p" using ok by (simp add: fr_ok_def)
  have other: "fr_idx r q \<noteq> fr_idx r ?p" if "q \<noteq> ?p" "fr_head r \<le> q" "q < fr_head r + int (fr_capacity r)" for q
    using fr_idx_eq [OF pow, of q ?p] that lt by auto
  have seqs: "fr_seq ?r' q = (if q = ?p then ?p + 1 else fr_seq r q)"
      "fr_data ?r' q = (if q = ?p then Some x else fr_data r q)"
    if "fr_head r \<le> q" "q < fr_head r + int (fr_capacity r)" for q
    using other [OF _ that] pow by (auto simp: ring_slots)
  have "fr_ok ?r'"
    using ok lt seqs by (auto simp: fr_ok_def)
  moreover have "fr_abs ?r' = fr_abs r @ [x]"
    using lt seqs by (simp add: fr_abs_def upto_rec2)
  moreover have "fr_push (Suc fuel) r x = Some (Push_ok, ?r')"
    using seq by (simp add: fr_push_def)
  ultimately show ?thesis by simp
qed

lemma fr_push_full:
  assumes ok: "fr_ok r" and full: "fr_capacity r \<le> length (fr_abs r)"
  shows "fr_push (Suc fuel) r x = Some (Push_full x, r)"
proof -
  let ?p = "fr_tail r"
  have pow: "fr_pow2 r" and t: "?p = fr_head r + int (fr_capacity r)"
    using ok full by (auto simp: fr_ok_def length_fr_abs)
  have "0 < fr_capacity r" using pow by (simp add: fr_pow2_def)
  then have "fr_seq r (fr_head r) = fr_head r + 1" using ok t by (simp add: fr_ok_def)
  moreover have "fr_seq r ?p = fr_seq r (fr_head r)"
    by (simp add: t fr_seq_def fr_idx_lap [OF pow])
  moreover have "2 \<le> fr_capacity r" using pow by (simp add: fr_pow2_def)
  ultimately show ?thesis by (simp add: fr_push_def t)
qed

lemma fr_pop_none:
  assumes ok: "fr_ok r" and "fr_abs r = []"
  shows "fr_pop (Suc fuel) r = Some (Pop_empty, r)"
proof -
  have t: "fr_tail r = fr_head r" using assms by (auto simp: fr_ok_def fr_abs_def)
  have "0 < fr_capacity r" using ok by (simp add: fr_ok_def fr_pow2_def)
  then have "fr_seq r (fr_head r) = fr_head r" using ok t by (simp add: fr_ok_def)
  then show ?thesis by (simp add: fr_pop_def)
qed

lemma fr_pop_first:
  assumes ok: "fr_ok r" and abs: "fr_abs r = x # xs"
  shows "\<exists>r'. fr_pop (Suc fuel) r = Some (Pop_ok x, r') \<and> fr_ok r' \<and> fr_abs r' = xs
    \<and> fr_capacity r' = fr_capacity r"
proof -
  let ?p = "fr_head r" and ?c = "int (fr_capacity r)"
  let ?r' = "set_seq ?p (?p + ?c) (r\<lparr>fr_head := ?p + 1\<rparr>)"
  have "0 < length (fr_abs r)" using abs by simp
  then have pow: "fr_pow2 r" and lt: "?p < fr_tail r" "fr_tail r \<le> ?p + ?c"
    using ok by (auto simp: fr_ok_def length_fr_abs)
  have c: "0 < ?c" using pow by (simp add: fr_pow2_def)
  have "fr_abs r = the (fr_data r ?p) # map (\<lambda>p. the (fr_data r p)) [?p + 1..fr_tail r - 1]"
    using lt by (simp add: fr_abs_def upto_rec1)
  with abs have xs: "x = the (fr_data r ?p)" "xs = map (\<lambda>p. the (fr_data r p)) [?p + 1..fr_tail r - 1]"
    by auto
  have p: "fr_seq r ?p = ?p + 1" "fr_data r ?p \<noteq> None" using ok lt by (auto simp: fr_ok_def)
  with xs(1) have x: "fr_data r ?p = Some x" by auto
  have same: "fr_idx r q = fr_idx r ?p \<longleftrightarrow> q = ?p + ?c" if "?p + 1 \<le> q" "q < ?p + 1 + ?c" for q
    using fr_idx_eq [OF pow, of q ?p] that c fr_idx_lap [OF pow, of ?p] by auto
  have seqs: "fr_seq ?r' q = (if q = ?p + ?c then ?p + ?c else fr_seq r q)" "fr_data ?r' q = fr_data r q"
    if "?p + 1 \<le> q" "q < ?p + 1 + ?c" for q
    using same [OF that] pow by (simp_all add: ring_slots)
  have "fr_ok ?r'"
    using ok lt seqs c by (auto simp: fr_ok_def)
  moreover have "fr_abs ?r' = xs"
    using pow by (simp add: fr_abs_def xs(2) ring_slots)
  moreover have "fr_pop (Suc fuel) r = Some (Pop_ok x, ?r')"
    using p(1) x by (simp add: fr_pop_def)
  ultimately show ?thesis by simp
qed

lemma fr_drop_abs: "fr_ok r \<Longrightarrow> fr_drop r = map Some (fr_abs r)"
proof -
  assume ok: "fr_ok r"
  then have "filter (\<lambda>p. fr_seq r p = p + 1) [fr_head r..fr_tail r - 1] = [fr_head r..fr_tail r - 1]"
    by (simp add: fr_ok_def)
  with ok show ?thesis by (auto simp: fr_drop_def fr_abs_def fr_ok_def)
qed

section \<open>The ring as a bounded queue\<close>

datatype 'a queue_op = Q_push 'a | Q_pop

datatype 'a queue_answer = Push_answer "'a push_result" | Pop_answer "'a pop_result" | Unanswered

fun queue_spec :: "nat \<Rightarrow> 'a queue_op \<Rightarrow> 'a list \<Rightarrow> 'a queue_answer \<times> 'a list" where
  "queue_spec cap (Q_push x) xs =
     (if length xs < cap then (Push_answer Push_ok, xs @ [x]) else (Push_answer (Push_full x), xs))"
| "queue_spec cap Q_pop [] = (Pop_answer Pop_empty, [])"
| "queue_spec cap Q_pop (x # xs) = (Pop_answer (Pop_ok x), xs)"

text \<open>
  One operation on a queue whose loops carry fuel; \<open>Unanswered\<close> is running out of it.
\<close>

fun queue_apply :: "('q \<Rightarrow> 'a \<Rightarrow> ('a push_result \<times> 'q) option) \<Rightarrow> ('q \<Rightarrow> ('a pop_result \<times> 'q) option) \<Rightarrow>
    'a queue_op \<Rightarrow> 'q \<Rightarrow> 'a queue_answer \<times> 'q" where
  "queue_apply push pop (Q_push x) q =
     (case push q x of Some (a, q') \<Rightarrow> (Push_answer a, q') | None \<Rightarrow> (Unanswered, q))"
| "queue_apply push pop Q_pop q =
     (case pop q of Some (a, q') \<Rightarrow> (Pop_answer a, q') | None \<Rightarrow> (Unanswered, q))"

abbreviation fr_apply :: "nat \<Rightarrow> 'a queue_op \<Rightarrow> 'a ring \<Rightarrow> 'a queue_answer \<times> 'a ring" where
  "fr_apply fuel \<equiv> queue_apply (fr_push (Suc fuel)) (fr_pop (Suc fuel))"

section \<open>The contract of a bounded queue\<close>

locale bounded_queue =
  fixes push :: "'q \<Rightarrow> 'a \<Rightarrow> ('a push_result \<times> 'q) option"
    and pop :: "'q \<Rightarrow> ('a pop_result \<times> 'q) option"
    and abs :: "'q \<Rightarrow> 'a list" and ok :: "'q \<Rightarrow> bool" and cap :: "'q \<Rightarrow> nat"
  assumes push_room: "ok q \<Longrightarrow> length (abs q) < cap q \<Longrightarrow>
      \<exists>q'. push q x = Some (Push_ok, q') \<and> ok q' \<and> abs q' = abs q @ [x] \<and> cap q' = cap q"
    and push_full: "ok q \<Longrightarrow> cap q \<le> length (abs q) \<Longrightarrow> push q x = Some (Push_full x, q)"
    and pop_none: "ok q \<Longrightarrow> abs q = [] \<Longrightarrow> pop q = Some (Pop_empty, q)"
    and pop_first: "ok q \<Longrightarrow> abs q = x # xs \<Longrightarrow>
      \<exists>q'. pop q = Some (Pop_ok x, q') \<and> ok q' \<and> abs q' = xs \<and> cap q' = cap q"
begin

lemma apply_refines:
  assumes "ok q"
  shows "ok (snd (queue_apply push pop op q)) \<and> cap (snd (queue_apply push pop op q)) = cap q
    \<and> queue_spec (cap q) op (abs q) =
        (fst (queue_apply push pop op q), abs (snd (queue_apply push pop op q)))"
proof (cases op)
  case (Q_push x)
  then show ?thesis
    using push_room [OF assms, of x] push_full [OF assms, of x] assms
    by (cases "length (abs q) < cap q") auto
next
  case Q_pop
  show ?thesis
  proof (cases "abs q")
    case Nil
    with Q_pop pop_none [OF assms] show ?thesis by (simp add: assms)
  next
    case (Cons x xs)
    from Q_pop Cons pop_first [OF assms Cons] show ?thesis by auto
  qed
qed

lemma run_refines:
  assumes "ok q"
  shows "run_ops (queue_spec (cap q)) ops (abs q) =
    (fst (run_ops (queue_apply push pop) ops q), abs (snd (run_ops (queue_apply push pop) ops q)))"
  using run_ops_simulates [where ok = "\<lambda>c. ok c \<and> cap c = cap q" and view = abs
      and f = "queue_apply push pop" and g = "queue_spec (cap q)"] apply_refines assms
  by (metis (no_types, lifting))

fun push_all :: "'q \<Rightarrow> 'a list \<Rightarrow> 'q option" where
  "push_all q [] = Some q"
| "push_all q (x # xs) =
     (case push q x of Some (Push_ok, q') \<Rightarrow> push_all q' xs | _ \<Rightarrow> None)"

fun pop_all :: "nat \<Rightarrow> 'q \<Rightarrow> ('a list \<times> 'q) option" where
  "pop_all 0 q = Some ([], q)"
| "pop_all (Suc n) q =
     (case pop q of
        Some (Pop_ok x, q') \<Rightarrow> map_option (\<lambda>(xs, q''). (x # xs, q'')) (pop_all n q')
      | _ \<Rightarrow> None)"

lemma push_all_abs:
  "ok q \<Longrightarrow> length (abs q) + length xs \<le> cap q \<Longrightarrow>
   \<exists>q'. push_all q xs = Some q' \<and> ok q' \<and> abs q' = abs q @ xs \<and> cap q' = cap q"
proof (induction xs arbitrary: q)
  case (Cons x xs)
  obtain q1 where q1: "push q x = Some (Push_ok, q1)" "ok q1" "abs q1 = abs q @ [x]" "cap q1 = cap q"
    using push_room [OF Cons.prems(1), of x] Cons.prems(2) by auto
  with Cons.IH [OF q1(2)] Cons.prems(2) show ?case by simp
qed simp

lemma pop_all_abs:
  "ok q \<Longrightarrow> \<exists>q'. pop_all (length (abs q)) q = Some (abs q, q') \<and> ok q' \<and> abs q' = [] \<and> cap q' = cap q"
proof (induction "abs q" arbitrary: q)
  case (Cons x xs)
  obtain q1 where q1: "pop q = Some (Pop_ok x, q1)" "ok q1" "abs q1 = xs" "cap q1 = cap q"
    using pop_first [OF Cons.prems Cons.hyps(2) [symmetric]] by blast
  from Cons.hyps(1) [OF q1(3) [symmetric] q1(2)] q1 show ?case
    by (auto simp: Cons.hyps(2) [symmetric])
qed auto

lemma fifo:
  assumes "ok q" and "abs q = []" and "length xs \<le> cap q"
  shows "\<exists>q1 q2. push_all q xs = Some q1 \<and> pop_all (length xs) q1 = Some (xs, q2) \<and> abs q2 = []"
proof -
  obtain q1 where "push_all q xs = Some q1" "ok q1" "abs q1 = xs"
    using push_all_abs [OF assms(1), of xs] assms(2,3) by auto
  with pop_all_abs [of q1] show ?thesis by auto
qed

end

interpretation ring: bounded_queue "fr_push (Suc fuel)" "fr_pop (Suc fuel)" fr_abs fr_ok fr_capacity
  by unfold_locales (fact fr_push_room fr_push_full fr_pop_none fr_pop_first)+

end
