(* ===== verification/Ring_Race.thy ===== *)
theory Ring_Race
  imports Flynnel_Ring
begin

text \<open>
  The ring of \<open>src/src/sched/flynnel_ring.rs\<close> under contention: any number of threads,
  each inside \<open>push\<close>, \<open>pop\<close>, \<open>push_blocking\<close> or \<open>pop_blocking\<close>, every atomic access and
  every access to a slot's data a step of its own, interleaved in any order and taken as
  sequentially consistent. The weak compare-exchange may fail spuriously. Two ghost maps
  record what was published and what was read at each ticket (position).
\<close>

section \<open>Threads\<close>

datatype 'a ring_pc =
    R_idle
  | Push_seq 'a int
  | Push_cas 'a int
  | Push_reload 'a
  | Push_wait 'a int
  | Push_write 'a int
  | Push_store 'a int
  | Pop_seq int
  | Pop_cas int
  | Pop_reload
  | Pop_wait int
  | Pop_read int
  | Pop_store 'a int
  | R_undefined

record 'a ring_race =
  rr_ring :: "'a ring"
  rr_threads :: "'a ring_pc list"
  rr_in :: "int \<rightharpoonup> 'a"
  rr_out :: "int \<rightharpoonup> 'a"

definition ring_race_start :: "nat \<Rightarrow> nat \<Rightarrow> 'a ring_race" where
  "ring_race_start cap n =
     \<lparr>rr_ring = fr_new cap, rr_threads = replicate n R_idle, rr_in = Map.empty, rr_out = Map.empty\<rparr>"

definition ring_goto :: "nat \<Rightarrow> 'a ring_pc \<Rightarrow> 'a ring_race \<Rightarrow> 'a ring_race" where
  "ring_goto i pc s = s\<lparr>rr_threads := (rr_threads s)[i := pc]\<rparr>"

text \<open>The first access of each operation: a load of its counter, or the fetch-and-add.\<close>

definition ring_start_push :: "nat \<Rightarrow> 'a \<Rightarrow> 'a ring_race \<Rightarrow> 'a ring_race" where
  "ring_start_push i x s = ring_goto i (Push_seq x (fr_tail (rr_ring s))) s"

definition ring_start_pop :: "nat \<Rightarrow> 'a ring_race \<Rightarrow> 'a ring_race" where
  "ring_start_pop i s = ring_goto i (Pop_seq (fr_head (rr_ring s))) s"

definition ring_start_push_blocking :: "nat \<Rightarrow> 'a \<Rightarrow> 'a ring_race \<Rightarrow> 'a ring_race" where
  "ring_start_push_blocking i x s =
     (let r = rr_ring s; pos = fr_tail r
      in (ring_goto i (Push_wait x pos) s)\<lparr>rr_ring := r\<lparr>fr_tail := pos + 1\<rparr>\<rparr>)"

definition ring_start_pop_blocking :: "nat \<Rightarrow> 'a ring_race \<Rightarrow> 'a ring_race" where
  "ring_start_pop_blocking i s =
     (let r = rr_ring s; pos = fr_head r
      in (ring_goto i (Pop_wait pos) s)\<lparr>rr_ring := r\<lparr>fr_head := pos + 1\<rparr>\<rparr>)"

definition ring_thread_step :: "nat \<Rightarrow> 'a ring_race \<Rightarrow> 'a ring_race" where
  "ring_thread_step i s =
     (let r = rr_ring s
      in case rr_threads s ! i of
           R_idle \<Rightarrow> s
         | Push_seq x pos \<Rightarrow>
             let diff = fr_seq r pos - pos
             in if diff = 0 then ring_goto i (Push_cas x pos) s
                else if diff < 0 then ring_goto i R_idle s
                else ring_goto i (Push_reload x) s
         | Push_cas x pos \<Rightarrow>
             if fr_tail r = pos
             then (ring_goto i (Push_write x pos) s)\<lparr>rr_ring := r\<lparr>fr_tail := pos + 1\<rparr>\<rparr>
             else ring_goto i (Push_seq x (fr_tail r)) s
         | Push_reload x \<Rightarrow> ring_goto i (Push_seq x (fr_tail r)) s
         | Push_wait x pos \<Rightarrow> if fr_seq r pos = pos then ring_goto i (Push_write x pos) s else s
         | Push_write x pos \<Rightarrow> (ring_goto i (Push_store x pos) s)\<lparr>rr_ring := set_data pos x r\<rparr>
         | Push_store x pos \<Rightarrow>
             (ring_goto i R_idle s)\<lparr>rr_ring := set_seq pos (pos + 1) r, rr_in := (rr_in s)(pos \<mapsto> x)\<rparr>
         | Pop_seq pos \<Rightarrow>
             let diff = fr_seq r pos - (pos + 1)
             in if diff = 0 then ring_goto i (Pop_cas pos) s
                else if diff < 0 then ring_goto i R_idle s
                else ring_goto i Pop_reload s
         | Pop_cas pos \<Rightarrow>
             if fr_head r = pos
             then (ring_goto i (Pop_read pos) s)\<lparr>rr_ring := r\<lparr>fr_head := pos + 1\<rparr>\<rparr>
             else ring_goto i (Pop_seq (fr_head r)) s
         | Pop_reload \<Rightarrow> ring_goto i (Pop_seq (fr_head r)) s
         | Pop_wait pos \<Rightarrow> if fr_seq r pos = pos + 1 then ring_goto i (Pop_read pos) s else s
         | Pop_read pos \<Rightarrow>
             (case fr_data r pos of
                None \<Rightarrow> ring_goto i R_undefined s
              | Some x \<Rightarrow> (ring_goto i (Pop_store x pos) s)\<lparr>rr_out := (rr_out s)(pos \<mapsto> x)\<rparr>)
         | Pop_store x pos \<Rightarrow>
             (ring_goto i R_idle s)\<lparr>rr_ring := set_seq pos (pos + int (fr_capacity r)) r\<rparr>
         | R_undefined \<Rightarrow> s)"

text \<open>A spurious failure of the weak exchange reloads the counter, as a real one does.\<close>

definition spurious_failure :: "nat \<Rightarrow> 'a ring_race \<Rightarrow> 'a ring_race" where
  "spurious_failure i s =
     (case rr_threads s ! i of
        Push_cas x pos \<Rightarrow> ring_goto i (Push_seq x (fr_tail (rr_ring s))) s
      | Pop_cas pos \<Rightarrow> ring_goto i (Pop_seq (fr_head (rr_ring s))) s
      | _ \<Rightarrow> s)"

inductive ring_step :: "'a ring_race \<Rightarrow> 'a ring_race \<Rightarrow> bool" where
  rs_push: "i < length (rr_threads s) \<Longrightarrow> rr_threads s ! i = R_idle \<Longrightarrow> ring_step s (ring_start_push i x s)"
| rs_pop: "i < length (rr_threads s) \<Longrightarrow> rr_threads s ! i = R_idle \<Longrightarrow> ring_step s (ring_start_pop i s)"
| rs_push_blocking:
    "i < length (rr_threads s) \<Longrightarrow> rr_threads s ! i = R_idle \<Longrightarrow> ring_step s (ring_start_push_blocking i x s)"
| rs_pop_blocking:
    "i < length (rr_threads s) \<Longrightarrow> rr_threads s ! i = R_idle \<Longrightarrow> ring_step s (ring_start_pop_blocking i s)"
| rs_thread: "i < length (rr_threads s) \<Longrightarrow> ring_step s (ring_thread_step i s)"
| rs_spurious: "i < length (rr_threads s) \<Longrightarrow> ring_step s (spurious_failure i s)"

section \<open>Tickets\<close>

text \<open>
  A producer holds the ticket it claimed until it stores the slot's sequence number, and a
  consumer likewise. \<open>P\<close> and \<open>C\<close> are the tickets held.
\<close>

fun push_ticket :: "'a ring_pc \<Rightarrow> int option" where
  "push_ticket (Push_wait x pos) = Some pos"
| "push_ticket (Push_write x pos) = Some pos"
| "push_ticket (Push_store x pos) = Some pos"
| "push_ticket pc = None"

fun pop_ticket :: "'a ring_pc \<Rightarrow> int option" where
  "pop_ticket (Pop_wait pos) = Some pos"
| "pop_ticket (Pop_read pos) = Some pos"
| "pop_ticket (Pop_store x pos) = Some pos"
| "pop_ticket pc = None"

definition producers_ok :: "'a ring \<Rightarrow> (int \<rightharpoonup> 'a) \<Rightarrow> int set \<Rightarrow> bool" where
  "producers_ok r ins P \<longleftrightarrow>
     (\<forall>q. q < fr_tail r \<longrightarrow> q \<notin> P \<longrightarrow> q < fr_seq r q \<and> (0 \<le> q \<longrightarrow> ins q \<noteq> None))
     \<and> (\<forall>q. fr_tail r \<le> q \<or> q \<in> P \<longrightarrow> fr_seq r q \<le> q \<and> ins q = None)
     \<and> (\<forall>q \<in> P. q < fr_tail r)"

definition consumers_ok :: "'a ring \<Rightarrow> (int \<rightharpoonup> 'a) \<Rightarrow> int set \<Rightarrow> bool" where
  "consumers_ok r outs C \<longleftrightarrow>
     (\<forall>q. q < fr_head r \<longrightarrow> q \<notin> C \<longrightarrow> q + int (fr_capacity r) \<le> fr_seq r q \<and> (0 \<le> q \<longrightarrow> outs q \<noteq> None))
     \<and> (\<forall>q. fr_head r \<le> q \<or> q \<in> C \<longrightarrow> fr_seq r q \<le> q + 1)
     \<and> (\<forall>q. fr_head r \<le> q \<longrightarrow> outs q = None)
     \<and> (\<forall>q \<in> C. q < fr_head r)"

definition contents_ok :: "'a ring \<Rightarrow> (int \<rightharpoonup> 'a) \<Rightarrow> (int \<rightharpoonup> 'a) \<Rightarrow> bool" where
  "contents_ok r ins outs \<longleftrightarrow>
     outs \<subseteq>\<^sub>m ins \<and> (\<forall>q < 0. ins q = None)
     \<and> (\<forall>q. fr_seq r q = q + 1 \<longrightarrow> fr_data r q = ins q \<and> ins q \<noteq> None)"

definition ring_inv ::
  "'a ring \<Rightarrow> (int \<rightharpoonup> 'a) \<Rightarrow> (int \<rightharpoonup> 'a) \<Rightarrow> int set \<Rightarrow> int set \<Rightarrow> bool" where
  "ring_inv r ins outs P C \<longleftrightarrow>
     fr_pow2 r \<and> producers_ok r ins P \<and> consumers_ok r outs C \<and> contents_ok r ins outs"

lemma ring_inv_new: "ring_inv (fr_new cap :: 'a ring) Map.empty Map.empty {} {}"
proof -
  let ?r = "fr_new cap :: 'a ring"
  let ?c = "int (fr_capacity ?r)"
  have c: "2 \<le> ?c" using fr_new_pow2 [where ?'a = 'a and cap = cap] by (simp add: fr_pow2_def)
  have le: "q mod ?c \<le> q" if "0 \<le> q" for q using that c by (simp add: zmod_le_nonneg_dividend)
  have neg: "q + ?c \<le> q mod ?c" if "q < 0" for q
  proof -
    have "q div ?c < 0" using that c by (subst pos_imp_zdiv_neg_iff) linarith+
    then have "q div ?c \<le> - 1" by simp
    then have "?c * (q div ?c) \<le> ?c * (- 1)" using c by (intro mult_left_mono) auto
    then show ?thesis using mult_div_mod_eq [of ?c q] by linarith
  qed
  have nofull: "q mod ?c \<noteq> q + 1" for q
    using neg [of q] le [of q] c by (cases "q < 0") auto
  show ?thesis
    using fr_new_pow2 [where ?'a = 'a and cap = cap] c le neg nofull
    by (force simp: ring_inv_def producers_ok_def consumers_ok_def contents_ok_def fr_new_seq)
qed

section \<open>What each access does to the ring\<close>

lemma claim_push:
  assumes "ring_inv r ins outs P C"
  shows "ring_inv (r\<lparr>fr_tail := fr_tail r + 1\<rparr>) ins outs (insert (fr_tail r) P) C"
  using assms
  by (auto simp: ring_inv_def producers_ok_def consumers_ok_def contents_ok_def)

lemma claim_pop:
  assumes "ring_inv r ins outs P C"
  shows "ring_inv (r\<lparr>fr_head := fr_head r + 1\<rparr>) ins outs P (insert (fr_head r) C)"
  using assms
  by (auto simp: ring_inv_def producers_ok_def consumers_ok_def contents_ok_def)

text \<open>Two tickets less than a lap apart do not share a slot.\<close>

lemma near_ticket:
  assumes "fr_pow2 r" and "fr_idx r q = fr_idx r p" and "\<bar>q - p\<bar> < 2"
  shows "q = p"
  using fr_idx_eq [OF assms(1,2)] assms(1,3) by (auto simp: fr_pow2_def)

lemma fr_seq_cong: "fr_idx r q = fr_idx r p \<Longrightarrow> fr_seq r q = fr_seq r p"
  by (simp add: fr_seq_def)

lemma write_data:
  assumes inv: "ring_inv r ins outs P C" and p: "fr_seq r p = p"
  shows "ring_inv (set_data p x r) ins outs P C"
proof -
  have pow: "fr_pow2 r" using inv by (simp add: ring_inv_def)
  have "fr_idx r q \<noteq> fr_idx r p" if "fr_seq r q = q + 1" for q
    using near_ticket [OF pow, of q p] fr_seq_cong [of r q p] that p by auto
  with inv pow show ?thesis
    by (auto simp: ring_inv_def producers_ok_def consumers_ok_def contents_ok_def ring_slots)
qed

lemma publish:
  assumes inv: "ring_inv r ins outs P C" and p: "p \<in> P" "fr_seq r p = p" "fr_data r p = Some x" "0 \<le> p"
  shows "ring_inv (set_seq p (p + 1) r) (ins(p \<mapsto> x)) outs (P - {p}) C"
proof -
  let ?r' = "set_seq p (p + 1) r" and ?c = "int (fr_capacity r)"
  have pow: "fr_pow2 r" and c: "2 \<le> ?c" using inv by (auto simp: ring_inv_def fr_pow2_def)
  have prod: "producers_ok r ins P" and cons: "consumers_ok r outs C" and cont: "contents_ok r ins outs"
    using inv by (simp_all add: ring_inv_def)
  have seq: "fr_seq ?r' q = (if fr_idx r q = fr_idx r p then p + 1 else fr_seq r q)" for q
    by (rule fr_seq_set_seq [OF pow])
  have lap: "q = p \<or> q + ?c \<le> p \<or> p + ?c \<le> q" "fr_seq r q = p" if "fr_idx r q = fr_idx r p" for q
    using fr_idx_eq [OF pow that] fr_seq_cong [OF that] p(2) by auto
  have prod1: "q < fr_seq r q \<and> (0 \<le> q \<longrightarrow> ins q \<noteq> None)" if "q < fr_tail r" "q \<notin> P" for q
    using prod that by (simp add: producers_ok_def)
  have prod2: "fr_seq r q \<le> q \<and> ins q = None" if "fr_tail r \<le> q \<or> q \<in> P" for q
    using prod that by (auto simp: producers_ok_def)
  have pt: "p < fr_tail r" using prod p(1) by (simp add: producers_ok_def)
  have "producers_ok ?r' (ins(p \<mapsto> x)) (P - {p})"
    unfolding producers_ok_def
  proof (intro conjI allI impI ballI)
    fix q
    assume q: "q < fr_tail ?r'" "q \<notin> P - {p}"
    then show "q < fr_seq ?r' q"
      using prod1 [of q] lap [of q] c by (cases "q = p") (auto simp: seq)
    show "(ins(p \<mapsto> x)) q \<noteq> None" if "0 \<le> q"
      using prod1 [of q] q that by auto
  next
    fix q
    assume q: "fr_tail ?r' \<le> q \<or> q \<in> P - {p}"
    then have "q \<noteq> p" using pt by auto
    with q show "fr_seq ?r' q \<le> q" and "(ins(p \<mapsto> x)) q = None"
      using prod2 [of q] lap [of q] c by (auto simp: seq)
  next
    fix q assume "q \<in> P - {p}"
    then show "q < fr_tail ?r'" using prod by (simp add: producers_ok_def)
  qed
  moreover have "consumers_ok ?r' outs C"
    unfolding consumers_ok_def
  proof (intro conjI allI impI ballI)
    fix q
    assume q: "q < fr_head ?r'" "q \<notin> C"
    then have old: "q + ?c \<le> fr_seq r q \<and> (0 \<le> q \<longrightarrow> outs q \<noteq> None)"
      using cons by (simp add: consumers_ok_def)
    then show "q + int (fr_capacity ?r') \<le> fr_seq ?r' q"
      using lap(2) [of q] by (auto simp: seq)
    show "outs q \<noteq> None" if "0 \<le> q" using old that by simp
  next
    fix q
    assume "fr_head ?r' \<le> q \<or> q \<in> C"
    then have "fr_seq r q \<le> q + 1" using cons by (auto simp: consumers_ok_def)
    then show "fr_seq ?r' q \<le> q + 1"
      using lap [of q] c by (auto simp: seq)
  qed (use cons in \<open>simp_all add: consumers_ok_def\<close>)
  moreover have "contents_ok ?r' (ins(p \<mapsto> x)) outs"
  proof -
    have "outs \<subseteq>\<^sub>m ins" using cont by (simp add: contents_ok_def)
    moreover have "outs p = None"
      using \<open>outs \<subseteq>\<^sub>m ins\<close> prod2 [of p] p(1) by (cases "outs p") (auto simp: map_le_def dom_def)
    ultimately have "outs \<subseteq>\<^sub>m ins(p \<mapsto> x)" by (auto simp: map_le_def)
    moreover have "fr_data ?r' q = (ins(p \<mapsto> x)) q \<and> (ins(p \<mapsto> x)) q \<noteq> None"
      if full: "fr_seq ?r' q = q + 1" for q
    proof (cases "fr_idx r q = fr_idx r p")
      case True
      with full have "q = p" by (simp add: seq)
      with p(3) show ?thesis by (simp add: fr_data_set_seq [OF pow])
    next
      case False
      then have "q \<noteq> p" by auto
      with False full cont show ?thesis by (simp add: seq contents_ok_def fr_data_set_seq [OF pow])
    qed
    ultimately show ?thesis using cont p(4) by (simp add: contents_ok_def)
  qed
  ultimately show ?thesis using pow by (simp add: ring_inv_def)
qed

lemma read_item:
  assumes inv: "ring_inv r ins outs P C" and p: "p \<in> C" "fr_seq r p = p + 1" "fr_data r p = Some x"
  shows "ring_inv r ins (outs(p \<mapsto> x)) P C"
proof -
  have "ins p = Some x" using inv p by (auto simp: ring_inv_def contents_ok_def)
  with inv p show ?thesis
    by (auto simp: ring_inv_def consumers_ok_def contents_ok_def map_le_def)
qed

lemma release:
  assumes inv: "ring_inv r ins outs P C" and p: "p \<in> C" "fr_seq r p = p + 1" "outs p \<noteq> None"
  shows "ring_inv (set_seq p (p + int (fr_capacity r)) r) ins outs P (C - {p})"
proof -
  let ?c = "int (fr_capacity r)"
  let ?r' = "set_seq p (p + ?c) r"
  have pow: "fr_pow2 r" and c: "2 \<le> ?c" using inv by (auto simp: ring_inv_def fr_pow2_def)
  have prod: "producers_ok r ins P" and cons: "consumers_ok r outs C" and cont: "contents_ok r ins outs"
    using inv by (simp_all add: ring_inv_def)
  have seq: "fr_seq ?r' q = (if fr_idx r q = fr_idx r p then p + ?c else fr_seq r q)" for q
    by (rule fr_seq_set_seq [OF pow])
  have lap: "q = p \<or> q + ?c \<le> p \<or> p + ?c \<le> q" "fr_seq r q = p + 1" if "fr_idx r q = fr_idx r p" for q
    using fr_idx_eq [OF pow that] fr_seq_cong [OF that] p(2) by auto
  have ph: "p < fr_head r" using cons p(1) by (simp add: consumers_ok_def)
  have "producers_ok ?r' ins P"
    unfolding producers_ok_def
  proof (intro conjI allI impI ballI)
    fix q
    assume q: "q < fr_tail ?r'" "q \<notin> P"
    then have old: "q < fr_seq r q \<and> (0 \<le> q \<longrightarrow> ins q \<noteq> None)"
      using prod by (simp add: producers_ok_def)
    then show "q < fr_seq ?r' q"
      using lap [of q] c by (auto simp: seq)
    show "ins q \<noteq> None" if "0 \<le> q" using old that by simp
  next
    fix q
    assume q: "fr_tail ?r' \<le> q \<or> q \<in> P"
    then have old: "fr_seq r q \<le> q \<and> ins q = None"
      using prod by (auto simp: producers_ok_def)
    then show "fr_seq ?r' q \<le> q" and "ins q = None"
      using lap [of q] c by (auto simp: seq)
  qed (use prod in \<open>simp add: producers_ok_def\<close>)
  moreover have "consumers_ok ?r' outs (C - {p})"
    unfolding consumers_ok_def
  proof (intro conjI allI impI ballI)
    fix q
    assume q: "q < fr_head ?r'" "q \<notin> C - {p}"
    then have old: "q \<noteq> p \<Longrightarrow> q + ?c \<le> fr_seq r q \<and> (0 \<le> q \<longrightarrow> outs q \<noteq> None)"
      using cons by (simp add: consumers_ok_def)
    then show "q + int (fr_capacity ?r') \<le> fr_seq ?r' q"
      using lap [of q] c by (cases "q = p") (auto simp: seq)
    show "outs q \<noteq> None" if "0 \<le> q" using old p(3) that by (cases "q = p") auto
  next
    fix q
    assume q: "fr_head ?r' \<le> q \<or> q \<in> C - {p}"
    then have "q \<noteq> p" "fr_seq r q \<le> q + 1" using cons ph by (auto simp: consumers_ok_def)
    then show "fr_seq ?r' q \<le> q + 1"
      using lap [of q] c by (auto simp: seq)
  qed (use cons in \<open>simp_all add: consumers_ok_def\<close>)
  moreover have "contents_ok ?r' ins outs"
  proof -
    have "fr_data ?r' q = ins q \<and> ins q \<noteq> None" if full: "fr_seq ?r' q = q + 1" for q
    proof (cases "fr_idx r q = fr_idx r p")
      case True
      with full have "q = p + ?c - 1" by (simp add: seq)
      with lap(1) [OF True] c show ?thesis by auto
    next
      case False
      with full cont show ?thesis by (simp add: seq contents_ok_def fr_data_set_seq [OF pow])
    qed
    with cont show ?thesis by (simp add: contents_ok_def)
  qed
  ultimately show ?thesis using pow by (simp add: ring_inv_def)
qed


section \<open>Threads and tickets\<close>

definition held :: "('a ring_pc \<Rightarrow> int option) \<Rightarrow> 'a ring_pc list \<Rightarrow> int set" where
  "held tk ts = {q. \<exists>i < length ts. tk (ts ! i) = Some q}"

definition apart :: "('a ring_pc \<Rightarrow> int option) \<Rightarrow> 'a ring_pc list \<Rightarrow> bool" where
  "apart tk ts \<longleftrightarrow>
     (\<forall>i < length ts. \<forall>j < length ts. i \<noteq> j \<longrightarrow> tk (ts ! i) \<noteq> None \<longrightarrow> tk (ts ! i) \<noteq> tk (ts ! j))"

fun pc_ok :: "'a ring \<Rightarrow> (int \<rightharpoonup> 'a) \<Rightarrow> 'a ring_pc \<Rightarrow> bool" where
  "pc_ok r outs (Push_seq x q) \<longleftrightarrow> 0 \<le> q"
| "pc_ok r outs (Push_cas x q) \<longleftrightarrow> 0 \<le> q \<and> q \<le> fr_seq r q"
| "pc_ok r outs (Push_wait x q) \<longleftrightarrow> 0 \<le> q"
| "pc_ok r outs (Push_write x q) \<longleftrightarrow> 0 \<le> q \<and> fr_seq r q = q"
| "pc_ok r outs (Push_store x q) \<longleftrightarrow> 0 \<le> q \<and> fr_seq r q = q \<and> fr_data r q = Some x"
| "pc_ok r outs (Pop_cas q) \<longleftrightarrow> q + 1 \<le> fr_seq r q"
| "pc_ok r outs (Pop_wait q) \<longleftrightarrow> outs q = None"
| "pc_ok r outs (Pop_read q) \<longleftrightarrow> fr_seq r q = q + 1 \<and> outs q = None"
| "pc_ok r outs (Pop_store x q) \<longleftrightarrow> fr_seq r q = q + 1 \<and> outs q = Some x"
| "pc_ok r outs R_undefined \<longleftrightarrow> False"
| "pc_ok r outs pc \<longleftrightarrow> True"

definition ring_race_ok :: "'a ring_race \<Rightarrow> bool" where
  "ring_race_ok s \<longleftrightarrow>
     ring_inv (rr_ring s) (rr_in s) (rr_out s) (held push_ticket (rr_threads s))
       (held pop_ticket (rr_threads s))
     \<and> apart push_ticket (rr_threads s) \<and> apart pop_ticket (rr_threads s)
     \<and> (\<forall>pc \<in> set (rr_threads s). pc_ok (rr_ring s) (rr_out s) pc)
     \<and> 0 \<le> fr_tail (rr_ring s)"

lemma held_update:
  assumes "i < length ts" and "apart tk ts"
  shows "held tk (ts[i := pc]) = (held tk ts - set_option (tk (ts ! i))) \<union> set_option (tk pc)"
proof (rule set_eqI)
  fix q
  have "q \<in> held tk (ts[i := pc]) \<longleftrightarrow>
      tk pc = Some q \<or> (\<exists>j < length ts. j \<noteq> i \<and> tk (ts ! j) = Some q)"
    using assms(1) by (auto simp: held_def nth_list_update)
  moreover have "(\<exists>j < length ts. j \<noteq> i \<and> tk (ts ! j) = Some q) \<longleftrightarrow>
      q \<in> held tk ts \<and> tk (ts ! i) \<noteq> Some q"
    using assms unfolding held_def apart_def by fastforce
  ultimately show "q \<in> held tk (ts[i := pc]) \<longleftrightarrow>
      q \<in> (held tk ts - set_option (tk (ts ! i))) \<union> set_option (tk pc)"
    by auto
qed

lemma apart_update:
  assumes "i < length ts" and "apart tk ts"
    and "tk pc = tk (ts ! i) \<or> tk pc = None \<or> (\<exists>q. tk pc = Some q \<and> q \<notin> held tk ts)"
  shows "apart tk (ts[i := pc])"
  using assms unfolding apart_def held_def
  by (auto simp: nth_list_update) metis+


lemma ring_race_okI:
  assumes ok: "ring_race_ok s" and i: "i < length (rr_threads s)" and old: "rr_threads s ! i = old"
    and inv: "ring_inv r ins outs
        ((held push_ticket (rr_threads s) - set_option (push_ticket old)) \<union> set_option (push_ticket pc))
        ((held pop_ticket (rr_threads s) - set_option (pop_ticket old)) \<union> set_option (pop_ticket pc))"
    and push: "push_ticket pc = push_ticket old \<or> push_ticket pc = None
        \<or> (\<exists>q. push_ticket pc = Some q \<and> q \<notin> held push_ticket (rr_threads s))"
    and pop: "pop_ticket pc = pop_ticket old \<or> pop_ticket pc = None
        \<or> (\<exists>q. pop_ticket pc = Some q \<and> q \<notin> held pop_ticket (rr_threads s))"
    and mine: "pc_ok r outs pc"
    and others: "\<And>j. j < length (rr_threads s) \<Longrightarrow> j \<noteq> i \<Longrightarrow>
        pc_ok (rr_ring s) (rr_out s) (rr_threads s ! j) \<Longrightarrow> pc_ok r outs (rr_threads s ! j)"
    and tail: "0 \<le> fr_tail r"
    and s': "rr_threads s' = (rr_threads s)[i := pc]" "rr_ring s' = r" "rr_in s' = ins" "rr_out s' = outs"
  shows "ring_race_ok s'"
proof -
  have ap: "apart push_ticket (rr_threads s)" "apart pop_ticket (rr_threads s)"
    using ok by (simp_all add: ring_race_ok_def)
  have "pc_ok r outs pc'" if mem: "pc' \<in> set (rr_threads s')" for pc'
  proof -
    obtain j where j: "j < length (rr_threads s)" "pc' = (rr_threads s)[i := pc] ! j"
      using mem s'(1) by (auto simp: in_set_conv_nth)
    show ?thesis
      using j mine others [OF j(1)] ok i by (cases "j = i") (auto simp: ring_race_ok_def)
  qed
  then show ?thesis
    using inv tail apart_update [OF i ap(1)] apart_update [OF i ap(2)] push pop
    by (simp add: ring_race_ok_def s' held_update [OF i ap(1)] held_update [OF i ap(2)] old)
qed

text \<open>A step that only moves the thread's program counter and keeps its tickets.\<close>

lemma ring_race_ok_goto:
  assumes ok: "ring_race_ok s" and i: "i < length (rr_threads s)"
    and push: "push_ticket pc = push_ticket (rr_threads s ! i)"
    and pop: "pop_ticket pc = pop_ticket (rr_threads s ! i)"
    and mine: "pc_ok (rr_ring s) (rr_out s) pc"
  shows "ring_race_ok (ring_goto i pc s)"
proof (rule ring_race_okI [OF ok i refl])
  have mem: "set_option (tk (rr_threads s ! i)) \<subseteq> held tk (rr_threads s)" for tk
    using i by (auto simp: held_def)
  then have "(held push_ticket (rr_threads s) - set_option (push_ticket (rr_threads s ! i)))
      \<union> set_option (push_ticket pc) = held push_ticket (rr_threads s)"
    and "(held pop_ticket (rr_threads s) - set_option (pop_ticket (rr_threads s ! i)))
      \<union> set_option (pop_ticket pc) = held pop_ticket (rr_threads s)"
    unfolding push pop by blast+
  then show "ring_inv (rr_ring s) (rr_in s) (rr_out s)
      ((held push_ticket (rr_threads s) - set_option (push_ticket (rr_threads s ! i)))
        \<union> set_option (push_ticket pc))
      ((held pop_ticket (rr_threads s) - set_option (pop_ticket (rr_threads s ! i)))
        \<union> set_option (pop_ticket pc))"
    using ok by (simp add: ring_race_ok_def)
qed (use assms in \<open>simp_all add: ring_goto_def ring_race_ok_def\<close>)

lemma pc_ok_ends:
  "pc_ok (r\<lparr>fr_tail := t\<rparr>) outs pc = pc_ok r outs pc"
  "pc_ok (r\<lparr>fr_head := t\<rparr>) outs pc = pc_ok r outs pc"
  by (cases pc; simp)+

lemma thread_ok_of:
  "ring_race_ok s \<Longrightarrow> i < length (rr_threads s) \<Longrightarrow> pc_ok (rr_ring s) (rr_out s) (rr_threads s ! i)"
  by (simp add: ring_race_ok_def)

lemma fresh_tickets:
  assumes "ring_race_ok s"
  shows "fr_tail (rr_ring s) \<notin> held push_ticket (rr_threads s)"
    and "fr_head (rr_ring s) \<notin> held pop_ticket (rr_threads s)"
    and "rr_out s (fr_head (rr_ring s)) = None"
  using assms by (auto simp: ring_race_ok_def ring_inv_def producers_ok_def consumers_ok_def)

lemma claim_push_step:
  assumes ok: "ring_race_ok s" and i: "i < length (rr_threads s)"
    and old: "push_ticket (rr_threads s ! i) = None" "pop_ticket (rr_threads s ! i) = None"
    and pc: "push_ticket pc = Some (fr_tail (rr_ring s))" "pop_ticket pc = None"
    and mine: "pc_ok (rr_ring s) (rr_out s) pc"
  shows "ring_race_ok ((ring_goto i pc s)\<lparr>rr_ring := (rr_ring s)\<lparr>fr_tail := fr_tail (rr_ring s) + 1\<rparr>\<rparr>)"
proof (rule ring_race_okI [OF ok i refl])
  show "ring_inv ((rr_ring s)\<lparr>fr_tail := fr_tail (rr_ring s) + 1\<rparr>) (rr_in s) (rr_out s)
      ((held push_ticket (rr_threads s) - set_option (push_ticket (rr_threads s ! i)))
        \<union> set_option (push_ticket pc))
      ((held pop_ticket (rr_threads s) - set_option (pop_ticket (rr_threads s ! i)))
        \<union> set_option (pop_ticket pc))"
    using claim_push [of "rr_ring s"] ok by (simp add: old pc ring_race_ok_def)
qed (use assms fresh_tickets [OF ok] in \<open>simp_all add: ring_goto_def ring_race_ok_def pc_ok_ends\<close>)

lemma claim_pop_step:
  assumes ok: "ring_race_ok s" and i: "i < length (rr_threads s)"
    and old: "push_ticket (rr_threads s ! i) = None" "pop_ticket (rr_threads s ! i) = None"
    and pc: "pop_ticket pc = Some (fr_head (rr_ring s))" "push_ticket pc = None"
    and mine: "pc_ok (rr_ring s) (rr_out s) pc"
  shows "ring_race_ok ((ring_goto i pc s)\<lparr>rr_ring := (rr_ring s)\<lparr>fr_head := fr_head (rr_ring s) + 1\<rparr>\<rparr>)"
proof (rule ring_race_okI [OF ok i refl])
  show "ring_inv ((rr_ring s)\<lparr>fr_head := fr_head (rr_ring s) + 1\<rparr>) (rr_in s) (rr_out s)
      ((held push_ticket (rr_threads s) - set_option (push_ticket (rr_threads s ! i)))
        \<union> set_option (push_ticket pc))
      ((held pop_ticket (rr_threads s) - set_option (pop_ticket (rr_threads s ! i)))
        \<union> set_option (pop_ticket pc))"
    using claim_pop [of "rr_ring s"] ok by (simp add: old pc ring_race_ok_def)
qed (use assms fresh_tickets [OF ok] in \<open>simp_all add: ring_goto_def ring_race_ok_def pc_ok_ends\<close>)


lemma other_ticket:
  assumes ok: "ring_race_ok s" and "i < length (rr_threads s)" "j < length (rr_threads s)" "j \<noteq> i"
  shows "push_ticket (rr_threads s ! i) = Some p \<Longrightarrow> push_ticket (rr_threads s ! j) \<noteq> Some p"
    and "pop_ticket (rr_threads s ! i) = Some p \<Longrightarrow> pop_ticket (rr_threads s ! j) \<noteq> Some p"
  using assms unfolding ring_race_ok_def apart_def by (metis option.distinct(1))+

lemma ticket_held:
  assumes "i < length (rr_threads s)"
  shows "push_ticket (rr_threads s ! i) = Some p \<Longrightarrow> p \<in> held push_ticket (rr_threads s)"
    and "pop_ticket (rr_threads s ! i) = Some p \<Longrightarrow> p \<in> held pop_ticket (rr_threads s)"
  using assms by (auto simp: held_def)

text \<open>
  What the accesses to one slot leave true of the other threads: while a ticket's slot is
  being written, published, or released, no other thread is at that slot.
\<close>

lemma pc_ok_write:
  assumes pow: "fr_pow2 r" and p: "fr_seq r p = p" and pc: "pc_ok r outs pc" "push_ticket pc \<noteq> Some p"
  shows "pc_ok (set_data p x r) outs pc"
proof (cases pc)
  case (Push_store y q)
  have "fr_idx r q \<noteq> fr_idx r p"
    using pc p fr_seq_cong [of r q p] by (auto simp: Push_store)
  with pc show ?thesis by (simp add: Push_store ring_slots [OF pow])
qed (use pc in \<open>simp_all add: ring_slots [OF pow]\<close>)

lemma pc_ok_publish:
  assumes pow: "fr_pow2 r" and p: "fr_seq r p = p" and pc: "pc_ok r outs pc" "push_ticket pc \<noteq> Some p"
  shows "pc_ok (set_seq p (p + 1) r) outs pc"
proof -
  have seq: "fr_seq (set_seq p (p + 1) r) q = (if fr_idx r q = fr_idx r p then p + 1 else fr_seq r q)" for q
    by (rule fr_seq_set_seq [OF pow])
  have at: "fr_seq r q = p" if "fr_idx r q = fr_idx r p" for q
    using fr_seq_cong [OF that] p by simp
  have near: "fr_idx r q \<noteq> fr_idx r p" if "fr_seq r q = q + 1" for q
    using near_ticket [OF pow, of q p] at [of q] that p by auto
  show ?thesis
  proof (cases pc)
    case (Pop_read q)
    with pc near [of q] show ?thesis by (simp add: seq)
  next
    case (Pop_store y q)
    with pc near [of q] show ?thesis by (simp add: seq)
  qed (use pc at in \<open>auto simp: seq fr_data_set_seq [OF pow]\<close>)
qed

lemma pc_ok_release:
  assumes pow: "fr_pow2 r" and p: "fr_seq r p = p + 1" and pc: "pc_ok r outs pc" "pop_ticket pc \<noteq> Some p"
  shows "pc_ok (set_seq p (p + int (fr_capacity r)) r) outs pc"
proof -
  let ?c = "int (fr_capacity r)"
  have c: "2 \<le> ?c" using pow by (simp add: fr_pow2_def)
  have seq: "fr_seq (set_seq p (p + ?c) r) q = (if fr_idx r q = fr_idx r p then p + ?c else fr_seq r q)" for q
    by (rule fr_seq_set_seq [OF pow])
  have at: "fr_seq r q = p + 1" if "fr_idx r q = fr_idx r p" for q
    using fr_seq_cong [OF that] p by simp
  have near: "fr_idx r q \<noteq> fr_idx r p" if "fr_seq r q = q" for q
    using near_ticket [OF pow, of q p] at [of q] that p by auto
  show ?thesis
  proof (cases pc)
    case (Push_write y q)
    with pc near [of q] show ?thesis by (simp add: seq)
  next
    case (Push_store y q)
    with pc near [of q] show ?thesis by (simp add: seq fr_data_set_seq [OF pow])
  qed (use pc at c in \<open>auto simp: seq\<close>)
qed

lemma write_step:
  assumes ok: "ring_race_ok s" and i: "i < length (rr_threads s)" and pc: "rr_threads s ! i = Push_write x p"
  shows "ring_race_ok ((ring_goto i (Push_store x p) s)\<lparr>rr_ring := set_data p x (rr_ring s)\<rparr>)"
proof (rule ring_race_okI [OF ok i refl])
  have inv: "ring_inv (rr_ring s) (rr_in s) (rr_out s) (held push_ticket (rr_threads s))
      (held pop_ticket (rr_threads s))" using ok by (simp add: ring_race_ok_def)
  then have pow: "fr_pow2 (rr_ring s)" by (simp add: ring_inv_def)
  have p: "fr_seq (rr_ring s) p = p" "0 \<le> p" using thread_ok_of [OF ok i] by (simp_all add: pc)
  have "p \<in> held push_ticket (rr_threads s)" using ticket_held(1) [OF i] by (simp add: pc)
  then have "insert p (held push_ticket (rr_threads s) - {p}) = held push_ticket (rr_threads s)" by auto
  with write_data [OF inv p(1)]
  show "ring_inv (set_data p x (rr_ring s)) (rr_in s) (rr_out s)
      ((held push_ticket (rr_threads s) - set_option (push_ticket (rr_threads s ! i)))
        \<union> set_option (push_ticket (Push_store x p)))
      ((held pop_ticket (rr_threads s) - set_option (pop_ticket (rr_threads s ! i)))
        \<union> set_option (pop_ticket (Push_store x p)))"
    by (simp add: pc)
  show "pc_ok (set_data p x (rr_ring s)) (rr_out s) (Push_store x p)"
    using p by (simp add: ring_slots [OF pow])
  show "pc_ok (set_data p x (rr_ring s)) (rr_out s) (rr_threads s ! j)"
    if "j < length (rr_threads s)" "j \<noteq> i" "pc_ok (rr_ring s) (rr_out s) (rr_threads s ! j)" for j
    using other_ticket(1) [OF ok i that(1,2), of p] that(3) pc
    by (intro pc_ok_write [OF pow p(1)]) simp_all
qed (use ok in \<open>simp_all add: ring_goto_def pc ring_race_ok_def\<close>)

lemma publish_step:
  assumes ok: "ring_race_ok s" and i: "i < length (rr_threads s)" and pc: "rr_threads s ! i = Push_store x p"
  shows "ring_race_ok ((ring_goto i R_idle s)\<lparr>rr_ring := set_seq p (p + 1) (rr_ring s), rr_in := (rr_in s)(p \<mapsto> x)\<rparr>)"
proof (rule ring_race_okI [OF ok i refl])
  have inv: "ring_inv (rr_ring s) (rr_in s) (rr_out s) (held push_ticket (rr_threads s))
      (held pop_ticket (rr_threads s))" using ok by (simp add: ring_race_ok_def)
  then have pow: "fr_pow2 (rr_ring s)" by (simp add: ring_inv_def)
  have p: "fr_seq (rr_ring s) p = p" "0 \<le> p" "fr_data (rr_ring s) p = Some x"
    using thread_ok_of [OF ok i] by (simp_all add: pc)
  have "p \<in> held push_ticket (rr_threads s)" using ticket_held(1) [OF i] by (simp add: pc)
  from publish [OF inv this p(1,3,2)]
  show "ring_inv (set_seq p (p + 1) (rr_ring s)) ((rr_in s)(p \<mapsto> x)) (rr_out s)
      ((held push_ticket (rr_threads s) - set_option (push_ticket (rr_threads s ! i)))
        \<union> set_option (push_ticket R_idle))
      ((held pop_ticket (rr_threads s) - set_option (pop_ticket (rr_threads s ! i)))
        \<union> set_option (pop_ticket R_idle))"
    by (simp add: pc)
  show "pc_ok (set_seq p (p + 1) (rr_ring s)) (rr_out s) (rr_threads s ! j)"
    if "j < length (rr_threads s)" "j \<noteq> i" "pc_ok (rr_ring s) (rr_out s) (rr_threads s ! j)" for j
    using other_ticket(1) [OF ok i that(1,2), of p] that(3) pc
    by (intro pc_ok_publish [OF pow p(1)]) simp_all
qed (use ok in \<open>simp_all add: ring_goto_def pc ring_race_ok_def\<close>)

lemma read_step:
  assumes ok: "ring_race_ok s" and i: "i < length (rr_threads s)" and pc: "rr_threads s ! i = Pop_read p"
    and x: "fr_data (rr_ring s) p = Some x"
  shows "ring_race_ok ((ring_goto i (Pop_store x p) s)\<lparr>rr_out := (rr_out s)(p \<mapsto> x)\<rparr>)"
proof (rule ring_race_okI [OF ok i refl])
  have inv: "ring_inv (rr_ring s) (rr_in s) (rr_out s) (held push_ticket (rr_threads s))
      (held pop_ticket (rr_threads s))" using ok by (simp add: ring_race_ok_def)
  have p: "fr_seq (rr_ring s) p = p + 1" using thread_ok_of [OF ok i] by (simp add: pc)
  have mem: "p \<in> held pop_ticket (rr_threads s)" using ticket_held(2) [OF i] by (simp add: pc)
  then have "insert p (held pop_ticket (rr_threads s) - {p}) = held pop_ticket (rr_threads s)" by auto
  with read_item [OF inv mem p x]
  show "ring_inv (rr_ring s) (rr_in s) ((rr_out s)(p \<mapsto> x))
      ((held push_ticket (rr_threads s) - set_option (push_ticket (rr_threads s ! i)))
        \<union> set_option (push_ticket (Pop_store x p)))
      ((held pop_ticket (rr_threads s) - set_option (pop_ticket (rr_threads s ! i)))
        \<union> set_option (pop_ticket (Pop_store x p)))"
    by (simp add: pc)
  show "pc_ok (rr_ring s) ((rr_out s)(p \<mapsto> x)) (Pop_store x p)" using p by simp
  show "pc_ok (rr_ring s) ((rr_out s)(p \<mapsto> x)) (rr_threads s ! j)"
    if "j < length (rr_threads s)" "j \<noteq> i" "pc_ok (rr_ring s) (rr_out s) (rr_threads s ! j)" for j
    using other_ticket(2) [OF ok i that(1,2), of p] that(3) pc
    by (cases "rr_threads s ! j") auto
qed (use ok in \<open>simp_all add: ring_goto_def pc ring_race_ok_def\<close>)

lemma release_step:
  assumes ok: "ring_race_ok s" and i: "i < length (rr_threads s)" and pc: "rr_threads s ! i = Pop_store x p"
  shows "ring_race_ok ((ring_goto i R_idle s)
    \<lparr>rr_ring := set_seq p (p + int (fr_capacity (rr_ring s))) (rr_ring s)\<rparr>)"
proof (rule ring_race_okI [OF ok i refl])
  let ?r' = "set_seq p (p + int (fr_capacity (rr_ring s))) (rr_ring s)"
  have inv: "ring_inv (rr_ring s) (rr_in s) (rr_out s) (held push_ticket (rr_threads s))
      (held pop_ticket (rr_threads s))" using ok by (simp add: ring_race_ok_def)
  then have pow: "fr_pow2 (rr_ring s)" by (simp add: ring_inv_def)
  have p: "fr_seq (rr_ring s) p = p + 1" "rr_out s p \<noteq> None"
    using thread_ok_of [OF ok i] by (simp_all add: pc)
  have "p \<in> held pop_ticket (rr_threads s)" using ticket_held(2) [OF i] by (simp add: pc)
  from release [OF inv this p]
  show "ring_inv ?r' (rr_in s) (rr_out s)
      ((held push_ticket (rr_threads s) - set_option (push_ticket (rr_threads s ! i)))
        \<union> set_option (push_ticket R_idle))
      ((held pop_ticket (rr_threads s) - set_option (pop_ticket (rr_threads s ! i)))
        \<union> set_option (pop_ticket R_idle))"
    by (simp add: pc)
  show "pc_ok ?r' (rr_out s) (rr_threads s ! j)"
    if "j < length (rr_threads s)" "j \<noteq> i" "pc_ok (rr_ring s) (rr_out s) (rr_threads s ! j)" for j
    using other_ticket(2) [OF ok i that(1,2), of p] that(3) pc
    by (intro pc_ok_release [OF pow p(1)]) simp_all
qed (use ok in \<open>simp_all add: ring_goto_def pc ring_race_ok_def\<close>)


section \<open>Every interleaving\<close>

lemma ring_race_ok_idle: "ring_race_ok s \<Longrightarrow> i < length (rr_threads s) \<Longrightarrow>
   push_ticket (rr_threads s ! i) = None \<Longrightarrow> pop_ticket (rr_threads s ! i) = None \<Longrightarrow>
   push_ticket pc = None \<Longrightarrow> pop_ticket pc = None \<Longrightarrow> pc_ok (rr_ring s) (rr_out s) pc \<Longrightarrow>
   ring_race_ok (ring_goto i pc s)"
  by (rule ring_race_ok_goto) simp_all

lemma tail_nonneg: "ring_race_ok s \<Longrightarrow> 0 \<le> fr_tail (rr_ring s)"
  by (simp add: ring_race_ok_def)

lemma won_push:
  assumes "ring_race_ok s" and "i < length (rr_threads s)" and "rr_threads s ! i = Push_cas x (fr_tail (rr_ring s))"
  shows "fr_seq (rr_ring s) (fr_tail (rr_ring s)) = fr_tail (rr_ring s)"
proof -
  have "fr_seq (rr_ring s) (fr_tail (rr_ring s)) \<le> fr_tail (rr_ring s)"
    using assms(1) by (simp add: ring_race_ok_def ring_inv_def producers_ok_def)
  with thread_ok_of [OF assms(1,2)] assms(3) show ?thesis by simp
qed

lemma won_pop:
  assumes "ring_race_ok s" and "i < length (rr_threads s)" and "rr_threads s ! i = Pop_cas (fr_head (rr_ring s))"
  shows "fr_seq (rr_ring s) (fr_head (rr_ring s)) = fr_head (rr_ring s) + 1"
proof -
  have "fr_seq (rr_ring s) (fr_head (rr_ring s)) \<le> fr_head (rr_ring s) + 1"
    using assms(1) by (simp add: ring_race_ok_def ring_inv_def consumers_ok_def)
  with thread_ok_of [OF assms(1,2)] assms(3) show ?thesis by simp
qed

lemma ring_thread_step_ok:
  assumes ok: "ring_race_ok s" and i: "i < length (rr_threads s)"
  shows "ring_race_ok (ring_thread_step i s)"
proof -
  note me = thread_ok_of [OF ok i] and idle = ring_race_ok_idle [OF ok i] and tail = tail_nonneg [OF ok]
  show ?thesis
  proof (cases "rr_threads s ! i")
    case R_idle
    then show ?thesis by (simp add: ring_thread_step_def ok)
  next
    case (Push_seq x p)
    with me show ?thesis by (auto simp: ring_thread_step_def Let_def intro!: idle)
  next
    case (Push_cas x p)
    show ?thesis
    proof (cases "fr_tail (rr_ring s) = p")
      case True
      with Push_cas won_push [OF ok i] tail
      have "ring_race_ok ((ring_goto i (Push_write x p) s)\<lparr>rr_ring := (rr_ring s)\<lparr>fr_tail := fr_tail (rr_ring s) + 1\<rparr>\<rparr>)"
        by (intro claim_push_step [OF ok i]) auto
      with True Push_cas show ?thesis by (simp add: ring_thread_step_def)
    next
      case False
      with Push_cas tail show ?thesis by (auto simp: ring_thread_step_def intro!: idle)
    qed
  next
    case (Push_reload x)
    with tail show ?thesis by (auto simp: ring_thread_step_def intro!: idle)
  next
    case (Push_wait x p)
    with me show ?thesis
      by (auto simp: ring_thread_step_def ok intro!: ring_race_ok_goto [OF ok i])
  next
    case (Push_write x p)
    with write_step [OF ok i] show ?thesis by (simp add: ring_thread_step_def)
  next
    case (Push_store x p)
    with publish_step [OF ok i] show ?thesis by (simp add: ring_thread_step_def)
  next
    case (Pop_seq p)
    with me show ?thesis by (auto simp: ring_thread_step_def Let_def intro!: idle)
  next
    case (Pop_cas p)
    show ?thesis
    proof (cases "fr_head (rr_ring s) = p")
      case True
      with Pop_cas won_pop [OF ok i] fresh_tickets(3) [OF ok]
      have "ring_race_ok ((ring_goto i (Pop_read p) s)\<lparr>rr_ring := (rr_ring s)\<lparr>fr_head := fr_head (rr_ring s) + 1\<rparr>\<rparr>)"
        by (intro claim_pop_step [OF ok i]) auto
      with True Pop_cas show ?thesis by (simp add: ring_thread_step_def)
    next
      case False
      with Pop_cas show ?thesis by (auto simp: ring_thread_step_def intro!: idle)
    qed
  next
    case Pop_reload
    then show ?thesis by (auto simp: ring_thread_step_def intro!: idle)
  next
    case (Pop_wait p)
    with me show ?thesis
      by (auto simp: ring_thread_step_def ok intro!: ring_race_ok_goto [OF ok i])
  next
    case (Pop_read p)
    have "fr_seq (rr_ring s) p = p + 1" using me Pop_read by simp
    then obtain x where "fr_data (rr_ring s) p = Some x"
      using ok by (auto simp: ring_race_ok_def ring_inv_def contents_ok_def)
    with Pop_read read_step [OF ok i Pop_read] show ?thesis by (simp add: ring_thread_step_def)
  next
    case (Pop_store x p)
    with release_step [OF ok i] show ?thesis by (simp add: ring_thread_step_def Let_def)
  next
    case R_undefined
    with me show ?thesis by simp
  qed
qed

lemma ring_start_ok:
  assumes ok: "ring_race_ok s" and i: "i < length (rr_threads s)" and pc: "rr_threads s ! i = R_idle"
  shows "ring_race_ok (ring_start_push i x s)" and "ring_race_ok (ring_start_pop i s)"
    and "ring_race_ok (ring_start_push_blocking i x s)" and "ring_race_ok (ring_start_pop_blocking i s)"
proof -
  note tail = tail_nonneg [OF ok]
  show "ring_race_ok (ring_start_push i x s)" and "ring_race_ok (ring_start_pop i s)"
    using tail by (auto simp: ring_start_push_def ring_start_pop_def pc intro!: ring_race_ok_idle [OF ok i])
  show "ring_race_ok (ring_start_push_blocking i x s)"
    unfolding ring_start_push_blocking_def Let_def
    by (rule claim_push_step [OF ok i]) (use tail in \<open>simp_all add: pc\<close>)
  show "ring_race_ok (ring_start_pop_blocking i s)"
    unfolding ring_start_pop_blocking_def Let_def
    by (rule claim_pop_step [OF ok i]) (simp_all add: pc fresh_tickets(3) [OF ok])
qed

lemma spurious_ok:
  "ring_race_ok s \<Longrightarrow> i < length (rr_threads s) \<Longrightarrow> ring_race_ok (spurious_failure i s)"
  using tail_nonneg [of s]
  by (auto simp: spurious_failure_def intro!: ring_race_ok_idle split: ring_pc.splits)

lemma ring_step_ok: "ring_step s s' \<Longrightarrow> ring_race_ok s \<Longrightarrow> ring_race_ok s'"
  by (induction rule: ring_step.induct) (simp_all add: ring_start_ok ring_thread_step_ok spurious_ok)

lemma ring_run_ok: "ring_step\<^sup>*\<^sup>* s s' \<Longrightarrow> ring_race_ok s \<Longrightarrow> ring_race_ok s'"
  by (induction rule: rtranclp_induct) (auto intro: ring_step_ok)

lemma ring_race_ok_start: "ring_race_ok (ring_race_start cap n :: 'a ring_race)"
proof -
  have no: "held tk (replicate n R_idle) = {}" if "tk R_idle = None" for tk :: "'a ring_pc \<Rightarrow> int option"
    using that by (auto simp: held_def)
  show ?thesis
    using ring_inv_new [where ?'a = 'a and cap = cap]
    by (auto simp: ring_race_ok_def ring_race_start_def no apart_def)
qed

lemma ring_reachable_ok: "ring_step\<^sup>*\<^sup>* (ring_race_start cap n) s \<Longrightarrow> ring_race_ok s"
  using ring_run_ok ring_race_ok_start by blast

text \<open>What the invariant says of a ticket.\<close>

lemma ticket_read:
  assumes "ring_race_ok s" and "rr_out s q = Some x"
  shows "rr_in s q = Some x"
  using assms by (auto simp: ring_race_ok_def ring_inv_def contents_ok_def map_le_def dom_def)

lemma ticket_kept:
  assumes ok: "ring_race_ok s" and q: "rr_in s q = Some x"
  shows "rr_out s q = Some x \<or> fr_seq (rr_ring s) q = q + 1 \<and> fr_data (rr_ring s) q = Some x"
proof -
  let ?r = "rr_ring s" and ?P = "held push_ticket (rr_threads s)" and ?C = "held pop_ticket (rr_threads s)"
  have inv: "ring_inv ?r (rr_in s) (rr_out s) ?P ?C" using ok by (simp add: ring_race_ok_def)
  have tail: "q < fr_tail ?r" "q \<notin> ?P" "q < fr_seq ?r q"
  proof -
    show "q < fr_tail ?r" "q \<notin> ?P"
      using inv q by (auto simp: ring_inv_def producers_ok_def dest: spec [of _ q] intro: ccontr)
    then show "q < fr_seq ?r q" using inv by (simp add: ring_inv_def producers_ok_def)
  qed
  show ?thesis
  proof (cases "fr_seq ?r q \<le> q + 1")
    case True
    with tail(3) have "fr_seq ?r q = q + 1" by simp
    with inv q show ?thesis by (auto simp: ring_inv_def contents_ok_def)
  next
    case False
    have "consumers_ok ?r (rr_out s) ?C" using inv by (simp add: ring_inv_def)
    with False have "q < fr_head ?r" "q \<notin> ?C" unfolding consumers_ok_def by (meson not_le)+
    moreover have "0 \<le> q"
      using inv q unfolding ring_inv_def contents_ok_def by (metis not_le option.distinct(1))
    ultimately have "rr_out s q \<noteq> None"
      using inv by (simp add: ring_inv_def consumers_ok_def)
    then show ?thesis using ticket_read [OF ok, of q] q by auto
  qed
qed

section \<open>The quiescent ring\<close>

text \<open>
  With no operation in flight the ring is a well-formed queue again: the tickets before the
  head have been read, those between head and tail wait in order, and the rest are unused.
\<close>

lemma ring_quiescent_inv:
  assumes inv: "ring_inv r ins outs {} {}"
  shows "fr_ok r" and "fr_abs r = map (\<lambda>q. the (ins q)) [fr_head r..fr_tail r - 1]"
    and "dom outs = {0..<fr_head r}" and "dom ins = {0..<fr_tail r}"
proof -
  let ?cap = "int (fr_capacity r)"
  have pow: "fr_pow2 r" and con: "contents_ok r ins outs" using inv by (simp_all add: ring_inv_def)
  have cap: "1 \<le> ?cap" using fr_idx_lt [OF pow, of 0] by simp
  have lap: "fr_seq r (q + ?cap) = fr_seq r q" for q
    by (intro fr_seq_cong fr_idx_lap pow)
  have pb: "q < fr_tail r \<Longrightarrow> q < fr_seq r q \<and> (0 \<le> q \<longrightarrow> ins q \<noteq> None)"
    and pa: "fr_tail r \<le> q \<Longrightarrow> fr_seq r q \<le> q \<and> ins q = None" for q
    using inv by (auto simp: ring_inv_def producers_ok_def)
  have cb: "q < fr_head r \<Longrightarrow> q + ?cap \<le> fr_seq r q \<and> (0 \<le> q \<longrightarrow> outs q \<noteq> None)"
    and ca: "fr_head r \<le> q \<Longrightarrow> fr_seq r q \<le> q + 1 \<and> outs q = None" for q
    using inv by (auto simp: ring_inv_def consumers_ok_def)
  have order: "fr_head r \<le> fr_tail r"
    using pa [of "fr_head r - 1"] cb [of "fr_head r - 1"] cap by (cases "fr_head r \<le> fr_tail r") auto
  have room: "fr_tail r \<le> fr_head r + ?cap"
    using pb [of "fr_tail r - 1"] ca [of "fr_tail r - 1 - ?cap"] lap [of "fr_tail r - 1 - ?cap"] cap
    by (cases "fr_tail r \<le> fr_head r + ?cap") auto
  have full: "fr_seq r p = p + 1 \<and> fr_data r p = ins p \<and> ins p \<noteq> None"
    if "fr_head r \<le> p" "p < fr_tail r" for p
  proof -
    have "fr_seq r p = p + 1" using pb [OF that(2)] ca [OF that(1)] by simp
    with con show ?thesis by (simp add: contents_ok_def)
  qed
  have free: "fr_seq r p = p" if "fr_tail r \<le> p" "p < fr_head r + ?cap" for p
    using pa [OF that(1)] cb [of "p - ?cap"] lap [of "p - ?cap"] that(2) by auto
  show "fr_ok r" using pow order room full free by (simp add: fr_ok_def)
  show "fr_abs r = map (\<lambda>q. the (ins q)) [fr_head r..fr_tail r - 1]"
    using full by (simp add: fr_abs_def)
  have neg: "ins q = None \<and> outs q = None" if "q < 0" for q
    using con that unfolding contents_ok_def map_le_def by (metis domIff)
  show "dom outs = {0..<fr_head r}"
  proof (rule set_eqI)
    fix q
    show "q \<in> dom outs \<longleftrightarrow> q \<in> {0..<fr_head r}"
      using ca [of q] cb [of q] neg [of q] by (cases "q < fr_head r"; cases "q < 0") (auto simp: dom_def)
  qed
  show "dom ins = {0..<fr_tail r}"
  proof (rule set_eqI)
    fix q
    show "q \<in> dom ins \<longleftrightarrow> q \<in> {0..<fr_tail r}"
      using pa [of q] pb [of q] neg [of q] by (cases "q < fr_tail r"; cases "q < 0") (auto simp: dom_def)
  qed
qed

lemma ring_quiescent:
  assumes "ring_race_ok s" and "set (rr_threads s) \<subseteq> {R_idle}"
  shows "ring_inv (rr_ring s) (rr_in s) (rr_out s) {} {}"
proof -
  have "held push_ticket (rr_threads s) = {}" "held pop_ticket (rr_threads s) = {}"
    using assms(2) nth_mem unfolding held_def by fastforce+
  with assms(1) show ?thesis by (simp add: ring_race_ok_def)
qed

end
