(* ===== verification/Wire.thy ===== *)
theory Wire
  imports Backend_Registry
begin

text \<open>
  The argument codec of the shared-memory backends (\<open>backend/shared_mem/wire.rs\<close>): a tag
  byte and a little-endian scalar per argument. Floating-point scalars are their bit
  patterns, which is what \<open>to_le_bytes\<close> and \<open>from_le_bytes\<close> move.
\<close>

unbundle bit_operations_syntax

section \<open>Little-endian scalars\<close>

fun le_bytes :: "nat \<Rightarrow> 'a::len word \<Rightarrow> u8 list" where
  "le_bytes 0 w = []"
| "le_bytes (Suc n) w = ucast w # le_bytes n (drop_bit 8 w)"

fun from_le_bytes :: "u8 list \<Rightarrow> 'a::len word" where
  "from_le_bytes [] = 0"
| "from_le_bytes (b # bs) = ucast b OR push_bit 8 (from_le_bytes bs)"

lemma length_le_bytes [simp]: "length (le_bytes n w) = n"
  by (induction n arbitrary: w) simp_all

lemma from_le_bytes_le_bytes: "from_le_bytes (le_bytes n w) = take_bit (8 * n) w"
proof (induction n arbitrary: w)
  case (Suc n)
  have "ucast (ucast w :: u8) OR push_bit 8 (take_bit (8 * n) (drop_bit 8 w)) = take_bit (8 * Suc n) w"
    by (rule bit_word_eqI) (auto simp: bit_simps)
  with Suc show ?case by simp
qed simp

lemma le_bytes_round_trip: "LENGTH('a) \<le> 8 * n \<Longrightarrow> from_le_bytes (le_bytes n (w :: 'a::len word)) = w"
  by (simp add: from_le_bytes_le_bytes take_bit_word_eq_self)

lemma bit_from_le_bytes: "bit (from_le_bytes bs :: 'a::len word) i \<Longrightarrow> i < 8 * length bs"
proof (induction bs arbitrary: i)
  case (Cons b bs)
  then consider "bit (ucast b :: 'a word) i" | "8 \<le> i" "bit (from_le_bytes bs :: 'a word) (i - 8)"
    by (auto simp: bit_simps)
  then show ?case
  proof cases
    case 1
    then have "bit b i" by (simp add: bit_simps)
    then show ?thesis using bit_imp_le_length [of b i] by simp
  next
    case 2
    then show ?thesis using Cons.IH [of "i - 8"] by simp
  qed
qed simp

lemma le_bytes_from_le_bytes:
  assumes "8 * length bs \<le> LENGTH('a)"
  shows "le_bytes (length bs) (from_le_bytes bs :: 'a::len word) = bs"
  using assms
proof (induction bs)
  case (Cons b bs)
  let ?w = "from_le_bytes bs :: 'a word"
  have len: "8 + 8 * length bs \<le> LENGTH('a)" using Cons.prems by simp
  have "ucast (ucast b OR push_bit 8 ?w :: 'a word) = b"
    using len by (intro bit_word_eqI) (auto simp: bit_simps)
  moreover have "drop_bit 8 (ucast b OR push_bit 8 ?w :: 'a word) = ?w"
  proof (rule bit_word_eqI)
    fix i
    assume "i < LENGTH('a)"
    show "bit (drop_bit 8 (ucast b OR push_bit 8 ?w :: 'a word)) i = bit ?w i"
      using bit_from_le_bytes [of bs i, where 'a = 'a] len
      by (auto simp: bit_simps dest: bit_imp_le_length)
  qed
  ultimately show ?case using Cons.IH len by simp
qed simp

section \<open>Arguments\<close>

text \<open>\<open>Arg_HostSlice\<close> carries host bytes, \<open>Arg_Buffer\<close> names device memory of a backend.\<close>

datatype kernel_arg =
    Arg_I32 u32
  | Arg_I64 u64
  | Arg_U32 u32
  | Arg_U64 u64
  | Arg_F32 u32
  | Arg_F64 u64
  | Arg_DevicePtr usize
  | Arg_HostSlice "u8 list"
  | Arg_Buffer nat

datatype decoded_arg =
    Dec_I32 u32
  | Dec_I64 u64
  | Dec_U32 u32
  | Dec_U64 u64
  | Dec_F32 u32
  | Dec_F64 u64
  | Dec_DevicePtr usize

definition tag_I32 :: u8 where "tag_I32 = 1"
definition tag_I64 :: u8 where "tag_I64 = 2"
definition tag_U32 :: u8 where "tag_U32 = 3"
definition tag_U64 :: u8 where "tag_U64 = 4"
definition tag_F32 :: u8 where "tag_F32 = 5"
definition tag_F64 :: u8 where "tag_F64 = 6"
definition tag_DEV_PTR :: u8 where "tag_DEV_PTR = 7"

lemmas wire_tags = tag_I32_def tag_I64_def tag_U32_def tag_U64_def tag_F32_def tag_F64_def tag_DEV_PTR_def

fun encode_arg :: "kernel_arg \<Rightarrow> backend_error + u8 list" where
  "encode_arg (Arg_I32 v) = Inr (tag_I32 # le_bytes 4 v)"
| "encode_arg (Arg_I64 v) = Inr (tag_I64 # le_bytes 8 v)"
| "encode_arg (Arg_U32 v) = Inr (tag_U32 # le_bytes 4 v)"
| "encode_arg (Arg_U64 v) = Inr (tag_U64 # le_bytes 8 v)"
| "encode_arg (Arg_F32 v) = Inr (tag_F32 # le_bytes 4 v)"
| "encode_arg (Arg_F64 v) = Inr (tag_F64 # le_bytes 8 v)"
| "encode_arg (Arg_DevicePtr v) = Inr (tag_DEV_PTR # le_bytes 8 v)"
| "encode_arg (Arg_HostSlice bs) = Inl NotSupported"
| "encode_arg (Arg_Buffer b) = Inl NotSupported"

fun encode_args :: "kernel_arg list \<Rightarrow> backend_error + u8 list" where
  "encode_args [] = Inr []"
| "encode_args (arg # args) =
     (case encode_arg arg of
        Inl e \<Rightarrow> Inl e
      | Inr bytes \<Rightarrow>
          (case encode_args args of Inl e \<Rightarrow> Inl e | Inr out \<Rightarrow> Inr (bytes @ out)))"

text \<open>The payload a tag announces; \<open>None\<close> is a tag the decoder does not know.\<close>

definition wire_need :: "u8 \<Rightarrow> nat option" where
  "wire_need t =
     (if t = tag_I32 \<or> t = tag_U32 \<or> t = tag_F32 then Some 4
      else if t = tag_I64 \<or> t = tag_U64 \<or> t = tag_F64 \<or> t = tag_DEV_PTR then Some 8
      else None)"

definition decode_scalar :: "u8 \<Rightarrow> u8 list \<Rightarrow> decoded_arg" where
  "decode_scalar t bytes =
     (if t = tag_I32 then Dec_I32 (from_le_bytes bytes)
      else if t = tag_I64 then Dec_I64 (from_le_bytes bytes)
      else if t = tag_U32 then Dec_U32 (from_le_bytes bytes)
      else if t = tag_U64 then Dec_U64 (from_le_bytes bytes)
      else if t = tag_F32 then Dec_F32 (from_le_bytes bytes)
      else if t = tag_F64 then Dec_F64 (from_le_bytes bytes)
      else Dec_DevicePtr (from_le_bytes bytes))"

fun decimal :: "nat \<Rightarrow> string" where
  "decimal n = (if n < 10 then [char_of (48 + n)] else decimal (n div 10) @ [char_of (48 + n mod 10)])"

declare decimal.simps [simp del]

text \<open>The loop runs on what is left of the blob after its index.\<close>

function decode_args :: "u8 list \<Rightarrow> backend_error + decoded_arg list" where
  "decode_args [] = Inr []"
| "decode_args (t # rest) =
     (case wire_need t of
        None \<Rightarrow> Inl (Launch (''unknown KernelArg tag '' @ decimal (unat t) @ '' in wire payload''))
      | Some need \<Rightarrow>
          if length rest < need then Inl (Launch ''truncated KernelArg payload'')
          else (case decode_args (drop need rest) of
                  Inl e \<Rightarrow> Inl e
                | Inr out \<Rightarrow> Inr (decode_scalar t (take need rest) # out)))"
  by pat_completeness auto
termination
  by (relation "measure length") auto

section \<open>Laws\<close>

text \<open>What a decoded argument was before it was sent.\<close>

fun sent_arg :: "decoded_arg \<Rightarrow> kernel_arg" where
  "sent_arg (Dec_I32 v) = Arg_I32 v"
| "sent_arg (Dec_I64 v) = Arg_I64 v"
| "sent_arg (Dec_U32 v) = Arg_U32 v"
| "sent_arg (Dec_U64 v) = Arg_U64 v"
| "sent_arg (Dec_F32 v) = Arg_F32 v"
| "sent_arg (Dec_F64 v) = Arg_F64 v"
| "sent_arg (Dec_DevicePtr v) = Arg_DevicePtr v"

lemma scalar_bytes [simp]:
  "from_le_bytes (le_bytes 4 (v :: u32)) = v"
  "from_le_bytes (le_bytes 8 (w :: u64)) = w"
  by (simp_all add: le_bytes_round_trip)

lemma encode_arg_sent:
  "\<exists>t payload. encode_arg (sent_arg d) = Inr (t # payload) \<and> wire_need t = Some (length payload)
     \<and> decode_scalar t payload = d"
  by (cases d) (simp_all add: wire_need_def decode_scalar_def wire_tags)

lemma decode_encode_sent: "\<exists>blob. encode_args (map sent_arg ds) = Inr blob \<and> decode_args blob = Inr ds"
proof (induction ds)
  case (Cons d ds)
  then obtain blob where "encode_args (map sent_arg ds) = Inr blob" "decode_args blob = Inr ds" by blast
  with encode_arg_sent [of d] show ?case by fastforce
qed simp

lemma encode_arg_fails: "encode_arg a = Inl e \<longleftrightarrow> e = NotSupported \<and> a \<notin> range sent_arg"
proof -
  have "a \<in> range sent_arg \<longleftrightarrow> (\<exists>b. encode_arg a = Inr b)"
  proof
    assume "\<exists>b. encode_arg a = Inr b"
    then show "a \<in> range sent_arg" by (cases a) (auto intro: sent_arg.simps [symmetric] rangeI)
  qed (use encode_arg_sent in fastforce)
  then show ?thesis by (cases a) auto
qed

lemma encode_args_fails: "encode_args as = Inl e \<longleftrightarrow> e = NotSupported \<and> \<not> set as \<subseteq> range sent_arg"
proof (induction as)
  case (Cons a as)
  then show ?case
    using encode_arg_fails [of a] by (cases "encode_arg a") (auto split: sum.splits)
qed simp

lemma decode_scalar_bytes:
  assumes "wire_need t = Some (length payload)"
  shows "encode_arg (sent_arg (decode_scalar t payload)) = Inr (t # payload)"
proof -
  have len: "length payload = 4 \<or> length payload = 8" using assms by (auto simp: wire_need_def split: if_splits)
  have "le_bytes 4 (from_le_bytes payload :: u32) = payload" if "length payload = 4"
    using le_bytes_from_le_bytes [of payload, where 'a = 32] that by simp
  moreover have "le_bytes 8 (from_le_bytes payload :: u64) = payload" if "length payload = 8"
    using le_bytes_from_le_bytes [of payload, where 'a = 64] that by simp
  ultimately show ?thesis
    using assms by (auto simp: wire_need_def decode_scalar_def wire_tags split: if_splits)
qed

lemma encode_decode: "decode_args blob = Inr ds \<Longrightarrow> encode_args (map sent_arg ds) = Inr blob"
proof (induction blob arbitrary: ds rule: decode_args.induct)
  case (2 t rest)
  then obtain need where need: "wire_need t = Some need" "\<not> length rest < need"
    by (auto split: option.splits if_splits)
  then obtain out where out: "decode_args (drop need rest) = Inr out"
      "ds = decode_scalar t (take need rest) # out"
    using "2.prems" by (auto split: sum.splits)
  have "encode_args (map sent_arg out) = Inr (drop need rest)"
    by (rule "2.IH" [OF need out(1)])
  moreover have "encode_arg (sent_arg (decode_scalar t (take need rest))) = Inr (t # take need rest)"
    by (rule decode_scalar_bytes) (use need in simp)
  ultimately show ?case by (simp add: out(2))
qed simp

end
