(* ===== verification/Latch.thy ===== *)
theory Latch
  imports Prelude
begin

unbundle bit_operations_syntax

text \<open>
  The latches a waiter sleeps on (\<open>sched/latch.rs\<close>), one atomic operation per definition:
  \<open>CoreLatch\<close> with its four states, \<open>JoinLatch\<close> that keeps the waiter's parker in the same
  word, \<open>CountLatch\<close> that the last of \<open>n\<close> participants sets, and the two fields of
  \<open>LockLatch\<close>. How threads interleave on them is the subject of \<open>Latch_Race\<close>.
\<close>

definition compare_exchange :: "'a \<Rightarrow> 'a \<Rightarrow> 'a \<Rightarrow> bool \<times> 'a" where
  "compare_exchange from to v = (if v = from then (True, to) else (False, v))"

section \<open>CoreLatch\<close>

definition UNSET :: u8 where "UNSET = 0"
definition SLEEPY :: u8 where "SLEEPY = 1"
definition SLEEPING :: u8 where "SLEEPING = 2"
definition SET :: u8 where "SET = 3"

lemmas latch_states = UNSET_def SLEEPY_def SLEEPING_def SET_def

lemma latch_states_distinct [simp]:
  "UNSET \<noteq> SLEEPY" "UNSET \<noteq> SLEEPING" "UNSET \<noteq> SET" "SLEEPY \<noteq> SLEEPING" "SLEEPY \<noteq> SET"
  "SLEEPING \<noteq> SET" "SLEEPY \<noteq> UNSET" "SLEEPING \<noteq> UNSET" "SET \<noteq> UNSET" "SLEEPING \<noteq> SLEEPY"
  "SET \<noteq> SLEEPY" "SET \<noteq> SLEEPING"
  by (simp_all add: latch_states)

record core_latch =
  latch_state :: u8

definition core_new :: core_latch where
  "core_new = \<lparr>latch_state = UNSET\<rparr>"

definition core_exchange :: "u8 \<Rightarrow> u8 \<Rightarrow> core_latch \<Rightarrow> bool \<times> core_latch" where
  "core_exchange from to l =
     (let (ok, v) = compare_exchange from to (latch_state l) in (ok, l\<lparr>latch_state := v\<rparr>))"

definition get_sleepy :: "core_latch \<Rightarrow> bool \<times> core_latch" where
  "get_sleepy l = core_exchange UNSET SLEEPY l"

definition fall_asleep :: "core_latch \<Rightarrow> bool \<times> core_latch" where
  "fall_asleep l = core_exchange SLEEPY SLEEPING l"

definition core_is_set :: "core_latch \<Rightarrow> bool" where
  "core_is_set l \<longleftrightarrow> latch_state l = SET"

definition wake_up :: "core_latch \<Rightarrow> core_latch" where
  "wake_up l = (if \<not> core_is_set l then snd (core_exchange SLEEPING UNSET l) else l)"

text \<open>\<open>set\<close> swaps in \<open>SET\<close> and tells whether the waiter has to be unparked.\<close>

definition core_set :: "core_latch \<Rightarrow> bool \<times> core_latch" where
  "core_set l = (latch_state l = SLEEPING, l\<lparr>latch_state := SET\<rparr>)"

definition core_ok :: "core_latch \<Rightarrow> bool" where
  "core_ok l \<longleftrightarrow> latch_state l \<in> {UNSET, SLEEPY, SLEEPING, SET}"

lemmas core_defs = core_new_def core_exchange_def get_sleepy_def fall_asleep_def core_is_set_def
  wake_up_def core_set_def compare_exchange_def

lemma core_set_stays_set:
  assumes "core_is_set l"
  shows "core_is_set (snd (get_sleepy l))" "core_is_set (snd (fall_asleep l))"
    "core_is_set (wake_up l)" "core_is_set (snd (core_set l))"
  using assms by (simp_all add: core_defs)

lemma core_ok_ops:
  assumes "core_ok l"
  shows "core_ok (snd (get_sleepy l))" "core_ok (snd (fall_asleep l))" "core_ok (wake_up l)"
    "core_ok (snd (core_set l))"
  using assms by (auto simp: core_ok_def core_defs)

section \<open>SpinLatch\<close>

text \<open>
  \<open>SpinLatch\<close> is a \<open>CoreLatch\<close> beside the waiter's parker: its operations forward to the
  core, and \<open>set\<close> unparks the parker exactly when the core says so.
\<close>

record spin_latch =
  spin_core :: core_latch

definition spin_new :: spin_latch where
  "spin_new = \<lparr>spin_core = core_new\<rparr>"

definition spin_is_set :: "spin_latch \<Rightarrow> bool" where
  "spin_is_set l = core_is_set (spin_core l)"

definition spin_get_sleepy :: "spin_latch \<Rightarrow> bool \<times> spin_latch" where
  "spin_get_sleepy l = (let (ok, c) = get_sleepy (spin_core l) in (ok, l\<lparr>spin_core := c\<rparr>))"

definition spin_fall_asleep :: "spin_latch \<Rightarrow> bool \<times> spin_latch" where
  "spin_fall_asleep l = (let (ok, c) = fall_asleep (spin_core l) in (ok, l\<lparr>spin_core := c\<rparr>))"

definition spin_wake_up :: "spin_latch \<Rightarrow> spin_latch" where
  "spin_wake_up l = l\<lparr>spin_core := wake_up (spin_core l)\<rparr>"

definition spin_set :: "spin_latch \<Rightarrow> bool \<times> spin_latch" where
  "spin_set l = (let (was_sleeping, c) = core_set (spin_core l) in (was_sleeping, l\<lparr>spin_core := c\<rparr>))"

section \<open>JoinLatch\<close>

text \<open>The word is the address of the waiter's 64-byte aligned parker with the state below it.\<close>

definition STATE_BITS :: usize where "STATE_BITS = 3"

record join_latch =
  latch_word :: usize

definition join_new :: "usize \<Rightarrow> join_latch" where
  "join_new address = \<lparr>latch_word = address OR ucast UNSET\<rparr>"

definition join_address :: "join_latch \<Rightarrow> usize" where
  "join_address l = latch_word l AND NOT STATE_BITS"

definition join_transition :: "u8 \<Rightarrow> u8 \<Rightarrow> join_latch \<Rightarrow> bool \<times> join_latch" where
  "join_transition from to l =
     (let address = join_address l;
          (ok, w) = compare_exchange (address OR ucast from) (address OR ucast to) (latch_word l)
      in (ok, l\<lparr>latch_word := w\<rparr>))"

definition join_is_set :: "join_latch \<Rightarrow> bool" where
  "join_is_set l \<longleftrightarrow> latch_word l AND STATE_BITS = ucast SET"

definition join_get_sleepy :: "join_latch \<Rightarrow> bool \<times> join_latch" where
  "join_get_sleepy l = join_transition UNSET SLEEPY l"

definition join_fall_asleep :: "join_latch \<Rightarrow> bool \<times> join_latch" where
  "join_fall_asleep l = join_transition SLEEPY SLEEPING l"

definition join_wake_up :: "join_latch \<Rightarrow> join_latch" where
  "join_wake_up l = (if \<not> join_is_set l then snd (join_transition SLEEPING UNSET l) else l)"

text \<open>The parker to unpark, when the latch had a sleeping waiter.\<close>

definition join_set :: "join_latch \<Rightarrow> usize option \<times> join_latch" where
  "join_set l =
     (let address = join_address l; old = latch_word l
      in (if old AND STATE_BITS = ucast SLEEPING then Some address else None,
          l\<lparr>latch_word := address OR ucast SET\<rparr>))"

definition join_unparks :: "join_latch \<Rightarrow> bool \<times> join_latch" where
  "join_unparks l = (let (parker, l') = join_set l in (parker \<noteq> None, l'))"

definition join_view :: "join_latch \<Rightarrow> core_latch" where
  "join_view l = \<lparr>latch_state = ucast (latch_word l AND STATE_BITS)\<rparr>"

definition join_ok :: "usize \<Rightarrow> join_latch \<Rightarrow> bool" where
  "join_ok address l \<longleftrightarrow> address AND STATE_BITS = 0 \<and> join_address l = address"

section \<open>The handshake\<close>

text \<open>
  What a waiter and a setter do to a latch, whatever word it lives in. An implementation
  simulates \<open>CoreLatch\<close> through its view, so what is proved of the core state holds of it.
\<close>

datatype latch_op = L_get_sleepy | L_fall_asleep | L_wake_up | L_is_set | L_set

fun latch_apply :: "('l \<Rightarrow> bool \<times> 'l) \<Rightarrow> ('l \<Rightarrow> bool \<times> 'l) \<Rightarrow> ('l \<Rightarrow> 'l) \<Rightarrow> ('l \<Rightarrow> bool) \<Rightarrow>
    ('l \<Rightarrow> bool \<times> 'l) \<Rightarrow> latch_op \<Rightarrow> 'l \<Rightarrow> bool \<times> 'l" where
  "latch_apply sleepy asleep wake test swap L_get_sleepy l = sleepy l"
| "latch_apply sleepy asleep wake test swap L_fall_asleep l = asleep l"
| "latch_apply sleepy asleep wake test swap L_wake_up l = (True, wake l)"
| "latch_apply sleepy asleep wake test swap L_is_set l = (test l, l)"
| "latch_apply sleepy asleep wake test swap L_set l = swap l"

abbreviation core_apply :: "latch_op \<Rightarrow> core_latch \<Rightarrow> bool \<times> core_latch" where
  "core_apply \<equiv> latch_apply get_sleepy fall_asleep wake_up core_is_set core_set"

abbreviation spin_apply :: "latch_op \<Rightarrow> spin_latch \<Rightarrow> bool \<times> spin_latch" where
  "spin_apply \<equiv> latch_apply spin_get_sleepy spin_fall_asleep spin_wake_up spin_is_set spin_set"

abbreviation join_apply :: "latch_op \<Rightarrow> join_latch \<Rightarrow> bool \<times> join_latch" where
  "join_apply \<equiv> latch_apply join_get_sleepy join_fall_asleep join_wake_up join_is_set join_unparks"

definition simulates_core ::
    "('l \<Rightarrow> bool) \<Rightarrow> ('l \<Rightarrow> core_latch) \<Rightarrow> ('l \<Rightarrow> bool \<times> 'l) \<Rightarrow> (core_latch \<Rightarrow> bool \<times> core_latch) \<Rightarrow> bool" where
  "simulates_core ok view f g \<longleftrightarrow>
     (\<forall>l. ok l \<longrightarrow> ok (snd (f l)) \<and> g (view l) = (fst (f l), view (snd (f l))))"

locale sleep_latch =
  fixes ok :: "'l \<Rightarrow> bool" and view :: "'l \<Rightarrow> core_latch"
    and sleepy asleep swap :: "'l \<Rightarrow> bool \<times> 'l" and wake :: "'l \<Rightarrow> 'l" and test :: "'l \<Rightarrow> bool"
  assumes sleepy_sim: "simulates_core ok view sleepy get_sleepy"
    and asleep_sim: "simulates_core ok view asleep fall_asleep"
    and swap_sim: "simulates_core ok view swap core_set"
    and wake_sim: "ok l \<Longrightarrow> ok (wake l) \<and> wake_up (view l) = view (wake l)"
    and test_sim: "ok l \<Longrightarrow> core_is_set (view l) = test l"
begin

lemma step_simulates:
  assumes "ok l"
  shows "ok (snd (latch_apply sleepy asleep wake test swap op l))
    \<and> core_apply op (view l) = (fst (latch_apply sleepy asleep wake test swap op l),
        view (snd (latch_apply sleepy asleep wake test swap op l)))"
  using assms sleepy_sim asleep_sim swap_sim wake_sim test_sim
  by (cases op) (simp_all add: simulates_core_def)

lemma run_simulates:
  assumes "ok l"
  shows "run_ops core_apply ops (view l) = (fst (run_ops (latch_apply sleepy asleep wake test swap) ops l),
    view (snd (run_ops (latch_apply sleepy asleep wake test swap) ops l)))"
  using run_ops_simulates [where ok = ok and view = view and f = "latch_apply sleepy asleep wake test swap"
      and g = core_apply, OF step_simulates assms] by simp

end

interpretation spin: sleep_latch "\<lambda>_. True" spin_core spin_get_sleepy spin_fall_asleep spin_set
    spin_wake_up spin_is_set
  by unfold_locales
    (simp_all add: simulates_core_def spin_get_sleepy_def spin_fall_asleep_def spin_set_def
      spin_wake_up_def spin_is_set_def case_prod_beta)

lemma state_bits:
  fixes address :: usize and s :: u8
  assumes "address AND STATE_BITS = 0" "s \<in> {UNSET, SLEEPY, SLEEPING, SET}"
  shows "(address OR ucast s) AND STATE_BITS = ucast s" "(address OR ucast s) AND NOT STATE_BITS = address"
    "ucast ((address OR ucast s) AND STATE_BITS) = s"
proof -
  have s: "(ucast s :: usize) AND STATE_BITS = ucast s" "(ucast s :: usize) AND NOT STATE_BITS = 0"
    "ucast (ucast s :: usize) = s"
    using assms(2) by (auto simp: latch_states STATE_BITS_def)
  have "address AND (STATE_BITS OR NOT STATE_BITS) = address" by simp
  then have a: "address AND NOT STATE_BITS = address"
    by (simp only: bit.conj_disj_distrib assms(1) or.left_neutral)
  show mask: "(address OR ucast s) AND STATE_BITS = ucast s"
    by (simp only: bit.conj_disj_distrib2 assms(1) s or.left_neutral)
  show "(address OR ucast s) AND NOT STATE_BITS = address"
    by (simp only: bit.conj_disj_distrib2 a s or.right_neutral)
  show "ucast ((address OR ucast s) AND STATE_BITS) = s" by (simp only: mask s)
qed

lemma low_bits_cases: "(w :: usize) AND STATE_BITS \<in> {0, 1, 2, 3}"
proof -
  have "w AND STATE_BITS = take_bit 2 w"
    by (simp add: STATE_BITS_def take_bit_eq_mask mask_eq_exp_minus_1)
  moreover have "unat (take_bit 2 w) < 4"
    using take_bit_nat_less_exp [of 2 "unat w"] by (simp add: unsigned_take_bit_eq)
  ultimately have "unat (w AND STATE_BITS) \<in> {0, 1, 2, 3}" by auto
  then show ?thesis by (auto simp: word_unat_eq_iff)
qed

lemma join_word:
  assumes "join_ok address l"
  obtains s where "s \<in> {UNSET, SLEEPY, SLEEPING, SET}" "latch_word l = address OR ucast s"
proof
  define s :: u8 where "s = ucast (latch_word l AND STATE_BITS)"
  have low: "latch_word l AND STATE_BITS \<in> {0, 1, 2, 3}" by (rule low_bits_cases)
  then show "s \<in> {UNSET, SLEEPY, SLEEPING, SET}" by (auto simp: s_def latch_states)
  have "ucast s = latch_word l AND STATE_BITS" using low by (auto simp: s_def)
  moreover have "latch_word l AND (NOT STATE_BITS OR STATE_BITS) = latch_word l" by simp
  then have "latch_word l AND NOT STATE_BITS OR latch_word l AND STATE_BITS = latch_word l"
    by (simp only: bit.conj_disj_distrib)
  ultimately show "latch_word l = address OR ucast s"
    using assms by (simp add: join_ok_def join_address_def)
qed

lemma join_exchange:
  assumes "join_ok address l" "from \<in> {UNSET, SLEEPY, SLEEPING, SET}" "to \<in> {UNSET, SLEEPY, SLEEPING, SET}"
  shows "join_ok address (snd (join_transition from to l))"
    "core_exchange from to (join_view l) = (fst (join_transition from to l), join_view (snd (join_transition from to l)))"
proof -
  obtain s where s: "s \<in> {UNSET, SLEEPY, SLEEPING, SET}" "latch_word l = address OR ucast s"
    by (rule join_word [OF assms(1)])
  have a: "address AND STATE_BITS = 0" "latch_word l AND NOT STATE_BITS = address"
    using assms(1) by (simp_all add: join_ok_def join_address_def)
  have eq: "address OR ucast s = address OR ucast from \<longleftrightarrow> s = from"
    using state_bits(3) [OF a(1)] s(1) assms(2) by metis
  show "join_ok address (snd (join_transition from to l))"
    using a state_bits(2) [OF a(1) assms(3)]
    by (simp add: join_ok_def join_transition_def join_address_def compare_exchange_def)
  show "core_exchange from to (join_view l) = (fst (join_transition from to l), join_view (snd (join_transition from to l)))"
    using a s eq state_bits(3) [OF a(1) s(1)] state_bits(3) [OF a(1) assms(3)]
    by (simp add: core_exchange_def join_view_def join_transition_def join_address_def compare_exchange_def)
qed

lemma join_is_set_view: "join_ok address l \<Longrightarrow> core_is_set (join_view l) = join_is_set l"
proof -
  assume ok: "join_ok address l"
  then obtain s where s: "s \<in> {UNSET, SLEEPY, SLEEPING, SET}" "latch_word l = address OR ucast s"
    by (rule join_word)
  have a: "address AND STATE_BITS = 0" using ok by (simp add: join_ok_def)
  show ?thesis using s state_bits [OF a s(1)]
    by (simp add: core_is_set_def join_view_def join_is_set_def)
       (auto simp: latch_states)
qed

interpretation join: sleep_latch "join_ok address" join_view join_get_sleepy join_fall_asleep join_unparks
    join_wake_up join_is_set for address
proof unfold_locales
  show "simulates_core (join_ok address) join_view join_get_sleepy get_sleepy"
    by (simp add: simulates_core_def join_get_sleepy_def get_sleepy_def join_exchange)
  show "simulates_core (join_ok address) join_view join_fall_asleep fall_asleep"
    by (simp add: simulates_core_def join_fall_asleep_def fall_asleep_def join_exchange)
  show "join_ok address (join_wake_up l) \<and> wake_up (join_view l) = join_view (join_wake_up l)"
    if "join_ok address l" for l
    using that join_exchange [OF that] join_is_set_view [OF that]
    by (simp add: join_wake_up_def wake_up_def)
  show "core_is_set (join_view l) = join_is_set l" if "join_ok address l" for l
    by (rule join_is_set_view [OF that])
  show "simulates_core (join_ok address) join_view join_unparks core_set"
    unfolding simulates_core_def
  proof (intro allI impI)
    fix l
    assume ok: "join_ok address l"
    then obtain s where s: "s \<in> {UNSET, SLEEPY, SLEEPING, SET}" "latch_word l = address OR ucast s"
      by (rule join_word)
    have a: "address AND STATE_BITS = 0" "join_address l = address" using ok by (simp_all add: join_ok_def)
    have "(ucast s :: usize) = ucast SLEEPING \<longleftrightarrow> s = SLEEPING"
      using s(1) by (auto simp: latch_states)
    then show "join_ok address (snd (join_unparks l))
        \<and> core_set (join_view l) = (fst (join_unparks l), join_view (snd (join_unparks l)))"
      using a s state_bits [OF a(1) s(1)] state_bits [OF a(1), of SET]
      by (simp add: join_ok_def core_set_def join_unparks_def join_set_def join_view_def join_address_def Let_def)
  qed
qed

lemma join_new_ok: "address AND STATE_BITS = 0 \<Longrightarrow> join_ok address (join_new address)
    \<and> join_view (join_new address) = core_new"
  using state_bits [of address UNSET]
  by (simp add: join_ok_def join_address_def join_new_def join_view_def core_new_def)

section \<open>CountLatch\<close>

text \<open>
  \<open>new\<close> panics on zero participants (\<open>None\<close>). The count is decremented by \<open>fetch_sub\<close>,
  which wraps; the participant that takes it from one sets the core latch.
\<close>

record count_latch =
  latch_count :: usize
  latch_core :: core_latch

definition count_new :: "usize \<Rightarrow> count_latch option" where
  "count_new n = (if 0 < n then Some \<lparr>latch_count = n, latch_core = core_new\<rparr> else None)"

definition outstanding :: "count_latch \<Rightarrow> usize" where
  "outstanding l = latch_count l"

definition count_set :: "count_latch \<Rightarrow> bool \<times> count_latch" where
  "count_set l =
     (let prior = latch_count l; l = l\<lparr>latch_count := prior - 1\<rparr>
      in if 1 < prior then (False, l)
         else let (was_sleeping, c) = core_set (latch_core l)
              in (was_sleeping, l\<lparr>latch_core := c\<rparr>))"

end
