(* ===== verification/Parker.thy ===== *)
theory Parker
  imports Prelude "HOL-Library.Signed_Division"
begin

unbundle bit_operations_syntax

text \<open>
  How an idle worker waits (\<open>sched/sleep.rs\<close>): the \<open>Parker\<close> of a thread, the controller
  that measures two wait strategies against each other and picks one, and the verdict that
  the monitor instruction of the host does not hold. The processor's features, its cycle
  counter and the calibrated tick rate are arguments.
\<close>

section \<open>Strategies and the monitor's verdict\<close>

datatype wait_strategy = StdPark | Waitpkg | Monitorx

definition trace_code :: "wait_strategy \<Rightarrow> u32" where
  "trace_code s = (case s of StdPark \<Rightarrow> 0 | Waitpkg \<Rightarrow> 1 | Monitorx \<Rightarrow> 2)"

record cpu_features =
  has_monitorx :: bool
  has_waitpkg :: bool

definition baseline :: "cpu_features \<Rightarrow> wait_strategy" where
  "baseline cpu = (if has_waitpkg cpu then Waitpkg else StdPark)"

text \<open>\<open>MONITOR_HOLDS\<close>, \<open>MONITOR_DOUBTS\<close> and \<open>LAST_DOUBT_CYCLES\<close>.\<close>

record monitor_state =
  monitor_holds :: bool
  monitor_doubts :: u32
  last_doubt_cycles :: u64

definition monitor_state_new :: monitor_state where
  "monitor_state_new = \<lparr>monitor_holds = True, monitor_doubts = 0, last_doubt_cycles = 0\<rparr>"

definition DOUBTS_BEFORE_GIVING_UP :: u32 where "DOUBTS_BEFORE_GIVING_UP = 8"

definition note_monitor_does_not_hold :: "u64 \<Rightarrow> monitor_state \<Rightarrow> monitor_state" where
  "note_monitor_does_not_hold span_cycles m =
     (let doubts = monitor_doubts m + 1;
          m = m\<lparr>last_doubt_cycles := span_cycles, monitor_doubts := doubts\<rparr>
      in if DOUBTS_BEFORE_GIVING_UP \<le> doubts then m\<lparr>monitor_holds := False\<rparr> else m)"

definition monitor_wait_available :: "cpu_features \<Rightarrow> monitor_state \<Rightarrow> bool" where
  "monitor_wait_available cpu m \<longleftrightarrow> (has_waitpkg cpu \<or> has_monitorx cpu) \<and> monitor_holds m"

text \<open>\<open>MONITORX\<close> is tried against the baseline only where there is no \<open>WAITPKG\<close>.\<close>

definition challenger :: "cpu_features \<Rightarrow> monitor_state \<Rightarrow> wait_strategy option" where
  "challenger cpu m =
     (if \<not> has_monitorx cpu \<or> has_waitpkg cpu then None
      else if \<not> monitor_holds m then None
      else Some Monitorx)"

section \<open>The controller\<close>

definition SCORE_CAP :: int where "SCORE_CAP = 64"
definition SWITCH_AT :: int where "SWITCH_AT = 24"
definition PROBE_EVERY_MIN :: u32 where "PROBE_EVERY_MIN = 64"
definition PROBE_EVERY_MAX :: u32 where "PROBE_EVERY_MAX = 4096"
definition SLOT_BASELINE :: nat where "SLOT_BASELINE = 0"
definition SLOT_CHALLENGER :: nat where "SLOT_CHALLENGER = 1"
definition BOTH_SLOTS :: u32 where
  "BOTH_SLOTS = push_bit SLOT_BASELINE 1 OR push_bit SLOT_CHALLENGER 1"
definition SAMPLES_BEFORE_EWMA :: u32 where "SAMPLES_BEFORE_EWMA = 32"
definition MARGIN_PER_CENT :: u64 where "MARGIN_PER_CENT = 20"
definition SAMPLE_ARMED :: u64 where "SAMPLE_ARMED = 1"

text \<open>
  The controller is one static; each thread keeps a cursor in the probing of a pair. A slot
  that is not held (\<open>NO_SLOT\<close>) is \<open>None\<close>. The score lives in \<open>[-64, 64]\<close>, which
  \<open>clamp\<close> keeps, so \<open>i32\<close> never wraps and \<open>int\<close> carries it.
\<close>

record wait_controller =
  wc_mean_ns :: "u64 list"
  wc_samples :: "u32 list"
  wc_parks :: u64
  wc_current :: nat
  wc_switches :: u64
  wc_probe_every :: u32
  wc_score :: int

record probe_cursor =
  pc_since :: u32
  pc_every :: u32
  pc_pending :: u32
  pc_held_slot :: "nat option"
  pc_held_ns :: u64

definition wait_controller_new :: wait_controller where
  "wait_controller_new =
     \<lparr>wc_mean_ns = [0, 0], wc_samples = [0, 0], wc_parks = 0, wc_current = SLOT_BASELINE,
      wc_switches = 0, wc_probe_every = PROBE_EVERY_MIN, wc_score = 0\<rparr>"

definition probe_cursor_new :: probe_cursor where
  "probe_cursor_new =
     \<lparr>pc_since = 0, pc_every = PROBE_EVERY_MIN, pc_pending = 0, pc_held_slot = None, pc_held_ns = 0\<rparr>"

definition wait_choose :: "cpu_features \<Rightarrow> monitor_state \<Rightarrow> wait_controller \<Rightarrow> wait_strategy" where
  "wait_choose cpu m w =
     (if wc_current w = SLOT_CHALLENGER
      then (case challenger cpu m of Some c \<Rightarrow> c | None \<Rightarrow> baseline cpu)
      else baseline cpu)"

text \<open>
  \<open>sample_plan\<close>: which arm this park times, if it times one. A pair opens after
  \<open>every\<close> parks of the thread; its first arm alternates over the process.
\<close>

definition sample_plan :: "cpu_features \<Rightarrow> monitor_state \<Rightarrow> wait_controller \<times> probe_cursor \<Rightarrow>
    (wait_strategy \<times> nat) option \<times> wait_controller \<times> probe_cursor" where
  "sample_plan cpu m st =
     (let (w, c) = st
      in case challenger cpu m of
           None \<Rightarrow> (None, w, c)
         | Some chal \<Rightarrow>
             let c' = (if pc_pending c = 0 then c\<lparr>pc_since := pc_since c + 1\<rparr> else c)
             in if pc_pending c = 0 \<and> pc_since c' < pc_every c' then (None, w, c')
                else let c'' = (if pc_pending c = 0
                                then c'\<lparr>pc_pending := BOTH_SLOTS, pc_every := wc_probe_every w\<rparr> else c');
                         both = (pc_pending c'' = BOTH_SLOTS);
                         slot = (if both then unat (wc_parks w mod 2)
                                 else if pc_pending c'' = push_bit SLOT_CHALLENGER 1 then 1 else 0);
                         w' = (if both then w\<lparr>wc_parks := wc_parks w + 1\<rparr> else w)
                     in (Some (if slot = SLOT_CHALLENGER then chal else baseline cpu, slot), w', c''))"

definition probe_served :: "nat \<Rightarrow> u64 \<Rightarrow> probe_cursor \<Rightarrow> u64 option \<times> probe_cursor" where
  "probe_served slot wake_ns c =
     (let c = c\<lparr>pc_pending := pc_pending c AND NOT (push_bit slot 1)\<rparr>
      in if pc_pending c \<noteq> 0 then (None, c\<lparr>pc_held_slot := Some slot, pc_held_ns := wake_ns\<rparr>)
         else ((case pc_held_slot c of
                  None \<Rightarrow> None
                | Some h \<Rightarrow> if h \<noteq> slot then Some (pc_held_ns c) else None),
               c\<lparr>pc_since := 0, pc_held_slot := None, pc_held_ns := 0\<rparr>))"

definition clamp_int :: "int \<Rightarrow> int \<Rightarrow> int \<Rightarrow> int" where
  "clamp_int lo hi x = (if x < lo then lo else if hi < x then hi else x)"

text \<open>The products are plain \<open>u64\<close> arithmetic, which wraps in a release build.\<close>

definition score_pair :: "u64 \<Rightarrow> u64 \<Rightarrow> wait_controller \<Rightarrow> wait_controller" where
  "score_pair base_ns chal_ns w =
     (if chal_ns * 100 < base_ns * (100 - MARGIN_PER_CENT)
      then w\<lparr>wc_score := clamp_int (- SCORE_CAP) SCORE_CAP (wc_score w + 1)\<rparr>
      else if base_ns * 100 < chal_ns * (100 - MARGIN_PER_CENT)
      then w\<lparr>wc_score := clamp_int (- SCORE_CAP) SCORE_CAP (wc_score w - 1)\<rparr>
      else w)"

definition wait_decide :: "wait_controller \<Rightarrow> wait_controller" where
  "wait_decide w =
     (let score = wc_score w;
          w = (if SWITCH_AT \<le> score \<or> score \<le> - SWITCH_AT
               then let want = (if 0 < score then SLOT_CHALLENGER else SLOT_BASELINE)
                    in if wc_current w \<noteq> want
                       then w\<lparr>wc_current := want, wc_switches := wc_switches w + 1\<rparr> else w
               else w)
      in if SCORE_CAP \<le> \<bar>score\<bar>
         then (if wc_probe_every w < PROBE_EVERY_MAX
               then w\<lparr>wc_probe_every := min (wc_probe_every w * 2) PROBE_EVERY_MAX\<rparr> else w)
         else if \<bar>score\<bar> < SWITCH_AT then w\<lparr>wc_probe_every := PROBE_EVERY_MIN\<rparr>
         else w)"

text \<open>
  The running mean of an arm: exact over the first samples (in signed arithmetic, which
  truncates toward zero), an eighth of the new one after. It is \<open>None\<close> where the code
  divides by a sample count that has wrapped to zero.
\<close>

definition next_mean :: "u32 \<Rightarrow> u64 \<Rightarrow> u64 \<Rightarrow> u64 option" where
  "next_mean n prev wake_ns =
     (if prev = 0 then Some wake_ns
      else if n \<le> SAMPLES_BEFORE_EWMA
      then if n = 0 then None
           else let step = sint (wake_ns - prev) sdiv uint n;
                    moved = prev + word_of_int step
                in Some (if moved <s 0 then 0 else moved)
      else Some ((prev * 7 + wake_ns) div 8))"

definition wait_record :: "nat \<Rightarrow> u64 \<Rightarrow> wait_controller \<times> probe_cursor \<Rightarrow>
    (wait_controller \<times> probe_cursor) option" where
  "wait_record slot wake_ns st =
     (let (w, c) = st;
          (partner, c') = probe_served slot wake_ns c;
          w1 = (case partner of
                  None \<Rightarrow> w
                | Some partner_ns \<Rightarrow>
                    if slot = SLOT_CHALLENGER then score_pair partner_ns wake_ns w
                    else score_pair wake_ns partner_ns w);
          n = wc_samples w1 ! slot + 1;
          w2 = w1\<lparr>wc_samples := (wc_samples w1)[slot := n]\<rparr>
      in case next_mean n (wc_mean_ns w2 ! slot) wake_ns of
           None \<Rightarrow> None
         | Some mean \<Rightarrow> Some (wait_decide (w2\<lparr>wc_mean_ns := (wc_mean_ns w2)[slot := mean]\<rparr>), c'))"

definition cycles_to_ns :: "u64 \<Rightarrow> u64 \<Rightarrow> u64" where
  "cycles_to_ns per_ns_16 cycles =
     (if per_ns_16 = 0 then cycles else sat_mul cycles 16 div per_ns_16)"

section \<open>The parker\<close>

text \<open>
  \<open>pk_permit\<close> is the token of the thread: \<open>thread::unpark\<close> makes it available and
  \<open>thread::park\<close> returns once it has consumed it.
\<close>

record parker =
  pk_permit :: bool
  pk_shutdown :: bool
  pk_spin_rounds :: u32
  pk_wake_counter :: u64
  pk_pinned :: "wait_strategy option"
  pk_wake_stamp :: u64

definition parker_new :: "u32 \<Rightarrow> parker" where
  "parker_new rounds =
     \<lparr>pk_permit = False, pk_shutdown = False, pk_spin_rounds = rounds, pk_wake_counter = 0,
      pk_pinned = None, pk_wake_stamp = 0\<rparr>"

definition parker_with_strategy :: "u32 \<Rightarrow> wait_strategy \<Rightarrow> parker" where
  "parker_with_strategy rounds s = (parker_new rounds)\<lparr>pk_pinned := Some s\<rparr>"

definition parker_strategy :: "wait_strategy \<Rightarrow> parker \<Rightarrow> wait_strategy" where
  "parker_strategy picked p = (case pk_pinned p of Some s \<Rightarrow> s | None \<Rightarrow> picked)"

definition stamp_wake :: "u64 \<Rightarrow> parker \<Rightarrow> parker" where
  "stamp_wake tsc p = p\<lparr>pk_wake_stamp := tsc\<rparr>"

definition count_wake :: "parker \<Rightarrow> parker" where
  "count_wake p = p\<lparr>pk_wake_counter := pk_wake_counter p + 1\<rparr>"

definition give_permit :: "parker \<Rightarrow> parker" where
  "give_permit p = p\<lparr>pk_permit := True\<rparr>"

definition unpark :: "u64 \<Rightarrow> parker \<Rightarrow> parker" where
  "unpark tsc p =
     give_permit (count_wake (if pk_wake_stamp p = SAMPLE_ARMED then stamp_wake tsc p else p))"

definition shutdown :: "u64 \<Rightarrow> parker \<Rightarrow> parker" where
  "shutdown tsc p = unpark tsc (p\<lparr>pk_shutdown := True\<rparr>)"

end
