(* ===== verification/Latch_Race.thy ===== *)
theory Latch_Race
  imports Latch Parker
begin

text \<open>
  A waiter and the participants of a latch, interleaved atomic access by atomic access: the
  waiting loop of \<open>arena::join_fast_slot\<close> and \<open>park_for_half\<close> (\<open>sched/arena.rs\<close>) with
  \<open>Parker::park_until\<close> (\<open>sched/sleep.rs\<close>) inlined, against the \<open>set\<close> of \<open>SpinLatch\<close>,
  \<open>JoinLatch\<close> and \<open>CountLatch\<close> (\<open>sched/latch.rs\<close>). Other threads may unpark the waiter or
  shut its parker down at any moment.
\<close>

section \<open>The threads\<close>

text \<open>
  Where the waiter is: in its loop (\<open>W_check\<close> to \<open>W_asleep\<close>), inside \<open>park_until\<close>
  (\<open>W_enter\<close> to \<open>W_result\<close>; \<open>P_...\<close> reads shutdown, \<open>R_...\<close> asks \<open>is_ready\<close>), in
  \<open>wake_up\<close> (\<open>W_wake\<close>, \<open>W_wake_cas\<close>), or past the latch (\<open>W_done\<close>).
  A sampled park remembers that it has a stamp to take.
\<close>

datatype waiter_pc =
    W_check
  | W_sleepy
  | W_second
  | W_asleep
  | W_enter
  | P_spin nat u64
  | R_spin nat u64
  | P_last u64
  | R_last u64
  | W_strategy u64
  | W_park bool
  | W_monitor bool u64
  | W_monitor_park bool u64
  | M_counter bool u64
  | M_shutdown bool u64
  | M_ready bool u64
  | W_sample
  | W_result
  | W_wake
  | W_wake_cas
  | W_leave
  | W_leave_cas
  | W_done

text \<open>
  A participant arrives (\<open>fetch_sub\<close> on the count), and the last one clones the parker's
  handle, swaps the state, and unparks a sleeping waiter: the stamp, the counter, the permit.
\<close>

datatype setter_pc =
    S_arrive
  | S_clone
  | S_swap
  | S_stamp
  | S_stamp_store
  | S_count
  | S_permit
  | S_done

record sleep_race =
  sr_latch :: count_latch
  sr_parker :: parker
  sr_waiter :: waiter_pc
  sr_setters :: "setter_pc list"

text \<open>
  What a step may depend on beyond the state: whether the waiter goes on spinning, the
  strategy the controller hands out and whether it samples, whether a monitored wait falls
  back to \<open>thread::park\<close> (the monitor is given up), whether the loop looks at the latch
  between \<open>get_sleepy\<close> and \<open>fall_asleep\<close> (the slot path does, \<open>park_for_half\<close> does not), and
  the reading of the cycle counter. A monitored wait that does not block returns at any
  moment: the instruction has a deadline.
\<close>

record step_choice =
  ch_spin :: bool
  ch_strategy :: wait_strategy
  ch_sampling :: bool
  ch_blocks :: bool
  ch_second_look :: bool
  ch_tsc :: u64

definition spin_race_start :: "parker \<Rightarrow> sleep_race" where
  "spin_race_start p =
     \<lparr>sr_latch = \<lparr>latch_count = 0, latch_core = core_new\<rparr>, sr_parker = p, sr_waiter = W_check,
      sr_setters = [S_clone]\<rparr>"

definition count_race_start :: "usize \<Rightarrow> parker \<Rightarrow> sleep_race option" where
  "count_race_start n p =
     (case count_new n of
        None \<Rightarrow> None
      | Some l \<Rightarrow> Some \<lparr>sr_latch = l, sr_parker = p, sr_waiter = W_check,
                      sr_setters = replicate (unat n) S_arrive\<rparr>)"

definition waiter_step :: "step_choice \<Rightarrow> sleep_race \<Rightarrow> sleep_race" where
  "waiter_step ch s =
     (let l = sr_latch s; core = latch_core l; p = sr_parker s;
          goto = (\<lambda>pc. s\<lparr>sr_waiter := pc\<rparr>);
          swap = (\<lambda>r yes no. s\<lparr>sr_latch := l\<lparr>latch_core := snd r\<rparr>,
                     sr_waiter := if fst r then yes else no\<rparr>)
      in case sr_waiter s of
           W_check \<Rightarrow>
             if core_is_set core then goto W_done
             else if ch_spin ch then goto W_check else goto W_sleepy
         | W_sleepy \<Rightarrow> swap (get_sleepy core) W_second W_check
         | W_second \<Rightarrow> if ch_second_look ch \<and> core_is_set core then goto W_leave else goto W_asleep
         | W_asleep \<Rightarrow> swap (fall_asleep core) W_enter W_check
         | W_enter \<Rightarrow>
             (case unat (pk_spin_rounds p) of
                0 \<Rightarrow> goto (P_last (pk_wake_counter p))
              | Suc k \<Rightarrow> goto (P_spin k (pk_wake_counter p)))
         | P_spin k w \<Rightarrow> if pk_shutdown p then goto W_wake else goto (R_spin k w)
         | R_spin k w \<Rightarrow>
             if core_is_set core then goto W_wake
             else (case k of 0 \<Rightarrow> goto (P_last w) | Suc k' \<Rightarrow> goto (P_spin k' w))
         | P_last w \<Rightarrow> if pk_shutdown p then goto W_wake else goto (R_last w)
         | R_last w \<Rightarrow> if core_is_set core then goto W_wake else goto (W_strategy w)
         | W_strategy w \<Rightarrow>
             let sampling = (pk_pinned p = None \<and> ch_sampling ch);
                 strategy = parker_strategy (ch_strategy ch) p
             in s\<lparr>sr_parker := if sampling then stamp_wake SAMPLE_ARMED p else p,
                  sr_waiter := if strategy = StdPark then W_park sampling
                               else W_monitor sampling w\<rparr>
         | W_park sampling \<Rightarrow>
             if pk_permit p
             then s\<lparr>sr_parker := p\<lparr>pk_permit := False\<rparr>,
                    sr_waiter := if sampling then W_sample else W_result\<rparr>
             else s
         | W_monitor sampling w \<Rightarrow>
             if ch_blocks ch then goto (W_monitor_park sampling w)
             else goto (M_counter sampling w)
         | W_monitor_park sampling w \<Rightarrow>
             if pk_permit p
             then s\<lparr>sr_parker := p\<lparr>pk_permit := False\<rparr>, sr_waiter := M_counter sampling w\<rparr>
             else s
         | M_counter sampling w \<Rightarrow>
             if pk_wake_counter p \<noteq> w then goto (if sampling then W_sample else W_result)
             else goto (M_shutdown sampling w)
         | M_shutdown sampling w \<Rightarrow>
             if pk_shutdown p then goto (if sampling then W_sample else W_result)
             else goto (M_ready sampling w)
         | M_ready sampling w \<Rightarrow>
             if core_is_set core then goto (if sampling then W_sample else W_result)
             else goto (W_monitor sampling w)
         | W_sample \<Rightarrow> s\<lparr>sr_parker := p\<lparr>pk_wake_stamp := 0\<rparr>, sr_waiter := W_result\<rparr>
         | W_result \<Rightarrow> goto W_wake
         | W_wake \<Rightarrow> if core_is_set core then goto W_check else goto W_wake_cas
         | W_wake_cas \<Rightarrow> swap (core_exchange SLEEPING UNSET core) W_check W_check
         | W_leave \<Rightarrow> if core_is_set core then goto W_done else goto W_leave_cas
         | W_leave_cas \<Rightarrow> swap (core_exchange SLEEPING UNSET core) W_done W_done
         | W_done \<Rightarrow> s)"

definition setter_step :: "step_choice \<Rightarrow> nat \<Rightarrow> sleep_race \<Rightarrow> sleep_race" where
  "setter_step ch i s =
     (let l = sr_latch s; p = sr_parker s;
          goto = (\<lambda>pc. s\<lparr>sr_setters := (sr_setters s)[i := pc]\<rparr>)
      in case sr_setters s ! i of
           S_arrive \<Rightarrow>
             (goto (if 1 < latch_count l then S_done else S_clone))
               \<lparr>sr_latch := l\<lparr>latch_count := latch_count l - 1\<rparr>\<rparr>
         | S_clone \<Rightarrow> goto S_swap
         | S_swap \<Rightarrow>
             (goto (if fst (core_set (latch_core l)) then S_stamp else S_done))
               \<lparr>sr_latch := l\<lparr>latch_core := snd (core_set (latch_core l))\<rparr>\<rparr>
         | S_stamp \<Rightarrow> goto (if pk_wake_stamp p = SAMPLE_ARMED then S_stamp_store else S_count)
         | S_stamp_store \<Rightarrow> (goto S_count)\<lparr>sr_parker := stamp_wake (ch_tsc ch) p\<rparr>
         | S_count \<Rightarrow> (goto S_permit)\<lparr>sr_parker := count_wake p\<rparr>
         | S_permit \<Rightarrow> (goto S_done)\<lparr>sr_parker := give_permit p\<rparr>
         | S_done \<Rightarrow> s)"

text \<open>Any other thread's unpark, one access at a time, and its shutdown of the parker.\<close>

inductive sleep_step :: "sleep_race \<Rightarrow> sleep_race \<Rightarrow> bool" where
  step_waiter: "sleep_step s (waiter_step ch s)"
| step_setter: "i < length (sr_setters s) \<Longrightarrow> sleep_step s (setter_step ch i s)"
| step_stamp: "sleep_step s (s\<lparr>sr_parker := stamp_wake tsc (sr_parker s)\<rparr>)"
| step_count: "sleep_step s (s\<lparr>sr_parker := count_wake (sr_parker s)\<rparr>)"
| step_permit: "sleep_step s (s\<lparr>sr_parker := give_permit (sr_parker s)\<rparr>)"
| step_shutdown: "sleep_step s (s\<lparr>sr_parker := (sr_parker s)\<lparr>pk_shutdown := True\<rparr>\<rparr>)"

section \<open>The invariant\<close>

definition asleep_pc :: "waiter_pc \<Rightarrow> bool" where
  "asleep_pc pc =
     (case pc of
        W_check \<Rightarrow> False | W_sleepy \<Rightarrow> False | W_second \<Rightarrow> False | W_asleep \<Rightarrow> False
      | W_leave \<Rightarrow> False | W_leave_cas \<Rightarrow> False | W_done \<Rightarrow> False | _ \<Rightarrow> True)"

text \<open>Where the waiter has seen the latch unset and may block before it looks again.\<close>

definition blocking_pc :: "waiter_pc \<Rightarrow> bool" where
  "blocking_pc pc =
     (case pc of
        W_strategy w \<Rightarrow> True | W_park b \<Rightarrow> True | W_monitor b w \<Rightarrow> True
      | W_monitor_park b w \<Rightarrow> True | _ \<Rightarrow> False)"

definition state_ok :: "waiter_pc \<Rightarrow> core_latch \<Rightarrow> bool" where
  "state_ok pc c \<longleftrightarrow>
     latch_state c \<in> (if asleep_pc pc then {SLEEPING, SET}
                      else if pc = W_check \<or> pc = W_sleepy then {UNSET, SET}
                      else if pc = W_second \<or> pc = W_asleep then {SLEEPY, SET}
                      else {SET})"

definition unparking :: "setter_pc \<Rightarrow> bool" where
  "unparking pc \<longleftrightarrow> pc \<in> {S_stamp, S_stamp_store, S_count, S_permit}"

definition last_one :: "setter_pc \<Rightarrow> bool" where
  "last_one pc \<longleftrightarrow> pc = S_clone \<or> pc = S_swap"

definition setters_ok :: "setter_pc list \<Rightarrow> count_latch \<Rightarrow> bool" where
  "setters_ok ps l \<longleftrightarrow>
     number (\<lambda>pc. pc = S_arrive) ps = unat (latch_count l)
     \<and> (if 0 < latch_count l then number last_one ps = 0 \<and> number unparking ps = 0 \<and> \<not> core_is_set (latch_core l)
        else if core_is_set (latch_core l) then number last_one ps = 0 \<and> number unparking ps \<le> 1
        else number last_one ps = 1 \<and> number unparking ps = 0)"

definition sleep_ok :: "sleep_race \<Rightarrow> bool" where
  "sleep_ok s \<longleftrightarrow>
     setters_ok (sr_setters s) (sr_latch s)
     \<and> state_ok (sr_waiter s) (latch_core (sr_latch s))
     \<and> (blocking_pc (sr_waiter s) \<and> core_is_set (latch_core (sr_latch s))
          \<longrightarrow> pk_permit (sr_parker s) \<or> 0 < number unparking (sr_setters s))"

lemma sleep_ok_spin: "sleep_ok (spin_race_start p)"
  by (simp add: sleep_ok_def spin_race_start_def setters_ok_def state_ok_def asleep_pc_def number_def
      core_new_def core_is_set_def last_one_def unparking_def blocking_pc_def)

lemma sleep_ok_count: "count_race_start n p = Some s \<Longrightarrow> sleep_ok s"
  by (auto simp: sleep_ok_def count_race_start_def count_new_def setters_ok_def state_ok_def asleep_pc_def
      number_replicate core_new_def core_is_set_def last_one_def unparking_def blocking_pc_def split: if_splits)

lemma waiter_step_ok: "sleep_ok s \<Longrightarrow> sleep_ok (waiter_step ch s)"
  by (cases "sr_waiter s")
    (auto simp: sleep_ok_def waiter_step_def setters_ok_def state_ok_def asleep_pc_def blocking_pc_def
      core_defs Let_def stamp_wake_def split: nat.splits)

lemma setters_arrive:
  assumes ok: "setters_ok ps l" and i: "i < length ps" "ps ! i = S_arrive"
  shows "setters_ok (ps[i := if 1 < latch_count l then S_done else S_clone])
      (l\<lparr>latch_count := latch_count l - 1\<rparr>)"
    "\<not> core_is_set (latch_core l)"
proof -
  have "0 < number (\<lambda>pc. pc = S_arrive) ps"
    using i by (metis (mono_tags, lifting) number_zero bot_nat_0.not_eq_extremum nth_mem)
  then have pos: "0 < latch_count l" and n: "number (\<lambda>pc. pc = S_arrive) ps = unat (latch_count l)"
    using ok by (auto simp: setters_ok_def word_less_nat_alt)
  then show unset: "\<not> core_is_set (latch_core l)" using ok by (simp add: setters_ok_def)
  have less: "unat (latch_count l - 1) = unat (latch_count l) - 1"
    using pos by (simp add: unat_sub word_le_nat_alt word_less_nat_alt Suc_leI)
  note up = number_update [OF i(1), unfolded i(2)]
  show "setters_ok (ps[i := if 1 < latch_count l then S_done else S_clone])
      (l\<lparr>latch_count := latch_count l - 1\<rparr>)"
  proof (cases "1 < latch_count l")
    case True
    then have "0 < latch_count l - 1" using less by (simp add: word_less_nat_alt)
    then show ?thesis
      using True ok pos unset n less up [of "\<lambda>pc. pc = S_arrive" S_done] up [of last_one S_done] up [of unparking S_done]
      by (simp add: setters_ok_def last_one_def unparking_def)
  next
    case False
    then have one: "latch_count l = 1" using pos by (simp add: word_less_nat_alt word_unat_eq_iff)
    then show ?thesis
      using ok pos unset n up [of "\<lambda>pc. pc = S_arrive" S_clone] up [of last_one S_clone] up [of unparking S_clone]
      by (simp add: setters_ok_def last_one_def unparking_def)
  qed
qed

lemma setters_move:
  assumes ok: "setters_ok ps l" and i: "i < length ps" "ps ! i \<noteq> S_arrive" "pc \<noteq> S_arrive"
    and same: "last_one (ps ! i) = last_one pc" "unparking pc \<Longrightarrow> unparking (ps ! i)"
  shows "setters_ok (ps[i := pc]) l"
  using ok i same number_update [OF i(1), of "\<lambda>pc. pc = S_arrive" pc] number_update [OF i(1), of last_one pc]
    number_update [OF i(1), of unparking pc]
  by (cases "unparking pc"; cases "unparking (ps ! i)"; cases "last_one pc"; simp add: setters_ok_def split: if_splits)

lemma setters_swap:
  assumes ok: "setters_ok ps l" and i: "i < length ps" "ps ! i = S_swap"
    and set: "latch_state c' = SET"
  shows "setters_ok (ps[i := if sleeping then S_stamp else S_done]) (l\<lparr>latch_core := c'\<rparr>)"
proof -
  have "0 < number last_one ps"
    using i by (metis last_one_def number_zero bot_nat_0.not_eq_extremum nth_mem)
  then show ?thesis
    using ok set number_update [OF i(1), unfolded i(2), of "\<lambda>pc. pc = S_arrive" "if sleeping then S_stamp else S_done"]
      number_update [OF i(1), unfolded i(2), of last_one "if sleeping then S_stamp else S_done"]
      number_update [OF i(1), unfolded i(2), of unparking "if sleeping then S_stamp else S_done"]
    by (cases sleeping) (auto simp: setters_ok_def core_is_set_def last_one_def unparking_def split: if_splits)
qed

lemma unparking_held: "i < length ps \<Longrightarrow> unparking (ps ! i) \<Longrightarrow> 0 < number unparking ps"
  by (metis number_zero bot_nat_0.not_eq_extremum nth_mem)

lemma setter_step_ok:
  assumes ok: "sleep_ok s" and i: "i < length (sr_setters s)"
  shows "sleep_ok (setter_step ch i s)"
proof -
  have s: "setters_ok (sr_setters s) (sr_latch s)" "state_ok (sr_waiter s) (latch_core (sr_latch s))"
    using ok by (simp_all add: sleep_ok_def)
  have held: "0 < number unparking ((sr_setters s)[i := pc])" if "unparking pc" for pc
    using unparking_held [of i "(sr_setters s)[i := pc]"] that i by simp
  show ?thesis
  proof (cases "sr_setters s ! i")
    case S_arrive
    then show ?thesis
      using s setters_arrive [OF s(1) i S_arrive]
      by (simp add: sleep_ok_def setter_step_def Let_def)
  next
    case S_clone
    then have m: "setters_ok ((sr_setters s)[i := S_swap]) (sr_latch s)"
      by (intro setters_move [OF s(1) i]) (simp_all add: last_one_def unparking_def)
    have "number unparking ((sr_setters s)[i := S_swap]) = number unparking (sr_setters s)"
      using number_update [OF i, of unparking S_swap] S_clone by (simp add: unparking_def)
    then show ?thesis using S_clone m ok by (simp add: sleep_ok_def setter_step_def)
  next
    case S_swap
    have asleep: "latch_state (latch_core (sr_latch s)) = SLEEPING"
      if "blocking_pc (sr_waiter s)" "\<not> core_is_set (latch_core (sr_latch s))"
      using that s(2) by (auto simp: state_ok_def core_is_set_def blocking_pc_def asleep_pc_def split: waiter_pc.splits)
    have unset: "\<not> core_is_set (latch_core (sr_latch s))"
      using s(1) S_swap i by (metis (no_types, lifting) gr0I last_one_def nth_mem number_zero setters_ok_def zero_neq_one word_gt_0)
    have "state_ok (sr_waiter s) (latch_core (sr_latch s)\<lparr>latch_state := SET\<rparr>)"
      by (simp add: state_ok_def)
    then show ?thesis
      using s S_swap setters_swap [OF s(1) i S_swap, of "latch_core (sr_latch s)\<lparr>latch_state := SET\<rparr>"] asleep unset held [of S_stamp]
      by (simp add: sleep_ok_def setter_step_def core_set_def unparking_def Let_def)
  next
    case S_stamp
    then have "setters_ok ((sr_setters s)[i := pc]) (sr_latch s)" if "unparking pc" for pc
      using that by (intro setters_move [OF s(1) i]) (auto simp: last_one_def unparking_def)
    then show ?thesis using S_stamp s held by (simp add: sleep_ok_def setter_step_def unparking_def)
  next
    case S_stamp_store
    then have "setters_ok ((sr_setters s)[i := S_count]) (sr_latch s)"
      by (intro setters_move [OF s(1) i]) (auto simp: last_one_def unparking_def)
    then show ?thesis using S_stamp_store s held [of S_count] by (simp add: sleep_ok_def setter_step_def unparking_def)
  next
    case S_count
    then have "setters_ok ((sr_setters s)[i := S_permit]) (sr_latch s)"
      by (intro setters_move [OF s(1) i]) (auto simp: last_one_def unparking_def)
    then show ?thesis using S_count s held [of S_permit] by (simp add: sleep_ok_def setter_step_def unparking_def)
  next
    case S_permit
    then have "setters_ok ((sr_setters s)[i := S_done]) (sr_latch s)"
      by (intro setters_move [OF s(1) i]) (auto simp: last_one_def unparking_def)
    then show ?thesis using S_permit s by (simp add: sleep_ok_def setter_step_def give_permit_def)
  next
    case S_done
    then show ?thesis using ok by (simp add: setter_step_def)
  qed
qed

lemma sleep_step_ok: "sleep_step s t \<Longrightarrow> sleep_ok s \<Longrightarrow> sleep_ok t"
  by (induction rule: sleep_step.induct)
    (simp_all add: waiter_step_ok setter_step_ok, simp_all add: sleep_ok_def stamp_wake_def count_wake_def give_permit_def)

lemma sleep_run_ok: "sleep_step\<^sup>*\<^sup>* s t \<Longrightarrow> sleep_ok s \<Longrightarrow> sleep_ok t"
  by (induction rule: rtranclp_induct) (auto intro: sleep_step_ok)

lemma sleep_reachable_ok:
  assumes "sleep_step\<^sup>*\<^sup>* s t" "s = spin_race_start p \<or> count_race_start n p = Some s"
  shows "sleep_ok t"
  using sleep_run_ok [OF assms(1)] assms(2) sleep_ok_spin sleep_ok_count by blast

section \<open>What it gives\<close>

lemma waiter_done_set:
  assumes "sleep_ok s" "sr_waiter s = W_done"
  shows "core_is_set (latch_core (sr_latch s))"
  using assms by (simp add: sleep_ok_def state_ok_def asleep_pc_def core_is_set_def)

lemma setters_past:
  assumes ok: "sleep_ok s" and set: "core_is_set (latch_core (sr_latch s))" and i: "i < length (sr_setters s)"
  shows "sr_setters s ! i = S_done \<or> unparking (sr_setters s ! i)"
proof -
  have s: "setters_ok (sr_setters s) (sr_latch s)" using ok by (simp add: sleep_ok_def)
  then have "latch_count (sr_latch s) = 0"
    using set by (auto simp: setters_ok_def word_gt_0 split: if_splits)
  then have "number (\<lambda>pc. pc = S_arrive) (sr_setters s) = 0" "number last_one (sr_setters s) = 0"
    using s set by (simp_all add: setters_ok_def)
  then show ?thesis
    using i by (cases "sr_setters s ! i") (auto simp: number_zero last_one_def unparking_def)
qed

text \<open>
  Once the latch is set and nobody is still unparking, every step of the waiter brings it
  closer to leaving: how many steps it takes at most.
\<close>

definition leave_rank :: "waiter_pc \<Rightarrow> nat" where
  "leave_rank pc =
     (case pc of
        W_check \<Rightarrow> 1 | W_sleepy \<Rightarrow> 2 | W_second \<Rightarrow> 3 | W_asleep \<Rightarrow> 2 | W_enter \<Rightarrow> 5
      | P_spin k w \<Rightarrow> 4 | R_spin k w \<Rightarrow> 3 | P_last w \<Rightarrow> 4 | R_last w \<Rightarrow> 3 | W_strategy w \<Rightarrow> 10
      | W_park b \<Rightarrow> 5 | W_monitor b w \<Rightarrow> 9 | W_monitor_park b w \<Rightarrow> 8 | M_counter b w \<Rightarrow> 7
      | M_shutdown b w \<Rightarrow> 6 | M_ready b w \<Rightarrow> 5 | W_sample \<Rightarrow> 4 | W_result \<Rightarrow> 3 | W_wake \<Rightarrow> 2
      | W_wake_cas \<Rightarrow> 2 | W_leave \<Rightarrow> 1 | W_leave_cas \<Rightarrow> 1 | W_done \<Rightarrow> 0)"

lemma waiter_step_setters: "sr_setters (waiter_step ch s) = sr_setters s"
  by (cases "sr_waiter s") (auto simp: waiter_step_def Let_def split: nat.splits)

lemma waiter_step_leaves:
  assumes ok: "sleep_ok s" and set: "core_is_set (latch_core (sr_latch s))"
    and quiet: "number unparking (sr_setters s) = 0"
  shows "core_is_set (latch_core (sr_latch (waiter_step ch s)))"
    "leave_rank (sr_waiter (waiter_step ch s)) \<le> leave_rank (sr_waiter s) - 1"
proof -
  have permit: "pk_permit (sr_parker s)" if "blocking_pc (sr_waiter s)"
    using ok set quiet that by (simp add: sleep_ok_def)
  show "core_is_set (latch_core (sr_latch (waiter_step ch s)))"
    using set by (cases "sr_waiter s") (auto simp: waiter_step_def core_defs Let_def split: nat.splits)
  show "leave_rank (sr_waiter (waiter_step ch s)) \<le> leave_rank (sr_waiter s) - 1"
    using set permit
    by (cases "sr_waiter s")
       (auto simp: waiter_step_def core_defs Let_def leave_rank_def blocking_pc_def split: nat.splits)
qed

lemma waiter_leaves:
  assumes "sleep_ok s" "core_is_set (latch_core (sr_latch s))" "number unparking (sr_setters s) = 0"
    "leave_rank (sr_waiter s) \<le> length chs"
  shows "sr_waiter (fold waiter_step chs s) = W_done"
  using assms
proof (induction chs arbitrary: s)
  case Nil
  then show ?case by (cases "sr_waiter s") (simp_all add: leave_rank_def)
next
  case (Cons ch chs)
  then show ?case
    using waiter_step_leaves [OF Cons.prems(1-3), of ch] waiter_step_ok [OF Cons.prems(1), of ch]
    by (simp add: waiter_step_setters)
qed

lemma leave_rank_bound: "leave_rank pc \<le> 10"
  by (cases pc) (simp_all add: leave_rank_def)

lemma all_done_set:
  assumes ok: "sleep_ok s" and all: "\<forall>pc \<in> set (sr_setters s). pc = S_done"
  shows "core_is_set (latch_core (sr_latch s)) \<and> number unparking (sr_setters s) = 0"
proof -
  have "number (\<lambda>pc. pc = S_arrive) (sr_setters s) = 0" "number last_one (sr_setters s) = 0"
    "number unparking (sr_setters s) = 0"
    using all by (auto simp: number_zero last_one_def unparking_def)
  moreover have "setters_ok (sr_setters s) (sr_latch s)" using ok by (simp add: sleep_ok_def)
  ultimately show ?thesis by (auto simp: setters_ok_def word_less_nat_alt split: if_splits)
qed

lemma waiter_wakes:
  assumes "sleep_ok s" "\<forall>pc \<in> set (sr_setters s). pc = S_done" "10 \<le> length chs"
  shows "sr_waiter (fold waiter_step chs s) = W_done"
  using waiter_leaves [OF assms(1)] all_done_set [OF assms(1,2)] leave_rank_bound assms(3) order_trans
  by metis

section \<open>LockLatch\<close>

text \<open>
  \<open>LockLatch\<close> (\<open>sched/latch.rs\<close>): \<open>wait\<close> by the one waiter and \<open>set\<close> by the one setter.
  The waiter registers its thread once; the setter clones that handle before it publishes
  the flag, and unparks the clone.
\<close>

datatype lock_waiter =
    K_first
  | K_register
  | K_second
  | K_loop
  | K_park
  | K_returned

datatype lock_setter =
    J_read_handle
  | J_store_flag bool
  | J_unpark
  | J_returned

record lock_race =
  lk_flag :: bool
  lk_registered :: bool
  lk_permit :: bool
  lk_waiter :: lock_waiter
  lk_setter :: lock_setter

definition lock_race_start :: lock_race where
  "lock_race_start =
     \<lparr>lk_flag = False, lk_registered = False, lk_permit = False, lk_waiter = K_first,
      lk_setter = J_read_handle\<rparr>"

definition lock_waiter_step :: "lock_race \<Rightarrow> lock_race" where
  "lock_waiter_step s =
     (case lk_waiter s of
        K_first \<Rightarrow> s\<lparr>lk_waiter := if lk_flag s then K_returned else K_register\<rparr>
      | K_register \<Rightarrow> s\<lparr>lk_registered := True, lk_waiter := K_second\<rparr>
      | K_second \<Rightarrow> s\<lparr>lk_waiter := if lk_flag s then K_returned else K_loop\<rparr>
      | K_loop \<Rightarrow> s\<lparr>lk_waiter := if lk_flag s then K_returned else K_park\<rparr>
      | K_park \<Rightarrow> if lk_permit s then s\<lparr>lk_permit := False, lk_waiter := K_loop\<rparr> else s
      | K_returned \<Rightarrow> s)"

definition lock_setter_step :: "lock_race \<Rightarrow> lock_race" where
  "lock_setter_step s =
     (case lk_setter s of
        J_read_handle \<Rightarrow> s\<lparr>lk_setter := J_store_flag (lk_registered s)\<rparr>
      | J_store_flag handle \<Rightarrow> s\<lparr>lk_flag := True, lk_setter := if handle then J_unpark else J_returned\<rparr>
      | J_unpark \<Rightarrow> s\<lparr>lk_permit := True, lk_setter := J_returned\<rparr>
      | J_returned \<Rightarrow> s)"

inductive lock_step :: "lock_race \<Rightarrow> lock_race \<Rightarrow> bool" where
  lock_waits: "lock_step s (lock_waiter_step s)"
| lock_sets: "lock_step s (lock_setter_step s)"

definition lock_stuck :: "lock_race \<Rightarrow> bool" where
  "lock_stuck s \<longleftrightarrow> lk_waiter s = K_park \<and> \<not> lk_permit s \<and> lk_setter s = J_returned"

lemma lock_stuck_forever: "lock_step\<^sup>*\<^sup>* s t \<Longrightarrow> lock_stuck s \<Longrightarrow> t = s"
  by (induction rule: rtranclp_induct)
    (auto elim!: lock_step.cases simp: lock_stuck_def lock_waiter_step_def lock_setter_step_def)

lemma lock_loses_wakeup:
  "\<exists>s. lock_step\<^sup>*\<^sup>* lock_race_start s \<and> lk_flag s \<and> lock_stuck s \<and> {t. lock_step\<^sup>*\<^sup>* s t} = {s}"
proof -
  define s where "s = lock_setter_step (lock_waiter_step (lock_waiter_step (lock_waiter_step
    (lock_waiter_step (lock_setter_step lock_race_start)))))"
  have "lock_step\<^sup>*\<^sup>* lock_race_start s"
    unfolding s_def by (meson lock_waits lock_sets rtranclp.rtrancl_refl rtranclp.rtrancl_into_rtrancl)
  moreover have state: "lk_flag s" "lock_stuck s"
    by (simp_all add: s_def lock_stuck_def lock_race_start_def lock_waiter_step_def lock_setter_step_def)
  moreover have "{t. lock_step\<^sup>*\<^sup>* s t} = {s}"
    using lock_stuck_forever [OF _ state(2)] by auto
  ultimately show ?thesis by blast
qed

text \<open>
  Nothing is lost when the setter finds the handle: it then unparks a waiter that may be
  parked, and the waiter is gone after three more steps. The waiter never leaves early.
\<close>

definition lock_ok :: "lock_race \<Rightarrow> bool" where
  "lock_ok s \<longleftrightarrow>
     (lk_flag s \<longleftrightarrow> lk_setter s = J_unpark \<or> lk_setter s = J_returned)
     \<and> (lk_waiter s = K_returned \<longrightarrow> lk_flag s)
     \<and> (lk_waiter s \<in> {K_second, K_loop, K_park} \<longrightarrow> lk_registered s)"

lemma lock_waiter_step_ok: "lock_ok s \<Longrightarrow> lock_ok (lock_waiter_step s)"
  by (cases "lk_waiter s") (auto simp: lock_ok_def lock_waiter_step_def)

lemma lock_setter_step_ok: "lock_ok s \<Longrightarrow> lock_ok (lock_setter_step s)"
  by (cases "lk_setter s") (auto simp: lock_ok_def lock_setter_step_def)

lemma lock_run_ok: "lock_step\<^sup>*\<^sup>* s t \<Longrightarrow> lock_ok s \<Longrightarrow> lock_ok t"
  by (induction rule: rtranclp_induct) (auto elim!: lock_step.cases intro: lock_waiter_step_ok lock_setter_step_ok)

lemma lock_ok_start: "lock_ok lock_race_start"
  by (simp add: lock_ok_def lock_race_start_def)

definition lock_covered :: "lock_race \<Rightarrow> bool" where
  "lock_covered s \<longleftrightarrow>
     lk_registered s
     \<and> (lk_setter s \<in> {J_read_handle, J_store_flag True, J_unpark}
          \<or> lk_setter s = J_returned \<and> (lk_waiter s = K_park \<longrightarrow> lk_permit s))"

lemma lock_covered_waiter: "lock_covered s \<Longrightarrow> lock_ok s \<Longrightarrow> lock_covered (lock_waiter_step s)"
  by (cases "lk_waiter s") (auto simp: lock_covered_def lock_ok_def lock_waiter_step_def)

lemma lock_covered_setter: "lock_covered s \<Longrightarrow> lock_ok s \<Longrightarrow> lock_covered (lock_setter_step s)"
  by (cases "lk_setter s") (auto simp: lock_covered_def lock_ok_def lock_setter_step_def)

lemma lock_run_covered: "lock_step\<^sup>*\<^sup>* s t \<Longrightarrow> lock_ok s \<Longrightarrow> lock_covered s \<Longrightarrow> lock_covered t"
proof (induction rule: rtranclp_induct)
  case (step y z)
  then show ?case
    by (auto elim!: lock_step.cases intro: lock_covered_waiter lock_covered_setter lock_run_ok)
qed

lemma lock_wakes:
  assumes "lock_ok s" "lock_covered s" "lk_setter s = J_returned"
  shows "lk_waiter ((lock_waiter_step ^^ 2) s) = K_returned"
  using assms by (cases "lk_waiter s") (auto simp: lock_ok_def lock_covered_def lock_waiter_step_def numeral_2_eq_2)

end
