(* ===== verification/Wait_Laws.thy ===== *)
theory Wait_Laws
  imports Parker
begin

text \<open>
  What the wait controller of \<open>sched/sleep.rs\<close> keeps over any interleaving of the parks of
  any number of threads, how much evidence a change of strategy takes, and what one pair of
  a thread measures.
\<close>

section \<open>Runs\<close>

text \<open>
  The ghost count is of the pairs whose two readings were compared. A park of thread \<open>i\<close>
  asks for a plan; a sampled park that was woken records its reading.
\<close>

datatype wait_op = Wait_plan nat | Wait_record nat nat u64

record wait_system =
  ws_controller :: wait_controller
  ws_cursors :: "probe_cursor list"
  ws_pairs :: nat

definition wait_system_start :: "nat \<Rightarrow> wait_system" where
  "wait_system_start n =
     \<lparr>ws_controller = wait_controller_new, ws_cursors = replicate n probe_cursor_new, ws_pairs = 0\<rparr>"

inductive wait_step :: "cpu_features \<Rightarrow> wait_system \<Rightarrow> wait_system \<Rightarrow> bool" for cpu where
  wait_plans:
    "i < length (ws_cursors s) \<Longrightarrow> sample_plan cpu m (ws_controller s, ws_cursors s ! i) = (answer, w, c)
     \<Longrightarrow> wait_step cpu s (s\<lparr>ws_controller := w, ws_cursors := (ws_cursors s)[i := c]\<rparr>)"
| wait_records:
    "i < length (ws_cursors s) \<Longrightarrow> slot < 2
     \<Longrightarrow> wait_record slot ns (ws_controller s, ws_cursors s ! i) = Some (w, c)
     \<Longrightarrow> wait_step cpu s
          (s\<lparr>ws_controller := w, ws_cursors := (ws_cursors s)[i := c],
            ws_pairs := ws_pairs s + of_bool (fst (probe_served slot ns (ws_cursors s ! i)) \<noteq> None)\<rparr>)"

section \<open>The invariant\<close>

definition wait_bounds :: "wait_controller \<Rightarrow> bool" where
  "wait_bounds w \<longleftrightarrow>
     \<bar>wc_score w\<bar> \<le> SCORE_CAP \<and> PROBE_EVERY_MIN \<le> wc_probe_every w \<and> wc_probe_every w \<le> PROBE_EVERY_MAX
     \<and> wc_current w < 2 \<and> length (wc_mean_ns w) = 2 \<and> length (wc_samples w) = 2"

text \<open>How far the score has moved toward the strategy that is not in use.\<close>

definition progress :: "wait_controller \<Rightarrow> nat" where
  "progress w = nat (if wc_current w = SLOT_CHALLENGER then - wc_score w else wc_score w)"

definition evidence_ok :: "nat \<Rightarrow> wait_controller \<Rightarrow> bool" where
  "evidence_ok pairs w \<longleftrightarrow> 24 * unat (wc_switches w) + progress w \<le> pairs"

lemmas wait_consts = SCORE_CAP_def SWITCH_AT_def PROBE_EVERY_MIN_def PROBE_EVERY_MAX_def
  SLOT_BASELINE_def SLOT_CHALLENGER_def

lemma probe_every_doubles:
  fixes e :: u32
  assumes "64 \<le> e" "e \<le> 4096"
  shows "64 \<le> min (e * 2) 4096" "min (e * 2) 4096 \<le> (4096 :: u32)"
proof -
  have "unat (e * 2) = unat e * 2"
    using assms by (simp add: unat_word_ariths word_le_nat_alt)
  then show "64 \<le> min (e * 2) 4096" "min (e * 2) 4096 \<le> (4096 :: u32)"
    using assms by (simp_all add: min_def word_le_nat_alt)
qed

lemma score_pair_bounds: "wait_bounds w \<Longrightarrow> wait_bounds (score_pair b c w)"
  by (auto simp: wait_bounds_def score_pair_def clamp_int_def SCORE_CAP_def)

lemma wait_decide_bounds:
  assumes "wait_bounds w"
  shows "wait_bounds (wait_decide w)"
proof -
  have e: "64 \<le> wc_probe_every w" "wc_probe_every w \<le> 4096"
    using assms by (simp_all add: wait_bounds_def PROBE_EVERY_MIN_def PROBE_EVERY_MAX_def)
  show ?thesis
    using assms probe_every_doubles [OF e]
    by (auto simp: wait_bounds_def wait_decide_def wait_consts Let_def)
qed

lemma score_pair_evidence:
  assumes "evidence_ok n w"
  shows "evidence_ok (Suc n) (score_pair b c w)"
  using assms by (auto simp: evidence_ok_def score_pair_def clamp_int_def SCORE_CAP_def progress_def)

lemma update_bounds:
  "wait_bounds (w\<lparr>wc_samples := (wc_samples w)[i := n], wc_mean_ns := (wc_mean_ns w)[i := m]\<rparr>) = wait_bounds w"
  by (simp add: wait_bounds_def)

lemma update_evidence:
  "evidence_ok k (w\<lparr>wc_samples := (wc_samples w)[i := n], wc_mean_ns := (wc_mean_ns w)[i := m]\<rparr>) = evidence_ok k w"
  by (simp add: evidence_ok_def progress_def)

lemma unat_Suc_le: "unat (x + 1 :: u64) \<le> unat x + 1"
  by (simp add: unat_word_ariths)

lemma wait_decide_evidence:
  assumes "evidence_ok n w" "wait_bounds w"
  shows "evidence_ok n (wait_decide w)"
  using assms unat_Suc_le [of "wc_switches w"]
  by (auto simp: evidence_ok_def wait_decide_def wait_bounds_def progress_def wait_consts Let_def)

lemma record_parts:
  assumes "wait_record slot ns (w, c) = Some (w', c')"
  obtains w1 :: wait_controller and means samples where
    "w' = wait_decide (w1\<lparr>wc_samples := (wc_samples w1)[slot := samples], wc_mean_ns := (wc_mean_ns w1)[slot := means]\<rparr>)"
    "w1 = w \<and> fst (probe_served slot ns c) = None
     \<or> fst (probe_served slot ns c) \<noteq> None \<and> (\<exists>x y. w1 = score_pair x y w)"
    "c' = snd (probe_served slot ns c)"
proof (cases "fst (probe_served slot ns c)")
  case None
  then show thesis using assms that [where ?w1.0 = w]
    by (cases "probe_served slot ns c") (auto simp: wait_record_def Let_def split: option.splits)
next
  case (Some x)
  then show thesis using assms that
    by (cases "probe_served slot ns c") (fastforce simp: wait_record_def Let_def split: option.splits if_splits)
qed

definition wait_system_ok :: "wait_system \<Rightarrow> bool" where
  "wait_system_ok s \<longleftrightarrow> wait_bounds (ws_controller s) \<and> evidence_ok (ws_pairs s) (ws_controller s)"

lemma plan_controller:
  "sample_plan cpu m (w, c) = (answer, w', c') \<Longrightarrow> w' = w\<lparr>wc_parks := wc_parks w'\<rparr>"
  by (auto simp: sample_plan_def Let_def split: option.splits if_splits)

lemma wait_step_ok: "wait_step cpu s t \<Longrightarrow> wait_system_ok s \<Longrightarrow> wait_system_ok t"
proof (induction rule: wait_step.induct)
  case (wait_plans i s m answer w c)
  have "wait_bounds w = wait_bounds (ws_controller s)" "evidence_ok n w = evidence_ok n (ws_controller s)" for n
    by (subst plan_controller [OF wait_plans(2)], simp add: wait_bounds_def evidence_ok_def progress_def)+
  then show ?case using wait_plans(3) by (simp add: wait_system_ok_def)
next
  case (wait_records i s slot ns w c)
  from wait_records(3) obtain w1 means samples where w:
    "w = wait_decide (w1\<lparr>wc_samples := (wc_samples w1)[slot := samples], wc_mean_ns := (wc_mean_ns w1)[slot := means]\<rparr>)"
    and w1: "w1 = ws_controller s \<and> fst (probe_served slot ns (ws_cursors s ! i)) = None
     \<or> fst (probe_served slot ns (ws_cursors s ! i)) \<noteq> None \<and> (\<exists>x y. w1 = score_pair x y (ws_controller s))"
    by (rule record_parts)
  let ?n = "ws_pairs s + of_bool (fst (probe_served slot ns (ws_cursors s ! i)) \<noteq> None)"
  let ?w2 = "w1\<lparr>wc_samples := (wc_samples w1)[slot := samples], wc_mean_ns := (wc_mean_ns w1)[slot := means]\<rparr>"
  have "wait_bounds w1" "evidence_ok ?n w1"
    using w1 wait_records(4) score_pair_bounds score_pair_evidence by (auto simp: wait_system_ok_def)
  then have "wait_bounds ?w2" "evidence_ok ?n ?w2"
    by (simp_all only: update_bounds update_evidence)
  then show ?case
    using wait_decide_bounds wait_decide_evidence by (simp add: wait_system_ok_def w)
qed

lemma wait_run_ok: "(wait_step cpu)\<^sup>*\<^sup>* s t \<Longrightarrow> wait_system_ok s \<Longrightarrow> wait_system_ok t"
  by (induction rule: rtranclp_induct) (auto intro: wait_step_ok)

lemma wait_system_ok_start: "wait_system_ok (wait_system_start n)"
  by (simp add: wait_system_ok_def wait_system_start_def wait_bounds_def evidence_ok_def progress_def
      wait_controller_new_def wait_consts)

section \<open>A clock that runs behind\<close>

text \<open>
  \<open>park_until\<close> reads a wake as \<open>now.wrapping_sub(stamp)\<close>: a stamp from a core whose counter
  runs ahead of the waiter's wraps to a reading near the top of \<open>u64\<close>.
\<close>

definition wake_reading :: "u64 \<Rightarrow> u64 \<Rightarrow> u64 \<Rightarrow> u64" where
  "wake_reading per_ns_16 now stamp = cycles_to_ns per_ns_16 (now - stamp)"

lemma skewed_reading:
  assumes "now < stamp" "unat (stamp - now) \<le> 2 ^ 63" "0 < k"
  shows "unat (wake_reading k now stamp) = (2 ^ 64 - 1) div unat k"
proof -
  have "unat (now - stamp) \<ge> 2 ^ 63"
    using assms(1,2) by (simp add: unat_sub_if_size word_size word_less_nat_alt)
  then have "unat (sat_mul (now - stamp) 16) = 2 ^ 64 - 1" by (simp add: unat_sat_mul)
  then show ?thesis using assms(3) by (simp add: wake_reading_def cycles_to_ns_def unat_div word_gt_0)
qed

end
