(* ===== verification/Job_Line.thy ===== *)
theory Job_Line
  imports Foundation Chase_Lev
begin

text \<open>
  Jobs (\<open>sched/job.rs\<close>) and the deques that move them a cache line of three at a time:
  \<open>SchedFclDeque\<close> (\<open>sched/fcl_local.rs\<close>) over the Chase-Lev deque and \<open>SchedKhlDeque\<close>
  (\<open>sched/khl_local.rs\<close>), whose inner deque is in \<open>Khl\<close>. Both collect the owner's pushes in
  an accumulator and hand full lines to the inner deque; the owner's operations are stated
  once over the inner deque's operations.
\<close>

section \<open>Jobs\<close>

text \<open>
  The pointer and the function of a job are one opaque value \<open>'j\<close>; \<open>None\<close> is the null
  \<open>CompactJobRef\<close>, which panics when it is executed.
\<close>

record 'j job_ref =
  job_body :: 'j
  job_k_outer :: u8
  job_numa_hint :: u8
  job_variant :: u8
  job_reserved :: u8

definition NUMA_HINT_ANY :: u8 where "NUMA_HINT_ANY = 0xFF"

definition variant_to_tag :: "variant \<Rightarrow> u8" where
  "variant_to_tag v = (case v of Correct \<Rightarrow> 0 | Faithful \<Rightarrow> 1 | Fast \<Rightarrow> 2)"

definition tag_to_variant :: "u8 \<Rightarrow> variant" where
  "tag_to_variant t = (if t = 0 then Correct else if t = 2 then Fast else Faithful)"

definition job_new :: "'j \<Rightarrow> u8 \<Rightarrow> u8 \<Rightarrow> variant \<Rightarrow> 'j job_ref" where
  "job_new data k numa v =
     \<lparr>job_body = data, job_k_outer = k, job_numa_hint = numa, job_variant = variant_to_tag v, job_reserved = 0\<rparr>"

definition to_jobref :: "'j \<Rightarrow> u8 \<Rightarrow> u8 \<Rightarrow> u8 \<Rightarrow> 'j job_ref" where
  "to_jobref data k numa v =
     \<lparr>job_body = data, job_k_outer = k, job_numa_hint = numa, job_variant = v, job_reserved = 0\<rparr>"

lemma variant_tag_round_trip: "tag_to_variant (variant_to_tag v) = v"
  by (cases v) (simp_all add: tag_to_variant_def variant_to_tag_def)

text \<open>
  A job on its caller's stack: the closure that is taken once, the result cell and whether
  the latch was set. \<open>'p\<close> is a panic payload; a panic of the code itself is \<open>None\<close>.
\<close>

datatype ('r, 'p) job_result = Job_none | Job_ok 'r | Job_panic 'p

record ('r, 'p) stack_job =
  sj_func :: "(bool \<Rightarrow> 'r + 'p) option"
  sj_result :: "('r, 'p) job_result"
  sj_latched :: bool

definition stack_job_new :: "(bool \<Rightarrow> 'r + 'p) \<Rightarrow> ('r, 'p) stack_job" where
  "stack_job_new f = \<lparr>sj_func = Some f, sj_result = Job_none, sj_latched = False\<rparr>"

definition job_capture :: "(bool \<Rightarrow> 'r + 'p) \<Rightarrow> bool \<Rightarrow> ('r, 'p) job_result" where
  "job_capture f stolen = (case f stolen of Inl v \<Rightarrow> Job_ok v | Inr p \<Rightarrow> Job_panic p)"

definition job_execute :: "('r, 'p) stack_job \<Rightarrow> ('r, 'p) stack_job option" where
  "job_execute j =
     (case sj_func j of
        None \<Rightarrow> None
      | Some f \<Rightarrow> Some (j\<lparr>sj_func := None, sj_result := job_capture f True, sj_latched := True\<rparr>))"

definition run_inline :: "bool \<Rightarrow> ('r, 'p) stack_job \<Rightarrow> ('r + 'p) option" where
  "run_inline stolen j = (case sj_func j of None \<Rightarrow> None | Some f \<Rightarrow> Some (f stolen))"

definition into_result :: "('r, 'p) stack_job \<Rightarrow> ('r + 'p) option \<times> ('r, 'p) stack_job" where
  "into_result j =
     (case sj_result j of Job_none \<Rightarrow> None | Job_ok v \<Rightarrow> Some (Inl v) | Job_panic p \<Rightarrow> Some (Inr p),
      j\<lparr>sj_result := Job_none\<rparr>)"

section \<open>Lines\<close>

definition LINE_ITEMS :: nat where "LINE_ITEMS = 3"

record 'j line =
  ln_n_items :: nat
  ln_k_outer :: u8
  ln_numa_hint :: u8
  ln_variant :: u8
  ln_items :: "'j option list"

definition line_empty :: "u8 \<Rightarrow> u8 \<Rightarrow> u8 \<Rightarrow> 'j line" where
  "line_empty k numa v =
     \<lparr>ln_n_items = 0, ln_k_outer = k, ln_numa_hint = numa, ln_variant = v, ln_items = [None, None, None]\<rparr>"

definition line_one :: "'j job_ref \<Rightarrow> 'j line" where
  "line_one j =
     \<lparr>ln_n_items = 1, ln_k_outer = job_k_outer j, ln_numa_hint = job_numa_hint j, ln_variant = job_variant j,
      ln_items = [Some (job_body j), None, None]\<rparr>"

text \<open>\<open>execute_all_lifo\<close> runs the first \<open>n_items\<close> slots from the last to the first.\<close>

definition execute_all_lifo :: "'j line \<Rightarrow> 'j option list" where
  "execute_all_lifo l = map (\<lambda>i. ln_items l ! i) (rev [0..<ln_n_items l])"

definition line_append :: "'j job_ref \<Rightarrow> 'j line \<Rightarrow> 'j line" where
  "line_append j acc =
     (let acc = (if ln_n_items acc = 0
                 then acc\<lparr>ln_k_outer := job_k_outer j, ln_numa_hint := job_numa_hint j, ln_variant := job_variant j\<rparr>
                 else acc)
      in acc\<lparr>ln_items := (ln_items acc)[ln_n_items acc := Some (job_body j)], ln_n_items := ln_n_items acc + 1\<rparr>)"

section \<open>The owner's operations\<close>

record ('d, 'j) line_deque =
  ld_acc :: "'j line"
  ld_inner :: 'd

text \<open>
  Publishing a line into a full inner deque spins until a thief makes room: with nobody
  else running it does not return, which is \<open>None\<close>.
\<close>

definition publish :: "('d \<Rightarrow> 'j line \<Rightarrow> ('j line + unit) \<times> 'd) \<Rightarrow> 'j line \<Rightarrow> ('d, 'j) line_deque \<Rightarrow>
    ('d, 'j) line_deque option" where
  "publish put l q =
     (case put (ld_inner q) l of (Inr u, d) \<Rightarrow> Some (q\<lparr>ld_inner := d\<rparr>) | (Inl _, _) \<Rightarrow> None)"

definition line_push :: "('d \<Rightarrow> 'j line \<Rightarrow> ('j line + unit) \<times> 'd) \<Rightarrow> 'j job_ref \<Rightarrow> ('d, 'j) line_deque \<Rightarrow>
    ('d, 'j) line_deque option" where
  "line_push put j q =
     (let acc = line_append j (ld_acc q)
      in if ln_n_items acc = LINE_ITEMS then publish put acc (q\<lparr>ld_acc := line_empty 0 0 0\<rparr>)
         else Some (q\<lparr>ld_acc := acc\<rparr>))"

definition line_flush :: "('d \<Rightarrow> 'j line \<Rightarrow> ('j line + unit) \<times> 'd) \<Rightarrow> ('d, 'j) line_deque \<Rightarrow>
    ('d, 'j) line_deque option" where
  "line_flush put q =
     (if ln_n_items (ld_acc q) = 0 then Some q
      else publish put (ld_acc q) (q\<lparr>ld_acc := line_empty 0 0 0\<rparr>))"

definition line_push_one :: "('d \<Rightarrow> 'j line \<Rightarrow> ('j line + unit) \<times> 'd) \<Rightarrow> 'j job_ref \<Rightarrow> ('d, 'j) line_deque \<Rightarrow>
    ('d, 'j) line_deque option" where
  "line_push_one put j q =
     (if ln_n_items (ld_acc q) = 0 then publish put (line_one j) q
      else case line_push put j q of None \<Rightarrow> None | Some q' \<Rightarrow> line_flush put q')"

text \<open>
  A refused line gives its job back; the result \<open>None\<close> would be the unpacking of a null slot.
\<close>

definition try_put_line :: "('d \<Rightarrow> 'j line \<Rightarrow> ('j line + unit) \<times> 'd) \<Rightarrow> 'j job_ref \<Rightarrow>
    ('d, 'j) line_deque \<Rightarrow> ('j job_ref option + unit) \<times> ('d, 'j) line_deque" where
  "try_put_line put j q =
     (case put (ld_inner q) (line_one j) of
        (Inr u, d) \<Rightarrow> (Inr (), q\<lparr>ld_inner := d\<rparr>)
      | (Inl l, d) \<Rightarrow>
          (Inl (map_option (\<lambda>x. to_jobref x (ln_k_outer l) (ln_numa_hint l) (ln_variant l)) (ln_items l ! 0)),
           q\<lparr>ld_inner := d\<rparr>))"

definition line_try_push_one :: "('d \<Rightarrow> 'j line \<Rightarrow> ('j line + unit) \<times> 'd) \<Rightarrow> 'j job_ref \<Rightarrow>
    ('d, 'j) line_deque \<Rightarrow> ('j job_ref option + unit) \<times> ('d, 'j) line_deque" where
  "line_try_push_one put j q =
     (if ln_n_items (ld_acc q) \<noteq> 0
      then case put (ld_inner q) (ld_acc q) of
             (Inl returned, d) \<Rightarrow> (Inl (Some j), q\<lparr>ld_acc := returned, ld_inner := d\<rparr>)
           | (Inr u, d) \<Rightarrow> try_put_line put j (q\<lparr>ld_acc := line_empty 0 0 0, ld_inner := d\<rparr>)
      else try_put_line put j q)"

definition line_pop :: "('d \<Rightarrow> 'j line steal option \<times> 'd) \<Rightarrow> ('d, 'j) line_deque \<Rightarrow>
    'j line steal option \<times> ('d, 'j) line_deque" where
  "line_pop take_newest q =
     (if 0 < ln_n_items (ld_acc q) then (Some (Success (ld_acc q)), q\<lparr>ld_acc := line_empty 0 0 0\<rparr>)
      else let (r, d) = take_newest (ld_inner q) in (r, q\<lparr>ld_inner := d\<rparr>))"

definition line_steal :: "('d \<Rightarrow> 'j line steal option \<times> 'd) \<Rightarrow> ('d, 'j) line_deque \<Rightarrow>
    'j line steal option \<times> ('d, 'j) line_deque" where
  "line_steal take_oldest q = (let (r, d) = take_oldest (ld_inner q) in (r, q\<lparr>ld_inner := d\<rparr>))"

section \<open>The specification\<close>

text \<open>
  A list of published groups of jobs and the group under construction, each in push order.
\<close>

type_synonym 'j groups = "'j list list \<times> 'j list"

datatype 'j line_op =
  Line_push "'j job_ref" | Line_push_one "'j job_ref" | Line_try_push_one "'j job_ref" | Line_flush | Line_pop | Line_steal

datatype 'j line_answer = L_ok | L_spins | L_refused "'j job_ref" | L_group "'j list" | L_empty | L_broken

definition groups_publish :: "nat \<Rightarrow> 'j list \<Rightarrow> 'j groups \<Rightarrow> 'j groups option" where
  "groups_publish cap g gs = (if length (fst gs) < cap then Some (fst gs @ [g], snd gs) else None)"

definition groups_push :: "nat \<Rightarrow> 'j \<Rightarrow> 'j groups \<Rightarrow> 'j groups option" where
  "groups_push cap x gs =
     (if length (snd gs @ [x]) = 3 then groups_publish cap (snd gs @ [x]) (fst gs, [])
      else Some (fst gs, snd gs @ [x]))"

definition groups_flush :: "nat \<Rightarrow> 'j groups \<Rightarrow> 'j groups option" where
  "groups_flush cap gs = (if snd gs = [] then Some gs else groups_publish cap (snd gs) (fst gs, []))"

definition answer_or_spin :: "'s option \<Rightarrow> 's \<Rightarrow> 'j line_answer \<times> 's" where
  "answer_or_spin r s = (case r of Some s' \<Rightarrow> (L_ok, s') | None \<Rightarrow> (L_spins, s))"

fun line_spec :: "nat \<Rightarrow> 'j line_op \<Rightarrow> 'j groups \<Rightarrow> 'j line_answer \<times> 'j groups" where
  "line_spec cap (Line_push j) gs = answer_or_spin (groups_push cap (job_body j) gs) gs"
| "line_spec cap (Line_push_one j) gs =
     answer_or_spin
       (if snd gs = [] then groups_publish cap [job_body j] gs
        else case groups_push cap (job_body j) gs of None \<Rightarrow> None | Some gs' \<Rightarrow> groups_flush cap gs') gs"
| "line_spec cap (Line_try_push_one j) gs =
     (case groups_flush cap gs of
        None \<Rightarrow> (L_refused j, gs)
      | Some gs' \<Rightarrow> (case groups_publish cap [job_body j] gs' of
                      None \<Rightarrow> (L_refused (j\<lparr>job_reserved := 0\<rparr>), gs') | Some gs'' \<Rightarrow> (L_ok, gs'')))"
| "line_spec cap Line_flush gs = answer_or_spin (groups_flush cap gs) gs"
| "line_spec cap Line_pop gs =
     (if snd gs \<noteq> [] then (L_group (snd gs), (fst gs, []))
      else if fst gs = [] then (L_empty, gs) else (L_group (last (fst gs)), (butlast (fst gs), [])))"
| "line_spec cap Line_steal gs =
     (case fst gs of [] \<Rightarrow> (L_empty, gs) | g # rest \<Rightarrow> (L_group g, (rest, snd gs)))"

text \<open>The jobs of a line, in push order; what a caller sees of an operation's result.\<close>

definition line_jobs :: "'j line \<Rightarrow> 'j list" where
  "line_jobs l = map the (take (ln_n_items l) (ln_items l))"

definition took :: "'j line steal option \<times> 's \<Rightarrow> 'j line_answer \<times> 's" where
  "took r =
     (case fst r of
        Some (Success l) \<Rightarrow> L_group (rev (map the (execute_all_lifo l)))
      | Some Empty \<Rightarrow> L_empty
      | _ \<Rightarrow> L_broken, snd r)"

fun line_apply :: "('d \<Rightarrow> 'j line \<Rightarrow> ('j line + unit) \<times> 'd) \<Rightarrow> ('d \<Rightarrow> 'j line steal option \<times> 'd) \<Rightarrow>
    ('d \<Rightarrow> 'j line steal option \<times> 'd) \<Rightarrow> 'j line_op \<Rightarrow> ('d, 'j) line_deque \<Rightarrow>
    'j line_answer \<times> ('d, 'j) line_deque" where
  "line_apply put newest oldest (Line_push j) q = answer_or_spin (line_push put j q) q"
| "line_apply put newest oldest (Line_push_one j) q = answer_or_spin (line_push_one put j q) q"
| "line_apply put newest oldest (Line_try_push_one j) q =
     (case line_try_push_one put j q of
        (Inr u, q') \<Rightarrow> (L_ok, q')
      | (Inl (Some j'), q') \<Rightarrow> (L_refused j', q')
      | (Inl None, q') \<Rightarrow> (L_broken, q'))"
| "line_apply put newest oldest Line_flush q = answer_or_spin (line_flush put q) q"
| "line_apply put newest oldest Line_pop q = took (line_pop newest q)"
| "line_apply put newest oldest Line_steal q = took (line_steal oldest q)"

section \<open>Lines and their jobs\<close>

definition line_ok :: "'j line \<Rightarrow> bool" where
  "line_ok l \<longleftrightarrow> length (ln_items l) = 3 \<and> ln_n_items l \<le> 3 \<and> None \<notin> set (take (ln_n_items l) (ln_items l))"

lemma length_line_jobs: "line_ok l \<Longrightarrow> length (line_jobs l) = ln_n_items l"
  by (simp add: line_ok_def line_jobs_def)

lemma line_jobs_Nil: "line_ok l \<Longrightarrow> line_jobs l = [] \<longleftrightarrow> ln_n_items l = 0"
  using length_line_jobs [of l] by auto

lemma line_empty_ok [simp]: "line_ok (line_empty k n v)" "line_jobs (line_empty k n v) = []"
    "ln_n_items (line_empty k n v) = 0"
  by (simp_all add: line_ok_def line_jobs_def line_empty_def)

lemma line_one_ok [simp]: "line_ok (line_one j)" "line_jobs (line_one j) = [job_body j]" "ln_n_items (line_one j) = 1"
  by (simp_all add: line_ok_def line_jobs_def line_one_def)

lemma line_append_ok:
  assumes "line_ok acc" "ln_n_items acc < 3"
  shows "line_ok (line_append j acc)" "line_jobs (line_append j acc) = line_jobs acc @ [job_body j]"
    "ln_n_items (line_append j acc) = Suc (ln_n_items acc)"
proof -
  let ?n = "ln_n_items acc" and ?xs = "(ln_items acc)[ln_n_items acc := Some (job_body j)]"
  have items: "ln_items (line_append j acc) = ?xs" "ln_n_items (line_append j acc) = Suc ?n"
    by (simp_all add: line_append_def Let_def)
  have "take (Suc ?n) ?xs = take ?n (ln_items acc) @ [Some (job_body j)]"
    using assms by (simp add: line_ok_def take_Suc_conv_app_nth)
  with items assms show "line_ok (line_append j acc)"
    "line_jobs (line_append j acc) = line_jobs acc @ [job_body j]"
    "ln_n_items (line_append j acc) = Suc (ln_n_items acc)"
    by (simp_all only: line_ok_def line_jobs_def) simp_all
qed

lemma execute_all: "line_ok l \<Longrightarrow> rev (map the (execute_all_lifo l)) = line_jobs l"
proof -
  assume "line_ok l"
  then have "map ((!) (ln_items l)) [0..<ln_n_items l] = take (ln_n_items l) (ln_items l)"
    by (intro nth_equalityI) (simp_all add: line_ok_def)
  then show ?thesis
    by (simp add: execute_all_lifo_def line_jobs_def rev_map flip: map_map)
qed

section \<open>Any inner deque\<close>

locale line_sink = work_deque push pop steal abs ok cap
  for push :: "'d \<Rightarrow> 'j line \<Rightarrow> ('j line + unit) \<times> 'd" and pop and steal and abs and ok and cap
begin

definition sink_ok :: "('d, 'j) line_deque \<Rightarrow> bool" where
  "sink_ok q \<longleftrightarrow> ok (ld_inner q) \<and> line_ok (ld_acc q) \<and> ln_n_items (ld_acc q) < 3
     \<and> (\<forall>l \<in> set (abs (ld_inner q)). line_ok l)"

definition sink_view :: "('d, 'j) line_deque \<Rightarrow> 'j groups" where
  "sink_view q = (map line_jobs (abs (ld_inner q)), line_jobs (ld_acc q))"

lemma publish_sim:
  assumes "sink_ok q" "line_ok l"
  shows "case publish push l q of
      None \<Rightarrow> groups_publish (cap (ld_inner q)) (line_jobs l) (sink_view q) = None
    | Some q' \<Rightarrow> sink_ok q' \<and> cap (ld_inner q') = cap (ld_inner q)
        \<and> groups_publish (cap (ld_inner q)) (line_jobs l) (sink_view q) = Some (sink_view q')"
proof (cases "length (abs (ld_inner q)) < cap (ld_inner q)")
  case True
  obtain d' where d: "push (ld_inner q) l = (Inr (), d')" "ok d'" "abs d' = abs (ld_inner q) @ [l]"
      "cap d' = cap (ld_inner q)"
    using push_room [of "ld_inner q" l] assms(1) True unfolding sink_ok_def by blast
  have "publish push l q = Some (q\<lparr>ld_inner := d'\<rparr>)" by (simp add: publish_def d(1))
  moreover have "sink_ok (q\<lparr>ld_inner := d'\<rparr>)" using assms d(2,3) by (auto simp: sink_ok_def)
  moreover have "sink_view (q\<lparr>ld_inner := d'\<rparr>) = (fst (sink_view q) @ [line_jobs l], snd (sink_view q))"
    by (simp add: sink_view_def d(3))
  ultimately show ?thesis using True d(4) by (simp add: groups_publish_def) (simp add: sink_view_def)
next
  case False
  with assms push_full [of "ld_inner q" l] show ?thesis
    by (simp add: publish_def groups_publish_def sink_view_def sink_ok_def)
qed

text \<open>An operation that answers with a new state or spins, against its specification.\<close>

definition op_sim :: "('d, 'j) line_deque \<Rightarrow> ('d, 'j) line_deque option \<Rightarrow> 'j groups option \<Rightarrow> bool" where
  "op_sim q r g \<longleftrightarrow>
     (case r of
        None \<Rightarrow> g = None
      | Some q' \<Rightarrow> sink_ok q' \<and> cap (ld_inner q') = cap (ld_inner q) \<and> g = Some (sink_view q'))"

lemma publish_op:
  assumes "sink_ok q" "line_ok l"
  shows "op_sim q (publish push l q) (groups_publish (cap (ld_inner q)) (line_jobs l) (sink_view q))"
  using publish_sim [OF assms] by (simp add: op_sim_def split: option.splits)

lemma sink_acc:
  assumes "sink_ok q" "line_ok acc" "ln_n_items acc < 3"
  shows "sink_ok (q\<lparr>ld_acc := acc\<rparr>)" "sink_view (q\<lparr>ld_acc := acc\<rparr>) = (fst (sink_view q), line_jobs acc)"
  using assms by (simp_all add: sink_ok_def sink_view_def)

lemma publish_acc_op:
  assumes q: "sink_ok q" and l: "line_ok l"
  shows "op_sim q (publish push l (q\<lparr>ld_acc := line_empty 0 0 0\<rparr>))
    (groups_publish (cap (ld_inner q)) (line_jobs l) (fst (sink_view q), []))"
  using publish_op [OF sink_acc(1) [OF q, of "line_empty 0 0 0"] l] sink_acc(2) [OF q, of "line_empty 0 0 0"]
  by (simp add: op_sim_def split: option.splits)

lemma push_op:
  assumes "sink_ok q"
  shows "op_sim q (line_push push j q) (groups_push (cap (ld_inner q)) (job_body j) (sink_view q))"
proof -
  let ?acc = "line_append j (ld_acc q)"
  have acc: "line_ok (ld_acc q)" "ln_n_items (ld_acc q) < 3" using assms by (simp_all add: sink_ok_def)
  note a = line_append_ok [OF acc, of j]
  have snd: "snd (sink_view q) = line_jobs (ld_acc q)" by (simp add: sink_view_def)
  show ?thesis
  proof (cases "ln_n_items ?acc = 3")
    case True
    then have "line_push push j q = publish push ?acc (q\<lparr>ld_acc := line_empty 0 0 0\<rparr>)"
      by (simp add: line_push_def LINE_ITEMS_def)
    moreover have "groups_push (cap (ld_inner q)) (job_body j) (sink_view q)
        = groups_publish (cap (ld_inner q)) (line_jobs ?acc) (fst (sink_view q), [])"
      using True length_line_jobs [OF a(1)] a(2) by (simp add: groups_push_def snd)
    ultimately show ?thesis using publish_acc_op [OF assms a(1)] by simp
  next
    case False
    then have "line_push push j q = Some (q\<lparr>ld_acc := ?acc\<rparr>)" by (simp add: line_push_def LINE_ITEMS_def)
    moreover have "groups_push (cap (ld_inner q)) (job_body j) (sink_view q) = Some (fst (sink_view q), line_jobs ?acc)"
      using False length_line_jobs [OF a(1)] a(2) by (simp add: groups_push_def snd)
    moreover have "ln_n_items ?acc < 3" using False acc a(3) by simp
    ultimately show ?thesis using sink_acc [OF assms a(1)] by (simp add: op_sim_def)
  qed
qed

lemma flush_op:
  assumes "sink_ok q"
  shows "op_sim q (line_flush push q) (groups_flush (cap (ld_inner q)) (sink_view q))"
proof -
  have acc: "line_ok (ld_acc q)" using assms by (simp add: sink_ok_def)
  have snd: "snd (sink_view q) = line_jobs (ld_acc q)" by (simp add: sink_view_def)
  show ?thesis
  proof (cases "ln_n_items (ld_acc q) = 0")
    case True
    then show ?thesis using assms line_jobs_Nil [OF acc] snd
      by (simp add: line_flush_def groups_flush_def op_sim_def)
  next
    case False
    then show ?thesis using publish_acc_op [OF assms acc] line_jobs_Nil [OF acc] snd
      by (simp add: line_flush_def groups_flush_def)
  qed
qed

lemma push_one_op:
  assumes "sink_ok q"
  shows "op_sim q (line_push_one push j q)
    (if snd (sink_view q) = [] then groups_publish (cap (ld_inner q)) [job_body j] (sink_view q)
     else case groups_push (cap (ld_inner q)) (job_body j) (sink_view q) of
            None \<Rightarrow> None | Some gs \<Rightarrow> groups_flush (cap (ld_inner q)) gs)"
proof (cases "ln_n_items (ld_acc q) = 0")
  case True
  moreover have "snd (sink_view q) = []"
    using True by (simp add: sink_view_def line_jobs_def)
  ultimately show ?thesis
    using publish_op [OF assms line_one_ok(1), of j] by (simp add: line_push_one_def)
next
  case False
  have "snd (sink_view q) \<noteq> []"
    using False assms line_jobs_Nil [of "ld_acc q"] by (simp add: sink_ok_def sink_view_def)
  moreover have "op_sim q (case line_push push j q of None \<Rightarrow> None | Some q' \<Rightarrow> line_flush push q')
     (case groups_push (cap (ld_inner q)) (job_body j) (sink_view q) of
        None \<Rightarrow> None | Some gs \<Rightarrow> groups_flush (cap (ld_inner q)) gs)"
  proof (cases "line_push push j q")
    case None
    then show ?thesis using push_op [OF assms, of j] by (simp add: op_sim_def)
  next
    case (Some q')
    then have q': "sink_ok q'" "cap (ld_inner q') = cap (ld_inner q)"
      "groups_push (cap (ld_inner q)) (job_body j) (sink_view q) = Some (sink_view q')"
      using push_op [OF assms, of j] by (simp_all add: op_sim_def)
    then show ?thesis using Some flush_op [OF q'(1)] by (simp add: op_sim_def split: option.splits)
  qed
  ultimately show ?thesis using False by (simp add: line_push_one_def)
qed

lemma try_put_sim:
  assumes "sink_ok q"
  obtains q' where "sink_ok q'" "cap (ld_inner q') = cap (ld_inner q)"
      "groups_publish (cap (ld_inner q)) [job_body j] (sink_view q) = Some (sink_view q')"
      "try_put_line push j q = (Inr (), q')"
  | "groups_publish (cap (ld_inner q)) [job_body j] (sink_view q) = None"
      "try_put_line push j q = (Inl (Some (j\<lparr>job_reserved := 0\<rparr>)), q)"
proof (cases "publish push (line_one j) q")
  case None
  have full: "cap (ld_inner q) \<le> length (abs (ld_inner q))"
    using publish_op [OF assms line_one_ok(1), of j] None
    by (simp add: op_sim_def groups_publish_def sink_view_def not_less split: if_splits)
  have "push (ld_inner q) (line_one j) = (Inl (line_one j), ld_inner q)"
    using push_full [OF _ full] assms by (simp add: sink_ok_def)
  then have "try_put_line push j q = (Inl (Some (j\<lparr>job_reserved := 0\<rparr>)), q)"
    by (simp add: try_put_line_def to_jobref_def line_one_def)
  with that(2) None publish_op [OF assms line_one_ok(1), of j] show thesis by (simp add: op_sim_def)
next
  case (Some q')
  then obtain u d where put: "push (ld_inner q) (line_one j) = (Inr u, d)" and q': "q' = q\<lparr>ld_inner := d\<rparr>"
    by (auto simp: publish_def split: prod.splits sum.splits)
  then have "try_put_line push j q = (Inr (), q')" by (simp add: try_put_line_def)
  moreover have "sink_ok q'" "cap (ld_inner q') = cap (ld_inner q)"
      "groups_publish (cap (ld_inner q)) [job_body j] (sink_view q) = Some (sink_view q')"
    using Some publish_op [OF assms line_one_ok(1), of j] by (simp_all add: op_sim_def)
  ultimately show thesis by (intro that(1))
qed

lemma try_push_sim:
  assumes "sink_ok q"
  shows "sink_ok (snd (line_apply push pop steal (Line_try_push_one j) q))
    \<and> cap (ld_inner (snd (line_apply push pop steal (Line_try_push_one j) q))) = cap (ld_inner q)
    \<and> line_spec (cap (ld_inner q)) (Line_try_push_one j) (sink_view q)
        = (fst (line_apply push pop steal (Line_try_push_one j) q),
           sink_view (snd (line_apply push pop steal (Line_try_push_one j) q)))"
proof (cases "ln_n_items (ld_acc q) = 0")
  case True
  then have "line_try_push_one push j q = try_put_line push j q"
    "groups_flush (cap (ld_inner q)) (sink_view q) = Some (sink_view q)"
    by (simp_all add: line_try_push_one_def groups_flush_def sink_view_def line_jobs_def)
  then show ?thesis using assms by (cases rule: try_put_sim [OF assms, of j]) simp_all
next
  case False
  have acc: "line_ok (ld_acc q)" using assms by (simp add: sink_ok_def)
  have flush: "groups_flush (cap (ld_inner q)) (sink_view q)
      = groups_publish (cap (ld_inner q)) (line_jobs (ld_acc q)) (fst (sink_view q), [])"
    using False line_jobs_Nil [OF acc] by (simp add: groups_flush_def sink_view_def)
  show ?thesis
  proof (cases "publish push (ld_acc q) (q\<lparr>ld_acc := line_empty 0 0 0\<rparr>)")
    case None
    have full: "cap (ld_inner q) \<le> length (abs (ld_inner q))"
      using publish_acc_op [OF assms acc] None
      by (simp add: op_sim_def groups_publish_def sink_view_def not_less split: if_splits)
    have "push (ld_inner q) (ld_acc q) = (Inl (ld_acc q), ld_inner q)"
      using push_full [OF _ full] assms by (simp add: sink_ok_def)
    then have "line_try_push_one push j q = (Inl (Some j), q)"
      using False by (simp add: line_try_push_one_def)
    then show ?thesis using publish_acc_op [OF assms acc] None assms flush by (simp add: op_sim_def)
  next
    case (Some q1)
    then obtain u d where put: "push (ld_inner q) (ld_acc q) = (Inr u, d)"
      and q1: "q1 = q\<lparr>ld_acc := line_empty 0 0 0, ld_inner := d\<rparr>"
      by (auto simp: publish_def split: prod.splits sum.splits)
    then have try_eq: "line_try_push_one push j q = try_put_line push j q1"
      using False by (simp add: line_try_push_one_def)
    have ok1: "sink_ok q1" "cap (ld_inner q1) = cap (ld_inner q)"
        "groups_flush (cap (ld_inner q)) (sink_view q) = Some (sink_view q1)"
      using publish_acc_op [OF assms acc] Some flush by (simp_all add: op_sim_def)
    show ?thesis using ok1 try_eq by (cases rule: try_put_sim [OF ok1(1), of j]) simp_all
  qed
qed

lemma pop_sim:
  assumes "sink_ok q"
  shows "sink_ok (snd (line_apply push pop steal Line_pop q))
    \<and> cap (ld_inner (snd (line_apply push pop steal Line_pop q))) = cap (ld_inner q)
    \<and> line_spec (cap (ld_inner q)) Line_pop (sink_view q)
        = (fst (line_apply push pop steal Line_pop q), sink_view (snd (line_apply push pop steal Line_pop q)))"
proof -
  have ok: "ok (ld_inner q)" and acc: "line_ok (ld_acc q)" using assms by (simp_all add: sink_ok_def)
  consider "0 < ln_n_items (ld_acc q)" | "ln_n_items (ld_acc q) = 0" "abs (ld_inner q) = []"
    | xs l where "ln_n_items (ld_acc q) = 0" "abs (ld_inner q) = xs @ [l]"
    using rev_exhaust by blast
  then show ?thesis
  proof cases
    case 1
    then show ?thesis using assms acc line_jobs_Nil [OF acc]
      by (simp add: line_pop_def took_def execute_all sink_view_def sink_ok_def)
  next
    case 2
    then show ?thesis using assms acc line_jobs_Nil [OF acc] pop_none [OF ok]
      by (simp add: line_pop_def took_def sink_view_def sink_ok_def)
  next
    case 3
    obtain d' where d: "pop (ld_inner q) = (Some (Success l), d')" "ok d'" "abs d' = xs" "cap d' = cap (ld_inner q)"
      using pop_last [OF ok 3(2)] by blast
    have l: "line_ok l" using assms 3 by (simp add: sink_ok_def)
    show ?thesis using 3 assms acc line_jobs_Nil [OF acc] d l
      by (simp add: line_pop_def took_def execute_all sink_view_def sink_ok_def)
  qed
qed

lemma steal_sim:
  assumes "sink_ok q"
  shows "sink_ok (snd (line_apply push pop steal Line_steal q))
    \<and> cap (ld_inner (snd (line_apply push pop steal Line_steal q))) = cap (ld_inner q)
    \<and> line_spec (cap (ld_inner q)) Line_steal (sink_view q)
        = (fst (line_apply push pop steal Line_steal q), sink_view (snd (line_apply push pop steal Line_steal q)))"
proof (cases "abs (ld_inner q)")
  case Nil
  then show ?thesis using assms steal_none [of "ld_inner q"]
    by (simp add: line_steal_def took_def sink_view_def sink_ok_def)
next
  case (Cons l xs)
  obtain d' where d: "steal (ld_inner q) = (Some (Success l), d')" "ok d'" "abs d' = xs" "cap d' = cap (ld_inner q)"
    using steal_first [OF _ Cons] assms unfolding sink_ok_def by blast
  have l: "line_ok l" using assms Cons by (simp add: sink_ok_def)
  show ?thesis using Cons assms d l
    by (simp add: line_steal_def took_def execute_all sink_view_def sink_ok_def)
qed

lemma op_answer:
  assumes "sink_ok q" "op_sim q r g"
  shows "sink_ok (snd (answer_or_spin r q)) \<and> cap (ld_inner (snd (answer_or_spin r q))) = cap (ld_inner q)
    \<and> answer_or_spin g (sink_view q) = (fst (answer_or_spin r q), sink_view (snd (answer_or_spin r q)))"
  using assms by (simp add: op_sim_def answer_or_spin_def split: option.splits)

lemma line_apply_refines:
  assumes "sink_ok q"
  shows "sink_ok (snd (line_apply push pop steal op q))
    \<and> cap (ld_inner (snd (line_apply push pop steal op q))) = cap (ld_inner q)
    \<and> line_spec (cap (ld_inner q)) op (sink_view q)
        = (fst (line_apply push pop steal op q), sink_view (snd (line_apply push pop steal op q)))"
proof (cases op)
  case (Line_push j)
  then show ?thesis using op_answer [OF assms push_op [OF assms, of j]] by simp
next
  case (Line_push_one j)
  then show ?thesis using op_answer [OF assms push_one_op [OF assms, of j]] by simp
next
  case (Line_try_push_one j)
  then show ?thesis using try_push_sim [OF assms, of j] by simp
next
  case Line_flush
  then show ?thesis using op_answer [OF assms flush_op [OF assms]] by simp
next
  case Line_pop
  then show ?thesis using pop_sim [OF assms] by simp
next
  case Line_steal
  then show ?thesis using steal_sim [OF assms] by simp
qed

lemma line_run_refines:
  assumes "sink_ok q"
  shows "run_ops (line_spec (cap (ld_inner q))) ops (sink_view q)
    = (fst (run_ops (line_apply push pop steal) ops q), sink_view (snd (run_ops (line_apply push pop steal) ops q)))"
  using run_ops_simulates [where ok = "\<lambda>c. sink_ok c \<and> cap (ld_inner c) = cap (ld_inner q)" and view = sink_view
      and f = "line_apply push pop steal" and g = "line_spec (cap (ld_inner q))"] line_apply_refines assms
  by (metis (no_types, lifting))

end

section \<open>The FCL deque\<close>

text \<open>
  \<open>SchedFclDeque\<close> keeps its lines in a Chase-Lev deque. It has no \<open>push_one\<close> of its own; of
  the operations above the others are its.
\<close>

definition fcl_new :: "nat \<Rightarrow> ('j line header, 'j) line_deque" where
  "fcl_new cap = \<lparr>ld_acc = line_empty 0 0 0, ld_inner = new_chase_lev cap\<rparr>"

interpretation fcl: line_sink cl_push cl_pop cl_steal cl_abs cl_ok capacity
  by unfold_locales

lemma fcl_new_ok: "fcl.sink_ok (fcl_new cap)" and fcl_new_view: "fcl.sink_view (fcl_new cap) = ([], [])"
  by (simp_all add: cl_ok_new cl_abs_new fcl.sink_ok_def fcl.sink_view_def fcl_new_def)

end
