(* ===== verification/Khl.thy ===== *)
theory Khl
  imports Job_Line Flynnel_Ring
begin

text \<open>
  The inner deque of \<open>sched/khl_local.rs\<close>: a ring of slots, each with its own sequence
  number and body, that one owner fills and empties at the bottom and thieves empty at the
  head. The header has the shape of the ring of \<open>Flynnel_Ring\<close> (its tail is the bottom),
  with bodies that are never uninitialised.
\<close>

type_synonym 'b khl_header = "'b ring"

definition khl_new :: "'b \<Rightarrow> nat \<Rightarrow> 'b khl_header" where
  "khl_new body cap =
     \<lparr>fr_tail = 0, fr_head = 0,
      fr_slots = map (\<lambda>i. (int i, Some body)) [0..<next_power_of_two (max cap 2)]\<rparr>"

text \<open>
  \<open>publish\<close> waits until the slot was released for this round, where \<open>try_publish\<close> hands the
  body back.
\<close>

definition khl_try_publish :: "'b khl_header \<Rightarrow> 'b \<Rightarrow> ('b + unit) \<times> 'b khl_header" where
  "khl_try_publish h body =
     (let b = fr_tail h
      in if fr_seq h b \<noteq> b then (Inl body, h)
         else (Inr (), (set_seq b (b + 1) (set_data b body h))\<lparr>fr_tail := b + 1\<rparr>))"

text \<open>The owner takes the newest body, racing thieves only for the last one.\<close>

definition khl_pop_newest :: "'b khl_header \<Rightarrow> 'b steal option \<times> 'b khl_header" where
  "khl_pop_newest h =
     (let b = fr_tail h - 1
      in if b < fr_head h then (Some Empty, h)
         else
           let h1 = h\<lparr>fr_tail := b\<rparr>; t = fr_head h1
           in if b < t then (Some Empty, h1\<lparr>fr_tail := b + 1\<rparr>)
              else if t = b
              then let won = (fr_head h1 = t);
                       h2 = (if won then h1\<lparr>fr_head := t + 1\<rparr> else h1)\<lparr>fr_tail := b + 1\<rparr>
                   in if \<not> won then (Some Retry, h2)
                      else (map_option Success (fr_data h2 b), set_seq b (b + int (fr_capacity h2)) h2)
              else (map_option Success (fr_data h1 b), set_seq b b h1))"

text \<open>
  A thief claims the head and waits for the slot's publication; in a run of whole
  operations a wait that is not over at once would never end (\<open>None\<close>).
\<close>

definition khl_steal :: "'b khl_header \<Rightarrow> 'b steal option \<times> 'b khl_header" where
  "khl_steal h =
     (let t = fr_head h; b = fr_tail h
      in if b \<le> t then (Some Empty, h)
         else
           let won = (fr_head h = t); h1 = (if won then h\<lparr>fr_head := t + 1\<rparr> else h)
           in if \<not> won then (Some Retry, h)
              else if fr_seq h1 t \<noteq> t + 1 then (None, h1)
              else (map_option Success (fr_data h1 t), set_seq t (t + int (fr_capacity h1)) h1))"

definition khl_len :: "'b khl_header \<Rightarrow> nat" where
  "khl_len h = nat (max (fr_tail h - fr_head h) 0)"

definition khl_is_inner_empty :: "'b khl_header \<Rightarrow> bool" where
  "khl_is_inner_empty h \<longleftrightarrow> fr_tail h \<le> fr_head h"

definition khl_deque_new :: "nat \<Rightarrow> ('j line khl_header, 'j) line_deque" where
  "khl_deque_new cap = \<lparr>ld_acc = line_empty 0 0 0, ld_inner = khl_new (line_empty 0 0 0) cap\<rparr>"

section \<open>The contract\<close>

definition khl_abs :: "'b khl_header \<Rightarrow> 'b list" where
  "khl_abs h = fr_abs h"

definition khl_ok :: "'b khl_header \<Rightarrow> bool" where
  "khl_ok h \<longleftrightarrow> fr_ok h"

lemma khl_new_capacity: "fr_capacity (khl_new (body :: 'b) cap) = fr_capacity (fr_new cap :: 'b ring)"
  by (simp add: khl_new_def fr_new_def fr_capacity_def)

lemma khl_new_pow2: "fr_pow2 (khl_new (body :: 'b) cap)"
  using fr_new_pow2 [where ?'a = 'b and cap = cap] by (simp add: fr_pow2_def khl_new_capacity)

lemma khl_new_seq: "fr_seq (khl_new (body :: 'b) cap) p = p mod int (fr_capacity (khl_new body cap))"
proof -
  let ?h = "khl_new body cap" and ?r = "fr_new cap :: 'b ring"
  have "fr_idx ?h p < fr_capacity ?h" by (rule fr_idx_lt [OF khl_new_pow2])
  then have "fr_seq ?h p = fr_seq ?r p"
    by (simp add: fr_seq_def fr_idx_def khl_new_capacity) (simp add: khl_new_def fr_new_def fr_capacity_def)
  then show ?thesis by (simp add: fr_new_seq khl_new_capacity)
qed

lemma khl_ok_new: "khl_ok (khl_new body cap)" and khl_abs_new: "khl_abs (khl_new body cap) = []"
  by (simp_all add: khl_ok_def fr_ok_def khl_new_pow2 khl_new_seq khl_abs_def fr_abs_def)
    (simp_all add: khl_new_def)

lemma khl_publish_room:
  assumes ok: "khl_ok h" and room: "length (khl_abs h) < fr_capacity h"
  shows "\<exists>h'. khl_try_publish h x = (Inr (), h') \<and> khl_ok h' \<and> khl_abs h' = khl_abs h @ [x]
    \<and> fr_capacity h' = fr_capacity h"
proof -
  obtain h' where "fr_push (Suc 0) h x = Some (Push_ok, h')" "fr_ok h'" "fr_abs h' = fr_abs h @ [x]"
      "fr_capacity h' = fr_capacity h"
    using fr_push_room [of h 0 x] assms by (auto simp: khl_ok_def khl_abs_def)
  moreover have "fr_push (Suc 0) h x = Some (Push_ok, h') \<Longrightarrow> khl_try_publish h x = (Inr (), h')"
    by (auto simp: fr_push_def khl_try_publish_def Let_def set_seq_def set_data_def fr_idx_def fr_capacity_def
        fr_data_def split: if_splits)
  ultimately show ?thesis by (auto simp: khl_ok_def khl_abs_def)
qed

lemma khl_publish_full:
  assumes ok: "khl_ok h" and full: "fr_capacity h \<le> length (khl_abs h)"
  shows "khl_try_publish h x = (Inl x, h)"
proof -
  let ?b = "fr_tail h" and ?c = "int (fr_capacity h)"
  have fr: "fr_pow2 h" "?b = fr_head h + ?c" "2 \<le> ?c"
    using ok full by (auto simp: khl_ok_def khl_abs_def fr_ok_def length_fr_abs fr_pow2_def)
  then have "fr_head h < ?b" by simp
  then have "fr_seq h (fr_head h) = fr_head h + 1" using ok by (simp add: khl_ok_def fr_ok_def)
  note fr = fr this
  have "fr_seq h ?b = fr_head h + 1" using fr by (simp add: fr_seq_def fr_idx_lap)
  then show ?thesis using fr by (simp add: khl_try_publish_def)
qed

lemma khl_abs_Nil: "khl_ok h \<Longrightarrow> khl_abs h = [] \<longleftrightarrow> fr_tail h = fr_head h"
  by (auto simp: khl_ok_def khl_abs_def fr_ok_def fr_abs_def)

lemma khl_pop_none: "khl_ok h \<Longrightarrow> khl_abs h = [] \<Longrightarrow> khl_pop_newest h = (Some Empty, h)"
  by (simp add: khl_abs_Nil khl_pop_newest_def)

lemma khl_steal_none: "khl_ok h \<Longrightarrow> khl_abs h = [] \<Longrightarrow> khl_steal h = (Some Empty, h)"
  by (simp add: khl_abs_Nil khl_steal_def)

lemma khl_steal_first:
  assumes ok: "khl_ok h" and abs: "khl_abs h = x # xs"
  shows "\<exists>h'. khl_steal h = (Some (Success x), h') \<and> khl_ok h' \<and> khl_abs h' = xs \<and> fr_capacity h' = fr_capacity h"
proof -
  obtain h' where h': "fr_pop (Suc 0) h = Some (Pop_ok x, h')" "fr_ok h'" "fr_abs h' = xs" "fr_capacity h' = fr_capacity h"
    using fr_pop_first [of h x xs 0] assms by (auto simp: khl_ok_def khl_abs_def)
  have lt: "fr_head h < fr_tail h" using ok abs khl_abs_Nil [OF ok] by (auto simp: khl_ok_def fr_ok_def)
  then have "fr_seq h (fr_head h) = fr_head h + 1" using ok by (simp add: khl_ok_def fr_ok_def)
  with h'(1) lt have "khl_steal h = (Some (Success x), h')"
    by (auto simp: fr_pop_def khl_steal_def Let_def split: option.splits)
  with h' show ?thesis by (simp add: khl_ok_def khl_abs_def)
qed

lemma khl_pop_last:
  assumes ok: "khl_ok h" and abs: "khl_abs h = xs @ [x]"
  shows "\<exists>h'. khl_pop_newest h = (Some (Success x), h') \<and> khl_ok h' \<and> khl_abs h' = xs \<and> fr_capacity h' = fr_capacity h"
proof -
  let ?b = "fr_tail h - 1" and ?c = "int (fr_capacity h)" and ?t = "fr_head h"
  have lt: "?t < fr_tail h" using ok abs khl_abs_Nil [OF ok] by (auto simp: khl_ok_def fr_ok_def)
  have pow: "fr_pow2 h" and c: "2 \<le> ?c" and room: "fr_tail h \<le> ?t + ?c"
    using ok by (auto simp: khl_ok_def fr_ok_def fr_pow2_def)
  have full: "fr_seq h p = p + 1 \<and> fr_data h p \<noteq> None" if "?t \<le> p" "p < fr_tail h" for p
    using ok that by (simp add: khl_ok_def fr_ok_def)
  have free: "fr_seq h p = p" if "fr_tail h \<le> p" "p < ?t + ?c" for p
    using ok that by (simp add: khl_ok_def fr_ok_def)
  have abs': "khl_abs h = map (\<lambda>p. the (fr_data h p)) [?t..?b - 1] @ [the (fr_data h ?b)]"
    using lt by (simp add: khl_abs_def fr_abs_def upto_rec2)
  have x: "fr_data h ?b = Some x" and xs: "xs = map (\<lambda>p. the (fr_data h p)) [?t..?b - 1]"
    using abs abs' full [of ?b] lt by auto
  have slot: "fr_idx h q = fr_idx h ?b \<longleftrightarrow> q = ?b" if "?t \<le> q" "q < ?t + ?c" for q
    using fr_idx_eq [OF pow, of q ?b] that lt room by auto
  show ?thesis
  proof (cases "?t = ?b")
    case True
    let ?h' = "set_seq ?b (?b + ?c) (h\<lparr>fr_head := ?t + 1\<rparr>)"
    have "khl_pop_newest h = (Some (Success x), ?h')"
      using True x lt by (simp add: khl_pop_newest_def fr_data_def fr_idx_def fr_capacity_def set_seq_def Let_def)
    moreover have seqs: "fr_seq ?h' q = q" if q: "?b + 1 \<le> q" "q < ?b + 1 + ?c" for q
    proof (cases "q = ?b + ?c")
      case True
      then show ?thesis using pow fr_idx_lap [OF pow, of ?b] by (simp add: ring_slots)
    next
      case False
      then have "fr_idx h q \<noteq> fr_idx h ?b" "fr_seq h q = q"
        using slot [of q] free [of q] True q by auto
      then show ?thesis using pow by (simp add: ring_slots)
    qed
    ultimately show ?thesis
      using True pow lt c xs by (intro exI [of _ ?h']) (auto simp: khl_ok_def fr_ok_def khl_abs_def fr_abs_def)
  next
    case False
    let ?h' = "set_seq ?b ?b (h\<lparr>fr_tail := ?b\<rparr>)"
    have "khl_pop_newest h = (Some (Success x), ?h')"
      using False x lt by (simp add: khl_pop_newest_def fr_data_def fr_idx_def fr_capacity_def Let_def)
    moreover have seqs: "fr_seq ?h' q = (if q = ?b then ?b else fr_seq h q)" "fr_data ?h' q = fr_data h q"
      if "?t \<le> q" "q < ?t + ?c" for q
      using slot [OF that] pow by (simp_all add: ring_slots)
    moreover have "fr_ok ?h'"
      using pow lt c room seqs full free by (auto simp: fr_ok_def)
    moreover have "fr_abs ?h' = xs"
      unfolding xs fr_abs_def using pow by (simp add: ring_slots)
    ultimately show ?thesis by (auto simp: khl_ok_def khl_abs_def)
  qed
qed

interpretation khl_inner: work_deque khl_try_publish khl_pop_newest khl_steal khl_abs khl_ok fr_capacity
  by unfold_locales
    (fact khl_publish_room khl_publish_full khl_pop_none khl_pop_last khl_steal_none khl_steal_first)+

interpretation khl: line_sink khl_try_publish khl_pop_newest khl_steal khl_abs khl_ok fr_capacity
  by unfold_locales

lemma khl_deque_ok: "khl.sink_ok (khl_deque_new cap)" and khl_deque_view: "khl.sink_view (khl_deque_new cap) = ([], [])"
  by (simp_all add: khl_ok_new khl_abs_new khl.sink_ok_def khl.sink_view_def khl_deque_new_def)

end
