(* ===== verification/Khl_Race.thy ===== *)
theory Khl_Race
  imports Khl "HOL-Library.Multiset"
begin

text \<open>
  The KHL deque (\<open>sched/khl_local.rs\<close>) with its owner and any number of thieves at once:
  \<open>publish\<close>, \<open>try_publish\<close>, \<open>pop_newest\<close> and \<open>steal\<close>, every access to a shared word or to a
  body a step of its own, in any order, sequentially consistent. The owner takes without an
  exchange whenever it leaves something for the thieves.
\<close>

section \<open>The threads\<close>

datatype 'b khl_owner =
    K_idle
  | K_seq bool 'b int
  | K_write 'b int
  | K_store 'b int
  | K_bottom int
  | K_check int
  | K_lower int
  | K_top int
  | K_raise int
  | K_cas int
  | K_won int
  | K_read_won int
  | K_free_won int
  | K_read int
  | K_free int

datatype khl_thief =
    H_idle
  | H_head int
  | H_cas int
  | H_wait int
  | H_read int
  | H_free int

record 'b khl_race =
  kr_ring :: "'b khl_header"
  kr_owner :: "'b khl_owner"
  kr_thieves :: "khl_thief list"
  kr_pushed :: "'b multiset"
  kr_taken :: "'b multiset"

definition khl_race_start :: "'b \<Rightarrow> nat \<Rightarrow> nat \<Rightarrow> 'b khl_race" where
  "khl_race_start body cap n =
     \<lparr>kr_ring = khl_new body cap, kr_owner = K_idle, kr_thieves = replicate n H_idle,
      kr_pushed = {#}, kr_taken = {#}\<rparr>"

text \<open>
  \<open>publish\<close> waits for its slot where \<open>try_publish\<close> gives up (the flag of \<open>K_seq\<close>). Both begin
  by loading the bottom, as \<open>pop_newest\<close> does.
\<close>

definition khl_start_publish :: "bool \<Rightarrow> 'b \<Rightarrow> 'b khl_race \<Rightarrow> 'b khl_race" where
  "khl_start_publish blocking x s = s\<lparr>kr_owner := K_seq blocking x (fr_tail (kr_ring s))\<rparr>"

definition khl_start_pop :: "'b khl_race \<Rightarrow> 'b khl_race" where
  "khl_start_pop s = s\<lparr>kr_owner := K_check (fr_tail (kr_ring s) - 1)\<rparr>"

definition khl_body :: "'b khl_header \<Rightarrow> int \<Rightarrow> 'b" where
  "khl_body h t = the (fr_data h t)"

definition khl_owner_step :: "'b khl_race \<Rightarrow> 'b khl_race" where
  "khl_owner_step s =
     (let r = kr_ring s; goto = (\<lambda>pc. s\<lparr>kr_owner := pc\<rparr>)
      in case kr_owner s of
           K_idle \<Rightarrow> s
         | K_seq blocking x b \<Rightarrow>
             if fr_seq r b = b then goto (K_write x b) else if blocking then s else goto K_idle
         | K_write x b \<Rightarrow> s\<lparr>kr_ring := set_data b x r, kr_owner := K_store x b\<rparr>
         | K_store x b \<Rightarrow>
             s\<lparr>kr_ring := set_seq b (b + 1) r, kr_owner := K_bottom b, kr_pushed := add_mset x (kr_pushed s)\<rparr>
         | K_bottom b \<Rightarrow> s\<lparr>kr_ring := r\<lparr>fr_tail := b + 1\<rparr>, kr_owner := K_idle\<rparr>
         | K_check b \<Rightarrow> if b < fr_head r then goto K_idle else goto (K_lower b)
         | K_lower b \<Rightarrow> s\<lparr>kr_ring := r\<lparr>fr_tail := b\<rparr>, kr_owner := K_top b\<rparr>
         | K_top b \<Rightarrow>
             if b < fr_head r then goto (K_raise b)
             else if fr_head r = b then goto (K_cas b) else goto (K_read b)
         | K_raise b \<Rightarrow> s\<lparr>kr_ring := r\<lparr>fr_tail := b + 1\<rparr>, kr_owner := K_idle\<rparr>
         | K_cas b \<Rightarrow>
             if fr_head r = b then s\<lparr>kr_ring := r\<lparr>fr_head := b + 1\<rparr>, kr_owner := K_won b\<rparr>
             else goto (K_raise b)
         | K_won b \<Rightarrow> s\<lparr>kr_ring := r\<lparr>fr_tail := b + 1\<rparr>, kr_owner := K_read_won b\<rparr>
         | K_read_won b \<Rightarrow>
             s\<lparr>kr_owner := K_free_won b, kr_taken := add_mset (khl_body r b) (kr_taken s)\<rparr>
         | K_free_won b \<Rightarrow> s\<lparr>kr_ring := set_seq b (b + int (fr_capacity r)) r, kr_owner := K_idle\<rparr>
         | K_read b \<Rightarrow> s\<lparr>kr_owner := K_free b, kr_taken := add_mset (khl_body r b) (kr_taken s)\<rparr>
         | K_free b \<Rightarrow> s\<lparr>kr_ring := set_seq b b r, kr_owner := K_idle\<rparr>)"

definition khl_thief_step :: "nat \<Rightarrow> 'b khl_race \<Rightarrow> 'b khl_race" where
  "khl_thief_step i s =
     (let r = kr_ring s; goto = (\<lambda>pc. s\<lparr>kr_thieves := (kr_thieves s)[i := pc]\<rparr>)
      in case kr_thieves s ! i of
           H_idle \<Rightarrow> goto (H_head (fr_head r))
         | H_head t \<Rightarrow> if fr_tail r \<le> t then goto H_idle else goto (H_cas t)
         | H_cas t \<Rightarrow>
             if fr_head r = t then (goto (H_wait t))\<lparr>kr_ring := r\<lparr>fr_head := t + 1\<rparr>\<rparr> else goto H_idle
         | H_wait t \<Rightarrow> if fr_seq r t = t + 1 then goto (H_read t) else s
         | H_read t \<Rightarrow> (goto (H_free t))\<lparr>kr_taken := add_mset (khl_body r t) (kr_taken s)\<rparr>
         | H_free t \<Rightarrow> (goto H_idle)\<lparr>kr_ring := set_seq t (t + int (fr_capacity r)) r\<rparr>)"

inductive khl_step :: "'b khl_race \<Rightarrow> 'b khl_race \<Rightarrow> bool" where
  khl_publishes: "kr_owner s = K_idle \<Longrightarrow> khl_step s (khl_start_publish blocking x s)"
| khl_pops: "kr_owner s = K_idle \<Longrightarrow> khl_step s (khl_start_pop s)"
| khl_owns: "khl_step s (khl_owner_step s)"
| khl_steals: "i < length (kr_thieves s) \<Longrightarrow> khl_step s (khl_thief_step i s)"

section \<open>Tickets\<close>

text \<open>
  A thief that won the exchange holds a ticket until it frees the slot, as the owner does
  when it won the last body. Between its decision and the release the owner also holds, with
  no exchange, the slot just below which the deque now ends.
\<close>

fun thief_ticket :: "khl_thief \<Rightarrow> int option" where
  "thief_ticket (H_wait t) = Some t"
| "thief_ticket (H_read t) = Some t"
| "thief_ticket (H_free t) = Some t"
| "thief_ticket pc = None"

fun owner_ticket :: "'b khl_owner \<Rightarrow> int option" where
  "owner_ticket (K_won b) = Some b"
| "owner_ticket (K_read_won b) = Some b"
| "owner_ticket (K_free_won b) = Some b"
| "owner_ticket pc = None"

fun owner_slot :: "'b khl_owner \<Rightarrow> int option" where
  "owner_slot (K_read b) = Some b"
| "owner_slot (K_free b) = Some b"
| "owner_slot pc = None"

text \<open>Where the deque really ends, whatever the bottom shows at the moment.\<close>

fun real_end :: "'b khl_owner \<Rightarrow> int \<Rightarrow> int" where
  "real_end (K_bottom b) tail = b + 1"
| "real_end (K_top b) tail = b + 1"
| "real_end (K_raise b) tail = b + 1"
| "real_end (K_cas b) tail = b + 1"
| "real_end (K_won b) tail = b + 1"
| "real_end pc tail = tail"

definition holders :: "int option list \<Rightarrow> int \<Rightarrow> nat" where
  "holders ts q = number (\<lambda>t. t = Some q) ts"

definition khl_inv :: "'b khl_header \<Rightarrow> int \<Rightarrow> int option \<Rightarrow> (int \<Rightarrow> nat) \<Rightarrow> bool" where
  "khl_inv r e own n \<longleftrightarrow>
     fr_pow2 r \<and> fr_head r \<le> e \<and> e \<le> fr_head r + int (fr_capacity r)
     \<and> (\<forall>q. fr_head r \<le> q \<and> q < e \<longrightarrow> fr_seq r q = q + 1)
     \<and> (\<forall>q. 0 < n q \<longrightarrow> q < fr_head r \<and> fr_seq r q = q + 1 \<and> n q = 1)
     \<and> (\<forall>q. e \<le> q \<and> q < fr_head r + int (fr_capacity r)
          \<longrightarrow> fr_seq r q = q \<or> 0 < n (q - int (fr_capacity r)) \<or> own = Some q)
     \<and> (\<forall>q. own = Some q \<longrightarrow> q = e \<and> fr_seq r q = q + 1 \<and> q < fr_head r + int (fr_capacity r))"

lemma khl_invD:
  assumes "khl_inv r e own n"
  shows "fr_pow2 r" "2 \<le> int (fr_capacity r)" "fr_head r \<le> e" "e \<le> fr_head r + int (fr_capacity r)"
    "fr_head r \<le> q \<Longrightarrow> q < e \<Longrightarrow> fr_seq r q = q + 1"
    "0 < n q \<Longrightarrow> q < fr_head r" "0 < n q \<Longrightarrow> fr_seq r q = q + 1" "0 < n q \<Longrightarrow> n q = 1"
    "e \<le> q \<Longrightarrow> q < fr_head r + int (fr_capacity r)
       \<Longrightarrow> fr_seq r q = q \<or> 0 < n (q - int (fr_capacity r)) \<or> own = Some q"
    "own = Some q \<Longrightarrow> q = e" "own = Some q \<Longrightarrow> fr_seq r q = q + 1"
    "own = Some q \<Longrightarrow> q < fr_head r + int (fr_capacity r)"
  using assms by (auto simp: khl_inv_def fr_pow2_def)

lemma khl_invI:
  assumes "fr_pow2 r" "fr_head r \<le> e" "e \<le> fr_head r + int (fr_capacity r)"
    and "\<And>q. fr_head r \<le> q \<Longrightarrow> q < e \<Longrightarrow> fr_seq r q = q + 1"
    and "\<And>q. 0 < n q \<Longrightarrow> q < fr_head r \<and> fr_seq r q = q + 1 \<and> n q = 1"
    and "\<And>q. e \<le> q \<Longrightarrow> q < fr_head r + int (fr_capacity r)
      \<Longrightarrow> fr_seq r q = q \<or> 0 < n (q - int (fr_capacity r)) \<or> own = Some q"
    and "\<And>q. own = Some q \<Longrightarrow> q = e \<and> fr_seq r q = q + 1 \<and> q < fr_head r + int (fr_capacity r)"
  shows "khl_inv r e own n"
  using assms by (auto simp: khl_inv_def)

lemma same_slot_seq: "fr_idx r p = fr_idx r q \<Longrightarrow> fr_seq r p = fr_seq r q"
  by (simp add: fr_seq_def)

lemma near_slot:
  assumes "fr_pow2 r" "fr_idx r p = fr_idx r q" "\<bar>p - q\<bar> < 2"
  shows "p = q"
  using fr_idx_eq [OF assms(1,2)] assms(1,3) by (auto simp: fr_pow2_def)

text \<open>A slot that a ticket fills is no other ticket's, and not the slot a push waits for.\<close>

lemma full_slots_differ:
  assumes "fr_pow2 r" "fr_seq r p = p + 1" "fr_seq r q = q + 1" "p \<noteq> q"
  shows "fr_idx r p \<noteq> fr_idx r q"
  using same_slot_seq [of r p q] assms by auto

lemma free_slot_differs:
  assumes "fr_pow2 r" "fr_seq r p = p + 1" "fr_seq r b = b"
  shows "fr_idx r p \<noteq> fr_idx r b"
  using same_slot_seq [of r p b] near_slot [OF assms(1), of p b] assms by auto

section \<open>What each access does\<close>

lemma inv_store:
  assumes inv: "khl_inv r b None n" and b: "fr_seq r b = b"
  shows "khl_inv (set_seq b (b + 1) r) (b + 1) None n"
proof -
  let ?c = "int (fr_capacity r)"
  note D = khl_invD [OF inv]
  have lt: "b < fr_head r + ?c"
  proof (rule ccontr)
    assume "\<not> b < fr_head r + ?c"
    then have eq: "b = fr_head r + ?c" using D(4) by simp
    then have "fr_seq r b = fr_seq r (fr_head r)" by (simp add: fr_seq_def fr_idx_lap [OF D(1)])
    moreover have "fr_seq r (fr_head r) = fr_head r + 1" using D(5) [of "fr_head r"] eq D(2) by simp
    ultimately show False using b eq D(2) by simp
  qed
  have keep: "fr_seq (set_seq b (b + 1) r) q = q + 1" if "fr_seq r q = q + 1" for q
    using free_slot_differs [OF D(1) that b] that D(1) by (simp add: fr_seq_set_seq)
  have far: "fr_seq (set_seq b (b + 1) r) q = fr_seq r q" if "b < q" "q < fr_head r + ?c" for q
    using fr_idx_eq [OF D(1), of q b] that D(1,3) by (auto simp: fr_seq_set_seq)
  have self: "fr_seq (set_seq b (b + 1) r) b = b + 1" using D(1) by (simp add: fr_seq_set_seq)
  show ?thesis
  proof (rule khl_invI)
    show "fr_seq (set_seq b (b + 1) r) q = q + 1"
      if "fr_head (set_seq b (b + 1) r) \<le> q" "q < b + 1" for q
      using that self keep [of q] D(5) [of q] by (cases "q = b") auto
    show "q < fr_head (set_seq b (b + 1) r) \<and> fr_seq (set_seq b (b + 1) r) q = q + 1 \<and> n q = 1"
      if "0 < n q" for q
      using keep [OF D(7) [OF that]] D(6,8) [OF that] by simp
    show "fr_seq (set_seq b (b + 1) r) q = q \<or> 0 < n (q - int (fr_capacity (set_seq b (b + 1) r))) \<or> None = Some q"
      if "b + 1 \<le> q" "q < fr_head (set_seq b (b + 1) r) + int (fr_capacity (set_seq b (b + 1) r))" for q
      using far [of q] D(9) [of q] that by auto
  qed (use D(1,3) lt in simp_all)
qed

lemma inv_claim:
  assumes inv: "khl_inv r e own n" and t: "fr_head r < e"
  shows "khl_inv (r\<lparr>fr_head := fr_head r + 1\<rparr>) e own (n(fr_head r := 1))"
proof -
  note D = khl_invD [OF inv]
  show ?thesis
  proof (rule khl_invI)
    show "fr_seq (r\<lparr>fr_head := fr_head r + 1\<rparr>) q = q + 1"
      if "fr_head (r\<lparr>fr_head := fr_head r + 1\<rparr>) \<le> q" "q < e" for q
      using D(5) [of q] that by simp
    show "q < fr_head (r\<lparr>fr_head := fr_head r + 1\<rparr>) \<and> fr_seq (r\<lparr>fr_head := fr_head r + 1\<rparr>) q = q + 1
        \<and> (n(fr_head r := 1)) q = 1" if "0 < (n(fr_head r := 1)) q" for q
      using D(5) [of q] D(6-8) [of q] t that by (cases "q = fr_head r") auto
    show "fr_seq (r\<lparr>fr_head := fr_head r + 1\<rparr>) q = q
        \<or> 0 < (n(fr_head r := 1)) (q - int (fr_capacity (r\<lparr>fr_head := fr_head r + 1\<rparr>))) \<or> own = Some q"
      if "e \<le> q" "q < fr_head (r\<lparr>fr_head := fr_head r + 1\<rparr>) + int (fr_capacity (r\<lparr>fr_head := fr_head r + 1\<rparr>))" for q
      using D(9) [of q] that by (cases "q = fr_head r + int (fr_capacity r)") auto
    show "q = e \<and> fr_seq (r\<lparr>fr_head := fr_head r + 1\<rparr>) q = q + 1
        \<and> q < fr_head (r\<lparr>fr_head := fr_head r + 1\<rparr>) + int (fr_capacity (r\<lparr>fr_head := fr_head r + 1\<rparr>))"
      if "own = Some q" for q
      using D(10-12) [OF that] by simp
  qed (use D(1,4) t in simp_all)
qed

lemma inv_release:
  assumes inv: "khl_inv r e own n" and t: "0 < n t"
  shows "khl_inv (set_seq t (t + int (fr_capacity r)) r) e own (n(t := 0))"
proof -
  let ?c = "int (fr_capacity r)"
  let ?r = "set_seq t (t + ?c) r"
  note D = khl_invD [OF inv]
  have seq_t: "fr_seq r t = t + 1" "t < fr_head r" using D t by auto
  have keep: "fr_seq ?r q = q + 1" if "fr_seq r q = q + 1" "q \<noteq> t" for q
    using full_slots_differ [OF D(1) that(1) seq_t(1) that(2)] that D(1) by (simp add: fr_seq_set_seq)
  have lap: "fr_seq ?r q = q" if "q - ?c = t" for q
    using that D(1) fr_idx_lap [OF D(1), of t] by (auto simp: fr_seq_set_seq)
  have free: "fr_seq ?r q = q" if "fr_seq r q = q" for q
    using free_slot_differs [OF D(1) seq_t(1) that] that D(1) by (simp add: fr_seq_set_seq)
  show ?thesis
  proof (rule khl_invI)
    show "fr_seq ?r q = q + 1" if "fr_head ?r \<le> q" "q < e" for q
      using keep [of q] D(5) [of q] that seq_t by simp
    show "q < fr_head ?r \<and> fr_seq ?r q = q + 1 \<and> (n(t := 0)) q = 1" if "0 < (n(t := 0)) q" for q
      using keep [of q] D(6-8) [of q] that by (simp split: if_splits)
    show "fr_seq ?r q = q \<or> 0 < (n(t := 0)) (q - int (fr_capacity ?r)) \<or> own = Some q"
      if "e \<le> q" "q < fr_head ?r + int (fr_capacity ?r)" for q
      using D(9) [of q] free [of q] lap [of q] that by auto
    show "q = e \<and> fr_seq ?r q = q + 1 \<and> q < fr_head ?r + int (fr_capacity ?r)" if "own = Some q" for q
      using D(3) D(10-12) [OF that] keep [of q] seq_t by auto
  qed (use D(1,3,4) in simp_all)
qed

lemma inv_give_up:
  assumes inv: "khl_inv r (b + 1) None n" and b: "fr_head r < b"
  shows "khl_inv r b (Some b) n"
proof (rule khl_invI)
  note D = khl_invD [OF inv]
  show "fr_seq r q = q \<or> 0 < n (q - int (fr_capacity r)) \<or> Some b = Some q"
    if "b \<le> q" "q < fr_head r + int (fr_capacity r)" for q
    using D(9) [of q] that by (cases "q = b") auto
  show "q = b \<and> fr_seq r q = q + 1 \<and> q < fr_head r + int (fr_capacity r)" if "Some b = Some q" for q
    using D(4) D(5) [of q] that b by simp
qed (use khl_invD [OF inv] b in auto)

lemma inv_own_release:
  assumes inv: "khl_inv r b (Some b) n"
  shows "khl_inv (set_seq b b r) b None n"
proof -
  let ?r = "set_seq b b r"
  note D = khl_invD [OF inv]
  have seq_b: "fr_seq r b = b + 1" using D(11) by simp
  have keep: "fr_seq ?r q = q + 1" if "fr_seq r q = q + 1" "q \<noteq> b" for q
    using full_slots_differ [OF D(1) that(1) seq_b that(2)] that D(1) by (simp add: fr_seq_set_seq)
  have free: "fr_seq ?r q = q" if "fr_seq r q = q" for q
    using free_slot_differs [OF D(1) seq_b that] that D(1) by (simp add: fr_seq_set_seq)
  have self: "fr_seq ?r b = b" using D(1) by (simp add: fr_seq_set_seq)
  show ?thesis
  proof (rule khl_invI)
    show "fr_seq ?r q = q + 1" if "fr_head ?r \<le> q" "q < b" for q
      using keep [of q] D(5) [of q] that by simp
    show "q < fr_head ?r \<and> fr_seq ?r q = q + 1 \<and> n q = 1" if "0 < n q" for q
      using keep [OF D(7) [OF that]] D(3) D(6,8) [OF that] by simp
    show "fr_seq ?r q = q \<or> 0 < n (q - int (fr_capacity ?r)) \<or> None = Some q"
      if "b \<le> q" "q < fr_head ?r + int (fr_capacity ?r)" for q
      using D(9) [of q] free [of q] self that by auto
  qed (use D(1,3,4) in simp_all)
qed

section \<open>The system's invariant\<close>

definition tickets :: "'b khl_race \<Rightarrow> int option list" where
  "tickets s = owner_ticket (kr_owner s) # map thief_ticket (kr_thieves s)"

definition live_bodies :: "'b khl_header \<Rightarrow> int \<Rightarrow> 'b multiset" where
  "live_bodies r e = image_mset (khl_body r) (mset [fr_head r..e - 1])"

fun owner_unread :: "'b khl_header \<Rightarrow> 'b khl_owner \<Rightarrow> 'b multiset" where
  "owner_unread r (K_read b) = {#khl_body r b#}"
| "owner_unread r (K_won b) = {#khl_body r b#}"
| "owner_unread r (K_read_won b) = {#khl_body r b#}"
| "owner_unread r pc = {#}"

fun thief_unread :: "'b khl_header \<Rightarrow> khl_thief \<Rightarrow> 'b multiset" where
  "thief_unread r (H_wait t) = {#khl_body r t#}"
| "thief_unread r (H_read t) = {#khl_body r t#}"
| "thief_unread r pc = {#}"

fun owner_pc_ok :: "'b khl_header \<Rightarrow> 'b khl_owner \<Rightarrow> bool" where
  "owner_pc_ok r (K_seq w x b) \<longleftrightarrow> b = fr_tail r"
| "owner_pc_ok r (K_write x b) \<longleftrightarrow> b = fr_tail r \<and> fr_seq r b = b"
| "owner_pc_ok r (K_store x b) \<longleftrightarrow> b = fr_tail r \<and> fr_seq r b = b \<and> khl_body r b = x"
| "owner_pc_ok r (K_bottom b) \<longleftrightarrow> b = fr_tail r"
| "owner_pc_ok r (K_check b) \<longleftrightarrow> b = fr_tail r - 1"
| "owner_pc_ok r (K_lower b) \<longleftrightarrow> b = fr_tail r - 1"
| "owner_pc_ok r (K_top b) \<longleftrightarrow> b = fr_tail r"
| "owner_pc_ok r (K_raise b) \<longleftrightarrow> b = fr_tail r"
| "owner_pc_ok r (K_cas b) \<longleftrightarrow> b = fr_tail r"
| "owner_pc_ok r (K_won b) \<longleftrightarrow> b = fr_tail r"
| "owner_pc_ok r (K_read b) \<longleftrightarrow> b = fr_tail r"
| "owner_pc_ok r (K_free b) \<longleftrightarrow> b = fr_tail r"
| "owner_pc_ok r pc \<longleftrightarrow> True"

fun thief_pc_ok :: "int \<Rightarrow> int \<Rightarrow> khl_thief \<Rightarrow> bool" where
  "thief_pc_ok h e (H_head t) \<longleftrightarrow> t \<le> h"
| "thief_pc_ok h e (H_cas t) \<longleftrightarrow> t \<le> h \<and> (t = h \<longrightarrow> t < e)"
| "thief_pc_ok h e pc \<longleftrightarrow> True"

definition khl_end :: "'b khl_race \<Rightarrow> int" where
  "khl_end s = real_end (kr_owner s) (fr_tail (kr_ring s))"

definition bodies_left :: "'b khl_race \<Rightarrow> 'b multiset" where
  "bodies_left s =
     live_bodies (kr_ring s) (khl_end s) + owner_unread (kr_ring s) (kr_owner s)
     + sum_list (map (thief_unread (kr_ring s)) (kr_thieves s))"

definition khl_race_ok :: "'b khl_race \<Rightarrow> bool" where
  "khl_race_ok s \<longleftrightarrow>
     khl_inv (kr_ring s) (khl_end s) (owner_slot (kr_owner s)) (holders (tickets s))
     \<and> owner_pc_ok (kr_ring s) (kr_owner s)
     \<and> (\<forall>pc \<in> set (kr_thieves s). thief_pc_ok (fr_head (kr_ring s)) (khl_end s) pc)
     \<and> kr_pushed s = kr_taken s + bodies_left s"

lemma holders_update:
  "i < length ts \<Longrightarrow> holders (ts[i := x]) p + of_bool (ts ! i = Some p) = holders ts p + of_bool (x = Some p)"
  unfolding holders_def by (rule number_update)

lemma holders_gain:
  assumes "i < length ts" "ts ! i = None" "holders ts q = 0"
  shows "holders (ts[i := Some q]) = (holders ts)(q := 1)"
proof
  fix p
  show "holders (ts[i := Some q]) p = ((holders ts)(q := 1)) p"
    using holders_update [OF assms(1), of "Some q" p] assms(2,3) by (cases "p = q") auto
qed

lemma holders_lose:
  assumes "i < length ts" "ts ! i = Some q" "holders ts q = 1"
  shows "holders (ts[i := None]) = (holders ts)(q := 0)"
proof
  fix p
  show "holders (ts[i := None]) p = ((holders ts)(q := 0)) p"
    using holders_update [OF assms(1), of None p] assms(2,3) by (cases "p = q") auto
qed

lemma holders_same: "i < length ts \<Longrightarrow> holders (ts[i := ts ! i]) = holders ts"
  by simp

lemma holders_held: "i < length ts \<Longrightarrow> ts ! i = Some q \<Longrightarrow> 0 < holders ts q"
  using nth_mem [of i ts] by (auto simp: holders_def number_pos)

lemma khl_body_simps [simp]:
  "khl_body (r\<lparr>fr_tail := t\<rparr>) = khl_body r" "khl_body (r\<lparr>fr_head := t\<rparr>) = khl_body r"
  by (simp_all add: khl_body_def fun_eq_iff)

lemma khl_body_set_seq: "fr_pow2 r \<Longrightarrow> khl_body (set_seq p v r) = khl_body r"
  by (simp add: khl_body_def fun_eq_iff fr_data_set_seq)

lemma unread_cong:
  "(\<And>q. thief_ticket pc = Some q \<Longrightarrow> khl_body r' q = khl_body r q) \<Longrightarrow> thief_unread r' pc = thief_unread r pc"
  by (cases pc) auto

lemma owner_unread_cong:
  "(\<And>q. owner_ticket pc = Some q \<or> owner_slot pc = Some q \<Longrightarrow> khl_body r' q = khl_body r q)
    \<Longrightarrow> owner_unread r' pc = owner_unread r pc"
  by (cases pc) auto

lemma thieves_unread_cong:
  "(\<And>pc q. pc \<in> set ths \<Longrightarrow> thief_ticket pc = Some q \<Longrightarrow> khl_body r' q = khl_body r q)
    \<Longrightarrow> sum_list (map (thief_unread r') ths) = sum_list (map (thief_unread r) ths)"
  by (intro arg_cong [where f = sum_list] map_cong refl unread_cong) blast

lemma thief_pc_mono:
  "thief_pc_ok h e pc \<Longrightarrow> h \<le> h' \<Longrightarrow> (h' = h \<Longrightarrow> h < e \<Longrightarrow> h < e') \<Longrightarrow> thief_pc_ok h' e' pc"
  by (cases pc) auto

lemma live_claim:
  "fr_head r < e \<Longrightarrow> live_bodies r e = add_mset (khl_body r (fr_head r)) (live_bodies (r\<lparr>fr_head := fr_head r + 1\<rparr>) e)"
  by (simp add: live_bodies_def upto_rec1)

lemma live_last:
  "fr_head r \<le> b \<Longrightarrow> live_bodies r (b + 1) = add_mset (khl_body r b) (live_bodies r b)"
  by (simp add: live_bodies_def upto_rec2)

lemma bodies_cong:
  assumes "fr_head r' = fr_head r" "\<And>q. fr_head r \<le> q \<Longrightarrow> q < e \<Longrightarrow> khl_body r' q = khl_body r q"
  shows "live_bodies r' e = live_bodies r e"
  unfolding live_bodies_def assms(1) by (intro image_mset_cong) (simp add: assms(2))

section \<open>The thieves keep it\<close>

lemma khl_race_okD:
  assumes "khl_race_ok s"
  shows "khl_inv (kr_ring s) (khl_end s) (owner_slot (kr_owner s)) (holders (tickets s))"
    "owner_pc_ok (kr_ring s) (kr_owner s)"
    "pc \<in> set (kr_thieves s) \<Longrightarrow> thief_pc_ok (fr_head (kr_ring s)) (khl_end s) pc"
    "kr_pushed s = kr_taken s + (live_bodies (kr_ring s) (khl_end s) + owner_unread (kr_ring s) (kr_owner s)
       + sum_list (map (thief_unread (kr_ring s)) (kr_thieves s)))"
  using assms by (auto simp: khl_race_ok_def bodies_left_def)

lemma thief_move_ok:
  assumes ok: "khl_race_ok s" and i: "i < length (kr_thieves s)"
    and inv: "khl_inv r (khl_end s) (owner_slot (kr_owner s)) (holders ((tickets s)[Suc i := thief_ticket pc]))"
    and ring: "fr_tail r = fr_tail (kr_ring s)" "fr_head (kr_ring s) \<le> fr_head r" "khl_body r = khl_body (kr_ring s)"
    and owner: "owner_pc_ok r (kr_owner s)" and pc: "thief_pc_ok (fr_head r) (khl_end s) pc"
    and left: "live_bodies (kr_ring s) (khl_end s) + thief_unread (kr_ring s) (kr_thieves s ! i)
       = got + live_bodies r (khl_end s) + thief_unread r pc"
  shows "khl_race_ok (s\<lparr>kr_thieves := (kr_thieves s)[i := pc], kr_ring := r, kr_taken := kr_taken s + got\<rparr>)"
proof -
  note D = khl_race_okD [OF ok]
  have unread: "thief_unread r = thief_unread (kr_ring s)" "owner_unread r = owner_unread (kr_ring s)"
    using unread_cong [of _ r "kr_ring s"] owner_unread_cong [of _ r "kr_ring s"] ring(3) by auto
  have "thief_pc_ok (fr_head r) (khl_end s) q" if "q \<in> set ((kr_thieves s)[i := pc])" for q
  proof (cases "q = pc")
    case False
    then have "q \<in> set (kr_thieves s)" using that set_update_subset_insert by fastforce
    then show ?thesis using thief_pc_mono [OF D(3) ring(2)] by blast
  qed (use pc in simp)
  moreover have "kr_pushed s = kr_taken s + got
      + (live_bodies r (khl_end s) + owner_unread r (kr_owner s) + sum_list (map (thief_unread r) ((kr_thieves s)[i := pc])))"
    using D(4) left sum_list_swap [OF i, of "thief_unread (kr_ring s)" pc] unfolding unread
    by (smt (verit, ccfv_threshold) add.assoc add.commute add_left_cancel)
  ultimately show ?thesis
    using inv owner by (simp add: khl_race_ok_def khl_end_def tickets_def ring(1) map_update bodies_left_def)
qed

lemma owner_pc_ok_head: "owner_pc_ok (r\<lparr>fr_head := h\<rparr>) pc = owner_pc_ok r pc"
  by (cases pc) simp_all

lemma owner_pc_ok_release:
  assumes inv: "khl_inv r e own n" and t: "0 < n t" and ok: "owner_pc_ok r pc"
  shows "owner_pc_ok (set_seq t v r) pc"
proof -
  note D = khl_invD [OF inv]
  have "fr_seq (set_seq t v r) b = b" if "fr_seq r b = b" for b
    using free_slot_differs [OF D(1) D(7) [OF t] that] that D(1) by (simp add: fr_seq_set_seq)
  then show ?thesis using ok D(1) by (cases pc) (simp_all add: khl_body_set_seq)
qed

lemma khl_thief_step_ok:
  assumes ok: "khl_race_ok s" and i: "i < length (kr_thieves s)"
  shows "khl_race_ok (khl_thief_step i s)"
proof -
  let ?r = "kr_ring s" and ?e = "khl_end s"
  note D = khl_race_okD [OF ok]
  note I = khl_invD [OF D(1)]
  have pc: "thief_pc_ok (fr_head ?r) ?e (kr_thieves s ! i)" using D(3) i by simp
  have len: "Suc i < length (tickets s)" and nth: "tickets s ! Suc i = thief_ticket (kr_thieves s ! i)"
    using i by (simp_all add: tickets_def)
  have move: "khl_race_ok (s\<lparr>kr_thieves := (kr_thieves s)[i := pc']\<rparr>)"
    if "thief_ticket pc' = thief_ticket (kr_thieves s ! i)" "thief_unread ?r pc' = thief_unread ?r (kr_thieves s ! i)"
      "thief_pc_ok (fr_head ?r) ?e pc'" for pc'
    using thief_move_ok [OF ok i, of ?r pc' "{#}"] D that nth list_update_id [of "tickets s" "Suc i"] by simp
  show ?thesis
  proof (cases "kr_thieves s ! i")
    case H_idle
    then show ?thesis using move [of "H_head (fr_head ?r)"] by (simp add: khl_thief_step_def Let_def)
  next
    case (H_head t)
    have "fr_tail ?r \<le> ?e" using D(2) by (cases "kr_owner s") (simp_all add: khl_end_def)
    then show ?thesis using move [of H_idle] move [of "H_cas t"] H_head pc by (simp add: khl_thief_step_def Let_def)
  next
    case (H_cas t)
    show ?thesis
    proof (cases "fr_head ?r = t")
      case False
      then show ?thesis using move [of H_idle] H_cas by (simp add: khl_thief_step_def Let_def)
    next
      case True
      let ?r' = "?r\<lparr>fr_head := t + 1\<rparr>"
      have lt: "fr_head ?r < ?e" using pc H_cas True by simp
      have zero: "holders (tickets s) t = 0" using I(6) [of t] True by force
      have "khl_inv ?r' ?e (owner_slot (kr_owner s)) (holders ((tickets s)[Suc i := thief_ticket (H_wait t)]))"
        using inv_claim [OF D(1) lt] holders_gain [OF len _ zero] H_cas nth True by simp
      moreover have "live_bodies ?r ?e + thief_unread ?r (kr_thieves s ! i)
          = {#} + live_bodies ?r' ?e + thief_unread ?r' (H_wait t)"
        using live_claim [OF lt] True H_cas by simp
      ultimately show ?thesis
        using thief_move_ok [OF ok i, of ?r' "H_wait t" "{#}"] D(2) H_cas True
        by (simp add: khl_thief_step_def Let_def owner_pc_ok_head)
    qed
  next
    case (H_wait t)
    then show ?thesis using move [of "H_read t"] ok by (simp add: khl_thief_step_def Let_def)
  next
    case (H_read t)
    then have "khl_inv ?r ?e (owner_slot (kr_owner s)) (holders ((tickets s)[Suc i := thief_ticket (H_free t)]))"
      using D(1) nth list_update_id [of "tickets s" "Suc i"] by simp
    then show ?thesis
      using thief_move_ok [OF ok i, of ?r "H_free t" "{#khl_body ?r t#}"] D(2) H_read
      by (simp add: khl_thief_step_def Let_def)
  next
    case (H_free t)
    let ?r' = "set_seq t (t + int (fr_capacity ?r)) ?r"
    have held: "0 < holders (tickets s) t" using holders_held [OF len] nth H_free by simp
    have "khl_inv ?r' ?e (owner_slot (kr_owner s)) (holders ((tickets s)[Suc i := thief_ticket H_idle]))"
      using inv_release [OF D(1) held] holders_lose [OF len _ I(8) [OF held]] nth H_free by simp
    moreover have "live_bodies ?r' ?e = live_bodies ?r ?e"
      by (intro bodies_cong) (simp_all add: khl_body_set_seq [OF I(1)])
    ultimately show ?thesis
      using thief_move_ok [OF ok i, of ?r' H_idle "{#}"] H_free owner_pc_ok_release [OF D(1) held D(2)] I(1)
      by (simp add: khl_thief_step_def Let_def khl_body_set_seq)
  qed
qed

section \<open>The owner keeps it\<close>

lemma owner_move_ok:
  assumes ok: "khl_race_ok s"
    and inv: "khl_inv r (real_end pc (fr_tail r)) (owner_slot pc) (holders ((tickets s)[0 := owner_ticket pc]))"
    and head: "fr_head (kr_ring s) \<le> fr_head r"
      "fr_head r = fr_head (kr_ring s) \<Longrightarrow> fr_head r < khl_end s \<Longrightarrow> fr_head r < real_end pc (fr_tail r)"
    and body: "\<And>q. fr_seq (kr_ring s) q = q + 1 \<Longrightarrow> khl_body r q = khl_body (kr_ring s) q"
    and owner: "owner_pc_ok r pc"
    and left: "live_bodies (kr_ring s) (khl_end s) + owner_unread (kr_ring s) (kr_owner s) + put
       = got + live_bodies r (real_end pc (fr_tail r)) + owner_unread r pc"
  shows "khl_race_ok (s\<lparr>kr_ring := r, kr_owner := pc, kr_pushed := kr_pushed s + put, kr_taken := kr_taken s + got\<rparr>)"
proof -
  note D = khl_race_okD [OF ok]
  have held: "fr_seq (kr_ring s) q = q + 1" if "p \<in> set (kr_thieves s)" "thief_ticket p = Some q" for p q
  proof (rule khl_invD(7) [OF D(1)])
    have "Some q \<in> set (tickets s)" using that by (force simp: tickets_def)
    then show "0 < holders (tickets s) q" by (auto simp: holders_def number_pos)
  qed
  have "sum_list (map (thief_unread r) (kr_thieves s)) = sum_list (map (thief_unread (kr_ring s)) (kr_thieves s))"
    by (intro thieves_unread_cong) (use held body in blast)
  then have "kr_pushed s + put = kr_taken s + got + (live_bodies r (real_end pc (fr_tail r)) + owner_unread r pc
      + sum_list (map (thief_unread r) (kr_thieves s)))"
    using D(4) left by (smt (verit, ccfv_threshold) add.assoc add.commute add_left_cancel)
  moreover have "thief_pc_ok (fr_head r) (real_end pc (fr_tail r)) p" if "p \<in> set (kr_thieves s)" for p
    using thief_pc_mono [OF D(3) [OF that] head(1)] head(2) by simp
  ultimately show ?thesis
    using inv owner by (simp add: khl_race_ok_def khl_end_def tickets_def bodies_left_def)
qed

lemma khl_start_publish_ok:
  assumes "khl_race_ok s" "kr_owner s = K_idle"
  shows "khl_race_ok (khl_start_publish w x s)"
  using owner_move_ok [OF assms(1), of "kr_ring s" "K_seq w x (fr_tail (kr_ring s))" "{#}" "{#}"]
    khl_race_okD(1) [OF assms(1)] assms(2)
  by (simp add: khl_start_publish_def khl_end_def tickets_def)

lemma khl_start_pop_ok:
  assumes "khl_race_ok s" "kr_owner s = K_idle"
  shows "khl_race_ok (khl_start_pop s)"
  using owner_move_ok [OF assms(1), of "kr_ring s" "K_check (fr_tail (kr_ring s) - 1)" "{#}" "{#}"]
    khl_race_okD(1) [OF assms(1)] assms(2)
  by (simp add: khl_start_pop_def khl_end_def tickets_def)

lemma khl_owner_step_ok:
  assumes ok: "khl_race_ok s"
  shows "khl_race_ok (khl_owner_step s)"
proof -
  let ?r = "kr_ring s"
  note D = khl_race_okD [OF ok]
  note I = khl_invD [OF D(1)]
  have nth: "tickets s ! 0 = owner_ticket (kr_owner s)" and len: "0 < length (tickets s)"
    by (simp_all add: tickets_def)
  have same: "holders ((tickets s)[0 := owner_ticket pc]) = holders (tickets s)"
    if "owner_ticket pc = owner_ticket (kr_owner s)" for pc :: "'a khl_owner"
    using that by (simp add: tickets_def)
  have move: "khl_race_ok (s\<lparr>kr_ring := r, kr_owner := pc\<rparr>)"
    if "owner_ticket pc = owner_ticket (kr_owner s)" "owner_slot pc = owner_slot (kr_owner s)"
      "real_end pc (fr_tail r) = khl_end s" "owner_pc_ok r pc"
      "r = ?r\<lparr>fr_tail := fr_tail r\<rparr>" "owner_unread r pc = owner_unread ?r (kr_owner s)" for r pc
  proof -
    have r: "fr_head r = fr_head ?r" "khl_body r = khl_body ?r"
        "khl_inv r e own n = khl_inv ?r e own n" "live_bodies r e = live_bodies ?r e" for e own n
      by (subst that(5), simp add: khl_inv_def live_bodies_def)+
    show ?thesis
      using owner_move_ok [OF ok, of r pc "{#}" "{#}"] D(1) that same [OF that(1)] r by simp
  qed
  show ?thesis
  proof (cases "kr_owner s")
    case K_idle
    then show ?thesis using ok by (simp add: khl_owner_step_def)
  next
    case (K_seq w x b)
    then show ?thesis using ok D(2) move [of "K_write x b" ?r] move [of K_idle ?r]
      by (simp add: khl_owner_step_def Let_def khl_end_def)
  next
    case (K_write x b)
    then have b: "b = fr_tail ?r" "fr_seq ?r b = b" using D(2) by auto
    let ?r' = "set_data b x ?r"
    have body: "khl_body ?r' q = (if fr_idx ?r q = fr_idx ?r b then x else khl_body ?r q)" for q
      using I(1) by (simp add: khl_body_def fr_data_set_data)
    have full: "khl_body ?r' q = khl_body ?r q" if "fr_seq ?r q = q + 1" for q
      using free_slot_differs [OF I(1) that b(2)] body by simp
    have "khl_inv ?r' e own n = khl_inv ?r e own n" for e own n
      using I(1) by (simp add: khl_inv_def fr_seq_set_data)
    moreover have "live_bodies ?r' (khl_end s) = live_bodies ?r (khl_end s)"
      using full I(5) by (intro bodies_cong) simp_all
    ultimately show ?thesis
      using owner_move_ok [OF ok, of ?r' "K_store x b" "{#}" "{#}"] D(1) K_write b body full same [of "K_store x b"] I(1)
      by (simp add: khl_owner_step_def Let_def khl_end_def fr_seq_set_data)
  next
    case (K_store x b)
    then have b: "b = fr_tail ?r" "fr_seq ?r b = b" "khl_body ?r b = x" using D(2) by auto
    let ?r' = "set_seq b (b + 1) ?r"
    have inv: "khl_inv ?r' (b + 1) None (holders (tickets s))"
      using inv_store [of ?r b "holders (tickets s)"] D(1) K_store b by (simp add: khl_end_def)
    have "live_bodies ?r' (b + 1) = add_mset x (live_bodies ?r b)"
      using live_last [of ?r' b] I(1,3) b K_store bodies_cong [of ?r' ?r b]
      by (simp add: khl_body_set_seq khl_end_def)
    then show ?thesis
      using owner_move_ok [OF ok, of ?r' "K_bottom b" "{#x#}" "{#}"] inv K_store b same [of "K_bottom b"] I(1)
      by (simp add: khl_owner_step_def Let_def khl_end_def khl_body_set_seq)
  next
    case (K_bottom b)
    then show ?thesis using D(2) move [of K_idle "?r\<lparr>fr_tail := b + 1\<rparr>"]
      by (simp add: khl_owner_step_def Let_def khl_end_def)
  next
    case (K_check b)
    then show ?thesis using D(2) move [of K_idle ?r] move [of "K_lower b" ?r]
      by (simp add: khl_owner_step_def Let_def khl_end_def)
  next
    case (K_lower b)
    then show ?thesis using D(2) move [of "K_top b" "?r\<lparr>fr_tail := b\<rparr>"]
      by (simp add: khl_owner_step_def Let_def khl_end_def)
  next
    case (K_top b)
    then have b: "b = fr_tail ?r" using D(2) by simp
    show ?thesis
    proof (cases "b \<le> fr_head ?r")
      case True
      then show ?thesis using K_top D(2) move [of "K_raise b" ?r] move [of "K_cas b" ?r]
        by (auto simp: khl_owner_step_def Let_def khl_end_def)
    next
      case False
      then have lt: "fr_head ?r < b" by simp
      have "khl_inv ?r b (Some b) (holders (tickets s))"
        using inv_give_up [OF _ lt] D(1) K_top by (simp add: khl_end_def)
      then show ?thesis
        using owner_move_ok [OF ok, of ?r "K_read b" "{#}" "{#}"] K_top b lt same [of "K_read b"] live_last [of ?r b]
        by (simp add: khl_owner_step_def Let_def khl_end_def)
    qed
  next
    case (K_raise b)
    then show ?thesis using D(2) move [of K_idle "?r\<lparr>fr_tail := b + 1\<rparr>"]
      by (simp add: khl_owner_step_def Let_def khl_end_def)
  next
    case (K_cas b)
    then have b: "b = fr_tail ?r" using D(2) by simp
    show ?thesis
    proof (cases "fr_head ?r = b")
      case False
      then show ?thesis using K_cas b move [of "K_raise b" ?r]
        by (simp add: khl_owner_step_def Let_def khl_end_def)
    next
      case True
      let ?r' = "?r\<lparr>fr_head := b + 1\<rparr>"
      have lt: "fr_head ?r < khl_end s" using K_cas True by (simp add: khl_end_def)
      have zero: "holders (tickets s) b = 0" using I(6) [of b] True by force
      have "khl_inv ?r' (b + 1) None (holders ((tickets s)[0 := Some b]))"
        using inv_claim [OF D(1) lt] holders_gain [OF len _ zero] nth K_cas True by (simp add: khl_end_def)
      then show ?thesis
        using owner_move_ok [OF ok, of ?r' "K_won b" "{#}" "{#}"] K_cas b True live_claim [OF lt]
        by (simp add: khl_owner_step_def Let_def khl_end_def)
    qed
  next
    case (K_won b)
    then show ?thesis using D(2) move [of "K_read_won b" "?r\<lparr>fr_tail := b + 1\<rparr>"]
      by (simp add: khl_owner_step_def Let_def khl_end_def)
  next
    case (K_read_won b)
    then show ?thesis
      using owner_move_ok [OF ok, of ?r "K_free_won b" "{#}" "{#khl_body ?r b#}"] D(1) same [of "K_free_won b"]
      by (simp add: khl_owner_step_def Let_def khl_end_def)
  next
    case (K_free_won b)
    let ?r' = "set_seq b (b + int (fr_capacity ?r)) ?r"
    have held: "0 < holders (tickets s) b" using holders_held [OF len] nth K_free_won by simp
    have "khl_inv ?r' (khl_end s) None (holders ((tickets s)[0 := None]))"
      using inv_release [OF D(1) held] holders_lose [OF len _ I(8) [OF held]] nth K_free_won by simp
    moreover have "live_bodies ?r' (khl_end s) = live_bodies ?r (khl_end s)"
      by (intro bodies_cong) (simp_all add: khl_body_set_seq [OF I(1)])
    ultimately show ?thesis
      using owner_move_ok [OF ok, of ?r' K_idle "{#}" "{#}"] K_free_won I(1)
      by (simp add: khl_owner_step_def Let_def khl_end_def khl_body_set_seq)
  next
    case (K_read b)
    then show ?thesis
      using owner_move_ok [OF ok, of ?r "K_free b" "{#}" "{#khl_body ?r b#}"] D(1,2) same [of "K_free b"]
      by (simp add: khl_owner_step_def Let_def khl_end_def)
  next
    case (K_free b)
    then have b: "b = fr_tail ?r" using D(2) by simp
    let ?r' = "set_seq b b ?r"
    have "khl_inv ?r' b None (holders (tickets s))"
      using inv_own_release [of ?r b "holders (tickets s)"] D(1) K_free b by (simp add: khl_end_def)
    moreover have "live_bodies ?r' b = live_bodies ?r b"
      by (intro bodies_cong) (simp_all add: khl_body_set_seq [OF I(1)])
    ultimately show ?thesis
      using owner_move_ok [OF ok, of ?r' K_idle "{#}" "{#}"] K_free b same [of K_idle] I(1)
      by (simp add: khl_owner_step_def Let_def khl_end_def khl_body_set_seq)
  qed
qed

lemma khl_step_ok: "khl_step s t \<Longrightarrow> khl_race_ok s \<Longrightarrow> khl_race_ok t"
  by (induction rule: khl_step.induct)
    (simp_all add: khl_start_publish_ok khl_start_pop_ok khl_owner_step_ok khl_thief_step_ok)

lemma khl_run_ok: "khl_step\<^sup>*\<^sup>* s t \<Longrightarrow> khl_race_ok s \<Longrightarrow> khl_race_ok t"
  by (induction rule: rtranclp_induct) (auto intro: khl_step_ok)

lemma khl_race_ok_start: "khl_race_ok (khl_race_start body cap n)"
proof -
  have "holders (None # replicate n None) q = 0" for q
    by (auto simp: holders_def number_zero)
  moreover have "sum_list (map (thief_unread r) (replicate n H_idle)) = {#}" for r :: "'b khl_header"
    by (induction n) simp_all
  moreover have "khl_ok (khl_new body cap)" by (rule khl_ok_new)
  ultimately show ?thesis
    by (auto simp: khl_race_ok_def khl_race_start_def khl_end_def tickets_def bodies_left_def live_bodies_def
        khl_inv_def khl_ok_def fr_ok_def map_replicate_const) (simp_all add: khl_new_def)
qed

section \<open>What it gives\<close>

lemma khl_reachable_ok:
  assumes "khl_step\<^sup>*\<^sup>* (khl_race_start body cap n) s"
  shows "khl_race_ok s"
  by (rule khl_run_ok [OF assms khl_race_ok_start])

lemma khl_claim_published:
  assumes ok: "khl_race_ok s" and i: "i < length (kr_thieves s)" "kr_thieves s ! i = H_wait t"
  shows "fr_seq (kr_ring s) t = t + 1"
proof (rule khl_invD(7) [OF khl_race_okD(1) [OF ok]])
  have "Suc i < length (tickets s)" "tickets s ! Suc i = Some t" using i by (simp_all add: tickets_def)
  then show "0 < holders (tickets s) t" by (rule holders_held)
qed

lemma khl_conserves: "khl_race_ok s \<Longrightarrow> kr_pushed s = kr_taken s + bodies_left s"
  by (simp add: khl_race_ok_def)

lemma khl_idle_left:
  assumes "kr_owner s = K_idle" "set (kr_thieves s) \<subseteq> {H_idle}"
  shows "bodies_left s = mset (khl_abs (kr_ring s))"
proof -
  have "sum_list (map (thief_unread r) ths) = {#}" if "set ths \<subseteq> {H_idle}" for r :: "'a khl_header" and ths
    using that by (induction ths) auto
  moreover have "(\<lambda>p. the (fr_data (kr_ring s) p)) = khl_body (kr_ring s)"
    by (simp add: khl_body_def fun_eq_iff)
  ultimately show ?thesis
    using assms by (simp add: bodies_left_def live_bodies_def khl_end_def khl_abs_def fr_abs_def)
qed

end
