(* ===== verification/Jec_Sleep.thy ===== *)
theory Jec_Sleep
  imports Prelude
begin

unbundle bit_operations_syntax

text \<open>
  The counters and the idle state of the jobs event counter protocol
  (\<open>sched/jec_sleep.rs\<close>): the word that packs the sleeping count, the inactive count and
  the event counter, what a producer decides from a reading of it, and the adaptation of
  the spin window. How the threads interleave is in \<open>Jec_Race\<close>.
\<close>

section \<open>The packed word\<close>

definition THREADS_BITS :: nat where "THREADS_BITS = 16"
definition SLEEPING_SHIFT :: nat where "SLEEPING_SHIFT = 0 * THREADS_BITS"
definition INACTIVE_SHIFT :: nat where "INACTIVE_SHIFT = 1 * THREADS_BITS"
definition JEC_SHIFT :: nat where "JEC_SHIFT = 2 * THREADS_BITS"
definition THREADS_MAX :: usize where "THREADS_MAX = push_bit THREADS_BITS 1 - 1"
definition ONE_SLEEPING :: usize where "ONE_SLEEPING = 1"
definition ONE_INACTIVE :: usize where "ONE_INACTIVE = push_bit INACTIVE_SHIFT 1"
definition ONE_JEC :: usize where "ONE_JEC = push_bit JEC_SHIFT 1"

lemmas jec_consts = THREADS_BITS_def SLEEPING_SHIFT_def INACTIVE_SHIFT_def JEC_SHIFT_def
  THREADS_MAX_def ONE_SLEEPING_def ONE_INACTIVE_def ONE_JEC_def

definition select_thread :: "usize \<Rightarrow> nat \<Rightarrow> usize" where
  "select_thread word shift = drop_bit shift word AND THREADS_MAX"

definition select_jec :: "usize \<Rightarrow> usize" where
  "select_jec word = drop_bit JEC_SHIFT word"

definition jec_DUMMY :: usize where "jec_DUMMY = - 1"

definition is_sleepy :: "usize \<Rightarrow> bool" where
  "is_sleepy jec \<longleftrightarrow> jec AND 1 = 0"

definition is_active :: "usize \<Rightarrow> bool" where
  "is_active jec \<longleftrightarrow> \<not> is_sleepy jec"

definition inactive_threads :: "usize \<Rightarrow> usize" where
  "inactive_threads word = select_thread word INACTIVE_SHIFT"

definition sleeping_threads :: "usize \<Rightarrow> usize" where
  "sleeping_threads word = select_thread word SLEEPING_SHIFT"

definition awake_but_idle_threads :: "usize \<Rightarrow> usize" where
  "awake_but_idle_threads word = inactive_threads word - sleeping_threads word"

text \<open>The atomic operations: the word after, and what the caller learns.\<close>

definition add_inactive_thread :: "usize \<Rightarrow> usize" where
  "add_inactive_thread w = w + ONE_INACTIVE"

definition sub_inactive_thread :: "usize \<Rightarrow> usize \<times> usize" where
  "sub_inactive_thread w = (min (sleeping_threads w) 2, w - ONE_INACTIVE)"

definition sub_sleeping_thread :: "usize \<Rightarrow> usize" where
  "sub_sleeping_thread w = w - ONE_SLEEPING"

definition try_exchange :: "usize \<Rightarrow> usize \<Rightarrow> usize \<Rightarrow> bool \<times> usize" where
  "try_exchange old new w = (if w = old then (True, new) else (False, w))"

definition try_add_sleeping_thread :: "usize \<Rightarrow> usize \<Rightarrow> bool \<times> usize" where
  "try_add_sleeping_thread old w = try_exchange old (old + ONE_SLEEPING) w"

definition jec_bumped :: "usize \<Rightarrow> usize" where
  "jec_bumped w = w + ONE_JEC"

text \<open>How many sleepers \<open>new_internal_jobs\<close> sets out to wake.\<close>

definition jobs_to_wake :: "nat \<Rightarrow> bool \<Rightarrow> usize \<Rightarrow> nat" where
  "jobs_to_wake num_jobs queue_was_empty counters =
     (let awake_but_idle = unat (awake_but_idle_threads counters);
          num_sleepers = unat (sleeping_threads counters)
      in if num_sleepers = 0 then 0
         else if \<not> queue_was_empty then min num_jobs num_sleepers
         else if awake_but_idle < num_jobs then min (num_jobs - awake_but_idle) num_sleepers
         else 0)"

section \<open>The idle state and the spin window\<close>

definition ROUNDS_UNTIL_SLEEPY :: u32 where "ROUNDS_UNTIL_SLEEPY = 32"
definition DEFAULT_SPIN_WINDOW_ROUNDS :: u32 where "DEFAULT_SPIN_WINDOW_ROUNDS = 500"
definition FLOOR_SPIN_WINDOW_ROUNDS :: u32 where "FLOOR_SPIN_WINDOW_ROUNDS = 8"
definition SLEEPLESS_BEFORE_BACKOFF :: u32 where "SLEEPLESS_BEFORE_BACKOFF = 4"
definition EVIDENCE_FLOOR :: u32 where "EVIDENCE_FLOOR = 256"

text \<open>Durations in microseconds: 250 us, doubled at most sixteen times, at most 32 ms.\<close>

definition SLEEPLESS_BACKOFF_FLOOR :: nat where "SLEEPLESS_BACKOFF_FLOOR = 250"
definition SLEEPLESS_BACKOFF_CAP :: nat where "SLEEPLESS_BACKOFF_CAP = 32000"

definition sleepless_backoff :: "u32 \<Rightarrow> nat" where
  "sleepless_backoff n =
     (let steps = min (unat (sat_sub n SLEEPLESS_BEFORE_BACKOFF)) 16
      in min (SLEEPLESS_BACKOFF_FLOOR * 2 ^ steps) SLEEPLESS_BACKOFF_CAP)"

definition round_cycles :: "u64 \<Rightarrow> u64 \<Rightarrow> u64" where
  "round_cycles dispatch_cost_ns per_ns_16 = sat_mul dispatch_cost_ns per_ns_16 div 16"

definition should_adapt :: "bool \<Rightarrow> u32 \<Rightarrow> u32 \<Rightarrow> bool" where
  "should_adapt adaptive park rescue \<longleftrightarrow> adaptive \<and> EVIDENCE_FLOOR \<le> sat_add park rescue"

definition adapted_window :: "u32 \<Rightarrow> u32 \<Rightarrow> u32 \<Rightarrow> u32" where
  "adapted_window cur park rescue =
     (if sat_mul rescue 3 < park then max (cur div 2) FLOOR_SPIN_WINDOW_ROUNDS
      else if park < rescue then min (cur + cur div 4 + 1) DEFAULT_SPIN_WINDOW_ROUNDS
      else cur)"

record idle_state =
  id_worker_index :: nat
  id_rounds :: u32
  id_jobs_counter :: usize
  id_parked :: bool
  id_sleepless :: u32

definition idle_new :: "nat \<Rightarrow> idle_state" where
  "idle_new i =
     \<lparr>id_worker_index = i, id_rounds = 0, id_jobs_counter = jec_DUMMY, id_parked = False, id_sleepless = 0\<rparr>"

definition wake_fully :: "idle_state \<Rightarrow> idle_state" where
  "wake_fully d = d\<lparr>id_rounds := 0, id_jobs_counter := jec_DUMMY\<rparr>"

definition wake_partly :: "idle_state \<Rightarrow> idle_state" where
  "wake_partly d = d\<lparr>id_rounds := ROUNDS_UNTIL_SLEEPY, id_jobs_counter := jec_DUMMY\<rparr>"

section \<open>The fields\<close>

text \<open>
  The two thread counts of a word. As long as neither field overflows, no operation lets
  one field carry into the next; the event counter on top wraps by itself.
\<close>

definition count_fields :: "nat \<Rightarrow> nat \<Rightarrow> usize \<Rightarrow> bool" where
  "count_fields s i w \<longleftrightarrow> s < 2 ^ 16 \<and> i < 2 ^ 16 \<and> unat w mod 2 ^ 32 = s + i * 2 ^ 16"

lemma THREADS_MAX_mask: "THREADS_MAX = mask 16"
  by (simp add: THREADS_MAX_def THREADS_BITS_def mask_eq_exp_minus_1)

lemma unat_select: "unat (select_thread w k) = take_bit 16 (drop_bit k (unat w))"
proof -
  have "take_bit 64 (unat w) = unat w" by (rule take_bit_nat_eq_self) (rule unat_u64_lt)
  then show ?thesis
    by (simp only: select_thread_def THREADS_MAX_mask unsigned_take_bit_eq unsigned_drop_bit_eq len_of_numeral_defs
        flip: take_bit_eq_mask) simp
qed

lemma small_sum_mod:
  fixes v d m t :: nat
  assumes "(v + d) mod m = t" "v < m" "d \<le> t" "t < m"
  shows "v + d = t"
proof (rule ccontr)
  assume ne: "v + d \<noteq> t"
  then have ge: "m \<le> v + d" using assms(1) by (metis mod_less not_less)
  then have "(v + d) mod m = v + d - m" using assms(2-4) by (simp add: le_mod_geq)
  then show False using assms ge by linarith
qed

lemma low_field: "(x :: nat) mod 65536 = x mod 4294967296 mod 65536"
  by (simp add: mod_mod_cancel)

lemma high_field: "(x :: nat) div 65536 mod 65536 = x mod 4294967296 div 65536"
  using drop_bit_take_bit [of 16 32 x] by (simp add: take_bit_eq_mod drop_bit_eq_div)

lemma fields_read: "count_fields s i w \<Longrightarrow> unat (sleeping_threads w) = s \<and> unat (inactive_threads w) = i"
  unfolding sleeping_threads_def inactive_threads_def unat_select
  by (simp add: count_fields_def jec_consts take_bit_eq_mod drop_bit_eq_div low_field [of "unat w"] high_field)

lemma fields_add:
  assumes "count_fields s i w" "unat c = d" "s + i * 2 ^ 16 + d = s' + i' * 2 ^ 16" "s' < 2 ^ 16" "i' < 2 ^ 16"
  shows "count_fields s' i' (w + c)"
proof -
  have "unat (w + c) mod 2 ^ 32 = (unat w + d) mod 2 ^ 32"
    using assms(2) by (simp add: unat_word_ariths mod_mod_cancel)
  also have "\<dots> = (s + i * 2 ^ 16 + d) mod 2 ^ 32"
    using assms(1) unfolding count_fields_def by (metis mod_add_left_eq)
  finally show ?thesis using assms by (simp add: count_fields_def)
qed

lemma fields_sub:
  assumes "count_fields s i w" "unat c = d" "s + i * 2 ^ 16 = s' + i' * 2 ^ 16 + d" "s' < 2 ^ 16" "i' < 2 ^ 16"
  shows "count_fields s' i' (w - c)"
proof -
  let ?v = "unat (w - c) mod 2 ^ 32" and ?m = "2 ^ 32 :: nat"
  have "unat (w - c + c) mod ?m = (unat (w - c) + d) mod ?m"
    using assms(2) by (simp only: unat_word_ariths) (simp add: mod_mod_cancel)
  then have "(?v + d) mod ?m = s + i * 2 ^ 16"
    using assms(1) by (simp add: count_fields_def mod_add_left_eq)
  moreover have "?v < ?m" by simp
  moreover have "d \<le> s + i * 2 ^ 16" "s + i * 2 ^ 16 < ?m" using assms by (simp_all add: count_fields_def)
  ultimately have "?v + d = s + i * 2 ^ 16" by (rule small_sum_mod)
  then show ?thesis using assms by (simp add: count_fields_def)
qed

lemma fields_add_sleeping: "count_fields s i w \<Longrightarrow> Suc s < 2 ^ 16 \<Longrightarrow> count_fields (Suc s) i (w + ONE_SLEEPING)"
  by (rule fields_add [of s i w _ 1]) (auto simp: count_fields_def jec_consts)

lemma fields_add_inactive: "count_fields s i w \<Longrightarrow> Suc i < 2 ^ 16 \<Longrightarrow> count_fields s (Suc i) (add_inactive_thread w)"
  unfolding add_inactive_thread_def by (rule fields_add [of s i w _ "2 ^ 16"]) (auto simp: count_fields_def jec_consts)

lemma fields_sub_sleeping: "count_fields (Suc s) i w \<Longrightarrow> count_fields s i (sub_sleeping_thread w)"
  unfolding sub_sleeping_thread_def by (rule fields_sub [of "Suc s" i w _ 1]) (auto simp: count_fields_def jec_consts)

lemma fields_sub_inactive: "count_fields s (Suc i) w \<Longrightarrow> count_fields s i (snd (sub_inactive_thread w))"
  unfolding sub_inactive_thread_def snd_conv
  by (rule fields_sub [of s "Suc i" w _ "2 ^ 16"]) (auto simp: count_fields_def jec_consts)

lemma fields_bump:
  assumes "count_fields s i w"
  shows "count_fields s i (jec_bumped w)"
proof -
  have "unat (jec_bumped w) mod 2 ^ 32 = (unat w + 2 ^ 32) mod 2 ^ 32"
    by (simp add: jec_bumped_def jec_consts unat_word_ariths mod_mod_cancel)
  then show ?thesis using assms by (simp add: count_fields_def)
qed

text \<open>
  A producer that reads every worker as asleep wakes one whenever it brought a job.
\<close>

lemma jobs_to_wake_all_asleep:
  assumes "count_fields n n w" "0 < n" "0 < num_jobs"
  shows "0 < jobs_to_wake num_jobs was_empty w"
proof -
  have "unat (sleeping_threads w) = n" "inactive_threads w = sleeping_threads w"
    using fields_read [OF assms(1)] by (simp_all add: word_unat_eq_iff)
  then show ?thesis using assms by (simp add: jobs_to_wake_def awake_but_idle_threads_def Let_def)
qed

end
