(* ===== verification/Jec_Race.thy ===== *)
theory Jec_Race
  imports Jec_Sleep
begin

text \<open>
  The sleep protocol of the pool (\<open>sched/jec_sleep.rs\<close>) under contention: workers that
  search, grow sleepy and park as \<open>arena_local::worker_loop\<close> drives them, and any threads,
  workers or not, that submit jobs (\<open>submit\<close>), hand a job to one worker
  (\<open>push_to_mailbox\<close>), wake, or shut the pool down. Every access to a shared word is a step
  of its own, taken as sequentially consistent (the source orders all of them \<open>SeqCst\<close>).
  The workers from \<open>jc_primaries\<close> on are SMT siblings: at the head of their loop, idle or not,
  they are held while nobody has asked for them (\<open>jc_smt\<close> is 0).
\<close>

section \<open>The threads\<close>

datatype worker_state = AWAKE | ASLEEP | WAKING

text \<open>How far a walk over the workers goes: to a number of wakes, to all, or to one worker.\<close>

datatype budget = Upto nat | Sweep | Only

text \<open>
  \<open>J_active\<close> is a thread that runs a job or is no worker at all. From \<open>J_look\<close> on a worker
  searches and idles (\<open>start_looking\<close>, \<open>no_work_found\<close>, \<open>announce_sleepy\<close>, \<open>sleep\<close>); the
  idle state's rounds and event counter travel along. \<open>J_look\<close> and \<open>J_idle\<close> are the head of
  \<open>worker_loop\<close> without and with an idle state, \<open>J_search\<close> and \<open>J_seek\<close> the search past the
  gate of the siblings, \<open>J_held\<close> and \<open>J_held_idle\<close> the wait at the gate (its yields, its sleeps
  and its park, left only when a request or the shutdown is seen). \<open>N_...\<close> is \<open>new_internal_jobs\<close>,
  \<open>M_...\<close> the tail of \<open>push_to_mailbox\<close> and \<open>wake_worker\<close>, \<open>C_...\<close> is
  \<open>wake_any_threads\<close> with \<open>wake_specific_thread\<close>.
\<close>

datatype jec_pc =
    J_active
  | J_look
  | J_held
  | J_search
  | J_start
  | J_idle u32 usize
  | J_held_idle u32 usize
  | J_seek u32 usize
  | J_round u32 usize
  | J_announce
  | J_announce_cas usize
  | J_shut_first usize
  | J_count usize
  | J_add usize usize
  | J_first_look
  | J_publish
  | J_shut
  | J_look_shared
  | J_look_flag
  | J_look_mail
  | J_rescue
  | J_give_back
  | J_park
  | J_parked
  | J_found
  | N_bump nat bool
  | N_bump_cas nat bool usize
  | M_flag nat
  | M_state nat
  | C_probe nat budget
  | C_sub nat budget
  | C_store nat budget
  | C_unpark nat budget

record jec =
  jc_word :: usize
  jc_states :: "worker_state list"
  jc_permits :: "bool list"
  jc_threads :: "jec_pc list"
  jc_jobs :: nat
  jc_mail :: "nat list"
  jc_mail_used :: bool
  jc_shutdown :: bool
  jc_primaries :: nat
  jc_smt :: u32

text \<open>The first \<open>n\<close> threads are the workers, the first \<open>primaries\<close> of them are no siblings.\<close>

definition jec_start :: "nat \<Rightarrow> nat \<Rightarrow> nat \<Rightarrow> jec" where
  "jec_start n primaries others =
     \<lparr>jc_word = 0, jc_states = replicate n AWAKE, jc_permits = replicate n False,
      jc_threads = replicate n J_look @ replicate others J_active, jc_jobs = 0,
      jc_mail = replicate n 0, jc_mail_used = False, jc_shutdown = False,
      jc_primaries = primaries, jc_smt = 0\<rparr>"

text \<open>
  What a search turned up: a job of the injector, of the own mailbox, of some deque (which the
  protocol does not see), or nothing, which a search may report whatever arrives meanwhile.
  The first look inside \<open>sleep\<close> is left open; the protocol does not rest on it.
\<close>

datatype find = Find_shared | Find_mail | Find_deque | Find_nothing

record jec_choice =
  ch_find :: find
  ch_window :: u32
  ch_saw_work :: bool
  ch_spurious :: bool

definition jec_goto :: "nat \<Rightarrow> jec_pc \<Rightarrow> jec \<Rightarrow> jec" where
  "jec_goto i pc s = s\<lparr>jc_threads := (jc_threads s)[i := pc]\<rparr>"

definition set_state :: "nat \<Rightarrow> worker_state \<Rightarrow> jec \<Rightarrow> jec" where
  "set_state j v s = s\<lparr>jc_states := (jc_states s)[j := v]\<rparr>"

definition set_word :: "usize \<Rightarrow> jec \<Rightarrow> jec" where
  "set_word w s = s\<lparr>jc_word := w\<rparr>"

definition jec_search :: "find \<Rightarrow> nat \<Rightarrow> jec_pc \<Rightarrow> jec_pc \<Rightarrow> jec \<Rightarrow> jec" where
  "jec_search f i found missed s =
     (case f of
        Find_shared \<Rightarrow> if 0 < jc_jobs s then jec_goto i found (s\<lparr>jc_jobs := jc_jobs s - 1\<rparr>) else jec_goto i missed s
      | Find_mail \<Rightarrow>
          if 0 < jc_mail s ! i then jec_goto i found (s\<lparr>jc_mail := (jc_mail s)[i := jc_mail s ! i - 1]\<rparr>)
          else jec_goto i missed s
      | Find_deque \<Rightarrow> jec_goto i found s
      | Find_nothing \<Rightarrow> jec_goto i missed s)"

text \<open>After the wakes are decided: how the walk begins, and how it goes on after a wake.\<close>

definition walk_from :: "nat \<Rightarrow> jec_pc" where
  "walk_from k = (if 0 < k then C_probe 0 (Upto k) else J_active)"

definition walk_on :: "nat \<Rightarrow> budget \<Rightarrow> jec_pc" where
  "walk_on j b =
     (case b of
        Only \<Rightarrow> J_active
      | Sweep \<Rightarrow> C_probe (Suc j) Sweep
      | Upto k \<Rightarrow> if k \<le> 1 then J_active else C_probe (Suc j) (Upto (k - 1)))"

text \<open>A search that found nothing: another round, the announcement, or to sleep.\<close>

definition no_work_found :: "u32 \<Rightarrow> u32 \<Rightarrow> usize \<Rightarrow> jec_pc" where
  "no_work_found r window jc =
     (if r < ROUNDS_UNTIL_SLEEPY then J_idle (r + 1) jc
      else if r = ROUNDS_UNTIL_SLEEPY then J_announce
      else if r < ROUNDS_UNTIL_SLEEPY + window then J_idle (r + 1) jc
      else J_shut_first jc)"

text \<open>The gate: a sibling is held while nobody asks for siblings.\<close>

definition gated :: "nat \<Rightarrow> jec \<Rightarrow> bool" where
  "gated i s \<longleftrightarrow> jc_primaries s \<le> i \<and> jc_smt s = 0"

definition released :: "jec \<Rightarrow> bool" where
  "released s \<longleftrightarrow> jc_smt s \<noteq> 0 \<or> jc_shutdown s"

definition worker_step :: "jec_choice \<Rightarrow> nat \<Rightarrow> jec \<Rightarrow> jec" where
  "worker_step ch i s =
     (let w = jc_word s; goto = (\<lambda>pc. jec_goto i pc s)
      in case jc_threads s ! i of
           J_look \<Rightarrow> goto (if gated i s then J_held else J_search)
         | J_held \<Rightarrow> if released s then goto J_look else s
         | J_search \<Rightarrow> jec_search (ch_find ch) i J_active J_start s
         | J_start \<Rightarrow> jec_goto i (J_idle 0 jec_DUMMY) (set_word (add_inactive_thread w) s)
         | J_idle r jc \<Rightarrow> goto (if gated i s then J_held_idle r jc else J_seek r jc)
         | J_held_idle r jc \<Rightarrow> if released s then goto (J_idle r jc) else s
         | J_seek r jc \<Rightarrow> jec_search (ch_find ch) i J_found (J_round r jc) s
         | J_round r jc \<Rightarrow> goto (no_work_found r (ch_window ch) jc)
         | J_announce \<Rightarrow>
             if is_active (select_jec w) then goto (J_announce_cas w)
             else goto (J_idle (ROUNDS_UNTIL_SLEEPY + 1) (select_jec w))
         | J_announce_cas old \<Rightarrow>
             let (ok, w') = try_exchange old (jec_bumped old) w
             in if ok then jec_goto i (J_idle (ROUNDS_UNTIL_SLEEPY + 1) (select_jec w')) (set_word w' s)
                else goto J_announce
         | J_shut_first jc \<Rightarrow>
             if jc_shutdown s then goto (J_idle ROUNDS_UNTIL_SLEEPY jec_DUMMY) else goto (J_count jc)
         | J_count jc \<Rightarrow>
             if select_jec w \<noteq> jc then goto (J_idle ROUNDS_UNTIL_SLEEPY jec_DUMMY) else goto (J_add jc w)
         | J_add jc old \<Rightarrow>
             let (ok, w') = try_add_sleeping_thread old w
             in if ok then jec_goto i J_first_look (set_word w' s) else goto (J_count jc)
         | J_first_look \<Rightarrow> if ch_saw_work ch then goto J_give_back else goto J_publish
         | J_publish \<Rightarrow> jec_goto i J_shut (set_state i ASLEEP s)
         | J_shut \<Rightarrow> if jc_shutdown s then goto J_rescue else goto J_look_shared
         | J_look_shared \<Rightarrow> if 0 < jc_jobs s then goto J_rescue else goto J_look_flag
         | J_look_flag \<Rightarrow> if jc_mail_used s then goto J_look_mail else goto J_park
         | J_look_mail \<Rightarrow> if 0 < jc_mail s ! i then goto J_rescue else goto J_park
         | J_rescue \<Rightarrow>
             if jc_states s ! i = ASLEEP then jec_goto i J_give_back (set_state i AWAKE s) else goto J_park
         | J_give_back \<Rightarrow> jec_goto i (J_idle 0 jec_DUMMY) (set_word (sub_sleeping_thread w) s)
         | J_park \<Rightarrow> if jc_states s ! i = AWAKE then goto (J_idle 0 jec_DUMMY) else goto J_parked
         | J_parked \<Rightarrow>
             if jc_permits s ! i \<or> ch_spurious ch
             then jec_goto i J_park (s\<lparr>jc_permits := (jc_permits s)[i := False]\<rparr>)
             else s
         | J_found \<Rightarrow>
             let (wake_count, w') = sub_inactive_thread w
             in jec_goto i (walk_from (unat wake_count)) (set_word w' s)
         | _ \<Rightarrow> s)"

definition waker_step :: "nat \<Rightarrow> jec \<Rightarrow> jec" where
  "waker_step i s =
     (let w = jc_word s; goto = (\<lambda>pc. jec_goto i pc s)
      in case jc_threads s ! i of
           N_bump m e \<Rightarrow>
             if is_sleepy (select_jec w) then goto (N_bump_cas m e w)
             else goto (walk_from (jobs_to_wake m e w))
         | N_bump_cas m e old \<Rightarrow>
             let (ok, w') = try_exchange old (jec_bumped old) w
             in if ok then jec_goto i (walk_from (jobs_to_wake m e w')) (set_word w' s) else goto (N_bump m e)
         | M_flag j \<Rightarrow> jec_goto i (M_state j) (s\<lparr>jc_mail_used := True\<rparr>)
         | M_state j \<Rightarrow> if jc_states s ! j = ASLEEP then goto (C_probe j Only) else goto J_active
         | C_probe j b \<Rightarrow>
             if length (jc_states s) \<le> j then goto J_active
             else if jc_states s ! j = ASLEEP then jec_goto i (C_sub j b) (set_state j WAKING s)
             else goto (if b = Only then J_active else C_probe (Suc j) b)
         | C_sub j b \<Rightarrow> jec_goto i (C_store j b) (set_word (sub_sleeping_thread w) s)
         | C_store j b \<Rightarrow> jec_goto i (C_unpark j b) (set_state j AWAKE s)
         | C_unpark j b \<Rightarrow> jec_goto i (walk_on j b) (s\<lparr>jc_permits := (jc_permits s)[j := True]\<rparr>)
         | _ \<Rightarrow> s)"

text \<open>
  A worker that finished its job searches again; any thread outside the search may submit
  jobs, notify of jobs on a deque, post to a mailbox, ask for the siblings or give them up, or
  shut the pool down. The unparks of \<open>acquire_smt\<close> only hasten what a held worker does anyway,
  and for a worker that sleeps they are the wakes for no reason that \<open>ch_spurious\<close> allows.
\<close>

inductive jec_step :: "jec \<Rightarrow> jec \<Rightarrow> bool" where
  jec_searches: "i < length (jc_states s) \<Longrightarrow> jc_threads s ! i = J_active \<Longrightarrow> jec_step s (jec_goto i J_look s)"
| jec_submits: "i < length (jc_threads s) \<Longrightarrow> jc_threads s ! i = J_active
    \<Longrightarrow> jec_step s (jec_goto i (N_bump 1 was_empty) (s\<lparr>jc_jobs := jc_jobs s + 1\<rparr>))"
| jec_notifies: "i < length (jc_threads s) \<Longrightarrow> jc_threads s ! i = J_active \<Longrightarrow> 0 < m
    \<Longrightarrow> jec_step s (jec_goto i (N_bump m was_empty) s)"
| jec_posts: "i < length (jc_threads s) \<Longrightarrow> jc_threads s ! i = J_active \<Longrightarrow> j < length (jc_states s)
    \<Longrightarrow> jec_step s (jec_goto i (M_flag j) (s\<lparr>jc_mail := (jc_mail s)[j := jc_mail s ! j + 1]\<rparr>))"
| jec_acquires: "i < length (jc_threads s) \<Longrightarrow> jc_threads s ! i = J_active
    \<Longrightarrow> jec_step s (s\<lparr>jc_smt := jc_smt s + 1\<rparr>)"
| jec_releases: "i < length (jc_threads s) \<Longrightarrow> jc_threads s ! i = J_active \<Longrightarrow> jc_smt s \<noteq> 0
    \<Longrightarrow> jec_step s (s\<lparr>jc_smt := jc_smt s - 1\<rparr>)"
| jec_shuts_down: "i < length (jc_threads s) \<Longrightarrow> jc_threads s ! i = J_active
    \<Longrightarrow> jec_step s (jec_goto i (C_probe 0 Sweep) (s\<lparr>jc_shutdown := True\<rparr>))"
| jec_works: "i < length (jc_threads s) \<Longrightarrow> jec_step s (worker_step ch i s)"
| jec_wakes: "i < length (jc_threads s) \<Longrightarrow> jec_step s (waker_step i s)"

section \<open>The invariant\<close>

text \<open>
  Where a worker is counted inactive; where it has published that it sleeps and may be
  claimed; where it owes a decrement of the sleeping count itself.
\<close>

fun idle_pc :: "jec_pc \<Rightarrow> bool" where
  "idle_pc J_active = False"
| "idle_pc J_look = False"
| "idle_pc J_held = False"
| "idle_pc J_search = False"
| "idle_pc J_start = False"
| "idle_pc (N_bump m e) = False"
| "idle_pc (N_bump_cas m e w) = False"
| "idle_pc (M_flag j) = False"
| "idle_pc (M_state j) = False"
| "idle_pc (C_probe j b) = False"
| "idle_pc (C_sub j b) = False"
| "idle_pc (C_store j b) = False"
| "idle_pc (C_unpark j b) = False"
| "idle_pc pc = True"

text \<open>A thread that is outside a worker's search and idling.\<close>

definition outside_pc :: "jec_pc \<Rightarrow> bool" where
  "outside_pc pc \<longleftrightarrow> \<not> idle_pc pc \<and> pc \<noteq> J_look \<and> pc \<noteq> J_held \<and> pc \<noteq> J_search \<and> pc \<noteq> J_start"

declare outside_pc_def [simp]

definition zone_pc :: "jec_pc \<Rightarrow> bool" where
  "zone_pc pc \<longleftrightarrow> pc \<in> {J_shut, J_look_shared, J_look_flag, J_look_mail, J_rescue, J_park, J_parked}"

definition owes_pc :: "jec_pc \<Rightarrow> bool" where
  "owes_pc pc \<longleftrightarrow> pc \<in> {J_first_look, J_publish, J_give_back}"

text \<open>A waker inside its claim of worker \<open>j\<close>; one that has still to decrement for it.\<close>

fun claims :: "nat \<Rightarrow> jec_pc \<Rightarrow> bool" where
  "claims j (C_sub k b) = (k = j)"
| "claims j (C_store k b) = (k = j)"
| "claims j pc = False"

fun subs :: "nat \<Rightarrow> jec_pc \<Rightarrow> bool" where
  "subs j (C_sub k b) = (k = j)"
| "subs j pc = False"

fun unparks :: "nat \<Rightarrow> jec_pc \<Rightarrow> bool" where
  "unparks j (C_unpark k b) = (k = j)"
| "unparks j pc = False"

definition sleeper :: "jec \<Rightarrow> nat \<Rightarrow> bool" where
  "sleeper s j \<longleftrightarrow>
     owes_pc (jc_threads s ! j) \<or> zone_pc (jc_threads s ! j) \<and> jc_states s ! j = ASLEEP
     \<or> 0 < number (subs j) (jc_threads s)"

text \<open>Who will see to a job of the injector, to a letter for \<open>j\<close>, to the shutdown of \<open>j\<close>.\<close>

fun promises :: "nat \<Rightarrow> jec_pc \<Rightarrow> bool" where
  "promises n (N_bump m e) = (0 < m)"
| "promises n (N_bump_cas m e w) = (0 < m)"
| "promises n (C_probe j b) = (j < n \<and> b \<noteq> Only)"
| "promises n pc = False"

fun delivers :: "nat \<Rightarrow> jec_pc \<Rightarrow> bool" where
  "delivers j (M_flag k) = (k = j)"
| "delivers j (M_state k) = (k = j)"
| "delivers j (C_probe k b) = (k = j \<and> b = Only)"
| "delivers j pc = False"

fun flags :: "nat \<Rightarrow> jec_pc \<Rightarrow> bool" where
  "flags j (M_flag k) = (k = j)"
| "flags j pc = False"

fun sweeps :: "nat \<Rightarrow> jec_pc \<Rightarrow> bool" where
  "sweeps j (C_probe k b) = (b = Sweep \<and> k \<le> j)"
| "sweeps j (C_sub k b) = (b = Sweep \<and> k < j)"
| "sweeps j (C_store k b) = (b = Sweep \<and> k < j)"
| "sweeps j (C_unpark k b) = (b = Sweep \<and> k < j)"
| "sweeps j pc = False"

text \<open>Past the look at the injector, past the look at the mailbox, past the look at the flag.\<close>

definition deaf_jobs :: "jec \<Rightarrow> nat \<Rightarrow> bool" where
  "deaf_jobs s j \<longleftrightarrow> jc_threads s ! j \<in> {J_look_flag, J_look_mail, J_park, J_parked} \<and> jc_states s ! j = ASLEEP"

definition deaf_mail :: "jec \<Rightarrow> nat \<Rightarrow> bool" where
  "deaf_mail s j \<longleftrightarrow> jc_threads s ! j \<in> {J_park, J_parked} \<and> jc_states s ! j = ASLEEP"

definition deaf_shutdown :: "jec \<Rightarrow> nat \<Rightarrow> bool" where
  "deaf_shutdown s j \<longleftrightarrow>
     jc_threads s ! j \<in> {J_look_shared, J_look_flag, J_look_mail, J_park, J_parked} \<and> jc_states s ! j = ASLEEP"

abbreviation jec_workers :: "jec \<Rightarrow> nat" where
  "jec_workers s \<equiv> length (jc_states s)"

definition shape_ok :: "jec \<Rightarrow> bool" where
  "shape_ok s \<longleftrightarrow>
     jec_workers s < 2 ^ 16 \<and> jec_workers s \<le> length (jc_threads s)
     \<and> length (jc_permits s) = jec_workers s \<and> length (jc_mail s) = jec_workers s
     \<and> (\<forall>i. jec_workers s \<le> i \<longrightarrow> i < length (jc_threads s) \<longrightarrow> outside_pc (jc_threads s ! i))
     \<and> (\<forall>j. jec_workers s \<le> j \<longrightarrow> number (claims j) (jc_threads s) = 0 \<and> number (unparks j) (jc_threads s) = 0
            \<and> number (delivers j) (jc_threads s) = 0)"

definition claims_ok :: "jec \<Rightarrow> bool" where
  "claims_ok s \<longleftrightarrow>
     (\<forall>j < jec_workers s.
        (jc_states s ! j \<noteq> AWAKE \<longrightarrow> zone_pc (jc_threads s ! j))
        \<and> number (claims j) (jc_threads s) = of_bool (jc_states s ! j = WAKING)
        \<and> (jc_threads s ! j = J_parked \<and> jc_states s ! j = AWAKE
             \<longrightarrow> jc_permits s ! j \<or> 0 < number (unparks j) (jc_threads s)))"

definition counts_ok :: "jec \<Rightarrow> bool" where
  "counts_ok s \<longleftrightarrow>
     count_fields (number (sleeper s) [0..<jec_workers s]) (number idle_pc (jc_threads s)) (jc_word s)"

definition jobs_ok :: "jec \<Rightarrow> bool" where
  "jobs_ok s \<longleftrightarrow>
     (0 < jc_jobs s \<and> 0 < jec_workers s \<and> (\<forall>j < jec_workers s. deaf_jobs s j)
       \<longrightarrow> 0 < number (promises (jec_workers s)) (jc_threads s))"

definition mail_ok :: "jec \<Rightarrow> bool" where
  "mail_ok s \<longleftrightarrow>
     (\<forall>j < jec_workers s. 0 < jc_mail s ! j \<longrightarrow>
        (deaf_mail s j \<longrightarrow> 0 < number (delivers j) (jc_threads s))
        \<and> (\<not> jc_mail_used s \<longrightarrow> 0 < number (flags j) (jc_threads s)))"

definition shut_ok :: "jec \<Rightarrow> bool" where
  "shut_ok s \<longleftrightarrow>
     (jc_shutdown s \<longrightarrow> (\<forall>j < jec_workers s. deaf_shutdown s j \<longrightarrow> 0 < number (sweeps j) (jc_threads s)))"

lemma number_upd:
  "i < length xs \<Longrightarrow> number f (xs[i := x]) = number f xs + of_bool (f x) - of_bool (f (xs ! i))"
  using number_update [of i xs f x] by simp

lemma number_at: "i < length xs \<Longrightarrow> f (xs ! i) \<Longrightarrow> 0 < number f xs"
  by (auto simp: number_pos)

lemma number_le_upto:
  assumes "\<And>j. j < n \<Longrightarrow> f j \<Longrightarrow> g j"
  shows "number f [0..<n] \<le> number g [0..<n]"
  using assms by (induction n) (auto simp: number_def)

text \<open>A thread that is nobody's waker, and one that has claimed nobody.\<close>

definition uninvolved :: "nat \<Rightarrow> jec_pc \<Rightarrow> bool" where
  "uninvolved n pc \<longleftrightarrow>
     \<not> promises n pc \<and> (\<forall>j. \<not> delivers j pc \<and> \<not> flags j pc \<and> \<not> sweeps j pc)"

definition claimless :: "jec_pc \<Rightarrow> bool" where
  "claimless pc \<longleftrightarrow> (\<forall>j. \<not> claims j pc \<and> \<not> subs j pc \<and> \<not> unparks j pc)"

definition jec_ok :: "jec \<Rightarrow> bool" where
  "jec_ok s \<longleftrightarrow> shape_ok s \<and> claims_ok s \<and> counts_ok s \<and> jobs_ok s \<and> mail_ok s \<and> shut_ok s"

section \<open>Moves of a thread that holds no claim\<close>

text \<open>
  Thread \<open>i\<close> goes to \<open>pc\<close>; if it is a worker its own state and permit become \<open>v\<close> and \<open>p\<close>; the
  word, the jobs, one mailbox and the shutdown flag may change.
\<close>

definition moved :: "nat \<Rightarrow> jec_pc \<Rightarrow> worker_state \<Rightarrow> bool \<Rightarrow> usize \<Rightarrow> nat \<Rightarrow> nat \<Rightarrow> nat \<Rightarrow> bool \<Rightarrow> jec \<Rightarrow> jec" where
  "moved i pc v p w q k m sd s =
     s\<lparr>jc_threads := (jc_threads s)[i := pc], jc_states := (jc_states s)[i := v],
       jc_permits := (jc_permits s)[i := p], jc_word := w, jc_jobs := q,
       jc_mail := (jc_mail s)[k := m], jc_shutdown := sd\<rparr>"

lemma moved_simps [simp]:
  "jc_threads (moved i pc v p w q k m sd s) = (jc_threads s)[i := pc]"
  "jc_states (moved i pc v p w q k m sd s) = (jc_states s)[i := v]"
  "jc_permits (moved i pc v p w q k m sd s) = (jc_permits s)[i := p]"
  "jc_word (moved i pc v p w q k m sd s) = w" "jc_jobs (moved i pc v p w q k m sd s) = q"
  "jc_mail (moved i pc v p w q k m sd s) = (jc_mail s)[k := m]"
  "jc_mail_used (moved i pc v p w q k m sd s) = jc_mail_used s"
  "jc_shutdown (moved i pc v p w q k m sd s) = sd"
  by (simp_all add: moved_def)

lemma number_kept:
  assumes "i < length xs" "\<not> f (xs ! i)" "\<not> f x"
  shows "number f (xs[i := x]) = number f xs"
  using assms by (simp add: number_upd)

lemma number_grows:
  assumes "i < length xs" "\<not> f (xs ! i)"
  shows "number f xs \<le> number f (xs[i := x])" "f x \<Longrightarrow> 0 < number f (xs[i := x])"
  using assms by (simp_all add: number_upd)

lemma number_upt_change:
  assumes "i < n" "\<And>j. j < n \<Longrightarrow> j \<noteq> i \<Longrightarrow> g j = f j"
  shows "number g [0..<n] = number f [0..<n] + of_bool (g i) - of_bool (f i)"
proof -
  have "number g [0..<n] + of_bool (f i) = number f [0..<n] + of_bool (g i)"
    using assms
  proof (induction n)
    case (Suc n)
    show ?case
    proof (cases "i = n")
      case True
      then have "number g [0..<n] = number f [0..<n]"
        using Suc.prems(2) unfolding number_def by (intro arg_cong [where f = sum_list] map_cong) auto
      then show ?thesis using True by (simp add: number_def)
    next
      case False
      then show ?thesis using Suc.IH Suc.prems by (simp add: number_def)
    qed
  qed simp
  then show ?thesis by simp
qed

lemma moved_shape:
  assumes "shape_ok s" "i < length (jc_threads s)" "uninvolved n (jc_threads s ! i)" "claimless (jc_threads s ! i)"
    "claimless pc" "\<And>j. delivers j pc \<Longrightarrow> j < jec_workers s"
    "jec_workers s \<le> i \<Longrightarrow> outside_pc pc"
  shows "shape_ok (moved i pc v p w q k m sd s)"
proof -
  have "number (claims j) ((jc_threads s)[i := pc]) = number (claims j) (jc_threads s)"
    "number (unparks j) ((jc_threads s)[i := pc]) = number (unparks j) (jc_threads s)" for j
    using assms(2,4,5) by (simp_all add: number_kept claimless_def)
  moreover have "number (delivers j) ((jc_threads s)[i := pc]) = number (delivers j) (jc_threads s)"
    if "jec_workers s \<le> j" for j
    using assms(2,3) assms(6) [of j] that by (intro number_kept) (auto simp: uninvolved_def)
  ultimately show ?thesis
    using assms(1,2,7) by (auto simp: shape_ok_def nth_list_update)
qed

lemma moved_claims:
  assumes "claims_ok s" "shape_ok s" "i < length (jc_threads s)" "claimless (jc_threads s ! i)" "claimless pc"
    and own: "i < jec_workers s \<Longrightarrow> (v \<noteq> AWAKE \<longrightarrow> zone_pc pc) \<and> (v = WAKING \<longleftrightarrow> jc_states s ! i = WAKING)
      \<and> (pc = J_parked \<longrightarrow> v \<noteq> AWAKE)"
  shows "claims_ok (moved i pc v p w q k m sd s)"
proof -
  have kept: "number (claims j) ((jc_threads s)[i := pc]) = number (claims j) (jc_threads s)"
    "number (unparks j) ((jc_threads s)[i := pc]) = number (unparks j) (jc_threads s)" for j
    using assms(3,4,5) by (simp_all add: number_kept claimless_def)
  show ?thesis
    unfolding claims_ok_def
  proof (intro allI impI)
    fix j
    assume j: "j < jec_workers (moved i pc v p w q k m sd s)"
    then have len: "j < jec_workers s" "j < length (jc_permits s)" "j < length (jc_threads s)"
      using assms(2) by (simp_all add: shape_ok_def)
    show "(jc_states (moved i pc v p w q k m sd s) ! j \<noteq> AWAKE \<longrightarrow> zone_pc (jc_threads (moved i pc v p w q k m sd s) ! j))
        \<and> number (claims j) (jc_threads (moved i pc v p w q k m sd s))
            = of_bool (jc_states (moved i pc v p w q k m sd s) ! j = WAKING)
        \<and> (jc_threads (moved i pc v p w q k m sd s) ! j = J_parked \<and> jc_states (moved i pc v p w q k m sd s) ! j = AWAKE
             \<longrightarrow> jc_permits (moved i pc v p w q k m sd s) ! j
                 \<or> 0 < number (unparks j) (jc_threads (moved i pc v p w q k m sd s)))"
      using assms(1) own kept len by (cases "j = i") (auto simp: claims_ok_def)
  qed
qed

lemma moved_counts:
  assumes "counts_ok s" "shape_ok s" "i < length (jc_threads s)" "claimless (jc_threads s ! i)" "claimless pc"
    and fields: "count_fields
        (number (sleeper s) [0..<jec_workers s]
           + of_bool (i < jec_workers s \<and> (owes_pc pc \<or> zone_pc pc \<and> v = ASLEEP \<or> 0 < number (subs i) (jc_threads s)))
           - of_bool (i < jec_workers s \<and> sleeper s i))
        (number idle_pc (jc_threads s) + of_bool (idle_pc pc) - of_bool (idle_pc (jc_threads s ! i))) w"
  shows "counts_ok (moved i pc v p w q k m sd s)"
proof -
  let ?s = "moved i pc v p w q k m sd s"
  have subs: "number (subs j) ((jc_threads s)[i := pc]) = number (subs j) (jc_threads s)" for j
    using assms(3,4,5) by (simp add: number_kept claimless_def)
  have len: "jec_workers s \<le> length (jc_threads s)" using assms(2) by (simp add: shape_ok_def)
  have other: "sleeper ?s j = sleeper s j" if "j \<noteq> i" for j
    using that by (simp add: sleeper_def subs)
  have self: "sleeper ?s i = (owes_pc pc \<or> zone_pc pc \<and> v = ASLEEP \<or> 0 < number (subs i) (jc_threads s))"
    if "i < jec_workers s"
    using that assms(3) by (simp add: sleeper_def subs)
  have "number (sleeper ?s) [0..<jec_workers s] = number (sleeper s) [0..<jec_workers s]
      + of_bool (i < jec_workers s \<and> sleeper ?s i) - of_bool (i < jec_workers s \<and> sleeper s i)"
  proof (cases "i < jec_workers s")
    case True
    then show ?thesis using number_upt_change [OF True, of "sleeper ?s" "sleeper s"] other by simp
  next
    case False
    then have "number (sleeper ?s) [0..<jec_workers s] = number (sleeper s) [0..<jec_workers s]"
      using other unfolding number_def by (intro arg_cong [where f = sum_list] map_cong) auto
    then show ?thesis using False by simp
  qed
  then show ?thesis
    using fields self assms(3) by (cases "i < jec_workers s") (simp_all add: counts_ok_def number_upd)
qed

lemma moved_jobs:
  assumes "jobs_ok s" "shape_ok s" "i < length (jc_threads s)" "uninvolved (jec_workers s) (jc_threads s ! i)"
    and jobs: "promises (jec_workers s) pc \<or> q \<le> jc_jobs s \<and> (i < jec_workers s \<and> pc \<in> {J_look_flag, J_look_mail, J_park, J_parked}
      \<and> v = ASLEEP \<longrightarrow> q = 0 \<or> deaf_jobs s i)"
  shows "jobs_ok (moved i pc v p w q k m sd s)"
proof -
  let ?s = "moved i pc v p w q k m sd s"
  have prom: "number (promises (jec_workers s)) (jc_threads s) \<le> number (promises (jec_workers s)) ((jc_threads s)[i := pc])"
    "promises (jec_workers s) pc \<Longrightarrow> 0 < number (promises (jec_workers s)) ((jc_threads s)[i := pc])"
    using number_grows [OF assms(3), of "promises (jec_workers s)" pc] assms(4) by (simp_all add: uninvolved_def)
  have deaf: "deaf_jobs s j" if "j < jec_workers s" "deaf_jobs ?s j" "0 < q" "\<not> promises (jec_workers s) pc" for j
    using that jobs assms(2,3) by (cases "j = i") (auto simp: deaf_jobs_def shape_ok_def)
  show ?thesis
    unfolding jobs_ok_def
  proof (intro impI, elim conjE)
    assume a: "0 < jc_jobs ?s" "0 < jec_workers ?s" "\<forall>j < jec_workers ?s. deaf_jobs ?s j"
    show "0 < number (promises (jec_workers ?s)) (jc_threads ?s)"
    proof (cases "promises (jec_workers s) pc")
      case False
      then have "0 < jc_jobs s" "\<forall>j < jec_workers s. deaf_jobs s j" using a jobs deaf by auto
      then show ?thesis using assms(1) a(2) prom(1) by (simp add: jobs_ok_def)
    qed (use prom(2) in simp)
  qed
qed

lemma flags_deliver: "number (flags j) ths \<le> number (delivers j) ths"
proof (induction ths)
  case (Cons pc ths)
  have "flags j pc \<longrightarrow> delivers j pc" by (cases pc) auto
  with Cons show ?case by (auto simp: number_def)
qed (simp add: number_def)

lemma moved_mail:
  assumes "mail_ok s" "shape_ok s" "i < length (jc_threads s)" "uninvolved n (jc_threads s ! i)"
    and letter: "m \<le> jc_mail s ! k \<or> delivers k pc \<and> flags k pc"
    and quiet: "i < jec_workers s \<Longrightarrow> pc \<in> {J_park, J_parked} \<Longrightarrow> v = ASLEEP \<Longrightarrow> 0 < jc_mail s ! i
      \<Longrightarrow> deaf_mail s i \<or> \<not> jc_mail_used s"
  shows "mail_ok (moved i pc v p w q k m sd s)"
proof -
  let ?s = "moved i pc v p w q k m sd s" and ?ths = "(jc_threads s)[i := pc]"
  have grow: "number (delivers j) (jc_threads s) \<le> number (delivers j) ?ths"
      "number (flags j) (jc_threads s) \<le> number (flags j) ?ths"
      "delivers j pc \<Longrightarrow> 0 < number (delivers j) ?ths" "flags j pc \<Longrightarrow> 0 < number (flags j) ?ths" for j
    using number_grows [OF assms(3), of "delivers j" pc] number_grows [OF assms(3), of "flags j" pc] assms(4)
    by (simp_all add: uninvolved_def)
  show ?thesis
    unfolding mail_ok_def
  proof (intro allI impI)
    fix j
    assume j: "j < jec_workers ?s" and m: "0 < jc_mail ?s ! j"
    have len: "j < jec_workers s" "j < length (jc_mail s)" "j < length (jc_threads s)"
      using j assms(2) by (simp_all add: shape_ok_def)
    show "(deaf_mail ?s j \<longrightarrow> 0 < number (delivers j) (jc_threads ?s))
        \<and> (\<not> jc_mail_used ?s \<longrightarrow> 0 < number (flags j) (jc_threads ?s))"
    proof (cases "j = k \<and> delivers k pc \<and> flags k pc")
      case True
      then show ?thesis using grow by simp
    next
      case False
      then have old: "0 < jc_mail s ! j" using m letter len by (cases "j = k") auto
      have inv: "deaf_mail s j \<longrightarrow> 0 < number (delivers j) (jc_threads s)"
          "\<not> jc_mail_used s \<longrightarrow> 0 < number (flags j) (jc_threads s)"
        using assms(1) old len(1) by (simp_all add: mail_ok_def)
      have "0 < number (delivers j) ?ths" if d: "deaf_mail ?s j"
      proof (cases "j = i")
        case True
        then have "pc \<in> {J_park, J_parked}" "v = ASLEEP" using d len assms(3) by (simp_all add: deaf_mail_def)
        moreover have "i < jec_workers s" "0 < jc_mail s ! i" using old len True by simp_all
        ultimately have "deaf_mail s i \<or> \<not> jc_mail_used s" by (intro quiet)
        then show ?thesis using inv True grow(1) [of i] flags_deliver [of i "jc_threads s"] by auto
      next
        case False
        then have "deaf_mail s j" using d by (simp add: deaf_mail_def)
        then show ?thesis using inv(1) grow(1) [of j] by simp
      qed
      moreover have "0 < number (flags j) ?ths" if "\<not> jc_mail_used s"
        using inv(2) that grow(2) [of j] by simp
      ultimately show ?thesis by simp
    qed
  qed
qed

lemma moved_shut:
  assumes "shut_ok s" "shape_ok s" "i < length (jc_threads s)" "uninvolved n (jc_threads s ! i)"
    and down: "(\<forall>j. sweeps j pc) \<or> sd = jc_shutdown s \<and>
      (i < jec_workers s \<and> pc \<in> {J_look_shared, J_look_flag, J_look_mail, J_park, J_parked} \<and> v = ASLEEP
         \<longrightarrow> \<not> jc_shutdown s \<or> deaf_shutdown s i)"
  shows "shut_ok (moved i pc v p w q k m sd s)"
proof -
  let ?s = "moved i pc v p w q k m sd s" and ?ths = "(jc_threads s)[i := pc]"
  have grow: "number (sweeps j) (jc_threads s) \<le> number (sweeps j) ?ths"
      "sweeps j pc \<Longrightarrow> 0 < number (sweeps j) ?ths" for j
    using number_grows [OF assms(3), of "sweeps j" pc] assms(4) by (simp_all add: uninvolved_def)
  show ?thesis
    unfolding shut_ok_def
  proof (intro impI allI)
    fix j
    assume a: "jc_shutdown ?s" "j < jec_workers ?s" "deaf_shutdown ?s j"
    show "0 < number (sweeps j) (jc_threads ?s)"
    proof (cases "\<forall>j. sweeps j pc")
      case True
      then show ?thesis using grow(2) [of j] by simp
    next
      case False
      then have "sd = jc_shutdown s" using down by blast
      then have sd: "jc_shutdown s" using a(1) by simp
      have "deaf_shutdown s j"
        using a(2,3) down False sd assms(2,3) by (cases "j = i") (auto simp: deaf_shutdown_def shape_ok_def)
      then have "0 < number (sweeps j) (jc_threads s)" using assms(1) sd a(2) by (simp add: shut_ok_def)
      then show ?thesis using grow(1) [of j] by simp
    qed
  qed
qed

lemma moved_ok:
  assumes ok: "jec_ok s" and i: "i < length (jc_threads s)"
    and old: "uninvolved (jec_workers s) (jc_threads s ! i)" "claimless (jc_threads s ! i)"
    and pc: "claimless pc" "\<And>j. delivers j pc \<Longrightarrow> j < jec_workers s"
      "jec_workers s \<le> i \<Longrightarrow> outside_pc pc"
    and own: "i < jec_workers s \<Longrightarrow> (v \<noteq> AWAKE \<longrightarrow> zone_pc pc) \<and> (v = WAKING \<longleftrightarrow> jc_states s ! i = WAKING)
      \<and> (pc = J_parked \<longrightarrow> v \<noteq> AWAKE)"
    and fields: "count_fields
        (number (sleeper s) [0..<jec_workers s]
           + of_bool (i < jec_workers s \<and> (owes_pc pc \<or> zone_pc pc \<and> v = ASLEEP \<or> 0 < number (subs i) (jc_threads s)))
           - of_bool (i < jec_workers s \<and> sleeper s i))
        (number idle_pc (jc_threads s) + of_bool (idle_pc pc) - of_bool (idle_pc (jc_threads s ! i))) w"
    and jobs: "promises (jec_workers s) pc \<or> q \<le> jc_jobs s \<and> (i < jec_workers s \<and> pc \<in> {J_look_flag, J_look_mail, J_park, J_parked}
      \<and> v = ASLEEP \<longrightarrow> q = 0 \<or> deaf_jobs s i)"
    and letter: "m \<le> jc_mail s ! k \<or> delivers k pc \<and> flags k pc"
    and quiet: "i < jec_workers s \<Longrightarrow> pc \<in> {J_park, J_parked} \<Longrightarrow> v = ASLEEP \<Longrightarrow> 0 < jc_mail s ! i
      \<Longrightarrow> deaf_mail s i \<or> \<not> jc_mail_used s"
    and down: "(\<forall>j. sweeps j pc) \<or> sd = jc_shutdown s \<and>
      (i < jec_workers s \<and> pc \<in> {J_look_shared, J_look_flag, J_look_mail, J_park, J_parked} \<and> v = ASLEEP
         \<longrightarrow> \<not> jc_shutdown s \<or> deaf_shutdown s i)"
  shows "jec_ok (moved i pc v p w q k m sd s)"
proof -
  have s: "shape_ok s" "claims_ok s" "counts_ok s" "jobs_ok s" "mail_ok s" "shut_ok s"
    using ok by (simp_all add: jec_ok_def)
  show ?thesis
    unfolding jec_ok_def
  proof (intro conjI)
    show "shape_ok (moved i pc v p w q k m sd s)" by (rule moved_shape [OF s(1) i old pc])
    show "claims_ok (moved i pc v p w q k m sd s)" by (rule moved_claims [OF s(2,1) i old(2) pc(1) own])
    show "counts_ok (moved i pc v p w q k m sd s)" by (rule moved_counts [OF s(3,1) i old(2) pc(1) fields])
    show "jobs_ok (moved i pc v p w q k m sd s)" by (rule moved_jobs [OF s(4,1) i old(1) jobs])
    show "mail_ok (moved i pc v p w q k m sd s)" by (rule moved_mail [OF s(5,1) i old(1) letter quiet])
    show "shut_ok (moved i pc v p w q k m sd s)" by (rule moved_shut [OF s(6,1) i old(1) down])
  qed
qed

section \<open>The workers keep it\<close>

lemma number_le_length: "number f xs \<le> length xs"
  by (induction xs) (auto simp: number_def)

lemma number_append: "number f (xs @ ys) = number f xs + number f ys"
  by (simp add: number_def)

lemma number_first:
  assumes "\<And>k. n \<le> k \<Longrightarrow> k < length xs \<Longrightarrow> \<not> f (xs ! k)"
  shows "number f xs \<le> n"
proof -
  have "number f (drop n xs) = 0"
    using assms by (auto simp: number_zero in_set_conv_nth)
  then have "number f xs = number f (take n xs)"
    using number_append [of f "take n xs" "drop n xs"] by simp
  then show ?thesis using number_le_length [of f "take n xs"] by simp
qed

lemma subs_claim: "number (subs j) ths \<le> number (claims j) ths"
proof (induction ths)
  case (Cons pc ths)
  have "subs j pc \<longrightarrow> claims j pc" by (cases pc) auto
  with Cons show ?case by (auto simp: number_def)
qed (simp add: number_def)

lemma jec_okD:
  assumes "jec_ok s"
  shows "shape_ok s" "claims_ok s" "counts_ok s" "jobs_ok s" "mail_ok s" "shut_ok s"
  using assms by (simp_all add: jec_ok_def)

lemma awake_worker:
  assumes "jec_ok s" "i < jec_workers s" "\<not> zone_pc (jc_threads s ! i)"
  shows "jc_states s ! i = AWAKE" "number (subs i) (jc_threads s) = 0"
proof -
  show "jc_states s ! i = AWAKE" using jec_okD(2) [OF assms(1)] assms(2,3) unfolding claims_ok_def by blast
  then have "number (claims i) (jc_threads s) = 0"
    using jec_okD(2) [OF assms(1)] assms(2) by (simp add: claims_ok_def)
  then show "number (subs i) (jc_threads s) = 0" using subs_claim [of i "jc_threads s"] by simp
qed

lemma idle_bound:
  assumes "shape_ok s"
  shows "number idle_pc (jc_threads s) \<le> jec_workers s"
    "i < jec_workers s \<Longrightarrow> \<not> idle_pc (jc_threads s ! i) \<Longrightarrow> number idle_pc (jc_threads s) < jec_workers s"
proof -
  show "number idle_pc (jc_threads s) \<le> jec_workers s"
    using assms by (intro number_first) (simp add: shape_ok_def)
  assume i: "i < jec_workers s" "\<not> idle_pc (jc_threads s ! i)"
  then have len: "i < length (jc_threads s)" using assms by (simp add: shape_ok_def)
  have "number idle_pc ((jc_threads s)[i := J_park]) \<le> jec_workers s"
    using assms i(1) by (intro number_first) (simp add: shape_ok_def)
  then show "number idle_pc (jc_threads s) < jec_workers s"
    using i len by (simp add: number_upd)
qed

lemma sleeper_bound:
  assumes "i < n" "\<not> f i"
  shows "number f [0..<n] < n"
proof -
  have "number f [0..<n] + 1 = number (\<lambda>j. j = i \<or> f j) [0..<n]"
    using number_upt_change [OF assms(1), of "\<lambda>j. j = i \<or> f j" f] assms(2) by simp
  also have "\<dots> \<le> n" using number_le_length [of _ "[0..<n]"] by simp
  finally show ?thesis by simp
qed

lemma goto_moved:
  "jec_goto i pc s = moved i pc (jc_states s ! i) (jc_permits s ! i) (jc_word s) (jc_jobs s) i (jc_mail s ! i) (jc_shutdown s) s"
  by (simp add: jec_goto_def moved_def)

text \<open>What a worker's own steps have in common.\<close>

definition worker_pc :: "jec_pc \<Rightarrow> bool" where
  "worker_pc pc \<longleftrightarrow> idle_pc pc \<or> pc = J_look \<or> pc = J_held \<or> pc = J_search \<or> pc = J_start \<or> pc = J_active"

lemma worker_pc_uninvolved: "worker_pc pc \<Longrightarrow> uninvolved n pc \<and> claimless pc"
  by (cases pc) (simp_all add: worker_pc_def uninvolved_def claimless_def)

lemma worker_pc_delivers: "worker_pc pc \<Longrightarrow> \<not> delivers j pc"
  by (cases pc) (simp_all add: worker_pc_def)

lemma goto_ok:
  assumes ok: "jec_ok s" and i: "i < jec_workers s" and pcs: "worker_pc (jc_threads s ! i)" "worker_pc pc"
    and same: "idle_pc pc = idle_pc (jc_threads s ! i)"
      "(owes_pc pc \<or> zone_pc pc \<and> jc_states s ! i = ASLEEP)
       = (owes_pc (jc_threads s ! i) \<or> zone_pc (jc_threads s ! i) \<and> jc_states s ! i = ASLEEP)"
    and own: "jc_states s ! i \<noteq> AWAKE \<Longrightarrow> zone_pc pc" "pc = J_parked \<Longrightarrow> jc_states s ! i \<noteq> AWAKE"
    and jobs: "q \<le> jc_jobs s" "m \<le> jc_mail s ! i"
      "pc \<in> {J_look_flag, J_look_mail, J_park, J_parked} \<Longrightarrow> jc_states s ! i = ASLEEP \<Longrightarrow> q = 0 \<or> deaf_jobs s i"
    and quiet: "pc \<in> {J_park, J_parked} \<Longrightarrow> jc_states s ! i = ASLEEP \<Longrightarrow> 0 < jc_mail s ! i
      \<Longrightarrow> deaf_mail s i \<or> \<not> jc_mail_used s"
    and down: "pc \<in> {J_look_shared, J_look_flag, J_look_mail, J_park, J_parked} \<Longrightarrow> jc_states s ! i = ASLEEP
      \<Longrightarrow> \<not> jc_shutdown s \<or> deaf_shutdown s i"
  shows "jec_ok (moved i pc (jc_states s ! i) p (jc_word s) q i m (jc_shutdown s) s)"
proof (rule moved_ok [OF ok])
  show "i < length (jc_threads s)" using i jec_okD(1) [OF ok] by (simp add: shape_ok_def)
  show "uninvolved (jec_workers s) (jc_threads s ! i)" "claimless (jc_threads s ! i)" "claimless pc"
    using worker_pc_uninvolved pcs by blast+
  show "delivers j pc \<Longrightarrow> j < jec_workers s" for j using worker_pc_delivers [OF pcs(2)] by simp
  have "sleeper s i = (owes_pc pc \<or> zone_pc pc \<and> jc_states s ! i = ASLEEP \<or> 0 < number (subs i) (jc_threads s))"
    using same(2) by (auto simp: sleeper_def)
  then show "count_fields
        (number (sleeper s) [0..<jec_workers s]
           + of_bool (i < jec_workers s \<and> (owes_pc pc \<or> zone_pc pc \<and> jc_states s ! i = ASLEEP \<or> 0 < number (subs i) (jc_threads s)))
           - of_bool (i < jec_workers s \<and> sleeper s i))
        (number idle_pc (jc_threads s) + of_bool (idle_pc pc) - of_bool (idle_pc (jc_threads s ! i))) (jc_word s)"
    using jec_okD(3) [OF ok] same(1) by (simp add: counts_ok_def)
qed (use i own jobs quiet down in auto)

lemma goto_same_ok:
  assumes ok: "jec_ok s" and i: "i < jec_workers s" and pcs: "worker_pc (jc_threads s ! i)" "worker_pc pc"
    and same: "idle_pc pc = idle_pc (jc_threads s ! i)" "owes_pc pc = owes_pc (jc_threads s ! i)"
      "zone_pc pc = zone_pc (jc_threads s ! i)"
    and park: "pc = J_parked \<Longrightarrow> jc_states s ! i \<noteq> AWAKE"
    and jobs: "pc \<in> {J_look_flag, J_look_mail, J_park, J_parked} \<Longrightarrow> jc_states s ! i = ASLEEP
      \<Longrightarrow> jc_jobs s = 0 \<or> deaf_jobs s i"
    and quiet: "pc \<in> {J_park, J_parked} \<Longrightarrow> jc_states s ! i = ASLEEP \<Longrightarrow> 0 < jc_mail s ! i
      \<Longrightarrow> deaf_mail s i \<or> \<not> jc_mail_used s"
    and down: "pc \<in> {J_look_shared, J_look_flag, J_look_mail, J_park, J_parked} \<Longrightarrow> jc_states s ! i = ASLEEP
      \<Longrightarrow> \<not> jc_shutdown s \<or> deaf_shutdown s i"
  shows "jec_ok (jec_goto i pc s)"
  unfolding goto_moved
  by (rule goto_ok [OF ok i pcs same(1)])
    (use same(2,3) park jobs quiet down awake_worker(1) [OF ok i] in auto)

lemma search_ok:
  assumes ok: "jec_ok s" and i: "i < jec_workers s" and pcs: "worker_pc (jc_threads s ! i)" "worker_pc found" "worker_pc missed"
    and plain: "idle_pc found = idle_pc (jc_threads s ! i)" "idle_pc missed = idle_pc (jc_threads s ! i)"
      "\<not> owes_pc (jc_threads s ! i)" "\<not> zone_pc (jc_threads s ! i)"
      "\<not> owes_pc found" "\<not> zone_pc found" "\<not> owes_pc missed" "\<not> zone_pc missed"
  shows "jec_ok (jec_search f i found missed s)"
proof -
  have kept: "jec_ok (moved i pc (jc_states s ! i) (jc_permits s ! i) (jc_word s) q i m (jc_shutdown s) s)"
    if "pc = found \<or> pc = missed" "q \<le> jc_jobs s" "m \<le> jc_mail s ! i" for pc q m
    by (rule goto_ok [OF ok i]) (use that pcs plain awake_worker(1) [OF ok i] in \<open>auto simp: zone_pc_def\<close>)
  have "jec_goto i found (s\<lparr>jc_jobs := jc_jobs s - 1\<rparr>)
      = moved i found (jc_states s ! i) (jc_permits s ! i) (jc_word s) (jc_jobs s - 1) i (jc_mail s ! i) (jc_shutdown s) s"
    "jec_goto i found (s\<lparr>jc_mail := (jc_mail s)[i := jc_mail s ! i - 1]\<rparr>)
      = moved i found (jc_states s ! i) (jc_permits s ! i) (jc_word s) (jc_jobs s) i (jc_mail s ! i - 1) (jc_shutdown s) s"
    by (simp_all add: jec_goto_def moved_def)
  then have "jec_ok (jec_goto i found (s\<lparr>jc_jobs := jc_jobs s - 1\<rparr>))"
    "jec_ok (jec_goto i found (s\<lparr>jc_mail := (jc_mail s)[i := jc_mail s ! i - 1]\<rparr>))"
    using kept [of found "jc_jobs s - 1" "jc_mail s ! i"] kept [of found "jc_jobs s" "jc_mail s ! i - 1"] by simp_all
  moreover have "jec_ok (jec_goto i found s)" "jec_ok (jec_goto i missed s)"
    using kept [of found "jc_jobs s" "jc_mail s ! i"] kept [of missed "jc_jobs s" "jc_mail s ! i"]
    by (simp_all only: goto_moved) simp_all
  ultimately show ?thesis
    unfolding jec_search_def by (cases f) (simp_all only: find.case split: if_split, simp_all)
qed

text \<open>Moves that also write the word.\<close>

lemma word_move_ok:
  assumes ok: "jec_ok s" and i: "i < jec_workers s" and pcs: "worker_pc (jc_threads s ! i)" "claimless pc" "\<And>j. \<not> delivers j pc"
    and plain: "\<not> zone_pc (jc_threads s ! i)" "\<not> zone_pc pc"
    and fields: "count_fields
        (number (sleeper s) [0..<jec_workers s] + of_bool (owes_pc pc) - of_bool (owes_pc (jc_threads s ! i)))
        (number idle_pc (jc_threads s) + of_bool (idle_pc pc) - of_bool (idle_pc (jc_threads s ! i))) w"
  shows "jec_ok (jec_goto i pc (set_word w s))"
proof -
  have "jec_goto i pc (set_word w s)
      = moved i pc (jc_states s ! i) (jc_permits s ! i) w (jc_jobs s) i (jc_mail s ! i) (jc_shutdown s) s"
    by (simp add: jec_goto_def moved_def set_word_def)
  also have "jec_ok \<dots>"
  proof (rule moved_ok [OF ok])
    show "i < length (jc_threads s)" using i jec_okD(1) [OF ok] by (simp add: shape_ok_def)
    show "uninvolved (jec_workers s) (jc_threads s ! i)" "claimless (jc_threads s ! i)"
      using worker_pc_uninvolved pcs(1) by blast+
    note aw = awake_worker [OF ok i plain(1)]
    then have "sleeper s i = owes_pc (jc_threads s ! i)" using plain(1) by (simp add: sleeper_def)
    then show "count_fields
        (number (sleeper s) [0..<jec_workers s]
           + of_bool (i < jec_workers s \<and> (owes_pc pc \<or> zone_pc pc \<and> jc_states s ! i = ASLEEP \<or> 0 < number (subs i) (jc_threads s)))
           - of_bool (i < jec_workers s \<and> sleeper s i))
        (number idle_pc (jc_threads s) + of_bool (idle_pc pc) - of_bool (idle_pc (jc_threads s ! i))) w"
      using fields plain(2) aw i by simp
  qed (use i pcs plain awake_worker(1) [OF ok i plain(1)] in \<open>auto simp: zone_pc_def\<close>)
  finally show ?thesis .
qed

lemma counts_now: "jec_ok s \<Longrightarrow> count_fields (number (sleeper s) [0..<jec_workers s]) (number idle_pc (jc_threads s)) (jc_word s)"
  using jec_okD(3) by (simp add: counts_ok_def)

lemma walk_from_pc: "claimless (walk_from k)" "\<not> delivers j (walk_from k)" "\<not> zone_pc (walk_from k)" "\<not> owes_pc (walk_from k)"
    "\<not> idle_pc (walk_from k)"
  by (simp_all add: walk_from_def claimless_def zone_pc_def owes_pc_def)

lemmas pc_simps = worker_pc_def zone_pc_def owes_pc_def

lemma worker_step_ok:
  assumes ok: "jec_ok s" and i: "i < jec_workers s"
  shows "jec_ok (worker_step ch i s)"
proof -
  let ?n = "number (sleeper s) [0..<jec_workers s]" and ?m = "number idle_pc (jc_threads s)"
  note C = counts_now [OF ok] and goto = goto_same_ok [OF ok i] and word = word_move_ok [OF ok i]
  have len: "i < length (jc_threads s)" using i jec_okD(1) [OF ok] by (simp add: shape_ok_def)
  have small: "jec_workers s < 2 ^ 16" using jec_okD(1) [OF ok] by (simp add: shape_ok_def)
  note idle = idle_bound [OF jec_okD(1) [OF ok]]
  show ?thesis
  proof (cases "jc_threads s ! i")
    case J_look
    then show ?thesis using goto [of J_held] goto [of J_search] by (simp add: Let_def worker_step_def pc_simps)
  next
    case J_held
    then show ?thesis using goto [of J_look] ok by (simp add: Let_def worker_step_def pc_simps)
  next
    case J_search
    then show ?thesis using search_ok [OF ok i, of J_active J_start] by (simp add: Let_def worker_step_def pc_simps)
  next
    case J_start
    then have "count_fields ?n (Suc ?m) (add_inactive_thread (jc_word s))"
      using idle(2) [OF i] J_start small by (intro fields_add_inactive [OF C]) simp
    then show ?thesis using word [of "J_idle 0 jec_DUMMY" "add_inactive_thread (jc_word s)"] J_start
      by (simp add: Let_def worker_step_def pc_simps claimless_def)
  next
    case (J_idle r jc)
    then show ?thesis using goto [of "J_held_idle r jc"] goto [of "J_seek r jc"]
      by (simp add: Let_def worker_step_def pc_simps)
  next
    case (J_held_idle r jc)
    then show ?thesis using goto [of "J_idle r jc"] ok by (simp add: Let_def worker_step_def pc_simps)
  next
    case (J_seek r jc)
    then show ?thesis using search_ok [OF ok i, of J_found "J_round r jc"] by (simp add: Let_def worker_step_def pc_simps)
  next
    case (J_round r jc)
    then show ?thesis
      using goto [of "J_idle (r + 1) jc"] goto [of J_announce] goto [of "J_shut_first jc"]
      by (simp add: Let_def worker_step_def no_work_found_def pc_simps)
  next
    case J_announce
    then show ?thesis
      using goto [of "J_announce_cas (jc_word s)"] goto [of "J_idle (ROUNDS_UNTIL_SLEEPY + 1) (select_jec (jc_word s))"]
      by (simp add: Let_def worker_step_def pc_simps)
  next
    case (J_announce_cas old)
    have "count_fields ?n ?m (jec_bumped (jc_word s))" by (rule fields_bump [OF C])
    then show ?thesis
      using J_announce_cas goto [of J_announce]
        word [of "J_idle (ROUNDS_UNTIL_SLEEPY + 1) (select_jec (jec_bumped (jc_word s)))" "jec_bumped (jc_word s)"]
      by (auto simp: Let_def worker_step_def pc_simps claimless_def try_exchange_def)
  next
    case (J_shut_first jc)
    then show ?thesis using goto [of "J_idle ROUNDS_UNTIL_SLEEPY jec_DUMMY"] goto [of "J_count jc"]
      by (simp add: Let_def worker_step_def pc_simps)
  next
    case (J_count jc)
    then show ?thesis using goto [of "J_idle ROUNDS_UNTIL_SLEEPY jec_DUMMY"] goto [of "J_add jc (jc_word s)"]
      by (simp add: Let_def worker_step_def pc_simps)
  next
    case (J_add jc old)
    have "\<not> sleeper s i" using J_add awake_worker [OF ok i] by (simp add: sleeper_def pc_simps)
    then have "?n < jec_workers s" by (rule sleeper_bound [OF i])
    then have "count_fields (Suc ?n) ?m (jc_word s + ONE_SLEEPING)"
      using small by (intro fields_add_sleeping [OF C]) simp
    then show ?thesis
      using J_add goto [of "J_count jc"] word [of J_first_look "jc_word s + ONE_SLEEPING"]
      by (auto simp: Let_def worker_step_def pc_simps claimless_def try_add_sleeping_thread_def try_exchange_def)
  next
    case J_first_look
    then show ?thesis using goto [of J_give_back] goto [of J_publish] by (simp add: Let_def worker_step_def pc_simps)
  next
    case J_publish
    have "worker_step ch i s
        = moved i J_shut ASLEEP (jc_permits s ! i) (jc_word s) (jc_jobs s) i (jc_mail s ! i) (jc_shutdown s) s"
      using J_publish by (simp add: Let_def worker_step_def jec_goto_def set_state_def moved_def)
    also have "jec_ok \<dots>"
    proof (rule moved_ok [OF ok len])
      show "uninvolved (jec_workers s) (jc_threads s ! i)" "claimless (jc_threads s ! i)" "claimless J_shut"
        using worker_pc_uninvolved J_publish by (simp_all add: worker_pc_def)
      have "sleeper s i" using J_publish by (simp add: sleeper_def pc_simps)
      then show "count_fields
        (?n + of_bool (i < jec_workers s \<and> (owes_pc J_shut \<or> zone_pc J_shut \<and> ASLEEP = ASLEEP \<or> 0 < number (subs i) (jc_threads s)))
           - of_bool (i < jec_workers s \<and> sleeper s i))
        (?m + of_bool (idle_pc J_shut) - of_bool (idle_pc (jc_threads s ! i))) (jc_word s)"
        using C J_publish i by (simp add: pc_simps)
    qed (use i J_publish awake_worker(1) [OF ok i] in \<open>simp_all add: pc_simps\<close>)
    finally show ?thesis .
  next
    case J_shut
    then show ?thesis using goto [of J_rescue] goto [of J_look_shared] by (simp add: Let_def worker_step_def pc_simps)
  next
    case J_look_shared
    then show ?thesis using goto [of J_rescue] goto [of J_look_flag]
      by (simp add: Let_def worker_step_def pc_simps deaf_shutdown_def)
  next
    case J_look_flag
    then show ?thesis using goto [of J_look_mail] goto [of J_park]
      by (simp add: Let_def worker_step_def pc_simps deaf_shutdown_def deaf_jobs_def)
  next
    case J_look_mail
    then show ?thesis using goto [of J_rescue] goto [of J_park]
      by (simp add: Let_def worker_step_def pc_simps deaf_shutdown_def deaf_jobs_def)
  next
    case J_rescue
    have "jec_goto i J_give_back (set_state i AWAKE s)
        = moved i J_give_back AWAKE (jc_permits s ! i) (jc_word s) (jc_jobs s) i (jc_mail s ! i) (jc_shutdown s) s"
      by (simp add: jec_goto_def set_state_def moved_def)
    also have "jec_ok \<dots>" if "jc_states s ! i = ASLEEP"
    proof (rule moved_ok [OF ok len])
      show "uninvolved (jec_workers s) (jc_threads s ! i)" "claimless (jc_threads s ! i)" "claimless J_give_back"
        using worker_pc_uninvolved J_rescue by (simp_all add: worker_pc_def)
      have "sleeper s i" using J_rescue that by (simp add: sleeper_def pc_simps)
      then show "count_fields
        (?n + of_bool (i < jec_workers s \<and> (owes_pc J_give_back \<or> zone_pc J_give_back \<and> AWAKE = ASLEEP \<or> 0 < number (subs i) (jc_threads s)))
           - of_bool (i < jec_workers s \<and> sleeper s i))
        (?m + of_bool (idle_pc J_give_back) - of_bool (idle_pc (jc_threads s ! i))) (jc_word s)"
        using C J_rescue i by (simp add: pc_simps)
    qed (use i J_rescue that in \<open>simp_all add: pc_simps\<close>)
    finally have returns: "jc_states s ! i = ASLEEP \<Longrightarrow> jec_ok (jec_goto i J_give_back (set_state i AWAKE s))" .
    have "jec_ok (jec_goto i J_park s)" if "jc_states s ! i \<noteq> ASLEEP"
      by (rule goto) (use that J_rescue in \<open>simp_all add: pc_simps\<close>)
    then show ?thesis using J_rescue returns by (simp add: Let_def worker_step_def)
  next
    case J_give_back
    have "sleeper s i" using J_give_back by (simp add: sleeper_def pc_simps)
    then have "0 < number (sleeper s) [0..<jec_workers s]" using i by (auto simp: number_pos)
    then have "count_fields (?n - 1) ?m (sub_sleeping_thread (jc_word s))"
      using C by (intro fields_sub_sleeping) simp
    then show ?thesis using J_give_back word [of "J_idle 0 jec_DUMMY" "sub_sleeping_thread (jc_word s)"]
      by (simp add: Let_def worker_step_def pc_simps claimless_def)
  next
    case J_park
    have wake: "jec_ok (jec_goto i (J_idle 0 jec_DUMMY) s)" if "jc_states s ! i = AWAKE"
      unfolding goto_moved
      by (rule goto_ok [OF ok i]) (use J_park that in \<open>simp_all add: pc_simps\<close>)
    show ?thesis using J_park wake goto [of J_parked]
      by (simp add: Let_def worker_step_def pc_simps deaf_shutdown_def deaf_jobs_def deaf_mail_def)
  next
    case J_parked
    have "jec_goto i J_park (s\<lparr>jc_permits := (jc_permits s)[i := False]\<rparr>)
        = moved i J_park (jc_states s ! i) False (jc_word s) (jc_jobs s) i (jc_mail s ! i) (jc_shutdown s) s"
      by (simp add: jec_goto_def moved_def)
    also have "jec_ok \<dots>"
      by (rule goto_ok [OF ok i])
        (use J_parked awake_worker(1) [OF ok i] in \<open>simp_all add: pc_simps deaf_shutdown_def deaf_jobs_def deaf_mail_def\<close>)
    finally show ?thesis using J_parked ok by (simp add: Let_def worker_step_def)
  next
    case J_found
    have "0 < ?m" using J_found len by (intro number_at [of i]) simp_all
    then have "count_fields ?n (?m - 1) (snd (sub_inactive_thread (jc_word s)))"
      using C by (intro fields_sub_inactive) simp
    then show ?thesis
      using J_found word [of "walk_from (unat (fst (sub_inactive_thread (jc_word s))))" "snd (sub_inactive_thread (jc_word s))"] walk_from_pc
      by (simp add: Let_def worker_step_def pc_simps case_prod_beta)
  qed (use ok in \<open>simp_all add: Let_def worker_step_def\<close>)
qed


lemma worker_step_still:
  assumes "shape_ok s" "jec_workers s \<le> i" "i < length (jc_threads s)"
  shows "worker_step ch i s = s"
proof -
  have "outside_pc (jc_threads s ! i)" using assms by (simp add: shape_ok_def)
  then show ?thesis by (cases "jc_threads s ! i") (simp_all add: worker_step_def outside_pc_def)
qed

section \<open>The wakers keep it\<close>

lemma number_cong: "(\<And>x. x \<in> set xs \<Longrightarrow> f x = g x) \<Longrightarrow> number f xs = number g xs"
  unfolding number_def by (intro arg_cong [where f = sum_list] map_cong) auto

lemma number_lost: "i < length xs \<Longrightarrow> f (xs ! i) \<longrightarrow> f x \<Longrightarrow> 0 < number f xs \<Longrightarrow> 0 < number f (xs[i := x])"
  by (auto simp: number_upd)

lemma number_all: "(\<And>x. x \<in> set xs \<Longrightarrow> f x) \<Longrightarrow> number f xs = length xs"
  by (induction xs) (simp_all add: number_def)

text \<open>
  A thread outside the search moves to another such place and may change the state and the
  permit of the workers on the way.
\<close>

lemma waker_claims:
  assumes inv: "claims_ok s" and i: "i < length (jc_threads s)" "\<not> zone_pc pc" "\<not> zone_pc (jc_threads s ! i)"
    and s': "jc_threads s' = (jc_threads s)[i := pc]" "jec_workers s' = jec_workers s"
    and num: "\<And>k. k < jec_workers s \<Longrightarrow> number (claims k) ((jc_threads s)[i := pc]) = of_bool (jc_states s' ! k = WAKING)"
    and awake: "\<And>k. k < jec_workers s \<Longrightarrow> jc_states s ! k = AWAKE \<Longrightarrow> jc_states s' ! k = AWAKE"
    and permit: "\<And>k. k < jec_workers s \<Longrightarrow> jc_states s' ! k = AWAKE
      \<Longrightarrow> jc_permits s' ! k \<or> unparks k pc \<or> jc_states s ! k = AWAKE \<and> \<not> jc_permits s ! k \<and> \<not> unparks k (jc_threads s ! i)"
  shows "claims_ok s'"
  unfolding claims_ok_def
proof (intro allI impI)
  fix k
  assume "k < jec_workers s'"
  then have k: "k < jec_workers s" using s'(2) by simp
  note old = inv [unfolded claims_ok_def, rule_format, OF k]
  have "zone_pc (jc_threads s' ! k)" if "jc_states s' ! k \<noteq> AWAKE"
  proof -
    have "zone_pc (jc_threads s ! k)" using that awake [OF k] old by auto
    moreover then have "k \<noteq> i" using i(3) by auto
    ultimately show ?thesis using s'(1) by simp
  qed
  moreover have "jc_permits s' ! k \<or> 0 < number (unparks k) (jc_threads s')"
    if at: "jc_threads s' ! k = J_parked" "jc_states s' ! k = AWAKE"
  proof -
    have "k \<noteq> i" using at(1) i s'(1) by (auto simp: zone_pc_def)
    then have "jc_threads s ! k = J_parked" using at(1) s'(1) by simp
    then have "jc_states s ! k = AWAKE \<Longrightarrow> \<not> jc_permits s ! k \<Longrightarrow> 0 < number (unparks k) (jc_threads s)"
      using old by blast
    moreover have "0 < number (unparks k) (jc_threads s')" if "unparks k pc"
      using number_at [of i "(jc_threads s)[i := pc]" "unparks k"] that i(1) s'(1) by simp
    ultimately show ?thesis
      using permit [OF k at(2)] number_lost [OF i(1), of "unparks k" pc] s'(1) by auto
  qed
  ultimately show "(jc_states s' ! k \<noteq> AWAKE \<longrightarrow> zone_pc (jc_threads s' ! k))
    \<and> number (claims k) (jc_threads s') = of_bool (jc_states s' ! k = WAKING)
    \<and> (jc_threads s' ! k = J_parked \<and> jc_states s' ! k = AWAKE
         \<longrightarrow> jc_permits s' ! k \<or> 0 < number (unparks k) (jc_threads s'))"
    using num [OF k] s'(1) by simp
qed

lemma deaf_later:
  assumes "i < length (jc_threads s)" "\<not> idle_pc pc" "jc_threads s' = (jc_threads s)[i := pc]"
    "jc_states s' ! k = ASLEEP \<Longrightarrow> jc_states s ! k = ASLEEP"
  shows "deaf_jobs s' k \<Longrightarrow> deaf_jobs s k" "deaf_mail s' k \<Longrightarrow> deaf_mail s k"
    "deaf_shutdown s' k \<Longrightarrow> deaf_shutdown s k"
  using assms by (auto simp: deaf_jobs_def deaf_mail_def deaf_shutdown_def nth_list_update split: if_splits)

lemma waker_jobs:
  assumes inv: "jobs_ok s" and i: "i < length (jc_threads s)" "\<not> idle_pc pc"
    and s': "jc_threads s' = (jc_threads s)[i := pc]" "jec_workers s' = jec_workers s" "jc_jobs s' = jc_jobs s"
    and quiet: "\<And>k. k < jec_workers s \<Longrightarrow> jc_states s' ! k = ASLEEP \<Longrightarrow> jc_states s ! k = ASLEEP"
    and goes_on: "promises (jec_workers s) (jc_threads s ! i) \<Longrightarrow> \<forall>k < jec_workers s. deaf_jobs s k \<and> jc_states s' ! k = ASLEEP
      \<Longrightarrow> 0 < jec_workers s \<Longrightarrow> promises (jec_workers s) pc"
  shows "jobs_ok s'"
  unfolding jobs_ok_def
proof (intro impI, elim conjE)
  assume a: "0 < jc_jobs s'" "0 < jec_workers s'" "\<forall>j < jec_workers s'. deaf_jobs s' j"
  then have all: "\<forall>k < jec_workers s. deaf_jobs s k \<and> jc_states s' ! k = ASLEEP"
    using deaf_later(1) [OF i s'(1)] quiet s'(2) by (simp add: deaf_jobs_def [of s'])
  then have "0 < number (promises (jec_workers s)) (jc_threads s)"
    using inv a s' by (simp add: jobs_ok_def)
  then show "0 < number (promises (jec_workers s')) (jc_threads s')"
    using number_lost [OF i(1), of "promises (jec_workers s)" pc] goes_on all a(2) s' by simp
qed

lemma waker_mail:
  assumes inv: "mail_ok s" and i: "i < length (jc_threads s)" "\<not> idle_pc pc"
    and s': "jc_threads s' = (jc_threads s)[i := pc]" "jec_workers s' = jec_workers s" "jc_mail s' = jc_mail s"
    and quiet: "\<And>k. k < jec_workers s \<Longrightarrow> jc_states s' ! k = ASLEEP \<Longrightarrow> jc_states s ! k = ASLEEP"
    and used: "jc_mail_used s \<Longrightarrow> jc_mail_used s'"
    and goes_on: "\<And>k. k < jec_workers s \<Longrightarrow> delivers k (jc_threads s ! i) \<Longrightarrow> jc_states s' ! k = ASLEEP \<Longrightarrow> delivers k pc"
      "\<And>k. flags k (jc_threads s ! i) \<Longrightarrow> flags k pc \<or> jc_mail_used s'"
  shows "mail_ok s'"
  unfolding mail_ok_def
proof (intro allI impI)
  fix k
  assume "k < jec_workers s'" and m: "0 < jc_mail s' ! k"
  then have k: "k < jec_workers s" using s'(2) by simp
  have old: "deaf_mail s k \<longrightarrow> 0 < number (delivers k) (jc_threads s)"
    "\<not> jc_mail_used s \<longrightarrow> 0 < number (flags k) (jc_threads s)"
    using inv k m s'(3) by (simp_all add: mail_ok_def)
  have "0 < number (delivers k) (jc_threads s')" if d: "deaf_mail s' k"
  proof -
    have "deaf_mail s k" by (rule deaf_later(2) [OF i s'(1) quiet [OF k] d])
    moreover have "jc_states s' ! k = ASLEEP" using d by (simp add: deaf_mail_def)
    ultimately show ?thesis
      using old(1) number_lost [OF i(1), of "delivers k" pc] goes_on(1) [OF k] s'(1) by simp
  qed
  moreover have "0 < number (flags k) (jc_threads s')" if "\<not> jc_mail_used s'"
    using that old(2) used number_lost [OF i(1), of "flags k" pc] goes_on(2) [of k] s'(1) by auto
  ultimately show "(deaf_mail s' k \<longrightarrow> 0 < number (delivers k) (jc_threads s'))
      \<and> (\<not> jc_mail_used s' \<longrightarrow> 0 < number (flags k) (jc_threads s'))" by simp
qed

lemma waker_shut:
  assumes inv: "shut_ok s" and i: "i < length (jc_threads s)" "\<not> idle_pc pc"
    and s': "jc_threads s' = (jc_threads s)[i := pc]" "jec_workers s' = jec_workers s" "jc_shutdown s' = jc_shutdown s"
    and quiet: "\<And>k. k < jec_workers s \<Longrightarrow> jc_states s' ! k = ASLEEP \<Longrightarrow> jc_states s ! k = ASLEEP"
    and goes_on: "\<And>k. k < jec_workers s \<Longrightarrow> sweeps k (jc_threads s ! i) \<Longrightarrow> jc_states s' ! k = ASLEEP \<Longrightarrow> sweeps k pc"
  shows "shut_ok s'"
  unfolding shut_ok_def
proof (intro allI impI)
  fix k
  assume a: "jc_shutdown s'" "k < jec_workers s'" "deaf_shutdown s' k"
  then have k: "k < jec_workers s" using s'(2) by simp
  have "deaf_shutdown s k" by (rule deaf_later(3) [OF i s'(1) quiet [OF k] a(3)])
  then have "0 < number (sweeps k) (jc_threads s)" using inv a(1) k s'(3) by (simp add: shut_ok_def)
  moreover have "jc_states s' ! k = ASLEEP" using a(3) by (simp add: deaf_shutdown_def)
  ultimately show "0 < number (sweeps k) (jc_threads s')"
    using number_lost [OF i(1), of "sweeps k" pc] goes_on [OF k] s'(1) by simp
qed

text \<open>All of it, for a thread that is neither at a worker's step nor goes to one.\<close>

definition waker_pc :: "jec_pc \<Rightarrow> bool" where
  "waker_pc pc \<longleftrightarrow> outside_pc pc"

lemma waker_pc_plain: "waker_pc pc \<Longrightarrow> \<not> idle_pc pc \<and> \<not> zone_pc pc \<and> \<not> owes_pc pc"
  by (cases pc) (simp_all add: waker_pc_def zone_pc_def owes_pc_def)

lemma waker_ok:
  assumes ok: "jec_ok s" and i: "i < length (jc_threads s)"
    and pcs: "waker_pc (jc_threads s ! i)" "waker_pc pc"
    and s': "jc_threads s' = (jc_threads s)[i := pc]" "jec_workers s' = jec_workers s"
      "length (jc_permits s') = length (jc_permits s)" "jc_jobs s' = jc_jobs s" "jc_mail s' = jc_mail s"
      "jc_shutdown s' = jc_shutdown s"
    and bound: "\<And>k. claims k pc \<or> unparks k pc \<or> delivers k pc \<Longrightarrow> k < jec_workers s"
    and num: "\<And>k. k < jec_workers s \<Longrightarrow> number (claims k) ((jc_threads s)[i := pc]) = of_bool (jc_states s' ! k = WAKING)"
    and awake: "\<And>k. k < jec_workers s \<Longrightarrow> jc_states s ! k = AWAKE \<Longrightarrow> jc_states s' ! k = AWAKE"
    and permit: "\<And>k. k < jec_workers s \<Longrightarrow> jc_states s' ! k = AWAKE
      \<Longrightarrow> jc_permits s' ! k \<or> unparks k pc \<or> jc_states s ! k = AWAKE \<and> \<not> jc_permits s ! k \<and> \<not> unparks k (jc_threads s ! i)"
    and counts: "count_fields (number (sleeper s') [0..<jec_workers s]) (number idle_pc (jc_threads s)) (jc_word s')"
    and quiet: "\<And>k. k < jec_workers s \<Longrightarrow> jc_states s' ! k = ASLEEP \<Longrightarrow> jc_states s ! k = ASLEEP"
    and job: "promises (jec_workers s) (jc_threads s ! i) \<Longrightarrow> \<forall>k < jec_workers s. deaf_jobs s k \<and> jc_states s' ! k = ASLEEP
      \<Longrightarrow> 0 < jec_workers s \<Longrightarrow> promises (jec_workers s) pc"
    and used: "jc_mail_used s \<Longrightarrow> jc_mail_used s'"
    and letter: "\<And>k. k < jec_workers s \<Longrightarrow> delivers k (jc_threads s ! i) \<Longrightarrow> jc_states s' ! k = ASLEEP \<Longrightarrow> delivers k pc"
      "\<And>k. flags k (jc_threads s ! i) \<Longrightarrow> flags k pc \<or> jc_mail_used s'"
    and sweep: "\<And>k. k < jec_workers s \<Longrightarrow> sweeps k (jc_threads s ! i) \<Longrightarrow> jc_states s' ! k = ASLEEP \<Longrightarrow> sweeps k pc"
  shows "jec_ok s'"
proof -
  note inv = jec_okD [OF ok]
  note plain = waker_pc_plain [OF pcs(1)] waker_pc_plain [OF pcs(2)]
  have none: "number f ((jc_threads s)[i := pc]) = 0" if "number f (jc_threads s) = 0" "\<not> f pc" for f
    using that i by (simp add: number_upd)
  have beyond: "number (claims j) ((jc_threads s)[i := pc]) = 0 \<and> number (unparks j) ((jc_threads s)[i := pc]) = 0
      \<and> number (delivers j) ((jc_threads s)[i := pc]) = 0" if "jec_workers s \<le> j" for j
    using none [of "claims j"] none [of "unparks j"] none [of "delivers j"] bound [of j] inv(1) that
    by (fastforce simp: shape_ok_def)
  have others: "outside_pc ((jc_threads s)[i := pc] ! k)" if "jec_workers s \<le> k" "k < length (jc_threads s)" for k
    using that inv(1) pcs(2) by (cases "k = i") (auto simp: shape_ok_def waker_pc_def)
  have "shape_ok s'"
    using inv(1) s' beyond others by (simp add: shape_ok_def)
  moreover have "claims_ok s'"
    by (rule waker_claims [OF inv(2) i _ _ s'(1,2) num awake permit]) (use plain in auto)
  moreover have "counts_ok s'"
    using counts plain i s'(1,2) by (simp add: counts_ok_def number_upd)
  moreover have "jobs_ok s'"
    by (rule waker_jobs [OF inv(4) i _ s'(1,2,4) quiet job]) (use plain in auto)
  moreover have "mail_ok s'"
    by (rule waker_mail [OF inv(5) i _ s'(1,2,5) quiet used letter]) (use plain in auto)
  moreover have "shut_ok s'"
    by (rule waker_shut [OF inv(6) i _ s'(1,2,6) quiet sweep]) (use plain in auto)
  ultimately show ?thesis by (simp add: jec_ok_def)
qed

lemma sleeper_claimless:
  assumes "i < length (jc_threads s)" "waker_pc (jc_threads s ! i)" "waker_pc pc"
    "jc_threads s' = (jc_threads s)[i := pc]" "jc_states s' ! k = ASLEEP \<longleftrightarrow> jc_states s ! k = ASLEEP"
    "subs k pc = subs k (jc_threads s ! i)"
  shows "sleeper s' k = sleeper s k"
proof -
  have "number (subs k) ((jc_threads s)[i := pc]) = number (subs k) (jc_threads s)"
  proof (cases "subs k pc")
    case True
    then have "0 < number (subs k) (jc_threads s)" using assms(1,6) by (intro number_at) simp_all
    with True show ?thesis using assms(1,6) by (simp add: number_upd)
  qed (use assms in \<open>simp add: number_upd\<close>)
  then show ?thesis
    using assms waker_pc_plain [OF assms(2)] waker_pc_plain [OF assms(3)]
    by (cases "k = i") (simp_all add: sleeper_def)
qed

lemma waker_still_ok:
  assumes ok: "jec_ok s" and i: "i < length (jc_threads s)"
    and pcs: "waker_pc (jc_threads s ! i)" "waker_pc pc" "claimless (jc_threads s ! i)" "claimless pc"
    and s': "jc_threads s' = (jc_threads s)[i := pc]" "jc_states s' = jc_states s"
      "jc_permits s' = jc_permits s" "jc_jobs s' = jc_jobs s" "jc_mail s' = jc_mail s"
      "jc_shutdown s' = jc_shutdown s"
    and bound: "\<And>k. delivers k pc \<Longrightarrow> k < jec_workers s"
    and counts: "count_fields (number (sleeper s) [0..<jec_workers s]) (number idle_pc (jc_threads s)) (jc_word s')"
    and job: "promises (jec_workers s) (jc_threads s ! i) \<Longrightarrow> \<forall>k < jec_workers s. deaf_jobs s k
      \<Longrightarrow> 0 < jec_workers s \<Longrightarrow> promises (jec_workers s) pc"
    and used: "jc_mail_used s \<Longrightarrow> jc_mail_used s'"
    and letter: "\<And>k. k < jec_workers s \<Longrightarrow> delivers k (jc_threads s ! i) \<Longrightarrow> jc_states s ! k = ASLEEP \<Longrightarrow> delivers k pc"
      "\<And>k. flags k (jc_threads s ! i) \<Longrightarrow> flags k pc \<or> jc_mail_used s'"
    and sweep: "\<And>k. k < jec_workers s \<Longrightarrow> sweeps k (jc_threads s ! i) \<Longrightarrow> jc_states s ! k = ASLEEP \<Longrightarrow> sweeps k pc"
  shows "jec_ok s'"
proof (rule waker_ok [OF ok i pcs(1,2) s'(1) _ _ s'(4,5,6)])
  have free: "\<not> claims k pc" "\<not> subs k pc" "\<not> unparks k pc" "\<not> claims k (jc_threads s ! i)"
      "\<not> subs k (jc_threads s ! i)" "\<not> unparks k (jc_threads s ! i)" for k
    using pcs(3,4) by (auto simp: claimless_def)
  show "k < jec_workers s" if "claims k pc \<or> unparks k pc \<or> delivers k pc" for k
    using that bound free by blast
  show "number (claims k) ((jc_threads s)[i := pc]) = of_bool (jc_states s' ! k = WAKING)" if "k < jec_workers s" for k
    using jec_okD(2) [OF ok] that free i s'(2) by (simp add: claims_ok_def number_kept)
  show "jc_permits s' ! k \<or> unparks k pc \<or> jc_states s ! k = AWAKE \<and> \<not> jc_permits s ! k \<and> \<not> unparks k (jc_threads s ! i)"
    if "k < jec_workers s" "jc_states s' ! k = AWAKE" for k
    using that free s'(2,3) by auto
  have "number (sleeper s') [0..<jec_workers s] = number (sleeper s) [0..<jec_workers s]"
    by (intro number_cong sleeper_claimless [OF i pcs(1,2) s'(1)]) (use free s'(2) in auto)
  then show "count_fields (number (sleeper s') [0..<jec_workers s]) (number idle_pc (jc_threads s)) (jc_word s')"
    using counts by simp
qed (use s' job used letter sweep in auto)

text \<open>A notifier that meets nobody but deaf sleepers reads counts that make it wake one.\<close>

lemma all_deaf_counts:
  assumes "jec_ok s" "\<forall>k < jec_workers s. deaf_jobs s k"
  shows "count_fields (jec_workers s) (jec_workers s) (jc_word s)"
proof -
  have "number (sleeper s) [0..<jec_workers s] = jec_workers s"
    using assms(2) number_all [of "[0..<jec_workers s]" "sleeper s"]
    by (auto simp: sleeper_def deaf_jobs_def zone_pc_def)
  moreover have "number idle_pc (take (jec_workers s) (jc_threads s)) = jec_workers s"
  proof -
    have "idle_pc x" if "x \<in> set (take (jec_workers s) (jc_threads s))" for x
    proof -
      from that obtain k where "k < jec_workers s" "x = jc_threads s ! k" by (auto simp: in_set_conv_nth)
      then show ?thesis using assms(2) by (auto simp: deaf_jobs_def)
    qed
    then show ?thesis using number_all [of "take (jec_workers s) (jc_threads s)" idle_pc] jec_okD(1) [OF assms(1)]
      by (simp add: shape_ok_def)
  qed
  then have "jec_workers s \<le> number idle_pc (jc_threads s)"
    using number_append [of idle_pc "take (jec_workers s) (jc_threads s)" "drop (jec_workers s) (jc_threads s)"] by simp
  ultimately show ?thesis
    using counts_now [OF assms(1)] idle_bound(1) [OF jec_okD(1) [OF assms(1)]] by simp
qed

lemma walk_from_plain: "waker_pc (walk_from k)" "\<not> flags j (walk_from k)" "\<not> sweeps j (walk_from k)"
    "promises n (walk_from k) \<longleftrightarrow> 0 < k \<and> 0 < n"
  by (simp_all add: walk_from_def waker_pc_def)

text \<open>The notifier's steps: the counter of the word may move, its fields stay.\<close>

lemma notifier_ok:
  assumes ok: "jec_ok s" and i: "i < length (jc_threads s)"
    and at: "jc_threads s ! i = N_bump m e \<or> jc_threads s ! i = N_bump_cas m e old"
    and pc: "pc = N_bump m e \<or> pc = N_bump_cas m e old' \<or> pc = walk_from (jobs_to_wake m e w')"
    and w': "w' = jc_word s \<or> w' = jec_bumped (jc_word s)"
  shows "jec_ok (jec_goto i pc (set_word w' s))"
proof (rule waker_still_ok [OF ok i, of pc])
  show "waker_pc (jc_threads s ! i)" "claimless (jc_threads s ! i)"
    using at by (auto simp: waker_pc_def claimless_def)
  show "waker_pc pc" "claimless pc"
    using pc walk_from_plain walk_from_pc by (auto simp: waker_pc_def claimless_def)
  show "count_fields (number (sleeper s) [0..<jec_workers s]) (number idle_pc (jc_threads s)) (jc_word (jec_goto i pc (set_word w' s)))"
    using w' counts_now [OF ok] fields_bump [OF counts_now [OF ok]] by (auto simp: jec_goto_def set_word_def)
  show "promises (jec_workers s) pc"
    if "promises (jec_workers s) (jc_threads s ! i)" "\<forall>k < jec_workers s. deaf_jobs s k" "0 < jec_workers s"
  proof -
    have "0 < m" using that(1) at by auto
    moreover have "count_fields (jec_workers s) (jec_workers s) w'"
      using w' all_deaf_counts [OF ok that(2)] fields_bump by auto
    ultimately have "0 < jobs_to_wake m e w'" using that(3) by (intro jobs_to_wake_all_asleep)
    then show ?thesis using pc \<open>0 < m\<close> that(3) walk_from_plain(4) by auto
  qed
  show "k < jec_workers s" if "delivers k pc" for k
    using that pc walk_from_pc(2) by auto
qed (use at in \<open>auto simp: jec_goto_def set_word_def\<close>)

lemma target_worker:
  assumes "shape_ok s" "i < length (jc_threads s)"
    "claims j (jc_threads s ! i) \<or> unparks j (jc_threads s ! i) \<or> delivers j (jc_threads s ! i)"
  shows "j < jec_workers s"
proof (rule ccontr)
  assume "\<not> j < jec_workers s"
  then have "number (claims j) (jc_threads s) = 0 \<and> number (unparks j) (jc_threads s) = 0
      \<and> number (delivers j) (jc_threads s) = 0"
    using assms(1) by (simp add: shape_ok_def)
  then show False
    using assms(2,3) number_at [OF assms(2), of "claims j"] number_at [OF assms(2), of "unparks j"]
      number_at [OF assms(2), of "delivers j"] by auto
qed

lemma claimed_state:
  assumes "jec_ok s" "i < length (jc_threads s)" "claims j (jc_threads s ! i)"
  shows "j < jec_workers s" "jc_states s ! j = WAKING" "number (claims j) (jc_threads s) = 1"
proof -
  show j: "j < jec_workers s" using target_worker [OF jec_okD(1) [OF assms(1)] assms(2)] assms(3) by blast
  have "0 < number (claims j) (jc_threads s)" using assms(2,3) by (rule number_at)
  moreover have "number (claims j) (jc_threads s) = of_bool (jc_states s ! j = WAKING)"
    using jec_okD(2) [OF assms(1)] j by (simp add: claims_ok_def)
  ultimately show "jc_states s ! j = WAKING" "number (claims j) (jc_threads s) = 1"
    by (auto split: if_splits)
qed

text \<open>The four steps of one wake: the claim, the decrement, the store, the permit.\<close>

lemma claim_numbers:
  assumes "jec_ok s" "i < length (jc_threads s)" "k < jec_workers s"
    "claims k (jc_threads s ! i) = claims k pc"
  shows "number (claims k) ((jc_threads s)[i := pc]) = of_bool (jc_states s ! k = WAKING)"
proof -
  have "number (claims k) ((jc_threads s)[i := pc]) = number (claims k) (jc_threads s)"
  proof (cases "claims k pc")
    case True
    then have "0 < number (claims k) (jc_threads s)" using assms(2,4) by (intro number_at) simp_all
    then show ?thesis using True assms(2,4) by (simp add: number_upd)
  qed (use assms(2,4) in \<open>simp add: number_upd\<close>)
  then show ?thesis using jec_okD(2) [OF assms(1)] assms(3) by (simp add: claims_ok_def)
qed

lemma claim_ok:
  assumes ok: "jec_ok s" and i: "i < length (jc_threads s)" and at: "jc_threads s ! i = C_probe j b"
    and j: "j < jec_workers s" "jc_states s ! j = ASLEEP"
  shows "jec_ok (jec_goto i (C_sub j b) (set_state j WAKING s))" (is "jec_ok ?s'")
proof (rule waker_ok [OF ok i, of "C_sub j b"])
  show "number (claims k) ((jc_threads s)[i := C_sub j b]) = of_bool (jc_states ?s' ! k = WAKING)" if k: "k < jec_workers s" for k
    using jec_okD(2) [OF ok] k i at j
    by (cases "k = j") (auto simp: claims_ok_def jec_goto_def set_state_def number_upd)
  have "sleeper ?s' k = sleeper s k" if "k < jec_workers s" for k
  proof (cases "k = j")
    case True
    have "zone_pc (jc_threads s ! j)" using jec_okD(2) [OF ok] j by (simp add: claims_ok_def)
    then have "sleeper s j" using j(2) by (simp add: sleeper_def)
    moreover have "0 < number (subs j) (jc_threads ?s')"
      using number_at [of i "jc_threads ?s'" "subs j"] i by (simp add: jec_goto_def set_state_def)
    ultimately show ?thesis using True by (simp add: sleeper_def)
  next
    case False
    show ?thesis
      by (rule sleeper_claimless [OF i, of "C_sub j b"])
        (use False at in \<open>auto simp: waker_pc_def jec_goto_def set_state_def\<close>)
  qed
  then have "number (sleeper ?s') [0..<jec_workers s] = number (sleeper s) [0..<jec_workers s]"
    by (intro number_cong) simp
  then show "count_fields (number (sleeper ?s') [0..<jec_workers s]) (number idle_pc (jc_threads s)) (jc_word ?s')"
    using counts_now [OF ok] by (simp add: jec_goto_def set_state_def)
qed (use at j in \<open>auto simp: waker_pc_def jec_goto_def set_state_def nth_list_update split: if_splits\<close>)

lemma discount_ok:
  assumes ok: "jec_ok s" and i: "i < length (jc_threads s)" and at: "jc_threads s ! i = C_sub j b"
  shows "jec_ok (jec_goto i (C_store j b) (set_word (sub_sleeping_thread (jc_word s)) s))" (is "jec_ok ?s'")
proof (rule waker_ok [OF ok i, of "C_store j b"])
  have "claims j (jc_threads s ! i)" using at by simp
  note claim = claimed_state [OF ok i this]
  show "k < jec_workers s" if "claims k (C_store j b) \<or> unparks k (C_store j b) \<or> delivers k (C_store j b)" for k
    using that claim by simp
  show "number (claims k) ((jc_threads s)[i := C_store j b]) = of_bool (jc_states ?s' ! k = WAKING)" if "k < jec_workers s" for k
    using claim_numbers [OF ok i that, of "C_store j b"] at by (simp add: jec_goto_def set_word_def)
  have asleep: "sleeper s j" using number_at [OF i, of "subs j"] at by (simp add: sleeper_def)
  have "zone_pc (jc_threads s ! j)" "j \<noteq> i"
    using jec_okD(2) [OF ok] claim(1,2) at by (auto simp: claims_ok_def zone_pc_def)
  then have "\<not> owes_pc (jc_threads s ! j)" by (auto simp: zone_pc_def owes_pc_def)
  moreover have "number (subs j) (jc_threads s) \<le> 1" using subs_claim [of j "jc_threads s"] claim(3) by simp
  then have "number (subs j) (jc_threads ?s') = 0" using i at by (simp add: jec_goto_def set_word_def number_upd)
  ultimately have awake: "\<not> sleeper ?s' j"
    using claim(2) \<open>j \<noteq> i\<close> by (simp add: sleeper_def jec_goto_def set_word_def)
  have "sleeper ?s' k = sleeper s k" if "k \<noteq> j" for k
    by (rule sleeper_claimless [OF i, of "C_store j b"])
      (use that at in \<open>auto simp: waker_pc_def jec_goto_def set_word_def\<close>)
  then have "number (sleeper ?s') [0..<jec_workers s] = number (sleeper s) [0..<jec_workers s] - 1"
    using number_upt_change [OF claim(1), of "sleeper ?s'" "sleeper s"] asleep awake by simp
  moreover have "0 < number (sleeper s) [0..<jec_workers s]" using asleep claim(1) by (auto simp: number_pos)
  ultimately show "count_fields (number (sleeper ?s') [0..<jec_workers s]) (number idle_pc (jc_threads s)) (jc_word ?s')"
    using counts_now [OF ok] by (auto simp: jec_goto_def set_word_def intro: fields_sub_sleeping)
qed (use at in \<open>auto simp: waker_pc_def jec_goto_def set_word_def\<close>)

lemma store_ok:
  assumes ok: "jec_ok s" and i: "i < length (jc_threads s)" and at: "jc_threads s ! i = C_store j b"
  shows "jec_ok (jec_goto i (C_unpark j b) (set_state j AWAKE s))" (is "jec_ok ?s'")
proof (rule waker_ok [OF ok i, of "C_unpark j b"])
  have "claims j (jc_threads s ! i)" using at by simp
  note claim = claimed_state [OF ok i this]
  show "k < jec_workers s" if "claims k (C_unpark j b) \<or> unparks k (C_unpark j b) \<or> delivers k (C_unpark j b)" for k
    using that claim by simp
  show "number (claims k) ((jc_threads s)[i := C_unpark j b]) = of_bool (jc_states ?s' ! k = WAKING)" if k: "k < jec_workers s" for k
    using claim_numbers [OF ok i k, of "C_unpark j b"] claim at i
    by (cases "k = j") (auto simp: number_upd jec_goto_def set_state_def)
  have "number (sleeper ?s') [0..<jec_workers s] = number (sleeper s) [0..<jec_workers s]"
    by (intro number_cong sleeper_claimless [OF i, of "C_unpark j b"])
      (use at claim in \<open>auto simp: waker_pc_def jec_goto_def set_state_def nth_list_update\<close>)
  then show "count_fields (number (sleeper ?s') [0..<jec_workers s]) (number idle_pc (jc_threads s)) (jc_word ?s')"
    using counts_now [OF ok] by (simp add: jec_goto_def set_state_def)
  show "jc_states s ! k = AWAKE \<Longrightarrow> jc_states ?s' ! k = AWAKE" if "k < jec_workers s" for k
    using that by (cases "k = j") (simp_all add: jec_goto_def set_state_def)
  show "jc_states ?s' ! k = ASLEEP \<Longrightarrow> jc_states s ! k = ASLEEP" if "k < jec_workers s" for k
    using that by (cases "k = j") (simp_all add: jec_goto_def set_state_def)
  show "jc_permits ?s' ! k \<or> unparks k (C_unpark j b)
      \<or> jc_states s ! k = AWAKE \<and> \<not> jc_permits s ! k \<and> \<not> unparks k (jc_threads s ! i)"
    if "k < jec_workers s" "jc_states ?s' ! k = AWAKE" for k
    using that at by (cases "k = j") (auto simp: jec_goto_def set_state_def)
qed (use at in \<open>auto simp: waker_pc_def jec_goto_def set_state_def\<close>)

lemma permit_ok:
  assumes ok: "jec_ok s" and i: "i < length (jc_threads s)" and at: "jc_threads s ! i = C_unpark j b"
  shows "jec_ok (jec_goto i (walk_on j b) (s\<lparr>jc_permits := (jc_permits s)[j := True]\<rparr>))" (is "jec_ok ?s'")
proof (rule waker_ok [OF ok i, of "walk_on j b"])
  have len: "length (jc_permits s) = jec_workers s" using jec_okD(1) [OF ok] by (simp add: shape_ok_def)
  have plain: "waker_pc (walk_on j b)" "\<not> claims k (walk_on j b)" "\<not> subs k (walk_on j b)" "\<not> unparks k (walk_on j b)"
      "\<not> delivers k (walk_on j b)" "b = Sweep \<and> j < k \<longrightarrow> sweeps k (walk_on j b)" for k
    by (cases b; simp add: walk_on_def waker_pc_def)+
  show "waker_pc (walk_on j b)" by (rule plain)
  show "k < jec_workers s" if "claims k (walk_on j b) \<or> unparks k (walk_on j b) \<or> delivers k (walk_on j b)" for k
    using that plain by simp
  show "number (claims k) ((jc_threads s)[i := walk_on j b]) = of_bool (jc_states ?s' ! k = WAKING)" if k: "k < jec_workers s" for k
    using claim_numbers [OF ok i k, of "walk_on j b"] plain at by (simp add: jec_goto_def)
  show "jc_permits ?s' ! k \<or> unparks k (walk_on j b)
      \<or> jc_states s ! k = AWAKE \<and> \<not> jc_permits s ! k \<and> \<not> unparks k (jc_threads s ! i)"
    if "k < jec_workers s" "jc_states ?s' ! k = AWAKE" for k
    using that at len by (cases "k = j") (auto simp: jec_goto_def)
  have "number (sleeper ?s') [0..<jec_workers s] = number (sleeper s) [0..<jec_workers s]"
    by (intro number_cong sleeper_claimless [OF i, of "walk_on j b"])
      (use at plain in \<open>auto simp: waker_pc_def jec_goto_def\<close>)
  then show "count_fields (number (sleeper ?s') [0..<jec_workers s]) (number idle_pc (jc_threads s)) (jc_word ?s')"
    using counts_now [OF ok] by (simp add: jec_goto_def)
  show "sweeps k (walk_on j b)" if "sweeps k (jc_threads s ! i)" for k
    using that at plain(6) [of k] by simp
qed (use at in \<open>auto simp: waker_pc_def jec_goto_def\<close>)

lemma waker_step_ok:
  assumes ok: "jec_ok s" and i: "i < length (jc_threads s)"
  shows "jec_ok (waker_step i s)"
proof (cases "jc_threads s ! i")
  case (N_bump m e)
  have word: "set_word (jc_word s) s = s" by (simp add: set_word_def)
  show ?thesis
    using notifier_ok [OF ok i, of m e _ "N_bump_cas m e (jc_word s)" "jc_word s" "jc_word s"]
      notifier_ok [OF ok i, of m e _ "walk_from (jobs_to_wake m e (jc_word s))" "jc_word s" "jc_word s"] N_bump
    by (simp add: waker_step_def Let_def word)
next
  case (N_bump_cas m e old)
  have word: "set_word (jc_word s) s = s" by (simp add: set_word_def)
  show ?thesis
    using notifier_ok [OF ok i, of m e old "N_bump m e" old "jc_word s"]
      notifier_ok [OF ok i, of m e old "walk_from (jobs_to_wake m e (jec_bumped (jc_word s)))" old "jec_bumped (jc_word s)"]
      N_bump_cas
    by (auto simp: waker_step_def Let_def try_exchange_def word)
next
  case (M_flag j)
  have "j < jec_workers s" using target_worker [OF jec_okD(1) [OF ok] i] M_flag by simp
  then have "jec_ok (jec_goto i (M_state j) (s\<lparr>jc_mail_used := True\<rparr>))"
    by (intro waker_still_ok [OF ok i, of "M_state j"])
      (use M_flag counts_now [OF ok] in \<open>simp_all add: waker_pc_def claimless_def jec_goto_def\<close>)
  then show ?thesis using M_flag by (simp add: waker_step_def)
next
  case (M_state j)
  have j: "j < jec_workers s" using target_worker [OF jec_okD(1) [OF ok] i] M_state by simp
  have "jec_ok (jec_goto i (C_probe j Only) s)"
    by (intro waker_still_ok [OF ok i, of "C_probe j Only"])
      (use M_state j counts_now [OF ok] in \<open>simp_all add: waker_pc_def claimless_def jec_goto_def\<close>)
  moreover have "jec_ok (jec_goto i J_active s)" if "jc_states s ! j \<noteq> ASLEEP"
    by (intro waker_still_ok [OF ok i, of J_active])
      (use M_state j that counts_now [OF ok] in \<open>auto simp: waker_pc_def claimless_def jec_goto_def\<close>)
  ultimately show ?thesis using M_state by (simp add: waker_step_def)
next
  case (C_probe j b)
  have passed: "jec_ok (jec_goto i pc s)"
    if away: "jec_workers s \<le> j \<and> pc = J_active
      \<or> jc_states s ! j \<noteq> ASLEEP \<and> pc = (if b = Only then J_active else C_probe (Suc j) b)" for pc
  proof (rule waker_still_ok [OF ok i, of pc])
    show "promises (jec_workers s) pc"
      if "promises (jec_workers s) (jc_threads s ! i)" "\<forall>k < jec_workers s. deaf_jobs s k" "0 < jec_workers s"
      using that away C_probe by (auto simp: deaf_jobs_def)
    show "delivers k pc"
      if "k < jec_workers s" "delivers k (jc_threads s ! i)" "jc_states s ! k = ASLEEP" for k
      using that away C_probe by auto
    show "sweeps k pc" if "k < jec_workers s" "sweeps k (jc_threads s ! i)" "jc_states s ! k = ASLEEP" for k
      using that away C_probe by (cases "k = j") auto
  qed (use C_probe away counts_now [OF ok] in \<open>auto simp: waker_pc_def claimless_def jec_goto_def split: if_splits\<close>)
  show ?thesis
    using C_probe passed claim_ok [OF ok i C_probe] by (simp add: waker_step_def Let_def)
next
  case (C_sub j b)
  then show ?thesis using discount_ok [OF ok i] by (simp add: waker_step_def)
next
  case (C_store j b)
  then show ?thesis using store_ok [OF ok i] by (simp add: waker_step_def)
next
  case (C_unpark j b)
  then show ?thesis using permit_ok [OF ok i] by (simp add: waker_step_def)
qed (use ok in \<open>simp_all add: waker_step_def\<close>)

section \<open>Every run keeps it\<close>

text \<open>A thread that leaves its job: it submits, notifies, posts or shuts down.\<close>

lemma starts_ok:
  assumes ok: "jec_ok s" and i: "i < length (jc_threads s)" "jc_threads s ! i = J_active"
    and pc: "waker_pc pc" "claimless pc" "\<And>j. delivers j pc \<Longrightarrow> j < jec_workers s"
    and jobs: "promises (jec_workers s) pc \<or> q \<le> jc_jobs s"
    and letter: "m \<le> jc_mail s ! k \<or> delivers k pc \<and> flags k pc"
    and down: "(\<forall>j. sweeps j pc) \<or> sd = jc_shutdown s"
  shows "jec_ok (jec_goto i pc (s\<lparr>jc_jobs := q, jc_mail := (jc_mail s)[k := m], jc_shutdown := sd\<rparr>))"
proof -
  have "jec_goto i pc (s\<lparr>jc_jobs := q, jc_mail := (jc_mail s)[k := m], jc_shutdown := sd\<rparr>)
      = moved i pc (jc_states s ! i) (jc_permits s ! i) (jc_word s) q k m sd s"
    by (simp add: jec_goto_def moved_def)
  also have "jec_ok \<dots>"
  proof (rule moved_ok [OF ok i(1) _ _ pc(2,3)])
    note plain = waker_pc_plain [OF pc(1)]
    have active: "\<not> zone_pc (jc_threads s ! i)" "\<not> owes_pc (jc_threads s ! i)" "\<not> idle_pc (jc_threads s ! i)"
      using i(2) by (simp_all add: zone_pc_def owes_pc_def)
    have "i < jec_workers s \<Longrightarrow> \<not> sleeper s i"
      using awake_worker [OF ok _ active(1)] active by (simp add: sleeper_def)
    then show "count_fields
        (number (sleeper s) [0..<jec_workers s]
           + of_bool (i < jec_workers s \<and> (owes_pc pc \<or> zone_pc pc \<and> jc_states s ! i = ASLEEP \<or> 0 < number (subs i) (jc_threads s)))
           - of_bool (i < jec_workers s \<and> sleeper s i))
        (number idle_pc (jc_threads s) + of_bool (idle_pc pc) - of_bool (idle_pc (jc_threads s ! i))) (jc_word s)"
      using counts_now [OF ok] plain active awake_worker(2) [OF ok _ active(1)] by auto
    show "i < jec_workers s \<Longrightarrow> (jc_states s ! i \<noteq> AWAKE \<longrightarrow> zone_pc pc)
        \<and> (jc_states s ! i = WAKING \<longleftrightarrow> jc_states s ! i = WAKING) \<and> (pc = J_parked \<longrightarrow> jc_states s ! i \<noteq> AWAKE)"
      using awake_worker(1) [OF ok _ active(1)] pc(1) by (auto simp: waker_pc_def)
    show "promises (jec_workers s) pc \<or> q \<le> jc_jobs s \<and> (i < jec_workers s \<and> pc \<in> {J_look_flag, J_look_mail, J_park, J_parked}
      \<and> jc_states s ! i = ASLEEP \<longrightarrow> q = 0 \<or> deaf_jobs s i)"
      using jobs pc(1) by (auto simp: waker_pc_def)
    show "(\<forall>j. sweeps j pc) \<or> sd = jc_shutdown s \<and>
      (i < jec_workers s \<and> pc \<in> {J_look_shared, J_look_flag, J_look_mail, J_park, J_parked} \<and> jc_states s ! i = ASLEEP
         \<longrightarrow> \<not> jc_shutdown s \<or> deaf_shutdown s i)"
      using down pc(1) by (auto simp: waker_pc_def)
  qed (use i pc(1) letter in \<open>auto simp: uninvolved_def claimless_def waker_pc_def\<close>)
  finally show ?thesis .
qed

lemma smt_kept: "jec_ok (s\<lparr>jc_smt := x\<rparr>) = jec_ok s"
  by (simp add: jec_ok_def shape_ok_def claims_ok_def counts_ok_def jobs_ok_def mail_ok_def shut_ok_def
      sleeper_def [abs_def] deaf_jobs_def deaf_mail_def deaf_shutdown_def)

lemma jec_step_ok:
  assumes "jec_step s s'" "jec_ok s"
  shows "jec_ok s'"
  using assms
proof (cases rule: jec_step.cases)
  case (jec_searches i)
  then show ?thesis using goto_same_ok [OF assms(2), of i J_look] by (simp add: pc_simps)
next
  case (jec_submits i e)
  then show ?thesis
    using starts_ok [OF assms(2), of i "N_bump 1 e" "jc_jobs s + 1" "jc_mail s ! 0" 0 "jc_shutdown s"]
    by (simp add: waker_pc_def claimless_def)
next
  case (jec_notifies i m e)
  then show ?thesis
    using starts_ok [OF assms(2), of i "N_bump m e" "jc_jobs s" "jc_mail s ! 0" 0 "jc_shutdown s"]
    by (simp add: waker_pc_def claimless_def)
next
  case (jec_posts i j)
  then show ?thesis
    using starts_ok [OF assms(2), of i "M_flag j" "jc_jobs s" "jc_mail s ! j + 1" j "jc_shutdown s"]
    by (simp add: waker_pc_def claimless_def)
next
  case (jec_acquires i)
  then show ?thesis using smt_kept assms(2) by simp
next
  case (jec_releases i)
  then show ?thesis using smt_kept assms(2) by simp
next
  case (jec_shuts_down i)
  then show ?thesis
    using starts_ok [OF assms(2), of i "C_probe 0 Sweep" "jc_jobs s" "jc_mail s ! 0" 0 True]
    by (simp add: waker_pc_def claimless_def)
next
  case (jec_works i ch)
  then show ?thesis
    using worker_step_ok [OF assms(2)] worker_step_still [OF jec_okD(1) [OF assms(2)]] assms(2)
    by (cases "i < jec_workers s") auto
next
  case (jec_wakes i)
  then show ?thesis using waker_step_ok [OF assms(2)] by simp
qed

lemma jec_ok_start:
  assumes "n < 2 ^ 16"
  shows "jec_ok (jec_start n p others)"
proof -
  let ?ths = "replicate n J_look @ replicate others J_active"
  have none: "number f ?ths = 0" if "\<not> f J_look" "\<not> f J_active" for f
    using that by (auto simp: number_zero)
  have "shape_ok (jec_start n p others)"
    using assms none by (auto simp: shape_ok_def jec_start_def nth_append)
  moreover have "claims_ok (jec_start n p others)"
    using none by (auto simp: claims_ok_def jec_start_def nth_append)
  moreover have "number (sleeper (jec_start n p others)) [0..<n] = 0"
    using none by (auto simp: number_zero sleeper_def jec_start_def nth_append zone_pc_def owes_pc_def)
  then have "counts_ok (jec_start n p others)"
    using none [of idle_pc] by (simp add: counts_ok_def count_fields_def) (simp add: jec_start_def)
  moreover have "jobs_ok (jec_start n p others)" "mail_ok (jec_start n p others)" "shut_ok (jec_start n p others)"
    by (simp_all add: jobs_ok_def mail_ok_def shut_ok_def jec_start_def)
  ultimately show ?thesis by (simp add: jec_ok_def)
qed

lemma jec_reachable_ok: "jec_step\<^sup>*\<^sup>* (jec_start n p others) s \<Longrightarrow> n < 2 ^ 16 \<Longrightarrow> jec_ok s"
  by (induction rule: rtranclp_induct) (auto intro: jec_ok_start jec_step_ok)

lemma kept_workers:
  "jec_workers (jec_goto i pc s) = jec_workers s" "jec_workers (set_word w s) = jec_workers s"
  "jec_workers (set_state j v s) = jec_workers s" "jec_workers (jec_search f i found missed s) = jec_workers s"
  by (cases f; simp add: jec_goto_def set_word_def set_state_def jec_search_def)+

lemma worker_step_workers: "jec_workers (worker_step ch i s) = jec_workers s"
  by (cases "jc_threads s ! i")
    (simp_all add: worker_step_def Let_def kept_workers case_prod_beta)

lemma waker_step_workers: "jec_workers (waker_step i s) = jec_workers s"
  by (cases "jc_threads s ! i")
    (simp_all add: waker_step_def Let_def kept_workers case_prod_beta)

lemma jec_step_workers: "jec_step s s' \<Longrightarrow> jec_workers s' = jec_workers s"
  by (cases rule: jec_step.cases, assumption)
    (simp_all add: kept_workers worker_step_workers waker_step_workers)

lemma jec_reachable_workers: "jec_step\<^sup>*\<^sup>* (jec_start n p others) s \<Longrightarrow> jec_workers s = n"
  by (induction rule: rtranclp_induct) (auto simp: jec_start_def dest: jec_step_workers)

section \<open>Who is held\<close>

fun held :: "jec_pc \<Rightarrow> bool" where
  "held J_held = True"
| "held (J_held_idle r jc) = True"
| "held pc = False"

text \<open>Only siblings are ever held, and the split into primaries and siblings never moves.\<close>

definition siblings_only :: "jec \<Rightarrow> bool" where
  "siblings_only s \<longleftrightarrow> (\<forall>i < length (jc_threads s). held (jc_threads s ! i) \<longrightarrow> jc_primaries s \<le> i)"

lemma siblings_frame [simp]:
  "siblings_only (set_word w s) = siblings_only s" "siblings_only (set_state j v s) = siblings_only s"
  "siblings_only (s\<lparr>jc_permits := ps\<rparr>) = siblings_only s" "siblings_only (s\<lparr>jc_mail_used := u\<rparr>) = siblings_only s"
  "siblings_only (s\<lparr>jc_jobs := q\<rparr>) = siblings_only s" "siblings_only (s\<lparr>jc_mail := ms\<rparr>) = siblings_only s"
  "siblings_only (s\<lparr>jc_shutdown := sd\<rparr>) = siblings_only s" "siblings_only (s\<lparr>jc_smt := x\<rparr>) = siblings_only s"
  by (simp_all add: siblings_only_def set_word_def set_state_def)

lemma siblings_goto:
  "siblings_only s \<Longrightarrow> held pc \<longrightarrow> jc_primaries s \<le> i \<Longrightarrow> siblings_only (jec_goto i pc s)"
  unfolding siblings_only_def jec_goto_def
proof (intro allI impI)
  fix k assume a: "\<forall>i < length (jc_threads s). held (jc_threads s ! i) \<longrightarrow> jc_primaries s \<le> i"
    "held pc \<longrightarrow> jc_primaries s \<le> i"
    and k: "k < length (jc_threads (s\<lparr>jc_threads := (jc_threads s)[i := pc]\<rparr>))"
      "held (jc_threads (s\<lparr>jc_threads := (jc_threads s)[i := pc]\<rparr>) ! k)"
  show "jc_primaries (s\<lparr>jc_threads := (jc_threads s)[i := pc]\<rparr>) \<le> k"
    using a k by (cases "k = i") simp_all
qed

lemma not_held_walk: "\<not> held (walk_from k)" "\<not> held (walk_on j b)" "\<not> held (no_work_found r w jc)"
  by (simp_all add: walk_from_def walk_on_def no_work_found_def split: budget.split)

lemma siblings_search:
  "siblings_only s \<Longrightarrow> \<not> held found \<Longrightarrow> \<not> held missed \<Longrightarrow> siblings_only (jec_search f i found missed s)"
  by (cases f) (simp_all add: jec_search_def siblings_goto)

lemma worker_step_siblings:
  assumes "siblings_only s" "i < length (jc_threads s)"
  shows "siblings_only (worker_step ch i s)"
  using assms
  by (cases "jc_threads s ! i")
    (simp_all add: worker_step_def Let_def siblings_goto siblings_search gated_def not_held_walk case_prod_beta)

lemma waker_step_siblings: "siblings_only s \<Longrightarrow> siblings_only (waker_step i s)"
  by (cases "jc_threads s ! i")
    (simp_all add: waker_step_def Let_def siblings_goto not_held_walk case_prod_beta)

lemma jec_step_siblings:
  assumes "jec_step s s'" "siblings_only s"
  shows "siblings_only s'"
  using assms
  by (cases rule: jec_step.cases)
    (simp_all add: siblings_goto worker_step_siblings waker_step_siblings)

lemma jec_step_primaries: "jec_step s s' \<Longrightarrow> jc_primaries s' = jc_primaries s"
proof (induction rule: jec_step.induct)
  case (jec_works i s ch)
  have "jc_primaries (jec_search f i found missed s) = jc_primaries s" for f found missed
    by (cases f) (simp_all add: jec_search_def jec_goto_def)
  then show ?case
    by (cases "jc_threads s ! i")
      (simp_all add: worker_step_def Let_def jec_goto_def set_word_def set_state_def case_prod_beta)
next
  case (jec_wakes i s)
  show ?case
    by (cases "jc_threads s ! i")
      (simp_all add: waker_step_def Let_def jec_goto_def set_word_def set_state_def case_prod_beta)
qed (simp_all add: jec_goto_def)

lemma jec_reachable_siblings:
  "jec_step\<^sup>*\<^sup>* (jec_start n p others) s \<Longrightarrow> siblings_only s \<and> jc_primaries s = p"
proof (induction rule: rtranclp_induct)
  case base
  show ?case by (simp add: jec_start_def siblings_only_def nth_append)
next
  case (step s s')
  then show ?case using jec_step_siblings jec_step_primaries by auto
qed

section \<open>What follows\<close>

text \<open>
  The pool at rest: every worker is parked without a permit or held at the gate with nothing to
  release it, nobody else is at work in it.
\<close>

definition at_rest :: "jec \<Rightarrow> bool" where
  "at_rest s \<longleftrightarrow>
     (\<forall>i < length (jc_threads s).
        if i < jec_workers s
        then jc_threads s ! i = J_parked \<and> \<not> jc_permits s ! i \<or> held (jc_threads s ! i) \<and> \<not> released s
        else jc_threads s ! i = J_active)"

lemma held_outside: "held pc \<Longrightarrow> \<not> zone_pc pc \<and> uninvolved n pc \<and> claimless pc"
  by (cases pc) (simp_all add: zone_pc_def uninvolved_def claimless_def)

lemma at_rest_none:
  assumes ok: "jec_ok s" and rest: "at_rest s"
  shows "number (claims j) (jc_threads s) = 0" "number (unparks j) (jc_threads s) = 0"
    "number (promises n) (jc_threads s) = 0" "number (delivers j) (jc_threads s) = 0"
    "number (sweeps j) (jc_threads s) = 0"
proof -
  have pcs: "pc = J_parked \<or> pc = J_active \<or> held pc" if "pc \<in> set (jc_threads s)" for pc
    using rest that by (auto simp: at_rest_def in_set_conv_nth split: if_splits)
  have "\<not> claims j pc \<and> \<not> unparks j pc \<and> \<not> promises n pc \<and> \<not> delivers j pc \<and> \<not> sweeps j pc"
    if "pc \<in> set (jc_threads s)" for pc
    using pcs [OF that] held_outside [of pc n] by (auto simp: uninvolved_def claimless_def)
  then show "number (claims j) (jc_threads s) = 0" "number (unparks j) (jc_threads s) = 0"
    "number (promises n) (jc_threads s) = 0" "number (delivers j) (jc_threads s) = 0"
    "number (sweeps j) (jc_threads s) = 0"
    by (auto simp: number_zero)
qed

lemma at_rest_asleep:
  assumes ok: "jec_ok s" and rest: "at_rest s" and j: "j < jec_workers s" "\<not> held (jc_threads s ! j)"
  shows "jc_threads s ! j = J_parked" "jc_states s ! j = ASLEEP"
proof -
  have len: "j < length (jc_threads s)" using jec_okD(1) [OF ok] j by (simp add: shape_ok_def)
  show parked: "jc_threads s ! j = J_parked" using rest len j by (auto simp: at_rest_def)
  note none = at_rest_none [OF ok rest]
  have "jc_states s ! j \<noteq> WAKING" using jec_okD(2) [OF ok] j none(1) [of j] by (simp add: claims_ok_def)
  moreover have "jc_states s ! j \<noteq> AWAKE"
    using jec_okD(2) [OF ok] j none(2) [of j] parked rest len by (fastforce simp: claims_ok_def at_rest_def)
  ultimately show "jc_states s ! j = ASLEEP" by (cases "jc_states s ! j") simp_all
qed

lemma at_rest_held:
  assumes "jec_ok s" "at_rest s" "j < jec_workers s" "held (jc_threads s ! j)" "siblings_only s"
  shows "jc_primaries s \<le> j \<and> jc_smt s = 0"
proof -
  have "j < length (jc_threads s)" using jec_okD(1) [OF assms(1)] assms(3) by (simp add: shape_ok_def)
  moreover from this have "\<not> released s" using assms(2-4) by (auto simp: at_rest_def)
  ultimately show ?thesis using assms(4,5) by (auto simp: siblings_only_def released_def)
qed

lemma jec_rest_idle:
  assumes ok: "jec_ok s" and rest: "at_rest s" and some: "0 < jec_workers s"
  shows "jc_jobs s = 0 \<or> (\<exists>j < jec_workers s. held (jc_threads s ! j))"
    "\<forall>j < jec_workers s. jc_mail s ! j = 0 \<or> held (jc_threads s ! j)" "\<not> jc_shutdown s"
proof -
  have len: "jec_workers s \<le> length (jc_threads s)" using jec_okD(1) [OF ok] by (simp add: shape_ok_def)
  note none = at_rest_none [OF ok rest]
  have deaf: "deaf_jobs s j \<and> deaf_mail s j \<and> deaf_shutdown s j"
    if "j < jec_workers s" "\<not> held (jc_threads s ! j)" for j
    using at_rest_asleep [OF ok rest that] by (simp add: deaf_jobs_def deaf_mail_def deaf_shutdown_def)
  show "jc_jobs s = 0 \<or> (\<exists>j < jec_workers s. held (jc_threads s ! j))"
    using jec_okD(4) [OF ok] deaf some none(3) by (auto simp: jobs_ok_def)
  show "\<forall>j < jec_workers s. jc_mail s ! j = 0 \<or> held (jc_threads s ! j)"
    using jec_okD(5) [OF ok] deaf none(4) by (auto simp: mail_ok_def)
  show "\<not> jc_shutdown s"
  proof (cases "held (jc_threads s ! 0)")
    case True
    have "0 < length (jc_threads s)" using len some by linarith
    then show ?thesis using rest some True by (auto simp: at_rest_def released_def)
  next
    case False
    then show ?thesis using jec_okD(6) [OF ok] deaf [OF some] some none(5) [of 0] by (auto simp: shut_ok_def)
  qed
qed

section \<open>The counts\<close>

text \<open>The two counts of the word are the workers they stand for, and never cross.\<close>

lemma jec_counts:
  assumes ok: "jec_ok s"
  shows "unat (sleeping_threads (jc_word s)) = number (sleeper s) [0..<jec_workers s]"
    "unat (inactive_threads (jc_word s)) = number idle_pc (jc_threads s)"
    "number (sleeper s) [0..<jec_workers s] \<le> number idle_pc (jc_threads s)"
    "number idle_pc (jc_threads s) \<le> jec_workers s"
proof -
  note read = fields_read [OF counts_now [OF ok]]
  show "unat (sleeping_threads (jc_word s)) = number (sleeper s) [0..<jec_workers s]"
    "unat (inactive_threads (jc_word s)) = number idle_pc (jc_threads s)" using read by simp_all
  show "number idle_pc (jc_threads s) \<le> jec_workers s" by (rule idle_bound(1) [OF jec_okD(1) [OF ok]])
  have "idle_pc (jc_threads s ! j)" if "j < jec_workers s" "sleeper s j" for j
  proof -
    have "jc_states s ! j = WAKING" if "0 < number (subs j) (jc_threads s)"
    proof -
      have "number (claims j) (jc_threads s) = of_bool (jc_states s ! j = WAKING)"
        using jec_okD(2) [OF ok] \<open>j < jec_workers s\<close> by (simp add: claims_ok_def)
      then show ?thesis using that subs_claim [of j "jc_threads s"] by (cases "jc_states s ! j = WAKING") simp_all
    qed
    then have "owes_pc (jc_threads s ! j) \<or> zone_pc (jc_threads s ! j)"
      using that jec_okD(2) [OF ok] by (auto simp: sleeper_def claims_ok_def)
    then show ?thesis by (auto simp: owes_pc_def zone_pc_def)
  qed
  then have "number (sleeper s) [0..<jec_workers s] \<le> number (\<lambda>j. idle_pc (jc_threads s ! j)) [0..<jec_workers s]"
    by (rule number_le_upto)
  also have "\<dots> = number idle_pc (map ((!) (jc_threads s)) [0..<jec_workers s])"
    by (simp add: number_def o_def)
  also have "map ((!) (jc_threads s)) [0..<jec_workers s] = take (jec_workers s) (jc_threads s)"
    using jec_okD(1) [OF ok] by (intro nth_equalityI) (simp_all add: shape_ok_def)
  also have "number idle_pc (take (jec_workers s) (jc_threads s)) \<le> number idle_pc (jc_threads s)"
    using number_append [of idle_pc "take (jec_workers s) (jc_threads s)" "drop (jec_workers s) (jc_threads s)"] by simp
  finally show "number (sleeper s) [0..<jec_workers s] \<le> number idle_pc (jc_threads s)" .
qed

end
