(* ===== verification/Sched_Properties.thy ===== *)
theory Sched_Properties
  imports Latch_Race Wait_Laws Khl_Race Jec_Race
begin

text \<open>
  What the sleeping, waking and job-carrying parts of the scheduler promise: the pool's sleep
  protocol, the latches, the wait controller, and the job lines with
  their two deques.
\<close>

section \<open>The pool\<close>

lemma jec_chain:
  "jec_step\<^sup>*\<^sup>* s0 s \<Longrightarrow> i < length (jc_threads s) \<Longrightarrow> jec_step\<^sup>*\<^sup>* s0 (worker_step ch i s)"
  "jec_step\<^sup>*\<^sup>* s0 s \<Longrightarrow> i < length (jc_threads s) \<Longrightarrow> jec_step\<^sup>*\<^sup>* s0 (waker_step i s)"
  by (auto intro: jec_step.intros rtranclp.rtrancl_into_rtrancl)

text \<open>
  One worker, one sibling, one other thread. While the other thread has asked for siblings, the
  sibling finds nothing and is counted inactive; then the request is given up and the sibling
  is held.
\<close>

definition quiet_choice :: jec_choice where
  "quiet_choice = \<lparr>ch_find = Find_nothing, ch_window = 0, ch_saw_work = False, ch_spurious = False\<rparr>"

definition jec_at :: "jec_pc \<Rightarrow> jec_pc \<Rightarrow> jec_pc \<Rightarrow> usize \<Rightarrow> worker_state \<Rightarrow> nat \<Rightarrow> u32 \<Rightarrow> jec" where
  "jec_at pc sibling other w v jobs smt =
     \<lparr>jc_word = w, jc_states = [v, AWAKE], jc_permits = [False, False], jc_threads = [pc, sibling, other],
      jc_jobs = jobs, jc_mail = [0, 0], jc_mail_used = False, jc_shutdown = False, jc_primaries = 1,
      jc_smt = smt\<rparr>"

lemma jec_at_step:
  assumes "jec_step\<^sup>*\<^sup>* s0 (jec_at pc c d w v q m)"
  shows "worker_step quiet_choice 0 (jec_at pc c d w v q m) = s' \<Longrightarrow> jec_step\<^sup>*\<^sup>* s0 s'"
    "worker_step quiet_choice 1 (jec_at pc c d w v q m) = s' \<Longrightarrow> jec_step\<^sup>*\<^sup>* s0 s'"
    "waker_step 2 (jec_at pc c d w v q m) = s' \<Longrightarrow> jec_step\<^sup>*\<^sup>* s0 s'"
  using jec_chain(1) [OF assms, of 0 quiet_choice] jec_chain(1) [OF assms, of 1 quiet_choice]
    jec_chain(2) [OF assms, of 2] by (auto simp: jec_at_def)

lemmas jec_eval = jec_at_def worker_step_def waker_step_def jec_search_def quiet_choice_def jec_goto_def set_word_def
  set_state_def no_work_found_def ROUNDS_UNTIL_SLEEPY_def Let_def gated_def released_def

lemma jec_sibling_held:
  "jec_step\<^sup>*\<^sup>* (jec_start 2 1 1) (jec_at J_look (J_held_idle 0 jec_DUMMY) J_active ONE_INACTIVE AWAKE 0 0)"
proof -
  let ?r = "jec_step\<^sup>*\<^sup>* (jec_start 2 1 1)"
  have start: "jec_start 2 1 1 = jec_at J_look J_look J_active 0 AWAKE 0 0"
    by (simp add: jec_start_def jec_at_def numeral_2_eq_2)
  have "?r (jec_at J_look J_look J_active 0 AWAKE 0 1)"
    using jec_acquires [of 2 "jec_start 2 1 1"] unfolding start
    by (intro r_into_rtranclp) (simp add: jec_at_def)
  then have "?r (jec_at J_look J_search J_active 0 AWAKE 0 1)" by (rule jec_at_step(2)) (simp add: jec_eval)
  then have "?r (jec_at J_look J_start J_active 0 AWAKE 0 1)" by (rule jec_at_step(2)) (simp add: jec_eval)
  then have s: "?r (jec_at J_look (J_idle 0 jec_DUMMY) J_active ONE_INACTIVE AWAKE 0 1)"
    by (rule jec_at_step(2)) (simp add: jec_eval add_inactive_thread_def)
  have "jec_step (jec_at J_look (J_idle 0 jec_DUMMY) J_active ONE_INACTIVE AWAKE 0 1)
      (jec_at J_look (J_idle 0 jec_DUMMY) J_active ONE_INACTIVE AWAKE 0 0)"
    using jec_releases [of 2 "jec_at J_look (J_idle 0 jec_DUMMY) J_active ONE_INACTIVE AWAKE 0 1"]
    by (simp add: jec_at_def)
  with s have "?r (jec_at J_look (J_idle 0 jec_DUMMY) J_active ONE_INACTIVE AWAKE 0 0)" by (rule rtranclp.rtrancl_into_rtrancl)
  then show ?thesis by (rule jec_at_step(2)) (simp add: jec_eval)
qed

text \<open>The worker goes through its idle rounds until it is parked.\<close>

abbreviation beside_held :: "jec_pc \<Rightarrow> usize \<Rightarrow> worker_state \<Rightarrow> jec" where
  "beside_held pc w v \<equiv> jec_at pc (J_held_idle 0 jec_DUMMY) J_active w v 0 0"

lemma jec_idling_reachable:
  "r \<le> 32 \<Longrightarrow> jec_step\<^sup>*\<^sup>* (jec_start 2 1 1) (beside_held (J_idle (of_nat r) jec_DUMMY) (2 * ONE_INACTIVE) AWAKE)"
proof (induction r)
  case 0
  let ?r = "jec_step\<^sup>*\<^sup>* (jec_start 2 1 1)"
  have "?r (beside_held J_search ONE_INACTIVE AWAKE)" by (rule jec_at_step(1) [OF jec_sibling_held]) (simp add: jec_eval)
  then have "?r (beside_held J_start ONE_INACTIVE AWAKE)" by (rule jec_at_step(1)) (simp add: jec_eval)
  then have "?r (beside_held (J_idle 0 jec_DUMMY) (2 * ONE_INACTIVE) AWAKE)"
    by (rule jec_at_step(1)) (simp add: jec_eval add_inactive_thread_def)
  then show ?case by simp
next
  case (Suc r)
  let ?r = "jec_step\<^sup>*\<^sup>* (jec_start 2 1 1)" and ?w = "2 * ONE_INACTIVE :: usize"
  have small: "of_nat r < (32 :: u32)"
    using Suc.prems by (simp add: word_less_nat_alt unat_of_nat)
  have "?r (beside_held (J_seek (of_nat r) jec_DUMMY) ?w AWAKE)"
    by (rule jec_at_step(1) [OF Suc.IH]) (use Suc.prems in \<open>simp_all add: jec_eval\<close>)
  then have "?r (beside_held (J_round (of_nat r) jec_DUMMY) ?w AWAKE)" by (rule jec_at_step(1)) (simp add: jec_eval)
  then show ?case by (rule jec_at_step(1)) (use small in \<open>simp add: jec_eval add.commute\<close>)
qed

lemma jec_resting_reachable:
  "jec_step\<^sup>*\<^sup>* (jec_start 2 1 1) (beside_held J_parked (2 * ONE_INACTIVE + ONE_SLEEPING) ASLEEP)"
proof -
  let ?w = "2 * ONE_INACTIVE :: usize" and ?r = "jec_step\<^sup>*\<^sup>* (jec_start 2 1 1)"
  have jec: "select_jec ?w = 0" by (simp add: select_jec_def jec_consts)
  have "?r (beside_held (J_idle 32 jec_DUMMY) ?w AWAKE)" using jec_idling_reachable [of 32] by simp
  then have "?r (beside_held (J_seek 32 jec_DUMMY) ?w AWAKE)" by (rule jec_at_step(1)) (simp add: jec_eval)
  then have "?r (beside_held (J_round 32 jec_DUMMY) ?w AWAKE)" by (rule jec_at_step(1)) (simp add: jec_eval)
  then have "?r (beside_held J_announce ?w AWAKE)" by (rule jec_at_step(1)) (simp add: jec_eval)
  then have "?r (beside_held (J_idle 33 0) ?w AWAKE)"
    by (rule jec_at_step(1)) (simp add: jec_eval jec is_active_def is_sleepy_def)
  then have "?r (beside_held (J_seek 33 0) ?w AWAKE)" by (rule jec_at_step(1)) (simp add: jec_eval)
  then have "?r (beside_held (J_round 33 0) ?w AWAKE)" by (rule jec_at_step(1)) (simp add: jec_eval)
  then have "?r (beside_held (J_shut_first 0) ?w AWAKE)" by (rule jec_at_step(1)) (simp add: jec_eval)
  then have "?r (beside_held (J_count 0) ?w AWAKE)" by (rule jec_at_step(1)) (simp add: jec_eval)
  then have "?r (beside_held (J_add 0 ?w) ?w AWAKE)" by (rule jec_at_step(1)) (simp add: jec_eval jec)
  then have "?r (beside_held J_first_look (?w + ONE_SLEEPING) AWAKE)"
    by (rule jec_at_step(1)) (simp add: jec_eval try_add_sleeping_thread_def try_exchange_def)
  then have "?r (beside_held J_publish (?w + ONE_SLEEPING) AWAKE)" by (rule jec_at_step(1)) (simp add: jec_eval)
  then have "?r (beside_held J_shut (?w + ONE_SLEEPING) ASLEEP)" by (rule jec_at_step(1)) (simp add: jec_eval)
  then have "?r (beside_held J_look_shared (?w + ONE_SLEEPING) ASLEEP)" by (rule jec_at_step(1)) (simp add: jec_eval)
  then have "?r (beside_held J_look_flag (?w + ONE_SLEEPING) ASLEEP)" by (rule jec_at_step(1)) (simp add: jec_eval)
  then have "?r (beside_held J_park (?w + ONE_SLEEPING) ASLEEP)" by (rule jec_at_step(1)) (simp add: jec_eval)
  then show ?thesis by (rule jec_at_step(1)) (simp add: jec_eval)
qed

text \<open>
  C3: the pool never sleeps on work. Call the pool at rest when every worker is parked without a
  permit or is a sibling held at the gate while nobody asks for siblings, and every other thread
  is outside the protocol. At rest no shutdown is pending, a letter waits only in the mailbox of
  a held sibling, a job waits in the injector only if some sibling is held, and the held ones
  are beyond the primaries; so a pool of primaries alone rests with no job and no letter. No
  interleaving of idle rounds, announcements, parks, submissions, letters, wakes, requests for
  siblings and shutdowns loses a wake-up in any other way.
\<close>

theorem pool_never_sleeps_on_work:
  assumes "jec_step\<^sup>*\<^sup>* (jec_start n primaries others) s" "0 < n" "n < 2 ^ 16" "at_rest s"
  shows "(jc_jobs s = 0 \<or> (\<exists>j < n. held (jc_threads s ! j)))
    \<and> (\<forall>j < n. jc_mail s ! j = 0 \<or> held (jc_threads s ! j)) \<and> \<not> jc_shutdown s
    \<and> (\<forall>j < n. held (jc_threads s ! j) \<longrightarrow> primaries \<le> j \<and> jc_smt s = 0)"
proof -
  have ok: "jec_ok s" by (rule jec_reachable_ok [OF assms(1,3)])
  have n: "jec_workers s = n" by (rule jec_reachable_workers [OF assms(1)])
  have "primaries \<le> j \<and> jc_smt s = 0" if "j < n" "held (jc_threads s ! j)" for j
    using at_rest_held [OF ok assms(4)] jec_reachable_siblings [OF assms(1)] that n by simp
  then show ?thesis using jec_rest_idle [OF ok assms(4)] n assms(2) by simp
qed

lemma resting_at_rest:
  "at_rest (jec_at J_parked (J_held_idle 0 jec_DUMMY) J_active w ASLEEP q 0)"
  by (simp add: at_rest_def jec_at_def less_Suc_eq released_def)

theorem pool_never_sleeps_on_work_witness:
  "let s = beside_held J_parked (2 * ONE_INACTIVE + ONE_SLEEPING) ASLEEP
   in at_rest s \<and> \<not> jc_shutdown s \<and> (\<forall>j < 2. held (jc_threads s ! j) \<longrightarrow> 1 \<le> j \<and> jc_smt s = 0)"
  using pool_never_sleeps_on_work [OF jec_resting_reachable] resting_at_rest by (simp add: Let_def)

text \<open>
  The two provisos are needed. A submission that counts a held sibling as awake wakes nobody:
  the job waits, the worker sleeps, and the pool is at rest.
\<close>

lemma held_sibling_absorbs_wake:
  "\<exists>s. jec_step\<^sup>*\<^sup>* (jec_start 2 1 1) s \<and> at_rest s \<and> jc_jobs s = 1"
proof -
  let ?w = "2 * ONE_INACTIVE + ONE_SLEEPING :: usize" and ?r = "jec_step\<^sup>*\<^sup>* (jec_start 2 1 1)"
  let ?at = "\<lambda>pc w. jec_at J_parked (J_held_idle 0 jec_DUMMY) pc w ASLEEP 1 0"
  have sub: "jec_step (beside_held J_parked ?w ASLEEP) (?at (N_bump 1 True) ?w)"
    using jec_submits [of 2 "beside_held J_parked ?w ASLEEP" True] by (simp add: jec_at_def jec_goto_def)
  have "?r (?at (N_bump 1 True) ?w)" by (rule rtranclp.rtrancl_into_rtrancl [OF jec_resting_reachable sub])
  then have "?r (?at (N_bump_cas 1 True ?w) ?w)"
    by (rule jec_at_step(3)) (simp add: jec_eval is_sleepy_def select_jec_def jec_consts)
  then have "?r (?at J_active (jec_bumped ?w))"
    by (rule jec_at_step(3))
      (simp add: jec_eval try_exchange_def walk_from_def jobs_to_wake_def jec_bumped_def jec_consts
        awake_but_idle_threads_def sleeping_threads_def inactive_threads_def select_thread_def)
  then show ?thesis using resting_at_rest by (intro exI [of _ "?at J_active (jec_bumped ?w)"]) (simp add: jec_at_def)
qed

section \<open>Latches\<close>

text \<open>
  C4: a latch never loses its waiter. Once every participant's \<open>set\<close> has returned, the waiter
  leaves within ten of its own steps, whatever it was doing (spinning, in the handshake,
  parked by the kernel or by a monitor wait), for a spin latch with one setter and for a count
  latch with any number of participants, with any other unparks and shutdowns in between.
\<close>

theorem latch_wakes_its_waiter:
  assumes "sleep_step\<^sup>*\<^sup>* s0 s" "s0 = spin_race_start p \<or> count_race_start n p = Some s0"
    and "\<forall>pc \<in> set (sr_setters s). pc = S_done" "10 \<le> length chs"
  shows "sr_waiter (fold waiter_step chs s) = W_done"
  by (rule waiter_wakes [OF sleep_reachable_ok [OF assms(1,2)] assms(3,4)])

definition plain_choice :: step_choice where
  "plain_choice = \<lparr>ch_spin = False, ch_strategy = StdPark, ch_sampling = False, ch_blocks = False,
     ch_second_look = False, ch_tsc = 0\<rparr>"

lemma sleep_chain:
  "sleep_step\<^sup>*\<^sup>* s0 s \<Longrightarrow> sleep_step\<^sup>*\<^sup>* s0 (waiter_step ch s)"
  "sleep_step\<^sup>*\<^sup>* s0 s \<Longrightarrow> i < length (sr_setters s) \<Longrightarrow> sleep_step\<^sup>*\<^sup>* s0 (setter_step ch i s)"
  by (auto intro: sleep_step.intros rtranclp.rtrancl_into_rtrancl)

text \<open>The waiter has called \<open>get_sleepy\<close> and \<open>fall_asleep\<close> when the latch is set.\<close>

lemmas latch_eval = waiter_step_def setter_step_def spin_race_start_def plain_choice_def Let_def core_new_def
  get_sleepy_def fall_asleep_def core_exchange_def compare_exchange_def core_set_def core_is_set_def UNSET_def
  SLEEPY_def SLEEPING_def SET_def parker_new_def SAMPLE_ARMED_def count_wake_def give_permit_def

definition woken_race :: sleep_race where
  "woken_race = setter_step plain_choice 0 (setter_step plain_choice 0 (setter_step plain_choice 0
     (setter_step plain_choice 0 (setter_step plain_choice 0
       (waiter_step plain_choice (waiter_step plain_choice (waiter_step plain_choice (waiter_step plain_choice
         (spin_race_start (parker_new 0))))))))))"

lemma woken_race_state:
  "sr_waiter woken_race = W_enter \<and> sr_setters woken_race = [S_done]"
  by (simp add: woken_race_def latch_eval)

lemma woken_race_reachable: "sleep_step\<^sup>*\<^sup>* (spin_race_start (parker_new 0)) woken_race"
  unfolding woken_race_def
  by (intro sleep_chain rtranclp.rtrancl_refl) (simp_all add: latch_eval)

theorem latch_wakes_its_waiter_witness:
  "sr_waiter (fold waiter_step (replicate 10 plain_choice) woken_race) = W_done"
  by (rule latch_wakes_its_waiter [where p = "parker_new 0", OF woken_race_reachable]) (simp_all add: woken_race_state)

text \<open>
  a latch is not touched after its owner has gone. When the waiter has returned, and may
  free the latch, every participant has already made its last access to it: what a participant
  still does is an unpark of the owner's thread through the handle it cloned before.
\<close>

lemma latch_untouched_after_return:
  assumes "sleep_step\<^sup>*\<^sup>* s0 s" "s0 = spin_race_start p \<or> count_race_start n p = Some s0"
    and "sr_waiter s = W_done" "i < length (sr_setters s)"
  shows "sr_latch (setter_step ch i s) = sr_latch s
    \<and> (sr_setters s ! i = S_done \<or> unparking (sr_setters s ! i))"
proof -
  note ok = sleep_reachable_ok [OF assms(1,2)]
  have "sr_setters s ! i = S_done \<or> unparking (sr_setters s ! i)"
    by (rule setters_past [OF ok waiter_done_set [OF ok assms(3)] assms(4)])
  then show ?thesis by (auto simp: unparking_def setter_step_def Let_def)
qed

text \<open>The setter has swapped but not unparked; the waiter, still awake, sees the latch set.\<close>

definition early_race :: sleep_race where
  "early_race = waiter_step plain_choice (setter_step plain_choice 0 (setter_step plain_choice 0
     (spin_race_start (parker_new 0))))"

lemma early_race_reachable: "sleep_step\<^sup>*\<^sup>* (spin_race_start (parker_new 0)) early_race"
  unfolding early_race_def
  by (intro sleep_chain rtranclp.rtrancl_refl) (simp_all add: latch_eval)

text \<open>
  C5: \<open>LockLatch::set\<close> can lose the wake-up. The setter copies the waiter's handle before it
  publishes the flag; a waiter that registers, looks at the flag and parks in between is then
  found by nobody: from the reached state, with the flag set, no step changes anything but a
  return of \<open>park\<close> without cause, which the platform may or may not make.
\<close>

theorem lock_latch_loses_wakeup:
  "\<exists>s. lock_step\<^sup>*\<^sup>* lock_race_start s \<and> lk_flag s \<and> lock_stuck s \<and> {t. lock_step\<^sup>*\<^sup>* s t} = {s}"
  by (rule lock_loses_wakeup)

section \<open>The wait controller\<close>

text \<open>
  over any interleaving of the parks of any number of threads the controller changes its
  strategy at most once per twenty-four compared pairs, its score stays within sixty-four and
  its sampling interval between 64 and 4096 parks.
\<close>

lemma wait_switch_evidence:
  assumes "(wait_step cpu)\<^sup>*\<^sup>* (wait_system_start n) s"
  shows "24 * unat (wc_switches (ws_controller s)) \<le> ws_pairs s
    \<and> \<bar>wc_score (ws_controller s)\<bar> \<le> 64
    \<and> 64 \<le> wc_probe_every (ws_controller s) \<and> wc_probe_every (ws_controller s) \<le> 4096"
  using wait_run_ok [OF assms wait_system_ok_start]
  by (simp add: wait_system_ok_def wait_bounds_def evidence_ok_def wait_consts)

text \<open>
  a wake that is stamped by a core whose cycle counter runs ahead of the waiter's is read
  as a span near the top of 64 bits: for every calibration below a hundred sixteenths of a
  cycle per nanosecond the controller's product of that reading by a hundred leaves the range.
\<close>

lemma skewed_clock_overflows:
  assumes "now < stamp" "unat (stamp - now) \<le> 2 ^ 63" "0 < k" "k < 100"
  shows "2 ^ 64 \<le> unat (wake_reading k now stamp) * 100"
proof -
  have k: "unat k \<le> 99" "0 < unat k" using assms(3,4) by (simp_all add: word_less_nat_alt unat_gt_0)
  have "(2 ^ 64 - 1) div 99 \<le> (2 ^ 64 - 1) div unat k" using k by (intro div_le_mono2) simp_all
  then show ?thesis using skewed_reading [OF assms(1-3)] by simp
qed

section \<open>Job lines\<close>

text \<open>
  C36: run one after another, every sequence of pushes, flushes, pops and steals on a fresh
  line deque over a work-stealing deque answers as a bounded list of groups with an open group
  does: three jobs make a group, a group travels whole, the owner runs its open group first
  and its newest group next, thieves take the oldest.
\<close>

theorem fcl_refines_groups:
  "fst (run_ops (line_apply cl_push cl_pop cl_steal) ops (fcl_new cap))
   = fst (run_ops (line_spec (next_power_of_two (max cap 2))) ops ([], []))"
proof -
  have "capacity (ld_inner (fcl_new cap)) = next_power_of_two (max cap 2)"
    by (simp add: fcl_new_def capacity_def new_chase_lev_def)
  with fcl.line_run_refines [OF fcl_new_ok, of cap ops] show ?thesis
    by (metis fcl_new_view fst_conv)
qed

text \<open>
  the same of the deque that keeps its lines in a ring of sequence-numbered slots.
\<close>

lemma khl_refines_groups:
  fixes ops :: "'j line_op list"
  shows "fst (run_ops (line_apply khl_try_publish khl_pop_newest khl_steal) ops (khl_deque_new cap))
   = fst (run_ops (line_spec (fr_capacity (ld_inner (khl_deque_new cap :: ('j line khl_header, 'j) line_deque)))) ops ([], []))"
proof -
  let ?q = "khl_deque_new cap :: ('j line khl_header, 'j) line_deque"
  have "run_ops (line_spec (fr_capacity (ld_inner ?q))) ops (khl.sink_view ?q)
      = (fst (run_ops (line_apply khl_try_publish khl_pop_newest khl_steal) ops ?q),
         khl.sink_view (snd (run_ops (line_apply khl_try_publish khl_pop_newest khl_steal) ops ?q)))"
    by (rule khl.line_run_refines [OF khl_deque_ok])
  then have "fst (run_ops (line_spec (fr_capacity (ld_inner ?q))) ops (khl.sink_view ?q))
      = fst (run_ops (line_apply khl_try_publish khl_pop_newest khl_steal) ops ?q)"
    by simp
  then show ?thesis by (simp only: khl_deque_view)
qed

lemma khl_chain:
  "khl_step\<^sup>*\<^sup>* s0 s \<Longrightarrow> khl_step\<^sup>*\<^sup>* s0 (khl_owner_step s)"
  "khl_step\<^sup>*\<^sup>* s0 s \<Longrightarrow> kr_owner s = K_idle \<Longrightarrow> khl_step\<^sup>*\<^sup>* s0 (khl_start_publish blocking x s)"
  "khl_step\<^sup>*\<^sup>* s0 s \<Longrightarrow> kr_owner s = K_idle \<Longrightarrow> khl_step\<^sup>*\<^sup>* s0 (khl_start_pop s)"
  "khl_step\<^sup>*\<^sup>* s0 s \<Longrightarrow> i < length (kr_thieves s) \<Longrightarrow> khl_step\<^sup>*\<^sup>* s0 (khl_thief_step i s)"
  by (auto intro: khl_step.intros rtranclp.rtrancl_into_rtrancl)

text \<open>
  C6: under every interleaving of the owner with any number of thieves on the slot ring, what
  was published is exactly what was taken and what the ring still holds, whenever nobody is in
  the middle of an operation.
\<close>

theorem khl_race_conserves:
  assumes "khl_step\<^sup>*\<^sup>* (khl_race_start body cap n) s" "kr_owner s = K_idle" "set (kr_thieves s) \<subseteq> {H_idle}"
  shows "kr_pushed s = kr_taken s + mset (khl_abs (kr_ring s))"
  using khl_conserves [OF khl_reachable_ok [OF assms(1)]] khl_idle_left [OF assms(2,3)] by simp

text \<open>A ring of two slots and one thief: the owner publishes 7 and then 9, the thief takes 7.\<close>

definition khl_published :: "nat khl_race" where
  "khl_published = khl_owner_step (khl_owner_step (khl_owner_step (khl_owner_step (khl_start_publish True 9
     (khl_owner_step (khl_owner_step (khl_owner_step (khl_owner_step (khl_start_publish True 7
       (khl_race_start 0 2 1))))))))))"

definition khl_example :: "nat khl_race" where
  "khl_example = khl_thief_step 0 (khl_thief_step 0 (khl_thief_step 0 (khl_thief_step 0 (khl_thief_step 0
     (khl_thief_step 0 khl_published)))))"

lemmas khl_eval = khl_race_start_def khl_owner_step_def khl_thief_step_def khl_start_publish_def khl_new_def
  fr_seq_def fr_data_def fr_idx_def set_seq_def set_data_def fr_capacity_def mask_slot_def khl_body_def Let_def

lemma khl_published_state:
  "khl_published = \<lparr>kr_ring = \<lparr>fr_tail = 2, fr_head = 0, fr_slots = [(1, Some 7), (2, Some 9)]\<rparr>,
     kr_owner = K_idle, kr_thieves = [H_idle], kr_pushed = {#7, 9#}, kr_taken = {#}\<rparr>"
  by (simp add: khl_published_def khl_eval next_power_of_two_def bit_length.simps upt_rec numeral_2_eq_2)

lemma khl_example_state:
  "khl_example = \<lparr>kr_ring = \<lparr>fr_tail = 2, fr_head = 1, fr_slots = [(2, Some 7), (2, Some 9)]\<rparr>,
     kr_owner = K_idle, kr_thieves = [H_idle], kr_pushed = {#7, 9#}, kr_taken = {#7#}\<rparr>"
  by (simp add: khl_example_def khl_published_state khl_eval)

lemma khl_example_reachable: "khl_step\<^sup>*\<^sup>* (khl_race_start 0 2 1) khl_example"
proof -
  have "khl_step\<^sup>*\<^sup>* (khl_race_start 0 2 1) khl_published"
    unfolding khl_published_def
    by (intro khl_chain rtranclp.rtrancl_refl) (simp_all add: khl_eval next_power_of_two_def bit_length.simps upt_rec numeral_2_eq_2)
  then show ?thesis
    unfolding khl_example_def
    by (intro khl_chain) (simp_all add: khl_published_state khl_eval)
qed

theorem khl_race_conserves_witness:
  "kr_pushed khl_example = kr_taken khl_example + mset (khl_abs (kr_ring khl_example)) \<and> kr_taken khl_example = {#7#}"
  using khl_race_conserves [OF khl_example_reachable] by (simp add: khl_example_state)

text \<open>
  a join latch packs its state and its owner's address into one word and still behaves as
  the plain latch: on every sequence of operations both give the same answers and the same
  state, for any address whose two low bits are free.
\<close>

lemma join_latch_refines_core:
  assumes "address AND STATE_BITS = 0"
  shows "run_ops core_apply ops core_new
    = (fst (run_ops join_apply ops (join_new address)), join_view (snd (run_ops join_apply ops (join_new address))))"
  using join.run_simulates [of address "join_new address" ops] join_new_ok [OF assms] by simp

text \<open>
  the word of counters is exact in every reachable state: its two fields are the number of
  workers that have gone to sleep (or still owe the decrement) and the number that idle, the
  first never exceeds the second nor the second the number of workers, so the subtraction that
  counts the awake idle workers never goes below zero.
\<close>

lemma sleep_counts_exact:
  assumes "jec_step\<^sup>*\<^sup>* (jec_start n primaries others) s" "n < 2 ^ 16"
  shows "unat (sleeping_threads (jc_word s)) = number (sleeper s) [0..<n]
    \<and> unat (inactive_threads (jc_word s)) = number idle_pc (jc_threads s)
    \<and> number (sleeper s) [0..<n] \<le> number idle_pc (jc_threads s)
    \<and> number idle_pc (jc_threads s) \<le> n"
  using jec_counts [OF jec_reachable_ok [OF assms]] jec_reachable_workers [OF assms(1)] by simp

end
