(* ===== verification/Fork_Join.thy ===== *)
theory Fork_Join
  imports Prelude
begin

text \<open>
  The recursion the drivers of \<open>sched/par_iter.rs\<close> share: halve a slice through \<open>join_context\<close>
  until a floor or a control state says stop. A driver's result is what its leaves give, in
  the order of the slice; which half was stolen and what a worker's steal counter reads are
  oracles over the path from the root (nearest turn first, \<open>True\<close> for the right half).
\<close>

section \<open>Fork and join\<close>

text \<open>
  The shape the drivers share. A slice no longer than the floor is a leaf; otherwise \<open>decide\<close>
  looks at the control state and the path and answers \<open>None\<close> for a leaf, or the control state
  of both halves. \<open>join_context\<close> runs both halves and waits for both.
\<close>

partial_function (option) fork_join ::
  "(nat \<Rightarrow> 'a list \<Rightarrow> 'r) \<Rightarrow> ('r \<Rightarrow> 'r \<Rightarrow> 'r) \<Rightarrow> nat \<Rightarrow> (bool list \<Rightarrow> 'c \<Rightarrow> 'c option)
    \<Rightarrow> bool list \<Rightarrow> nat \<Rightarrow> 'a list \<Rightarrow> 'c \<Rightarrow> 'r option" where
  "fork_join leaf merge floor decide path start items c =
     (if length items \<le> floor then Some (leaf start items)
      else case decide path c of
             None \<Rightarrow> Some (leaf start items)
           | Some c' \<Rightarrow>
               let mid = length items div 2
               in Option.bind (fork_join leaf merge floor decide (False # path) start (take mid items) c')
                    (\<lambda>left. Option.bind
                       (fork_join leaf merge floor decide (True # path) (start + mid) (drop mid items) c')
                       (\<lambda>right. Some (merge left right))))"

text \<open>
  The budget of \<open>bisect\<close>: a half that moved to another worker starts over. The whole
  slice, at the root, has not moved.
\<close>

definition replenish :: "(bool list \<Rightarrow> bool) \<Rightarrow> nat \<Rightarrow> bool list \<Rightarrow> nat \<Rightarrow> nat option" where
  "replenish migrated max_budget path splits =
     (let cur = if path \<noteq> [] \<and> migrated path then max_budget else splits
      in if cur \<le> 1 then None else Some (cur div 2))"

text \<open>\<open>RayonStyleReplenish\<close>: a moved half gets at least one split per worker.\<close>

definition replenish_rayon :: "(bool list \<Rightarrow> bool) \<Rightarrow> nat \<Rightarrow> bool list \<Rightarrow> nat \<Rightarrow> nat option" where
  "replenish_rayon migrated workers_floor path splits =
     (let cur = if path \<noteq> [] \<and> migrated path then max workers_floor (splits div 2) else splits
      in if cur \<le> 1 then None else Some (cur div 2))"

text \<open>
  The lazy driver: split while seed levels remain, then only where this worker's steal count
  has moved since the parent looked; a thread that is no worker (\<open>None\<close>) always splits.
\<close>

definition lazy_split :: "(bool list \<Rightarrow> u64 option) \<Rightarrow> bool list \<Rightarrow> nat \<times> u64 \<Rightarrow> (nat \<times> u64) option" where
  "lazy_split stolen_from path c =
     (let (seed, seen) = c
      in if 0 < seed then Some (seed - 1, seen)
         else case stolen_from path of
                None \<Rightarrow> Some (0, seen)
              | Some cur \<Rightarrow> if cur \<noteq> seen then Some (0, cur) else None)"

section \<open>The laws\<close>

lemma fork_join_leaf:
  "length items \<le> floor \<or> decide path c = None
    \<Longrightarrow> fork_join leaf merge floor decide path start items c = Some (leaf start items)"
  by (auto simp: fork_join.simps [of _ _ _ _ path])

lemma fork_join_node:
  assumes "floor < length xs + length ys" "length xs \<le> length ys" "length ys \<le> length xs + 1"
    and "decide path c = Some c'"
    and "fork_join leaf merge floor decide (False # path) start xs c' = Some l"
    and "fork_join leaf merge floor decide (True # path) (start + length xs) ys c' = Some r"
  shows "fork_join leaf merge floor decide path start (xs @ ys) c = Some (merge l r)"
proof -
  have "(length xs + length ys) div 2 = length xs" using assms(2,3) by linarith
  then show ?thesis
    using assms by (simp add: fork_join.simps [of leaf merge floor decide path start "xs @ ys" c] Let_def)
qed

text \<open>
  What holds of every leaf, and of a node when it holds of its halves, holds of the result;
  with a positive floor there is a result.
\<close>

lemma fork_join_rule:
  assumes floor: "0 < floor"
    and leaf: "\<And>path start items c. length items \<le> floor \<or> decide path c = None
      \<Longrightarrow> P path start items c (leaf start items)"
    and node: "\<And>path start xs ys c c' l r. floor < length xs + length ys \<Longrightarrow> length xs \<le> length ys
      \<Longrightarrow> length ys \<le> length xs + 1 \<Longrightarrow> decide path c = Some c'
      \<Longrightarrow> P (False # path) start xs c' l \<Longrightarrow> P (True # path) (start + length xs) ys c' r
      \<Longrightarrow> P path start (xs @ ys) c (merge l r)"
  shows "\<exists>r. fork_join leaf merge floor decide path start items c = Some r \<and> P path start items c r"
proof (induction "length items" arbitrary: items path start c rule: less_induct)
  case less
  show ?case
  proof (cases "length items \<le> floor \<or> decide path c = None")
    case True
    then show ?thesis
      using leaf [of items path c start] fork_join_leaf [of items floor decide path c leaf merge start]
      by (intro exI conjI) auto
  next
    case False
    then obtain c' where c': "decide path c = Some c'" and len: "floor < length items" by auto
    define xs ys where "xs = take (length items div 2) items" and "ys = drop (length items div 2) items"
    have items: "items = xs @ ys" and lens: "length xs = length items div 2"
      "length ys = length items - length items div 2"
      by (simp_all add: xs_def ys_def)
    have "length xs < length items" "length ys < length items" using lens len floor by auto
    then obtain l r where l: "fork_join leaf merge floor decide (False # path) start xs c' = Some l"
        "P (False # path) start xs c' l"
      and r: "fork_join leaf merge floor decide (True # path) (start + length xs) ys c' = Some r"
        "P (True # path) (start + length xs) ys c' r"
      using less.hyps by meson
    have "P path start items c (merge l r)"
      unfolding items by (rule node [OF _ _ _ c' l(2) r(2)]) (use len lens in auto)
    moreover have "fork_join leaf merge floor decide path start items c = Some (merge l r)"
      unfolding items by (rule fork_join_node [OF _ _ _ c' l(1) r(1)]) (use len lens in auto)
    ultimately show ?thesis by (intro exI conjI)
  qed
qed

lemma fork_join_total: "0 < floor \<Longrightarrow> \<exists>r. fork_join leaf merge floor decide path start items c = Some r"
  by (drule fork_join_rule [where P = "\<lambda>_ _ _ _ _. True"]) (rule TrueI, rule TrueI, simp)

text \<open>
  An operation that treats a slice as the join of its parts gives, cut anywhere, what it
  gives on the whole slice. A slice longer than a positive floor has two non-empty halves.
\<close>

locale slicewise =
  fixes leaf :: "nat \<Rightarrow> 'a list \<Rightarrow> 'r" and merge :: "'r \<Rightarrow> 'r \<Rightarrow> 'r"
  assumes merge_leaf: "xs \<noteq> [] \<Longrightarrow> ys \<noteq> [] \<Longrightarrow>
    merge (leaf s xs) (leaf (s + length xs) ys) = leaf s (xs @ ys)"
begin

lemma cut_anywhere:
  assumes "0 < floor"
  shows "fork_join leaf merge floor decide path start items c = Some (leaf start items)"
proof -
  have "\<exists>r. fork_join leaf merge floor decide path start items c = Some r \<and> r = leaf start items"
    by (rule fork_join_rule [OF assms]) (use assms in \<open>auto intro!: merge_leaf\<close>)
  then show ?thesis by simp
qed

end

section \<open>The leaves\<close>

text \<open>
  \<open>tiles s xs ps\<close>: the pieces \<open>ps\<close>, with their starts, are non-empty and lie end to end over
  \<open>xs\<close>, whose first item has index \<open>s\<close>.
\<close>

fun tiles :: "nat \<Rightarrow> 'a list \<Rightarrow> (nat \<times> 'a list) list \<Rightarrow> bool" where
  "tiles s xs [] \<longleftrightarrow> xs = []"
| "tiles s xs ((i, p) # ps) \<longleftrightarrow>
     i = s \<and> p \<noteq> [] \<and> take (length p) xs = p \<and> tiles (s + length p) (drop (length p) xs) ps"

lemma tiles_append: "tiles s xs ps \<Longrightarrow> tiles (s + length xs) ys qs \<Longrightarrow> tiles s (xs @ ys) (ps @ qs)"
proof (induction ps arbitrary: s xs)
  case (Cons q ps)
  obtain i p where q: "q = (i, p)" by fastforce
  have "take (length p) xs = p" using Cons.prems(1) by (simp add: q)
  then have "length p \<le> length xs" by (metis length_take min.absorb_iff2 min.commute)
  then show ?case using Cons by (auto simp: q)
qed simp

lemma tiles_concat: "tiles s xs ps \<Longrightarrow> concat (map snd ps) = xs"
  by (induction s xs ps rule: tiles.induct) (auto, metis append_take_drop_id)

text \<open>The number of non-empty pieces of at least \<open>k\<close> items.\<close>

lemma tiles_count: "tiles s xs ps \<Longrightarrow> (\<forall>p \<in> set ps. k \<le> length (snd p)) \<Longrightarrow> k * length ps \<le> length xs"
proof (induction s xs ps rule: tiles.induct)
  case (2 s xs i p ps)
  have "take (length p) xs = p" using 2(2) by simp
  then have "length p \<le> length xs" by (metis length_take min.absorb_iff2 min.commute)
  then show ?case using 2 by auto
qed simp

abbreviation leaf_slices ::
  "nat \<Rightarrow> (bool list \<Rightarrow> 'c \<Rightarrow> 'c option) \<Rightarrow> bool list \<Rightarrow> nat \<Rightarrow> 'a list \<Rightarrow> 'c \<Rightarrow> (nat \<times> 'a list) list option" where
  "leaf_slices \<equiv> fork_join (\<lambda>s xs. [(s, xs)]) (@)"

text \<open>A run that joins what its leaves return is the list of the leaves, each replaced.\<close>

lemma fork_join_leaves:
  assumes "0 < floor"
  shows "\<exists>ps. leaf_slices floor decide path start items c = Some ps
    \<and> fork_join op (@) floor decide path start items c = Some (concat (map (\<lambda>(s, xs). op s xs) ps))"
proof -
  have "\<exists>ps. leaf_slices floor decide path start items c = Some ps
    \<and> fork_join op (@) floor decide path start items c = Some (concat (map (\<lambda>(s, xs). op s xs) ps))"
    by (rule fork_join_rule [OF assms]) (auto simp: fork_join_leaf intro: fork_join_node)
  then show ?thesis .
qed

lemma leaves_tile:
  assumes "0 < floor" "items \<noteq> []"
  shows "\<exists>ps. leaf_slices floor decide path start items c = Some ps \<and> tiles start items ps
    \<and> (\<forall>p \<in> set ps. min (length items) ((floor + 1) div 2) \<le> length (snd p))"
proof -
  have "\<exists>ps. leaf_slices floor decide path start items c = Some ps \<and> (items \<noteq> [] \<longrightarrow> tiles start items ps
    \<and> (\<forall>p \<in> set ps. min (length items) ((floor + 1) div 2) \<le> length (snd p)))"
    by (rule fork_join_rule [OF assms(1)]) (use assms(1) in \<open>auto intro!: tiles_append simp: min_le_iff_disj\<close>)
  then show ?thesis using assms(2) by blast
qed

text \<open>With a floor of zero a slice of one item is halved for ever: its right half is itself.\<close>

lemma fork_join_diverges_aux:
  assumes "fork_join leaf merge floor decide path start items c = Some r"
  shows "floor = 0 \<longrightarrow> (\<forall>path c. decide path c \<noteq> None) \<longrightarrow> items = []"
proof (rule fork_join.raw_induct [OF _ assms], intro impI, goal_cases)
  case (1 fj leaf merge floor decide path start items c r)
  show ?case
  proof (rule ccontr)
    assume nonempty: "items \<noteq> []"
    obtain c' where "decide path c = Some c'" using 1(4) by fastforce
    then obtain right where
      "fj leaf merge floor decide (True # path) (start + length items div 2) (drop (length items div 2) items) c'
        = Some right"
      using 1(2,3) nonempty by (auto simp: Let_def bind_eq_Some_conv)
    then have "drop (length items div 2) items = []" using 1(1,3,4) by blast
    then show False using nonempty by (cases items) auto
  qed
qed

lemma fork_join_diverges:
  assumes "\<And>path c. decide path c \<noteq> None" "items \<noteq> []"
  shows "fork_join leaf merge 0 decide path start items c = None"
  using fork_join_diverges_aux [of leaf merge 0 decide path start items c] assms
  by (cases "fork_join leaf merge 0 decide path start items c") auto

end
