(* ===== verification/Leaf_Stats.thy ===== *)
theory Leaf_Stats
  imports Plan
begin

text \<open>
  How \<open>sched/par_iter.rs\<close> times its leaves: the counter's rate, the per-thread buffer
  \<open>LocalLeafBuffer\<close> with its process half and its site half, and the samplers that decide
  which leaves carry an on-core reading. \<open>read_tsc\<close>, \<open>clock_pair\<close> and the measured rate are
  arguments; a pointer to a site is an index into the sites of the environment.
\<close>

definition update_site :: "site_ref option \<Rightarrow> (call_site \<Rightarrow> call_site) \<Rightarrow> host_env \<Rightarrow> host_env" where
  "update_site site f e =
     (case site of None \<Rightarrow> e | Some s \<Rightarrow> e\<lparr>he_sites := (he_sites e)[s := f (he_sites e ! s)]\<rparr>)"

section \<open>Counter ticks\<close>

definition HEARTBEAT_NS :: u64 where "HEARTBEAT_NS = 20000"
definition HEARTBEAT_CYCLES :: u64 where "HEARTBEAT_CYCLES = 60000"
definition LEAF_SAMPLE_STRIDE :: u32 where "LEAF_SAMPLE_STRIDE = 8"
definition FLUSH_THRESHOLD :: u64 where "FLUSH_THRESHOLD = 4"

text \<open>The quantum in ticks, from the installed rate in sixteenths (zero: none installed).\<close>

definition heartbeat_ticks :: "u64 \<Rightarrow> u64" where
  "heartbeat_ticks rate_16 =
     (if rate_16 = 0 then HEARTBEAT_CYCLES else drop_bit 4 (sat_mul HEARTBEAT_NS rate_16))"

text \<open>The best of three windows of (ticks, nanoseconds), refused outside 1 to 16 per nanosecond.\<close>

definition best_rate :: "(u64 \<times> u64) list \<Rightarrow> u64" where
  "best_rate windows =
     foldl (\<lambda>best (ticks, nanos). if nanos = 0 then best else max best (sat_mul ticks 16 div nanos)) 0 windows"

definition measure_tsc_per_ns_16 :: "(u64 \<times> u64) list \<Rightarrow> u64" where
  "measure_tsc_per_ns_16 windows =
     (let best = best_rate windows in if best < 16 \<or> 256 < best then 16 else best)"

definition tsc_per_ns_16 :: "(u64 \<times> u64) list \<Rightarrow> u64 \<Rightarrow> u64 \<times> u64" where
  "tsc_per_ns_16 windows rate_16 =
     (if rate_16 \<noteq> 0 then (rate_16, rate_16)
      else let rate = measure_tsc_per_ns_16 windows in (rate, rate))"

definition as_nanos :: "u64 \<Rightarrow> u64 \<Rightarrow> u64 \<Rightarrow> u64 \<times> u64" where
  "as_nanos per_ns_16 sum_ticks sumsq_scaled =
     (if per_ns_16 = 0 then (sum_ticks, sumsq_scaled)
      else (sat_mul sum_ticks 16 div per_ns_16,
            sat_mul sumsq_scaled 256 div max (sat_mul per_ns_16 per_ns_16) 1))"

text \<open>Squared time over items, formed in 128 bits and cut to 64.\<close>

definition per_item_square :: "u64 \<Rightarrow> u64 \<Rightarrow> u64" where
  "per_item_square nanos items =
     ucast (case checked_div (sat_mul (ucast nanos) (ucast nanos) :: u128) (push_bit 16 (ucast items)) of
              Some q \<Rightarrow> q | None \<Rightarrow> 0)"

section \<open>Spans\<close>

definition record_leaf_span_ns :: "site_ref option \<Rightarrow> u64 \<Rightarrow> u64 \<Rightarrow> host_env \<Rightarrow> host_env" where
  "record_leaf_span_ns site nanos items e =
     (let scaled = drop_bit 8 nanos
      in update_site site
           (record_batch_site_only (he_thresholds e) nanos (sat_mul scaled scaled) 1 items
             (per_item_square nanos items)) e)"

definition record_leaf_span_ticks :: "u64 \<Rightarrow> site_ref option \<Rightarrow> u64 \<Rightarrow> u64 \<Rightarrow> host_env \<Rightarrow> host_env" where
  "record_leaf_span_ticks rate site ticks items e =
     (if site \<noteq> None then record_leaf_span_ns site (fst (as_nanos rate ticks 0)) items e else e)"

section \<open>The buffer\<close>

record leaf_buffer =
  lb_global_sum_ns :: u64
  lb_global_sumsq_scaled :: u64
  lb_global_count :: u64
  lb_global_items :: u64
  lb_global_sumsq_per_item :: u64
  lb_site_sum_ns :: u64
  lb_site_sumsq_scaled :: u64
  lb_site_count :: u64
  lb_site_items :: u64
  lb_site_sumsq_per_item :: u64
  lb_site_thread_at_start :: "u64 option"
  lb_site_wall_at_start :: u64
  lb_site_oncore_sum :: u64
  lb_site_oncore_sumsq_per_item :: u64
  lb_site_oncore_items :: u64
  lb_site :: "site_ref option"

definition leaf_buffer_new :: leaf_buffer where
  "leaf_buffer_new =
     \<lparr>lb_global_sum_ns = 0, lb_global_sumsq_scaled = 0, lb_global_count = 0, lb_global_items = 0,
      lb_global_sumsq_per_item = 0, lb_site_sum_ns = 0, lb_site_sumsq_scaled = 0,
      lb_site_count = 0, lb_site_items = 0, lb_site_sumsq_per_item = 0,
      lb_site_thread_at_start = None, lb_site_wall_at_start = 0, lb_site_oncore_sum = 0,
      lb_site_oncore_sumsq_per_item = 0, lb_site_oncore_items = 0, lb_site = None\<rparr>"

type_synonym clock_pair = "u64 option \<times> u64"

definition flush_global :: "u64 \<Rightarrow> leaf_buffer \<Rightarrow> host_env \<Rightarrow> leaf_buffer \<times> host_env" where
  "flush_global rate b e =
     (if lb_global_count b = 0 then (b, e)
      else
        let (sum_ns, sumsq) = as_nanos rate (lb_global_sum_ns b) (lb_global_sumsq_scaled b);
            sumsq_per_item = snd (as_nanos rate 0 (lb_global_sumsq_per_item b))
        in (b\<lparr>lb_global_sum_ns := 0, lb_global_sumsq_scaled := 0, lb_global_count := 0,
              lb_global_items := 0, lb_global_sumsq_per_item := 0\<rparr>,
            e\<lparr>he_observer := record_leaf_batch sum_ns sumsq (lb_global_count b) (lb_global_items b)
                              sumsq_per_item (he_observer e)\<rparr>))"

text \<open>
  \<open>flush_site\<close>: the on-core share of the batch is its weight where the lever asks for one.
  The early return keeps the items and the on-core figures.
\<close>

definition flush_site ::
  "u64 \<Rightarrow> bool \<Rightarrow> clock_pair \<Rightarrow> leaf_buffer \<Rightarrow> host_env \<Rightarrow> leaf_buffer \<times> host_env" where
  "flush_site rate batch_weight now b e =
     (if lb_site_count b = 0 \<or> lb_site b = None
      then (b\<lparr>lb_site_count := 0, lb_site_sum_ns := 0, lb_site_sumsq_scaled := 0\<rparr>, e)
      else
        let (thread, wall) = now;
            (weight, e1) =
              (case (lb_site_thread_at_start b, thread) of
                 (Some start, Some stop) \<Rightarrow>
                   let on_core = sat_sub stop start;
                       elapsed = sat_sub wall (lb_site_wall_at_start b)
                   in (if batch_weight then batch_weight_per_mille on_core elapsed else None,
                       update_site (lb_site b) (add_pool_ticks on_core elapsed) e)
               | _ \<Rightarrow> (None, e));
            (sum_ns, sumsq) = as_nanos rate (lb_site_sum_ns b) (lb_site_sumsq_scaled b);
            sumsq_per_item = snd (as_nanos rate 0 (lb_site_sumsq_per_item b));
            e2 = update_site (lb_site b)
                   (record_batch_weighted (he_thresholds e) sum_ns sumsq (lb_site_count b)
                     (lb_site_items b) sumsq_per_item weight) e1;
            e3 = update_site (lb_site b)
                   (record_oncore_batch (lb_site_oncore_sum b) (lb_site_oncore_sumsq_per_item b)
                     (lb_site_oncore_items b)) e2
        in (b\<lparr>lb_site_oncore_sum := 0, lb_site_oncore_sumsq_per_item := 0, lb_site_oncore_items := 0,
              lb_site_sum_ns := 0, lb_site_sumsq_scaled := 0, lb_site_count := 0,
              lb_site_items := 0, lb_site_sumsq_per_item := 0\<rparr>, e3))"

text \<open>The two halves of \<open>add\<close>. \<open>now\<close> is the clock pair, read up to three times.\<close>

definition add_global :: "u64 \<Rightarrow> u64 \<Rightarrow> u64 \<Rightarrow> leaf_buffer \<Rightarrow> host_env \<Rightarrow> leaf_buffer \<times> host_env" where
  "add_global rate nanos items b e =
     (let scaled = drop_bit 8 nanos;
          b1 = b\<lparr>lb_global_sum_ns := sat_add (lb_global_sum_ns b) nanos,
                 lb_global_sumsq_scaled := sat_add (lb_global_sumsq_scaled b) (sat_mul scaled scaled),
                 lb_global_items := sat_add (lb_global_items b) items,
                 lb_global_sumsq_per_item :=
                   sat_add (lb_global_sumsq_per_item b) (per_item_square nanos items),
                 lb_global_count := lb_global_count b + 1\<rparr>
      in if FLUSH_THRESHOLD \<le> lb_global_count b1 then flush_global rate b1 e else (b1, e))"

text \<open>A leaf of another site flushes first; the first leaf of a batch reads the clocks.\<close>

definition retarget ::
  "u64 \<Rightarrow> bool \<Rightarrow> clock_pair \<Rightarrow> site_ref \<Rightarrow> leaf_buffer \<Rightarrow> host_env \<Rightarrow> leaf_buffer \<times> host_env" where
  "retarget rate batch_weight now s b e =
     (if lb_site b \<noteq> Some s
      then let (b1, e1) = flush_site rate batch_weight now b e in (b1\<lparr>lb_site := Some s\<rparr>, e1)
      else (b, e))"

definition accumulate :: "clock_pair \<Rightarrow> u64 \<Rightarrow> u64 \<Rightarrow> u64 option \<Rightarrow> leaf_buffer \<Rightarrow> leaf_buffer" where
  "accumulate now nanos items oncore b =
     (let scaled = drop_bit 8 nanos;
          b1 = (if lb_site_count b = 0
                then b\<lparr>lb_site_thread_at_start := fst now, lb_site_wall_at_start := snd now\<rparr> else b);
          b2 = b1\<lparr>lb_site_sum_ns := sat_add (lb_site_sum_ns b1) nanos,
                  lb_site_sumsq_scaled := sat_add (lb_site_sumsq_scaled b1) (sat_mul scaled scaled),
                  lb_site_items := sat_add (lb_site_items b1) items,
                  lb_site_sumsq_per_item :=
                    sat_add (lb_site_sumsq_per_item b1) (per_item_square nanos items)\<rparr>;
          b3 = (case oncore of
                  None \<Rightarrow> b2
                | Some ticks \<Rightarrow>
                    b2\<lparr>lb_site_oncore_sum := sat_add (lb_site_oncore_sum b2) ticks,
                       lb_site_oncore_sumsq_per_item :=
                         sat_add (lb_site_oncore_sumsq_per_item b2) (per_item_square ticks items),
                       lb_site_oncore_items := sat_add (lb_site_oncore_items b2) items\<rparr>)
      in b3\<lparr>lb_site_count := lb_site_count b3 + 1\<rparr>)"

definition add_site ::
  "u64 \<Rightarrow> bool \<Rightarrow> (nat \<Rightarrow> clock_pair) \<Rightarrow> site_ref \<Rightarrow> u64 \<Rightarrow> u64 \<Rightarrow> u64 option
    \<Rightarrow> leaf_buffer \<Rightarrow> host_env \<Rightarrow> leaf_buffer \<times> host_env" where
  "add_site rate batch_weight now s nanos items oncore b e =
     (let (b1, e1) = retarget rate batch_weight (now 0) s b e;
          b2 = accumulate (now 1) nanos items oncore b1
      in if FLUSH_THRESHOLD \<le> lb_site_count b2 then flush_site rate batch_weight (now 2) b2 e1
         else (b2, e1))"

definition add_leaf ::
  "u64 \<Rightarrow> bool \<Rightarrow> (nat \<Rightarrow> clock_pair) \<Rightarrow> site_ref option \<Rightarrow> u64 \<Rightarrow> u64 \<Rightarrow> u64 option
    \<Rightarrow> leaf_buffer \<times> host_env \<Rightarrow> leaf_buffer \<times> host_env" where
  "add_leaf rate batch_weight now site nanos items oncore be =
     (let (b, e) = add_global rate nanos items (fst be) (snd be)
      in case site of
           None \<Rightarrow> (b, e)
         | Some s \<Rightarrow> add_site rate batch_weight now s nanos items oncore b e)"

text \<open>\<open>FlushLeafStatsOnExit\<close>, and the drop of the buffer when its thread ends.\<close>

definition flush_all :: "u64 \<Rightarrow> bool \<Rightarrow> clock_pair \<Rightarrow> leaf_buffer \<times> host_env \<Rightarrow> leaf_buffer \<times> host_env" where
  "flush_all rate batch_weight now be =
     (let (b, e) = flush_global rate (fst be) (snd be) in flush_site rate batch_weight now b e)"

section \<open>Samplers\<close>

text \<open>\<open>record_leaf\<close>: the counter before and after the body, and no on-core reading.\<close>

definition record_leaf ::
  "u64 \<Rightarrow> bool \<Rightarrow> (nat \<Rightarrow> clock_pair) \<Rightarrow> site_ref option \<Rightarrow> usize \<Rightarrow> u64 \<Rightarrow> u64
    \<Rightarrow> leaf_buffer \<times> host_env \<Rightarrow> leaf_buffer \<times> host_env" where
  "record_leaf rate batch_weight now site items t0 t1 be =
     add_leaf rate batch_weight now site (t1 - t0) items None be"

definition record_leaf_on_core ::
  "u64 \<Rightarrow> bool \<Rightarrow> (nat \<Rightarrow> clock_pair) \<Rightarrow> site_ref option \<Rightarrow> usize \<Rightarrow> u64 \<Rightarrow> u64
    \<Rightarrow> u64 option \<Rightarrow> u64 option \<Rightarrow> leaf_buffer \<times> host_env \<Rightarrow> leaf_buffer \<times> host_env" where
  "record_leaf_on_core rate batch_weight now site items t0 t1 thread_before thread_after be =
     (let on_core = (case (thread_before, thread_after) of
                       (Some before, Some after) \<Rightarrow> Some (sat_sub after before) | _ \<Rightarrow> None)
      in add_leaf rate batch_weight now site (t1 - t0) items on_core be)"

definition advance_bracket_tick :: "u32 \<Rightarrow> u32 \<times> bool" where
  "advance_bracket_tick prev =
     (let v = prev + 1; take_it = LEAF_SAMPLE_STRIDE \<le> v in (if take_it then 0 else v, take_it))"

datatype leaf_timing = Untimed | Timed | Timed_on_core

text \<open>
  The two samplers of the drivers, as what they do with a leaf and with the thread's tick:
  the first times one leaf in the stride, the second times all and brackets one in the stride.
\<close>

definition record_leaf_sampled :: "bool \<Rightarrow> u32 \<Rightarrow> leaf_timing \<times> u32" where
  "record_leaf_sampled oncore_spread stride_tick =
     (let v = stride_tick + 1
      in (if LEAF_SAMPLE_STRIDE \<le> v then (if oncore_spread then Timed_on_core else Timed) else Untimed,
          if LEAF_SAMPLE_STRIDE \<le> v then 0 else v))"

definition record_leaf_bracket_sampled :: "bool \<Rightarrow> u32 \<Rightarrow> leaf_timing \<times> u32" where
  "record_leaf_bracket_sampled oncore_spread bracket_tick =
     (if \<not> oncore_spread then (Timed, bracket_tick)
      else let (next_tick, bracket) = advance_bracket_tick bracket_tick
           in (if bracket then Timed_on_core else Timed, next_tick))"

section \<open>Occupancy of a dispatch\<close>

text \<open>\<open>ReportOccupancy\<close>: the pool's ticks at the start, and what the drop files.\<close>

definition report_occupancy :: "u64 \<times> u64 \<Rightarrow> call_site \<Rightarrow> call_site" where
  "report_occupancy start s =
     (let (thread, wall) = pool_ticks s;
          elapsed = sat_sub wall (snd start)
      in if elapsed = 0 then s
         else
           let on_core = sat_sub thread (fst start);
               pct = sat_mul on_core 100 div elapsed
           in record_occupancy (ucast (min pct 100)) s)"

end
