(* ===== verification/Par_Split.thy ===== *)
theory Par_Split
  imports Tier_Pick Fork_Join Leaf_Stats
begin

text \<open>
  How \<open>sched/par_iter.rs\<close> cuts a batch: the depth to which it is cut eagerly, the floor below
  which it is not cut, and the recursive drivers that halve a slice through \<open>join_context\<close>.
\<close>

section \<open>What one dispatch reads\<close>

text \<open>
  A dispatch reads widths and measured costs of the host, clocks around the leaves it times
  on the calling thread, and, inside the recursion, whether a half moved to another worker
  and what the running worker's steal counter says. All are fields of one record, fixed for
  a run. \<open>rn_leaf_stats\<close> is what the statistics of the leaves, flushed by the workers that
  ran them (theory \<open>Leaf_Stats\<close>), do to the site by the time the dispatch returns.
\<close>

record run =
  rn_caller_site :: site_ref
  rn_total_workers :: usize
  rn_primary_workers :: usize
  rn_width_lever :: bool
  rn_allowed_width :: usize
  rn_dispatch_cost_ns :: u64
  rn_collapse_ns :: u64
  rn_trust_floor_ns :: u64
  rn_seed_hysteresis :: bool
  rn_sqrt_estimate :: "u64 \<Rightarrow> u64"
  rn_migrated :: "bool list \<Rightarrow> bool"
  rn_stolen_from :: "bool list \<Rightarrow> u64 option"
  rn_clock :: "nat \<Rightarrow> u64"
  rn_elapsed_ns :: u64
  rn_tick_rate :: u64
  rn_leaf_stats :: "call_site \<Rightarrow> call_site"

section \<open>Depth and floor\<close>

definition MIN_LEAF_ITEMS :: nat where "MIN_LEAF_ITEMS = 256"
definition TARGET_LEAF_WORK_NS :: u64 where "TARGET_LEAF_WORK_NS = 1000000"

text \<open>\<open>next_power_of_two\<close> followed by \<open>trailing_zeros\<close>.\<close>

definition ceil_log2 :: "usize \<Rightarrow> usize" where
  "ceil_log2 x = of_nat (if unat x \<le> 1 then 0 else bit_length (unat x - 1))"

definition target_leaf_count :: "u32 option \<Rightarrow> usize \<Rightarrow> usize \<Rightarrow> usize" where
  "target_leaf_count estimate items workers =
     (case estimate of
        None \<Rightarrow> workers
      | Some ns \<Rightarrow>
          if 0 < ns then min (max (sat_mul (ucast ns) items div TARGET_LEAF_WORK_NS) workers) items
          else workers)"

text \<open>
  \<open>adaptive_seed_depth\<close>: the site's hysteresis runs before the caller's own oversubscription
  is added, and the site notes the depth that comes out.
\<close>

definition adaptive_seed_depth ::
  "bool \<Rightarrow> host_env \<Rightarrow> job_plan \<Rightarrow> usize \<Rightarrow> usize \<Rightarrow> usize \<times> host_env" where
  "adaptive_seed_depth seed_hysteresis e p items workers =
     (let workers = max workers 1;
          items = max items 1;
          depth = max (ceil_log2 (target_leaf_count (jp_estimated_per_item_ns p) items workers)) (ceil_log2 workers);
          (depth, e) =
            (case jp_site p of
               Some site \<Rightarrow>
                 if seed_hysteresis
                 then let (d, s) = stabilize_seed_depth depth (he_sites e ! site)
                      in (d, e\<lparr>he_sites := (he_sites e)[site := s]\<rparr>)
                 else (depth, e)
             | None \<Rightarrow> (depth, e));
          depth = (if jp_oversubscription_log2_explicit p
                   then min (sat_add depth (ucast (effective_oversubscription_log2 p))) (ceil_log2 items)
                   else depth)
      in case jp_site p of
           Some site \<Rightarrow> (depth, e\<lparr>he_sites := (he_sites e)[site := record_seed_depth depth (he_sites e ! site)]\<rparr>)
         | None \<Rightarrow> (depth, e))"

text \<open>The pool's dispatch cost is the host's measurement, an argument here.\<close>

definition adaptive_min_leaf :: "u64 \<Rightarrow> host_env \<Rightarrow> job_plan \<Rightarrow> usize \<Rightarrow> usize" where
  "adaptive_min_leaf dispatch_cost_ns e p caller_floor =
     (if \<not> jp_estimated_per_item_ns_explicit p
      then (case Option.bind (jp_site p) (\<lambda>site. per_item_ns (he_sites e ! site)) of
              Some per \<Rightarrow>
                if 0 < per then min (max (dispatch_cost_ns div per) 1) caller_floor
                else if jp_use_smt p then 1 else caller_floor
            | None \<Rightarrow> if jp_use_smt p then 1 else caller_floor)
      else (case jp_estimated_per_item_ns p of
              Some ns \<Rightarrow>
                if 0 < ns then min (max (dispatch_cost_ns div ucast ns) 1) caller_floor else caller_floor
            | None \<Rightarrow> caller_floor))"

definition collapses_inline :: "u64 \<Rightarrow> host_env \<Rightarrow> job_plan \<Rightarrow> usize \<Rightarrow> bool" where
  "collapses_inline threshold_ns e p n =
     (if (case jp_site p of Some site \<Rightarrow> cs_collapse_overran (he_sites e ! site) | None \<Rightarrow> False) then False
      else jp_estimated_per_item_ns_explicit p
        \<and> (case effective_ns_per_elem p of
             Some per \<Rightarrow> sat_mul (ucast per) n < threshold_ns
           | None \<Rightarrow> False))"

definition runs_on_caller :: "u64 \<Rightarrow> host_env \<Rightarrow> job_plan \<Rightarrow> usize \<Rightarrow> bool" where
  "runs_on_caller threshold_ns e p n \<longleftrightarrow> capped_to_caller p \<or> collapses_inline threshold_ns e p n"

text \<open>\<open>run_on_caller\<close>: the body runs here; a collapsed one that took too long is noted.\<close>

definition run_on_caller :: "run \<Rightarrow> host_env \<Rightarrow> job_plan \<Rightarrow> host_env" where
  "run_on_caller r e p =
     (if capped_to_caller p then e
      else update_site (jp_site p) (note_collapsed_body (rn_elapsed_ns r) (rn_collapse_ns r)) e)"

text \<open>
  \<open>model_leaf\<close>: the leaf the chunk-count model asks for, at the width the plan resolves to;
  \<open>Inl\<close> where the model's square root overflows.
\<close>

definition model_leaf :: "run \<Rightarrow> host_env \<Rightarrow> job_plan \<Rightarrow> usize \<Rightarrow> overflow + usize option \<times> host_env" where
  "model_leaf r e p n =
     (if \<not> jp_estimated_per_item_ns_explicit p \<or> jp_task_overhead_ns p = None then Inr (None, e)
      else
        let (resolved, e1) = resolved_workers (rn_total_workers r) (rn_primary_workers r)
                               (rn_width_lever r) (rn_allowed_width r) e p
        in case optimal_chunk_count_for (rn_sqrt_estimate r) resolved n p of
             Inl o' \<Rightarrow> Inl o'
           | Inr None \<Rightarrow> Inr (None, e1)
           | Inr (Some chunks) \<Rightarrow>
               let c = max (ucast chunks) 1 :: usize
               in Inr (Some (n div c + (if n mod c = 0 then 0 else 1)), e1))"

text \<open>\<open>map_or(leaf, |derived| leaf.max(derived))\<close>.\<close>

definition dispatch_leaf :: "usize \<Rightarrow> usize option \<Rightarrow> usize" where
  "dispatch_leaf leaf derived = (case derived of None \<Rightarrow> leaf | Some d \<Rightarrow> max leaf d)"

text \<open>The split budget of the drivers that carry one.\<close>

definition split_budget :: "run \<Rightarrow> host_env \<Rightarrow> job_plan \<Rightarrow> usize" where
  "split_budget r e p =
     max (sat_mul (effective_workers (rn_total_workers r) p) (effective_leaves_per_worker e p)) 1"

section \<open>The drivers\<close>

definition bisect ::
  "(bool list \<Rightarrow> bool) \<Rightarrow> ('a list \<Rightarrow> 'b list) \<Rightarrow> nat \<Rightarrow> nat \<Rightarrow> nat \<Rightarrow> 'a list \<Rightarrow> 'b list option" where
  "bisect migrated op splits max_budget min_leaf items =
     fork_join (\<lambda>_. op) (@) min_leaf (replenish migrated max_budget) [] 0 items splits"

definition bisect_rayon_style ::
  "(bool list \<Rightarrow> bool) \<Rightarrow> ('a list \<Rightarrow> 'b list) \<Rightarrow> nat \<Rightarrow> nat \<Rightarrow> nat \<Rightarrow> 'a list \<Rightarrow> 'b list option" where
  "bisect_rayon_style migrated op splits workers_floor min_leaf items =
     fork_join (\<lambda>_. op) (@) min_leaf (replenish_rayon migrated workers_floor) [] 0 items splits"

definition bisect_lazy_steal_driven ::
  "(bool list \<Rightarrow> u64 option) \<Rightarrow> ('a list \<Rightarrow> 'b list) \<Rightarrow> nat \<Rightarrow> u64 \<Rightarrow> nat \<Rightarrow> 'a list \<Rightarrow> 'b list option" where
  "bisect_lazy_steal_driven stolen_from op seed seen min_leaf items =
     fork_join (\<lambda>_. op) (@) min_leaf (lazy_split stolen_from) [] 0 items (seed, seen)"

definition bisect_lazy_steal_driven_indexed ::
  "(bool list \<Rightarrow> u64 option) \<Rightarrow> (nat \<Rightarrow> 'a list \<Rightarrow> 'b list) \<Rightarrow> nat \<Rightarrow> nat \<Rightarrow> u64 \<Rightarrow> nat \<Rightarrow> 'a list \<Rightarrow> 'b list option" where
  "bisect_lazy_steal_driven_indexed stolen_from op start seed seen min_leaf items =
     fork_join op (@) min_leaf (lazy_split stolen_from) [] start items (seed, seen)"

definition bisect_indexed ::
  "(bool list \<Rightarrow> bool) \<Rightarrow> (nat \<Rightarrow> 'a list \<Rightarrow> 'b list) \<Rightarrow> nat \<Rightarrow> nat \<Rightarrow> nat \<Rightarrow> nat \<Rightarrow> 'a list \<Rightarrow> 'b list option" where
  "bisect_indexed migrated op start min_leaf splits max_budget items =
     fork_join op (@) min_leaf (replenish migrated max_budget) [] start items splits"

text \<open>The three slices of \<open>bisect_triple\<close> are cut at the same places; here they travel zipped.\<close>

definition bisect_triple ::
  "(bool list \<Rightarrow> bool) \<Rightarrow> ('a list \<Rightarrow> 'b list \<Rightarrow> 'c list \<Rightarrow> 'd list) \<Rightarrow> nat \<Rightarrow> nat \<Rightarrow> nat
    \<Rightarrow> 'a list \<Rightarrow> 'b list \<Rightarrow> 'c list \<Rightarrow> 'd list option" where
  "bisect_triple migrated op min_leaf splits max_budget out xs ys =
     fork_join (\<lambda>_ zs. op (map fst zs) (map (fst \<circ> snd) zs) (map (snd \<circ> snd) zs)) (@) min_leaf
       (replenish migrated max_budget) [] 0 (zip out (zip xs ys)) splits"

definition bisect_fixed ::
  "(bool list \<Rightarrow> bool) \<Rightarrow> ('a list \<Rightarrow> 'b list) \<Rightarrow> nat \<Rightarrow> nat \<Rightarrow> nat \<Rightarrow> 'a list \<Rightarrow> 'b list option" where
  "bisect_fixed migrated op splits max_budget chunk_size items =
     fork_join (\<lambda>_. op) (@) chunk_size (replenish migrated max_budget) [] 0 items splits"

text \<open>The leaves of \<open>collect_inner\<close> write \<open>f\<close> of the index into uninitialised cells.\<close>

definition fill_leaf :: "(nat \<Rightarrow> 'r) \<Rightarrow> nat \<Rightarrow> 'a list \<Rightarrow> 'r list" where
  "fill_leaf f start items = map (\<lambda>i. f (start + i)) [0..<length items]"

definition collect_inner ::
  "(bool list \<Rightarrow> bool) \<Rightarrow> (nat \<Rightarrow> 'r) \<Rightarrow> nat \<Rightarrow> nat \<Rightarrow> nat \<Rightarrow> nat \<Rightarrow> 'a list \<Rightarrow> 'r list option" where
  "collect_inner migrated f start min_leaf splits max_budget items =
     fork_join (fill_leaf f) (@) min_leaf (replenish migrated max_budget) [] start items splits"

definition reduce_inner ::
  "(bool list \<Rightarrow> bool) \<Rightarrow> 'r \<Rightarrow> ('r \<Rightarrow> 'a list \<Rightarrow> 'r) \<Rightarrow> ('r \<Rightarrow> 'r \<Rightarrow> 'r) \<Rightarrow> nat \<Rightarrow> nat \<Rightarrow> 'a list \<Rightarrow> 'r option" where
  "reduce_inner migrated init step reduce splits max_budget items =
     fork_join (\<lambda>_. step init) reduce MIN_LEAF_ITEMS (replenish migrated max_budget) [] 0 items splits"

end
