(* ===== verification/Par_Entry.thy ===== *)
theory Par_Entry
  imports Par_Split
begin

text \<open>
  The entry points of \<open>sched/par_iter.rs\<close> that run an operation over a slice: what they
  probe on the calling thread, which driver takes the rest, and what they file on the call
  site. An operation maps a slice to a list; the result of a run is what the operation
  returned for each slice it was handed, joined in the order of the input. The run is
  \<open>None\<close> where the recursion does not end.
\<close>

section \<open>Entering and leaving\<close>

text \<open>The site of the caller, the class the site has learned, and the arm to be measured.\<close>

definition enter_dispatch ::
  "run \<Rightarrow> host_env \<Rightarrow> job_plan \<Rightarrow> (job_plan \<times> policy_arm option) \<times> host_env" where
  "enter_dispatch r e p = apply_site_class_measured e (with_site_if_none (rn_caller_site r) p)"

text \<open>The guards, in the order they drop: leaf statistics, occupancy where it is kept, the arm.\<close>

definition leave_routing :: "run \<Rightarrow> site_ref option \<Rightarrow> policy_arm option \<Rightarrow> host_env \<Rightarrow> host_env" where
  "leave_routing r site arm e =
     (case arm of
        Some a \<Rightarrow> update_site site (record_routing_arm a (rn_elapsed_ns r)) e
      | None \<Rightarrow> e)"

definition leave_dispatch ::
  "run \<Rightarrow> site_ref option \<Rightarrow> policy_arm option \<Rightarrow> (u64 \<times> u64) option \<Rightarrow> host_env \<Rightarrow> host_env" where
  "leave_dispatch r site arm occupancy_start e =
     (let e1 = update_site site (rn_leaf_stats r) e;
          e2 = (case occupancy_start of
                  Some start \<Rightarrow> update_site site (report_occupancy start) e1 | None \<Rightarrow> e1)
      in leave_routing r site arm e2)"

section \<open>Chunks\<close>

definition PROBE_SIZE :: usize where "PROBE_SIZE = 32"
definition CONFIRM_SIZE :: nat where "CONFIRM_SIZE = 4"
definition CONFIRM_SINGLE_MAX :: nat where "CONFIRM_SINGLE_MAX = 3"

text \<open>What the probe holds: the cost per item, what the operation has returned, the items left.\<close>

type_synonym ('a, 'b) probe = "u64 \<times> 'b list \<times> 'a list"

text \<open>Single items, while the tail still looks worth a dispatch; \<open>k\<close> of them may be left to do.\<close>

fun confirm_singles ::
  "(nat \<Rightarrow> u64) \<Rightarrow> u64 \<Rightarrow> ('a list \<Rightarrow> 'b list) \<Rightarrow> nat \<Rightarrow> ('a, 'b) probe \<Rightarrow> ('a, 'b) probe" where
  "confirm_singles clock floor_ns op 0 st = st"
| "confirm_singles clock floor_ns op (Suc k) (per, out, tail) =
     (if sat_mul per (of_nat (length tail)) < floor_ns \<or> length tail \<le> 1 then (per, out, tail)
      else confirm_singles clock floor_ns op k
             (min per (max (clock (2 + k)) 1), out @ op (take 1 tail), drop 1 tail))"

definition confirm_block ::
  "(nat \<Rightarrow> u64) \<Rightarrow> u64 \<Rightarrow> ('a list \<Rightarrow> 'b list) \<Rightarrow> nat \<Rightarrow> ('a, 'b) probe \<Rightarrow> ('a, 'b) probe" where
  "confirm_block clock floor_ns op probed st =
     (let (per, out, tail) = st
      in if floor_ns \<le> sat_mul per (of_nat (length tail)) \<and> 8 \<le> probed \<and> CONFIRM_SIZE < length tail
         then (min per (max (clock 5) 1 div of_nat CONFIRM_SIZE), out @ op (take CONFIRM_SIZE tail),
               drop CONFIRM_SIZE tail)
         else st)"

text \<open>
  The first item, then (when it was too short to trust) up to \<open>probe_size\<close> more, always
  leaving one; \<open>None\<close> when the first item was the whole input.
\<close>

definition probe_prefix ::
  "run \<Rightarrow> usize \<Rightarrow> ('a list \<Rightarrow> 'b list) \<Rightarrow> 'a list \<Rightarrow> (nat \<times> u64 \<times> ('a, 'b) probe) option" where
  "probe_prefix r n op items =
     (let probe_size = unat (clamp_word 1 PROBE_SIZE (n div 8));
          first_ns = rn_clock r 0;
          after_first = drop 1 items;
          out = op (take 1 items)
      in if after_first = [] then None
         else
           let extra = min (probe_size - 1) (length after_first - 1);
               (probe_ns, probed, out, tail) =
                 (if rn_trust_floor_ns r \<le> first_ns \<or> probe_size = 1 \<or> extra = 0
                  then (first_ns, 1, out, after_first)
                  else (first_ns + rn_clock r 1, 1 + extra, out @ op (take extra after_first),
                        drop extra after_first))
           in Some (probed, first_ns, max probe_ns 1 div of_nat probed, out, tail))"

text \<open>The route of a small batch without a stated cost.\<close>

definition probe_then_bisect ::
  "run \<Rightarrow> host_env \<Rightarrow> job_plan \<Rightarrow> usize \<Rightarrow> ('a list \<Rightarrow> 'b list) \<Rightarrow> 'a list \<Rightarrow> 'b list option" where
  "probe_then_bisect r e p workers op items =
     (case probe_prefix r (of_nat (length items)) op items of
        None \<Rightarrow> Some (op (take 1 items))
      | Some (probed, first_ns, st) \<Rightarrow>
          let floor_ns = rn_collapse_ns r;
              st1 = (if probed = 1 \<and> first_ns < sat_mul floor_ns 4 \<and> unat workers \<le> length (snd (snd st))
                     then confirm_singles (rn_clock r) floor_ns op CONFIRM_SINGLE_MAX st else st);
              (per, out, tail) = confirm_block (rn_clock r) floor_ns op probed st1
          in if sat_mul per (of_nat (length tail)) < floor_ns then Some (out @ op tail)
             else
               let max_budget = split_budget r e p;
                   probe_min_leaf = (case checked_div (rn_dispatch_cost_ns r) per of
                                       Some raw \<Rightarrow> min (max raw 1) (of_nat MIN_LEAF_ITEMS)
                                     | None \<Rightarrow> of_nat MIN_LEAF_ITEMS) :: usize
               in map_option ((@) out)
                    (bisect (rn_migrated r) op (unat max_budget) (unat max_budget)
                      (unat probe_min_leaf) tail))"

text \<open>The route of every other batch, by the plan's variant.\<close>

definition bisect_by_variant ::
  "run \<Rightarrow> host_env \<Rightarrow> job_plan \<Rightarrow> usize \<Rightarrow> nat \<Rightarrow> ('a list \<Rightarrow> 'b list) \<Rightarrow> 'a list \<Rightarrow> 'b list option \<times> host_env" where
  "bisect_by_variant r e p workers leaf op items =
     (let max_budget = unat (max workers 1)
      in case jp_bisect_variant p of
           None \<Rightarrow>
             let (seed_depth, e) =
                   adaptive_seed_depth (rn_seed_hysteresis r) e p (of_nat (length items)) workers
             in (bisect_lazy_steal_driven (rn_stolen_from r) op (unat seed_depth) 0 leaf items, e)
         | Some RayonStyleReplenish \<Rightarrow>
             (bisect_rayon_style (rn_migrated r) op max_budget (unat workers) leaf items, e)
         | Some ProducerMaxLenWorkers \<Rightarrow>
             (bisect (rn_migrated r) op max_budget max_budget leaf items, e))"

definition for_each_chunk_min_leaf ::
  "run \<Rightarrow> host_env \<Rightarrow> job_plan \<Rightarrow> usize \<Rightarrow> ('a list \<Rightarrow> 'b list) \<Rightarrow> 'a list \<Rightarrow> 'b list option \<times> host_env" where
  "for_each_chunk_min_leaf r e p min_leaf op items =
     (let n = of_nat (length items) :: usize
      in if items = [] then (Some [], e)
         else
           let ((p, arm), e) = enter_dispatch r e p;
               occupancy = map_option (\<lambda>s. pool_ticks (he_sites e ! s)) (jp_site p);
               (result, e) =
                 (if runs_on_caller (rn_collapse_ns r) e p n then (Some (op items), run_on_caller r e p)
                  else
                    let workers = effective_workers (rn_total_workers r) p;
                        leaf = unat (adaptive_min_leaf (rn_dispatch_cost_ns r) e p (max min_leaf 1))
                    in if \<not> jp_estimated_per_item_ns_explicit p \<and> \<not> jp_use_smt p
                          \<and> n < sat_mul workers (of_nat MIN_LEAF_ITEMS)
                       then (probe_then_bisect r e p workers op items, e)
                       else bisect_by_variant r e p workers leaf op items)
           in (result, leave_dispatch r (jp_site p) arm occupancy e))"

definition for_each_chunk ::
  "run \<Rightarrow> host_env \<Rightarrow> job_plan \<Rightarrow> ('a list \<Rightarrow> 'b list) \<Rightarrow> 'a list \<Rightarrow> 'b list option \<times> host_env" where
  "for_each_chunk r e p op items = for_each_chunk_min_leaf r e p (of_nat MIN_LEAF_ITEMS) op items"

section \<open>Fixed chunks\<close>

text \<open>\<open>slice::chunks_mut\<close>.\<close>

fun chunks :: "nat \<Rightarrow> 'a list \<Rightarrow> 'a list list" where
  "chunks k [] = []"
| "chunks k (x # xs) = take (max k 1) (x # xs) # chunks k (drop (max k 1 - 1) xs)"

definition for_each_fixed_chunk ::
  "run \<Rightarrow> host_env \<Rightarrow> job_plan \<Rightarrow> usize \<Rightarrow> ('a list \<Rightarrow> 'b list) \<Rightarrow> 'a list \<Rightarrow> 'b list option \<times> host_env" where
  "for_each_fixed_chunk r e p chunk_size op items =
     (let n = length items
      in if items = [] then (Some [], e)
         else
           let ((p, arm), e) = enter_dispatch r e p;
               chunk = unat (max chunk_size 1);
               (result, e) =
                 (if n \<le> chunk
                  then (Some (op items), record_leaf_span_ns (jp_site p) (rn_clock r 0) (of_nat n) e)
                  else if capped_to_caller p
                  then (Some (concat (map op (chunks chunk items))), run_on_caller r e p)
                  else
                    let max_budget = max ((n + chunk - 1) div chunk) 1
                    in (bisect_fixed (rn_migrated r) op max_budget max_budget chunk items, e))
           in (result, leave_dispatch r (jp_site p) arm None e))"

definition par_map_in_place ::
  "run \<Rightarrow> host_env \<Rightarrow> job_plan \<Rightarrow> ('a \<Rightarrow> 'b) \<Rightarrow> 'a list \<Rightarrow> 'b list option \<times> host_env" where
  "par_map_in_place r e p op items = for_each_fixed_chunk r e p 1 (map op) items"

text \<open>
  \<open>par_zip_apply\<close> asserts equal lengths (\<open>Inl ()\<close>), then dispatches over the indices.
\<close>

definition par_zip_apply ::
  "run \<Rightarrow> host_env \<Rightarrow> job_plan \<Rightarrow> ('a \<Rightarrow> 'u \<Rightarrow> 'b) \<Rightarrow> 'a list \<Rightarrow> 'u list
    \<Rightarrow> unit + ('b list option \<times> host_env)" where
  "par_zip_apply r e p op lhs rhs =
     (if length lhs \<noteq> length rhs then Inl ()
      else if lhs = [] then Inr (Some [], e)
      else Inr (for_each_fixed_chunk r e p 1 (map (\<lambda>i. op (lhs ! i) (rhs ! i))) [0..<length lhs]))"

section \<open>Indexed chunks\<close>

definition PROBE_SIZE_FLOOR :: usize where "PROBE_SIZE_FLOOR = 16"
definition PROBE_MIN_N :: usize where "PROBE_MIN_N = 64"
definition PROBE_SMALL_MIN_N :: usize where "PROBE_SMALL_MIN_N = 2"

text \<open>How many items the probe of the indexed entries may take; \<open>2 * leaf\<close> is the code's, wrapping.\<close>

definition probe_quota :: "job_plan \<Rightarrow> usize \<Rightarrow> usize \<Rightarrow> usize" where
  "probe_quota p leaf n =
     (if jp_estimated_per_item_ns_explicit p \<or> jp_use_smt p then 0
      else if max PROBE_MIN_N leaf \<le> n then min (max PROBE_SIZE_FLOOR leaf) n
      else if max PROBE_SMALL_MIN_N (2 * leaf) \<le> n then leaf
      else 0)"

text \<open>
  The probe of \<open>n\<close> items: how many ran, and the cost per item it found. It takes one leaf,
  then (when that was too short to trust) up to the quota, always leaving one item.
\<close>

definition probe_indexed :: "run \<Rightarrow> nat \<Rightarrow> nat \<Rightarrow> nat \<Rightarrow> nat \<times> nat \<times> u32" where
  "probe_indexed r leaf quota n =
     (let first_n = min leaf quota;
          first_ns = rn_clock r 0;
          extra = min (quota - first_n) (n - first_n - 1);
          (probe_ns, extra) =
            (if rn_trust_floor_ns r \<le> first_ns \<or> quota \<le> first_n \<or> extra = 0 then (first_ns, 0)
             else (first_ns + rn_clock r 1, extra))
      in (first_n, extra,
          ucast (min (max probe_ns 1 div of_nat (first_n + extra)) (ucast (- 1 :: u32)))))"

definition for_each_chunk_indexed_min_leaf ::
  "run \<Rightarrow> host_env \<Rightarrow> job_plan \<Rightarrow> usize \<Rightarrow> (nat \<Rightarrow> 'a list \<Rightarrow> 'b list) \<Rightarrow> 'a list
    \<Rightarrow> overflow + ('b list option \<times> host_env)" where
  "for_each_chunk_indexed_min_leaf r e p min_leaf op items =
     (let n = of_nat (length items) :: usize
      in if items = [] then Inr (Some [], e)
         else
           let ((p, arm), e) = enter_dispatch r e p;
               finish = (\<lambda>(result, e). (result, leave_dispatch r (jp_site p) arm None e))
           in if runs_on_caller (rn_collapse_ns r) e p n
              then Inr (finish (Some (op 0 items), run_on_caller r e p))
              else
                let leaf = max min_leaf 1;
                    workers = effective_workers (rn_total_workers r) p;
                    quota = probe_quota p leaf n;
                    (p', out, tail, start) =
                      (if 0 < quota
                       then let (first_n, extra, per) = probe_indexed r (unat leaf) (unat quota) (length items);
                                rest = drop first_n items
                            in (with_estimated_per_item_ns e per p,
                                op 0 (take first_n items) @ (if extra = 0 then [] else op first_n (take extra rest)),
                                drop extra rest, first_n + extra)
                       else (p, [], items, 0))
                in if tail = [] then Inr (finish (Some out, e))
                   else case model_leaf r e p' (of_nat (length tail)) of
                     Inl o' \<Rightarrow> Inl o'
                   | Inr (derived, e) \<Rightarrow>
                       let floor = unat (dispatch_leaf leaf derived)
                       in (case jp_bisect_variant p' of
                             None \<Rightarrow>
                               let (seed_depth, e) =
                                     adaptive_seed_depth (rn_seed_hysteresis r) e p' (of_nat (length tail)) workers
                               in Inr (finish (map_option ((@) out)
                                    (bisect_lazy_steal_driven_indexed (rn_stolen_from r) op start
                                      (unat seed_depth) 0 floor tail), e))
                           | Some _ \<Rightarrow>
                               let max_budget = unat (split_budget r e p')
                               in Inr (finish (map_option ((@) out)
                                    (bisect_indexed (rn_migrated r) op start floor max_budget max_budget tail), e))))"

definition for_each_chunk_indexed ::
  "run \<Rightarrow> host_env \<Rightarrow> job_plan \<Rightarrow> (nat \<Rightarrow> 'a list \<Rightarrow> 'b list) \<Rightarrow> 'a list
    \<Rightarrow> overflow + ('b list option \<times> host_env)" where
  "for_each_chunk_indexed r e p op items =
     for_each_chunk_indexed_min_leaf r e p
       (adaptive_min_leaf (rn_dispatch_cost_ns r) e p (of_nat MIN_LEAF_ITEMS)) op items"

definition for_each_indexed ::
  "run \<Rightarrow> host_env \<Rightarrow> job_plan \<Rightarrow> nat \<Rightarrow> usize \<Rightarrow> (nat \<Rightarrow> 'b) \<Rightarrow> overflow + ('b list option \<times> host_env)" where
  "for_each_indexed r e p n min_leaf f =
     (if n = 0 then Inr (Some [], e)
      else for_each_chunk_indexed_min_leaf r e p min_leaf
             (\<lambda>start chunk. map f [start..<start + length chunk]) (replicate n ()))"

text \<open>\<open>for_each_chunk_ref\<close>: one index per chunk of the read-only slice.\<close>

definition ref_chunk :: "nat \<Rightarrow> 'a list \<Rightarrow> nat \<Rightarrow> nat \<times> 'a list" where
  "ref_chunk width items i =
     (let lo = i * width; hi = min (lo + width) (length items)
      in (lo, take (hi - lo) (drop lo items)))"

definition for_each_chunk_ref ::
  "run \<Rightarrow> host_env \<Rightarrow> job_plan \<Rightarrow> 'a list \<Rightarrow> usize \<Rightarrow> (nat \<Rightarrow> 'a list \<Rightarrow> 'b)
    \<Rightarrow> overflow + ('b list option \<times> host_env)" where
  "for_each_chunk_ref r e p items min_leaf f =
     (let n = length items
      in if n = 0 then Inr (Some [], e)
         else
           let width = unat (max min_leaf 1);
               n_chunks = (n + width - 1) div width
           in for_each_indexed r e p n_chunks 1 (\<lambda>i. let (lo, chunk) = ref_chunk width items i in f lo chunk))"

section \<open>Three slices\<close>

text \<open>\<open>Inl (Inl ())\<close> is the failed assertion on the lengths, \<open>Inl (Inr _)\<close> the model's overflow.\<close>

definition for_each_chunk_triple_min_leaf ::
  "run \<Rightarrow> host_env \<Rightarrow> job_plan \<Rightarrow> usize \<Rightarrow> ('a list \<Rightarrow> 'b list \<Rightarrow> 'c list \<Rightarrow> 'd list)
    \<Rightarrow> 'a list \<Rightarrow> 'b list \<Rightarrow> 'c list \<Rightarrow> (unit + overflow) + ('d list option \<times> host_env)" where
  "for_each_chunk_triple_min_leaf r e p min_leaf op out xs ys =
     (if length out \<noteq> length xs \<or> length out \<noteq> length ys then Inl (Inl ())
      else
        let n = of_nat (length out) :: usize
        in if out = [] then Inr (Some [], e)
           else
             let ((p, arm), e) = enter_dispatch r e p;
                 finish = (\<lambda>(result, e). (result, leave_dispatch r (jp_site p) arm None e))
             in if runs_on_caller (rn_collapse_ns r) e p n
                then Inr (finish (Some (op out xs ys), run_on_caller r e p))
                else case model_leaf r e p n of
                  Inl o' \<Rightarrow> Inl (Inr o')
                | Inr (derived, e) \<Rightarrow>
                    let floor = unat (dispatch_leaf (max min_leaf 1) derived);
                        max_budget = unat (split_budget r e p)
                    in Inr (finish (bisect_triple (rn_migrated r) op floor max_budget max_budget out xs ys, e)))"

definition for_each_chunk_triple ::
  "run \<Rightarrow> host_env \<Rightarrow> job_plan \<Rightarrow> ('a list \<Rightarrow> 'b list \<Rightarrow> 'c list \<Rightarrow> 'd list)
    \<Rightarrow> 'a list \<Rightarrow> 'b list \<Rightarrow> 'c list \<Rightarrow> (unit + overflow) + ('d list option \<times> host_env)" where
  "for_each_chunk_triple r e p op out xs ys =
     for_each_chunk_triple_min_leaf r e p
       (adaptive_min_leaf (rn_dispatch_cost_ns r) e p (of_nat MIN_LEAF_ITEMS)) op out xs ys"

end
