(* ===== verification/Par_Collect.thy ===== *)
theory Par_Collect
  imports Par_Entry
begin

text \<open>
  The entry points of \<open>sched/par_iter.rs\<close> that build a vector of \<open>f(0), ..., f(n - 1)\<close>, and
  those that fold a slice to one value. A driver fills cells of an uninitialised buffer; the
  buffer is here the list of what was written, in order.
\<close>

section \<open>Indexed collect\<close>

definition HEARTBEAT_GATE_ITEMS :: nat where "HEARTBEAT_GATE_ITEMS = 100000"
definition HEARTBEAT_MIN_ITEMS :: nat where "HEARTBEAT_MIN_ITEMS = 4096"
definition TOKEN_BUCKET_PROMOTE :: u64 where "TOKEN_BUCKET_PROMOTE = 20000"
definition POLL_MASK :: nat where "POLL_MASK = 0x1F"

definition collect_indexed ::
  "run \<Rightarrow> host_env \<Rightarrow> job_plan \<Rightarrow> nat \<Rightarrow> usize \<Rightarrow> (nat \<Rightarrow> 'b) \<Rightarrow> 'b list option \<times> host_env" where
  "collect_indexed r e p n min_leaf f =
     (if n = 0 then (Some [], e)
      else
        let ((p, arm), e) = enter_dispatch r e p;
            (result, e) =
              (if capped_to_caller p then (Some (map f [0..<n]), run_on_caller r e p)
               else
                 let leaf = max min_leaf 1;
                     max_budget = unat (split_budget r e p);
                     quota = probe_quota p leaf (of_nat n);
                     (out, start) =
                       (if 0 < quota
                        then let (first_n, extra, per) = probe_indexed r (unat leaf) (unat quota) n
                             in (map f [0..<first_n] @ map f [first_n..<first_n + extra], first_n + extra)
                        else ([], 0))
                 in (if start < n
                     then map_option ((@) out)
                            (collect_inner (rn_migrated r) f start (unat leaf) max_budget max_budget
                              (replicate (n - start) ()))
                     else Some out, e))
        in (result, leave_dispatch r (jp_site p) arm None e))"

definition serial_collect_indexed :: "nat \<Rightarrow> (nat \<Rightarrow> 'b) \<Rightarrow> 'b list" where
  "serial_collect_indexed n f = map f [0..<n]"

text \<open>A stated cost settles the two polling entries at once: serial below the quantum, else collect.\<close>

definition collect_indexed_tiny_tasks ::
  "run \<Rightarrow> host_env \<Rightarrow> job_plan \<Rightarrow> nat \<Rightarrow> (nat \<Rightarrow> 'b) \<Rightarrow> overflow + ('b list option \<times> host_env)" where
  "collect_indexed_tiny_tasks r e p n f =
     (if n = 0 then Inr (Some [], e)
      else if capped_to_caller p then Inr (collect_indexed r e p n 1 f)
      else
        case optimal_chunk_count (rn_sqrt_estimate r) (effective_workers (rn_total_workers r) p) p of
          Inl o' \<Rightarrow> Inl o'
        | Inr chunk_count \<Rightarrow>
            let min_leaf = (case chunk_count of
                              Some c \<Rightarrow> if 0 < c then max (of_nat n div ucast c) 1 else 1
                            | None \<Rightarrow> 1)
            in Inr (collect_indexed r e p n min_leaf f))"

section \<open>Heartbeat\<close>

definition heartbeat_arm :: "host_env \<Rightarrow> site_ref \<Rightarrow> u64 option \<Rightarrow> nat \<Rightarrow> policy_arm \<times> host_env" where
  "heartbeat_arm e site cv2 n =
     (let s = he_sites e ! site
      in case cv2 of
           Some c \<Rightarrow>
             if c < cv2_high_per_mille (he_thresholds e) then (Default_arm, e)
             else let (arm, s1) = choose_arm (HEARTBEAT_MIN_ITEMS \<le> n) s
                  in (arm, e\<lparr>he_sites := (he_sites e)[site := s1]\<rparr>)
         | None \<Rightarrow>
             if leaves_under_spread_unit s then (Default_arm, e)
             else if n < HEARTBEAT_GATE_ITEMS then (Default_arm, e)
             else (Alternative_arm, e))"

definition fill_serial :: "(nat \<Rightarrow> 'b) \<Rightarrow> nat \<Rightarrow> nat \<Rightarrow> 'b list" where
  "fill_serial f start n = map (\<lambda>i. f (start + i)) [0..<n]"

text \<open>
  The loop of \<open>heartbeat_fill\<close> up to its promotion: the first count of items written at which
  it polls, has two leaves left, and finds the quantum over (\<open>ticked\<close>).
\<close>

definition promotes_at :: "(nat \<Rightarrow> bool) \<Rightarrow> nat \<Rightarrow> nat \<Rightarrow> bool" where
  "promotes_at ticked n i \<longleftrightarrow> i AND POLL_MASK = 0 \<and> 2 * MIN_LEAF_ITEMS \<le> n - i \<and> ticked i"

lemma find_Some_in: "find P xs = Some x \<Longrightarrow> x \<in> set xs \<and> P x"
  by (induction xs) (auto split: if_splits)

function heartbeat_fill :: "(bool list \<Rightarrow> nat \<Rightarrow> bool) \<Rightarrow> (nat \<Rightarrow> 'b) \<Rightarrow> bool list \<Rightarrow> nat \<Rightarrow> nat \<Rightarrow> 'b list" where
  "heartbeat_fill ticked f path start n =
     (if n = 0 then []
      else if n \<le> MIN_LEAF_ITEMS then fill_serial f start n
      else case find (promotes_at (ticked path) n) [1..<Suc n] of
             None \<Rightarrow> fill_serial f start n
           | Some i \<Rightarrow>
               let mid = (n - i) div 2
               in fill_serial f start i
                  @ heartbeat_fill ticked f (False # path) (start + i) mid
                  @ heartbeat_fill ticked f (True # path) (start + i + mid) (n - i - mid))"
  by pat_completeness auto
termination
  by (relation "measure (\<lambda>(_, _, _, _, n). n)") (auto dest!: find_Some_in)

declare heartbeat_fill.simps [simp del]

definition collect_indexed_heartbeat ::
  "run \<Rightarrow> (bool list \<Rightarrow> nat \<Rightarrow> bool) \<Rightarrow> host_env \<Rightarrow> job_plan \<Rightarrow> nat \<Rightarrow> (nat \<Rightarrow> 'b)
    \<Rightarrow> 'b list option \<times> host_env" where
  "collect_indexed_heartbeat r ticked e p n f =
     (if n = 0 then (Some [], e)
      else
        let ((p, route), e) = enter_dispatch r e p;
            (result, e) =
              (if capped_to_caller p then (Some (map f [0..<n]), run_on_caller r e p)
               else case (jp_estimated_per_item_ns_explicit p, estimated_total_ns p) of
                 (True, Some total_ns) \<Rightarrow>
                   if total_ns < HEARTBEAT_NS then (Some (serial_collect_indexed n f), e)
                   else collect_indexed r e p n 1 f
               | _ \<Rightarrow>
                   let site = the (jp_site p);
                       cv2 = site_cv2_per_mille (he_sites e ! site);
                       (arm, e) = heartbeat_arm e site cv2 n;
                       (result, e) = (if arm = Default_arm then collect_indexed r e p n 1 f
                                      else (Some (heartbeat_fill ticked f [] 0 n), update_site (Some site) (rn_leaf_stats r) e))
                   in (result, if cv2 = None then e
                               else update_site (Some site) (record_arm arm (rn_elapsed_ns r)) e))
        in (result, leave_routing r (jp_site p) route e))"

section \<open>Token bucket\<close>

text \<open>
  The loop of \<open>token_bucket_fill\<close> with \<open>k\<close> items to go and \<open>i\<close> written: where it promotes, if
  it does. The last branch restarts the count; \<open>i + 1 < n\<close> never leaves it to be taken.
\<close>

fun token_promotion ::
  "(nat \<Rightarrow> u32) \<Rightarrow> (nat \<Rightarrow> bool) \<Rightarrow> nat \<Rightarrow> nat \<Rightarrow> nat \<Rightarrow> nat \<Rightarrow> u64 \<Rightarrow> nat option" where
  "token_promotion tokens ticked start n 0 i acc = None"
| "token_promotion tokens ticked start n (Suc k) i acc =
     (let acc = sat_add acc (ucast (tokens (start + i)));
          i = i + 1;
          token_trip = TOKEN_BUCKET_PROMOTE \<le> acc;
          tick_trip = (i AND POLL_MASK = 0 \<and> ticked i)
      in if (token_trip \<or> tick_trip) \<and> i + 1 < n
         then (if 2 \<le> n - i then Some i else token_promotion tokens ticked start n k i 0)
         else token_promotion tokens ticked start n k i acc)"

definition token_bucket_fill ::
  "run \<Rightarrow> host_env \<Rightarrow> job_plan \<Rightarrow> (nat \<Rightarrow> u32) \<Rightarrow> (nat \<Rightarrow> bool) \<Rightarrow> (nat \<Rightarrow> 'b) \<Rightarrow> nat \<Rightarrow> nat
    \<Rightarrow> 'b list option" where
  "token_bucket_fill r e p tokens ticked f start n =
     (if n = 0 then Some []
      else
        let max_budget = unat (split_budget r e p)
        in case token_promotion tokens ticked start n n 0 0 of
             None \<Rightarrow> Some (fill_serial f start n)
           | Some i \<Rightarrow>
               map_option ((@) (fill_serial f start i))
                 (collect_inner (rn_migrated r) f (start + i) 1 max_budget max_budget (replicate (n - i) ())))"

definition collect_indexed_token_bucket ::
  "run \<Rightarrow> (nat \<Rightarrow> bool) \<Rightarrow> host_env \<Rightarrow> job_plan \<Rightarrow> nat \<Rightarrow> (nat \<Rightarrow> u32) \<Rightarrow> (nat \<Rightarrow> 'b)
    \<Rightarrow> 'b list option \<times> host_env" where
  "collect_indexed_token_bucket r ticked e p n tokens f =
     (if n = 0 then (Some [], e)
      else
        let ((p, arm), e) = enter_dispatch r e p;
            (result, e) =
              (if capped_to_caller p then (Some (map f [0..<n]), run_on_caller r e p)
               else case (jp_estimated_per_item_ns_explicit p, estimated_total_ns p) of
                 (True, Some total_ns) \<Rightarrow>
                   if total_ns < HEARTBEAT_NS then (Some (serial_collect_indexed n f), e)
                   else collect_indexed r e p n 1 f
               | _ \<Rightarrow>
                   if n < HEARTBEAT_GATE_ITEMS then collect_indexed r e p n 1 f
                   else (token_bucket_fill r e p tokens ticked f 0 n, update_site (jp_site p) (rn_leaf_stats r) e))
        in (result, leave_routing r (jp_site p) arm e))"

section \<open>Reduction\<close>

datatype reduce_chunks_path = Path_Flat | Path_Bisect | Path_Caller

text \<open>The chunks of the flat shape: equal ones and a shorter last.\<close>

definition flat_chunks :: "nat \<Rightarrow> 'a list \<Rightarrow> 'a list list" where
  "flat_chunks n_chunks items =
     (let len = length items;
          chunk_size = (len + n_chunks - 1) div n_chunks;
          n_real = (len + chunk_size - 1) div chunk_size
      in map (\<lambda>i. take (min chunk_size (len - i * chunk_size)) (drop (i * chunk_size) items)) [0..<n_real])"

fun pair_up :: "('r \<Rightarrow> 'r \<Rightarrow> 'r) \<Rightarrow> 'r list \<Rightarrow> 'r list" where
  "pair_up reduce (a # b # rest) = reduce a b # pair_up reduce rest"
| "pair_up reduce rest = rest"

lemma pair_up_length: "length (pair_up reduce rs) = (length rs + 1) div 2"
  by (induction reduce rs rule: pair_up.induct) auto

text \<open>
  The rounds of \<open>tree_reduce_in_parallel\<close>: the odd last result is taken off, the rest merged
  in pairs, the odd one put back behind. \<open>None\<close> is the panic on no result.
\<close>

definition merge_round :: "('r \<Rightarrow> 'r \<Rightarrow> 'r) \<Rightarrow> 'r list \<Rightarrow> 'r list" where
  "merge_round reduce results =
     (if length results mod 2 = 1
      then pair_up reduce (butlast results) @ [last results]
      else pair_up reduce results)"

function tree_reduce_in_parallel :: "('r \<Rightarrow> 'r \<Rightarrow> 'r) \<Rightarrow> 'r list \<Rightarrow> 'r option" where
  "tree_reduce_in_parallel reduce results =
     (if 1 < length results then tree_reduce_in_parallel reduce (merge_round reduce results)
      else case results of [] \<Rightarrow> None | r # _ \<Rightarrow> Some r)"
  by pat_completeness auto
termination
proof (relation "measure (\<lambda>(_, rs). length rs)")
  show "((reduce, merge_round reduce rs), reduce, rs) \<in> measure (\<lambda>(_, rs). length rs)"
    if "1 < length rs" for reduce :: "'r \<Rightarrow> 'r \<Rightarrow> 'r" and rs
    using that by (simp add: merge_round_def pair_up_length) presburger
qed simp

declare tree_reduce_in_parallel.simps [simp del]

definition reduce_chunks_flat ::
  "'r \<Rightarrow> ('r \<Rightarrow> 'a list \<Rightarrow> 'r) \<Rightarrow> ('r \<Rightarrow> 'r \<Rightarrow> 'r) \<Rightarrow> nat \<Rightarrow> 'a list \<Rightarrow> 'r option" where
  "reduce_chunks_flat init step reduce n_chunks items =
     tree_reduce_in_parallel reduce (map (step init) (flat_chunks n_chunks items))"

text \<open>
  One timed merge of two folds of a prefix, while the site wants samples. The merge's value
  is dropped; \<open>cycles\<close> is the counter's reading.
\<close>

definition sample_reduce_cost :: "u64 \<Rightarrow> site_ref \<Rightarrow> nat \<Rightarrow> host_env \<Rightarrow> host_env" where
  "sample_reduce_cost cycles site n e =
     (if reduce_cost_wants_sample (he_sites e ! site) \<and> 0 < min MIN_LEAF_ITEMS n
      then update_site (Some site) (record_reduce_cost_sample cycles) e else e)"

text \<open>
  \<open>chunks_env\<close> and \<open>flat_enabled\<close> are the two environment variables the call reads.
\<close>

definition reduce_chunks ::
  "run \<Rightarrow> nat option \<Rightarrow> bool \<Rightarrow> host_env \<Rightarrow> job_plan \<Rightarrow> 'a list \<Rightarrow> 'r \<Rightarrow> ('r \<Rightarrow> 'a list \<Rightarrow> 'r)
    \<Rightarrow> ('r \<Rightarrow> 'r \<Rightarrow> 'r) \<Rightarrow> ('r option \<times> reduce_chunks_path) \<times> host_env" where
  "reduce_chunks r chunks_env flat_enabled e p items init step reduce =
     (let p = with_site_if_none (rn_caller_site r) p
      in if capped_to_caller p
         then ((Some (step init items), Path_Caller), run_on_caller r e p)
         else
           let site = the (jp_site p);
               max_budget = (case chunks_env of
                               Some k \<Rightarrow> if 1 \<le> k then k else unat (split_budget r e p)
                             | None \<Rightarrow> unat (split_budget r e p));
               e = sample_reduce_cost (rn_clock r 0) site (length items) e;
               observed_trivial = (case reduce_cost_avg_cycles (he_sites e ! site) of
                                     Some avg \<Rightarrow> avg < trivial_reduce_cycles (he_thresholds e)
                                   | None \<Rightarrow> False)
           in if flat_enabled \<and> observed_trivial \<and> max_budget * MIN_LEAF_ITEMS \<le> length items
              then ((reduce_chunks_flat init step reduce max_budget items, Path_Flat), e)
              else ((reduce_inner (rn_migrated r) init step reduce max_budget max_budget items, Path_Bisect), e))"

end
