(* ===== verification/Par_Laws.thy ===== *)
theory Par_Laws
  imports Par_Collect
begin

text \<open>
  What the parallel entry points compute. The drivers cut a slice where scheduling tells them
  to, so the laws are stated for every answer of the oracles: an operation that treats a slice
  as the join of its parts gives what it gives on the whole slice.
\<close>

section \<open>Operations that do not see the cuts\<close>

lemma concat_map_slicewise: "slicewise (\<lambda>_. \<lambda>xs. concat (map g xs)) (@)"
  by unfold_locales simp

interpretation elementwise: slicewise "\<lambda>_ xs. concat (map g xs)" "(@)" for g :: "'a \<Rightarrow> 'b list"
  by (rule concat_map_slicewise)

lemma fill_leaf_alt: "fill_leaf f s xs = map f [s..<s + length xs]"
  by (rule nth_equalityI) (simp_all add: fill_leaf_def)

lemma map_upt_split: "a \<le> b \<Longrightarrow> b \<le> c \<Longrightarrow> map f [a..<b] @ map f [b..<c] = map f [a..<c]"
  by (metis le_add_diff_inverse map_append upt_add_eq_append)

interpretation filling: slicewise "fill_leaf f :: nat \<Rightarrow> 'a list \<Rightarrow> 'r list" "(@)" for f
  by unfold_locales (simp add: fill_leaf_alt map_upt_split add.assoc)

section \<open>Floors\<close>

lemma one_le_iff_unat: "1 \<le> (x :: usize) \<longleftrightarrow> 0 < unat x"
  by (metis unat_gt_0 word_less_1 not_le order_less_irrefl)

lemma unat_max_one_pos [simp]: "0 < unat (max (x :: usize) 1)"
  by (simp add: one_le_iff_unat [symmetric])

lemma adaptive_min_leaf_pos: "0 < unat floor \<Longrightarrow> 0 < unat (adaptive_min_leaf cost e p floor)"
  by (auto simp: adaptive_min_leaf_def one_le_iff_unat [symmetric] split: option.splits)

lemma split_budget_pos: "0 < unat (split_budget r e p)"
  by (simp add: split_budget_def)

section \<open>Collecting\<close>

lemma probe_quota_le:
  assumes "unat leaf < 2 ^ 63"
  shows "unat (probe_quota p leaf (of_nat n)) \<le> n"
proof -
  have n: "unat (of_nat n :: usize) \<le> n" by (simp add: unat_of_nat)
  have "unat (2 * leaf) = 2 * unat leaf" using assms by (simp add: unat_word_ariths)
  then have "2 * leaf \<le> of_nat n \<longrightarrow> leaf \<le> of_nat n" by (simp add: word_le_nat_alt)
  then have "probe_quota p leaf (of_nat n) \<le> of_nat n" by (auto simp: probe_quota_def)
  then show ?thesis using n by (simp add: word_le_nat_alt)
qed

lemma probe_indexed_range:
  assumes "probe_indexed r leaf quota n = (first_n, extra, per)" "quota \<le> n" "0 < n"
  shows "first_n \<le> n" "first_n + extra \<le> n"
  using assms by (auto simp: probe_indexed_def Let_def split: if_splits)

lemma collect_inner_is_map:
  "0 < floor \<Longrightarrow> collect_inner migrated f start floor splits m (replicate k ()) = Some (map f [start..<start + k])"
  by (simp add: collect_inner_def filling.cut_anywhere fill_leaf_alt)

lemma collect_indexed_is_map:
  assumes "unat min_leaf < 2 ^ 63"
  shows "fst (collect_indexed r e p n min_leaf f) = Some (map f [0..<n])"
proof (cases "n = 0")
  case False
  obtain p' arm e' where enter: "enter_dispatch r e p = ((p', arm), e')" by (metis prod.exhaust)
  define quota where "quota = unat (probe_quota p' (max min_leaf 1) (of_nat n))"
  have "unat (max min_leaf 1) < 2 ^ 63" using assms by (simp add: max_def)
  then have q: "quota \<le> n" unfolding quota_def by (rule probe_quota_le)
  obtain first_n extra per where probe: "probe_indexed r (unat (max min_leaf 1)) quota n = (first_n, extra, per)"
    by (metis prod.exhaust)
  note range = probe_indexed_range [OF probe q]
  show ?thesis
    using False range
    by (simp add: collect_indexed_def enter Let_def quota_def [symmetric] probe collect_inner_is_map map_upt_split)
qed (simp add: collect_indexed_def)


lemma fill_serial_alt: "fill_serial f start n = map f [start..<start + n]"
  by (rule nth_equalityI) (simp_all add: fill_serial_def)

lemma heartbeat_fill_is_map: "heartbeat_fill ticked f path start n = map f [start..<start + n]"
proof (induction ticked f path start n rule: heartbeat_fill.induct)
  case (1 ticked f path start n)
  show ?case
  proof (cases "n \<le> MIN_LEAF_ITEMS \<or> find (promotes_at (ticked path) n) [1..<Suc n] = None")
    case True
    then show ?thesis by (subst heartbeat_fill.simps) (auto simp: fill_serial_alt simp del: upt_Suc)
  next
    case False
    then obtain i where i: "find (promotes_at (ticked path) n) [1..<Suc n] = Some i"
      and n: "\<not> n \<le> MIN_LEAF_ITEMS" by auto
    from i have "i \<le> n" by (auto dest!: find_Some_in)
    then show ?thesis
      using 1 [OF _ n i refl] n i
      by (subst heartbeat_fill.simps)
        (simp add: Let_def fill_serial_alt map_upt_split del: upt_Suc)
  qed
qed

lemma token_promotion_range: "token_promotion tokens ticked start n k i acc = Some j \<Longrightarrow> j < n"
  by (induction tokens ticked start n k i acc rule: token_promotion.induct)
    (auto simp: Let_def split: if_splits)

lemma token_bucket_fill_is_map: "token_bucket_fill r e p tokens ticked f start n = Some (map f [start..<start + n])"
  by (auto simp: token_bucket_fill_def Let_def fill_serial_alt collect_inner_is_map map_upt_split
      dest!: token_promotion_range split: option.splits)

lemma collect_indexed_heartbeat_is_map:
  "fst (collect_indexed_heartbeat r ticked e p n f) = Some (map f [0..<n])"
proof -
  have one: "fst (collect_indexed r e' p' n 1 f) = Some (map f [0..<n])" for e' p'
    by (rule collect_indexed_is_map) simp
  show ?thesis
    by (auto simp: collect_indexed_heartbeat_def Let_def one heartbeat_fill_is_map serial_collect_indexed_def
        case_prod_beta split: option.splits bool.splits if_splits)
qed


lemma collect_indexed_token_bucket_is_map:
  "fst (collect_indexed_token_bucket r ticked e p n tokens f) = Some (map f [0..<n])"
proof -
  have one: "fst (collect_indexed r e' p' n 1 f) = Some (map f [0..<n])" for e' p'
    by (rule collect_indexed_is_map) simp
  show ?thesis
    by (auto simp: collect_indexed_token_bucket_def Let_def one token_bucket_fill_is_map
        serial_collect_indexed_def case_prod_beta split: option.splits bool.splits if_splits)
qed

lemma collect_indexed_tiny_tasks_is_map:
  assumes "n < 2 ^ 63" "collect_indexed_tiny_tasks r e p n f = Inr (result, e')"
  shows "result = Some (map f [0..<n])"
proof -
  have "unat (of_nat n div w :: usize) < 2 ^ 63" for w
    using assms(1) by (simp add: unat_div unat_of_nat) (metis div_le_dividend le_less_trans mod_less_eq_dividend)
  then have "unat (max (of_nat n div w) (1 :: usize)) < 2 ^ 63" for w by (simp add: max_def)
  then have "fst (collect_indexed r e p n (max (of_nat n div w) 1) f) = Some (map f [0..<n])"
    "fst (collect_indexed r e p n 1 f) = Some (map f [0..<n])" for w
    by (simp_all add: collect_indexed_is_map)
  then show ?thesis
    using assms(2) unfolding collect_indexed_tiny_tasks_def
    by (auto simp: Let_def split: if_splits sum.splits option.splits) (metis fst_conv)+
qed

section \<open>Running over a slice\<close>

abbreviation each :: "('a \<Rightarrow> 'b list) \<Rightarrow> 'a list \<Rightarrow> 'b list" where
  "each g xs \<equiv> concat (map g xs)"

lemma each_take_drop: "each g (take k xs) @ each g (drop k xs) = each g xs"
  by (metis append_take_drop_id concat_append map_append)

lemma bisect_each: "0 < floor \<Longrightarrow> bisect migrated (each g) splits m floor items = Some (each g items)"
  by (simp add: bisect_def elementwise.cut_anywhere)

lemma bisect_rayon_style_each:
  "0 < floor \<Longrightarrow> bisect_rayon_style migrated (each g) splits m floor items = Some (each g items)"
  by (simp add: bisect_rayon_style_def elementwise.cut_anywhere)

lemma bisect_lazy_steal_driven_each:
  "0 < floor \<Longrightarrow> bisect_lazy_steal_driven stolen (each g) seed seen floor items = Some (each g items)"
  by (simp add: bisect_lazy_steal_driven_def elementwise.cut_anywhere)

lemma bisect_fixed_each:
  "0 < floor \<Longrightarrow> bisect_fixed migrated (each g) splits m floor items = Some (each g items)"
  by (simp add: bisect_fixed_def elementwise.cut_anywhere)

definition probe_value :: "('a \<Rightarrow> 'b list) \<Rightarrow> ('a, 'b) probe \<Rightarrow> 'b list" where
  "probe_value g st = fst (snd st) @ each g (snd (snd st))"

lemma confirm_singles_keeps:
  "probe_value g (confirm_singles clock floor_ns (each g) k st) = probe_value g st"
proof (induction clock floor_ns "each g" k st rule: confirm_singles.induct)
  case (2 clock floor_ns k per out tail)
  then show ?case using each_take_drop [of g 1 tail] by (auto simp: probe_value_def)
qed simp

lemma confirm_block_keeps: "probe_value g (confirm_block clock floor_ns (each g) probed st) = probe_value g st"
  using each_take_drop [of g CONFIRM_SIZE "snd (snd st)"]
  by (auto simp: confirm_block_def probe_value_def split: prod.splits)

lemma probe_prefix_keeps:
  "probe_prefix r n (each g) items = Some (probed, first_ns, per, out, tail) \<Longrightarrow> out @ each g tail = each g items"
  "probe_prefix r n (each g) items = None \<Longrightarrow> each g (take 1 items) = each g items"
  using each_take_drop [of g 1 items] each_take_drop [of g _ "drop 1 items"]
  by (auto simp: probe_prefix_def Let_def split: if_splits)


lemma probe_then_bisect_each: "probe_then_bisect r e p workers (each g) items = Some (each g items)"
proof (cases "probe_prefix r (of_nat (length items)) (each g) items")
  case None
  then show ?thesis using probe_prefix_keeps(2) [OF None] by (simp add: probe_then_bisect_def)
next
  case (Some found)
  obtain probed first_ns st where found: "found = (probed, first_ns, st)" by (metis prod.exhaust)
  have st: "probe_value g st = each g items"
    using probe_prefix_keeps(1) Some unfolding found probe_value_def by (metis prod.collapse)
  define st1 where "st1 = (if probed = 1 \<and> first_ns < sat_mul (rn_collapse_ns r) 4 \<and> unat workers \<le> length (snd (snd st))
    then confirm_singles (rn_clock r) (rn_collapse_ns r) (each g) CONFIRM_SINGLE_MAX st else st)"
  obtain per out tail where block: "confirm_block (rn_clock r) (rn_collapse_ns r) (each g) probed st1 = (per, out, tail)"
    by (metis prod.exhaust)
  have "probe_value g st1 = each g items" using st by (simp add: st1_def confirm_singles_keeps)
  then have "probe_value g (per, out, tail) = each g items"
    using confirm_block_keeps [of g "rn_clock r" "rn_collapse_ns r" probed st1] by (simp add: block)
  then have tail: "out @ each g tail = each g items" by (simp add: probe_value_def)
  have floor: "0 < unat (case checked_div (rn_dispatch_cost_ns r) per of
      Some raw \<Rightarrow> min (max raw 1) (of_nat MIN_LEAF_ITEMS) | None \<Rightarrow> (of_nat MIN_LEAF_ITEMS :: usize))"
    by (auto simp: one_le_iff_unat [symmetric] MIN_LEAF_ITEMS_def split: option.splits)
  show ?thesis
    unfolding probe_then_bisect_def Some option.case found prod.case Let_def st1_def [symmetric] block
    using floor tail by (simp add: bisect_each)
qed

lemma for_each_chunk_min_leaf_each: "fst (for_each_chunk_min_leaf r e p min_leaf (each g) items) = Some (each g items)"
proof -
  have floor: "0 < unat (adaptive_min_leaf c e' p' (max min_leaf 1))" for c e' p'
    by (rule adaptive_min_leaf_pos) simp
  show ?thesis
    using floor
    by (auto simp: for_each_chunk_min_leaf_def bisect_by_variant_def Let_def case_prod_beta probe_then_bisect_each bisect_each
        bisect_rayon_style_each bisect_lazy_steal_driven_each split: option.splits bisect_variant.splits if_splits)
qed

lemma concat_chunks: "concat (chunks k xs) = xs"
proof (induction k xs rule: chunks.induct)
  case (2 k x xs)
  then show ?case
    using append_take_drop_id [of "max k 1" "x # xs"] by (auto simp: drop_Cons' max_def)
qed simp

lemma each_concat: "concat (map (each g) xss) = each g (concat xss)"
  by (induction xss) simp_all

lemma for_each_fixed_chunk_each: "fst (for_each_fixed_chunk r e p chunk_size (each g) items) = Some (each g items)"
  by (auto simp: for_each_fixed_chunk_def Let_def case_prod_beta each_concat concat_chunks bisect_fixed_each
      split: if_splits)

lemma each_singleton: "each (\<lambda>x. [g x]) = map g"
  by (rule ext) (simp add: concat_map_singleton)

lemma par_map_in_place_map: "fst (par_map_in_place r e p g items) = Some (map g items)"
  using for_each_fixed_chunk_each [of r e p 1 "\<lambda>x. [g x]" items]
  by (simp add: par_map_in_place_def each_singleton)

lemma par_zip_apply_map2:
  "length lhs = length rhs \<Longrightarrow> \<exists>e'. par_zip_apply r e p g lhs rhs = Inr (Some (map2 g lhs rhs), e')"
proof -
  assume len: "length lhs = length rhs"
  have "map (\<lambda>i. g (lhs ! i) (rhs ! i)) [0..<length lhs] = map2 g lhs rhs"
    by (rule nth_equalityI) (simp_all add: len)
  then have "fst (for_each_fixed_chunk r e p 1 (map (\<lambda>i. g (lhs ! i) (rhs ! i))) [0..<length lhs])
      = Some (map2 g lhs rhs)"
    using for_each_fixed_chunk_each [of r e p 1 "\<lambda>i. [g (lhs ! i) (rhs ! i)]" "[0..<length lhs]"]
    by (simp add: each_singleton)
  then show ?thesis using len by (auto simp: par_zip_apply_def) (metis prod.collapse)
qed


section \<open>Indexed slices\<close>

lemma indexed_cut:
  assumes "slicewise op (@)" "0 < floor"
  shows "bisect_lazy_steal_driven_indexed stolen op start seed seen floor items = Some (op start items)"
    and "bisect_indexed migrated op start floor splits m items = Some (op start items)"
  using slicewise.cut_anywhere [OF assms]
  by (simp_all add: bisect_lazy_steal_driven_indexed_def bisect_indexed_def)

lemma slicewise_prefix:
  assumes "slicewise op (@)" "0 < k" "k + m < length items"
  shows "(op 0 (take k items) @ (if m = 0 then [] else op k (take m (drop k items))))
    @ op (k + m) (drop m (drop k items)) = op (0 :: nat) items"
proof -
  note merge = slicewise.merge_leaf [OF assms(1)]
  have k: "length (take k items) = k" "take k items \<noteq> []" "drop k items \<noteq> []" using assms by auto
  have whole: "op 0 (take k items) @ op k (drop k items) = op 0 items"
    using merge [OF k(2,3), of 0] k(1) by simp
  show ?thesis
  proof (cases "m = 0")
    case False
    have "length (take m (drop k items)) = m" "take m (drop k items) \<noteq> []" "drop m (drop k items) \<noteq> []"
      using assms False by auto
    then have "op k (take m (drop k items)) @ op (k + m) (drop m (drop k items)) = op k (drop k items)"
      using merge [of "take m (drop k items)" "drop m (drop k items)" k] by (simp del: drop_drop)
    then show ?thesis using whole False by simp
  qed (use whole in simp)
qed

lemma probe_indexed_pos:
  assumes "probe_indexed r leaf quota n = (first_n, extra, per)" "0 < leaf" "0 < quota"
  shows "0 < first_n" "first_n < n \<Longrightarrow> first_n + extra < n"
  using assms by (auto simp: probe_indexed_def Let_def split: if_splits)

lemma dispatch_leaf_pos: "0 < unat leaf \<Longrightarrow> 0 < unat (dispatch_leaf leaf derived)"
  by (auto simp: dispatch_leaf_def one_le_iff_unat [symmetric] le_max_iff_disj split: option.splits)

lemma for_each_chunk_indexed_min_leaf_cut:
  assumes op: "slicewise op (@)" and leaf: "unat min_leaf < 2 ^ 63" and items: "items \<noteq> []"
    and run: "for_each_chunk_indexed_min_leaf r e p min_leaf op items = Inr (result, e')"
  shows "result = Some (op 0 items)"
proof -
  obtain p' arm e1 where enter: "enter_dispatch r e p = ((p', arm), e1)" by (metis prod.exhaust)
  define quota where "quota = probe_quota p' (max min_leaf 1) (of_nat (length items))"
  have "unat (max min_leaf 1) < 2 ^ 63" using leaf by (simp add: max_def)
  then have q: "unat quota \<le> length items" unfolding quota_def by (rule probe_quota_le)
  have floor: "0 < unat (dispatch_leaf (max min_leaf 1) derived)" for derived
    by (rule dispatch_leaf_pos) simp
  note cut = indexed_cut [OF op floor]
  obtain first_n extra per where probe:
    "probe_indexed r (unat (max min_leaf 1)) (unat quota) (length items) = (first_n, extra, per)"
    by (metis prod.exhaust)
  note range = probe_indexed_range [OF probe q]
  note run = run [unfolded for_each_chunk_indexed_min_leaf_def Let_def enter prod.case
      quota_def [symmetric] probe]
  consider (caller) "runs_on_caller (rn_collapse_ns r) e1 p' (of_nat (length items))"
    | (probed) "\<not> runs_on_caller (rn_collapse_ns r) e1 p' (of_nat (length items))" "0 < quota"
    | (plain) "\<not> runs_on_caller (rn_collapse_ns r) e1 p' (of_nat (length items))" "quota = 0"
    using word_gt_0 by blast
  then show ?thesis
  proof cases
    case caller
    then show ?thesis using run items by simp
  next
    case probed
    then have pos: "0 < unat quota" by (simp add: unat_gt_0 word_gt_0)
    let ?out = "op 0 (take first_n items) @ (if extra = 0 then [] else op first_n (take extra (drop first_n items)))"
    note first = probe_indexed_pos [OF probe _ pos]
    show ?thesis
    proof (cases "first_n + extra < length items")
      case True
      then have "\<not> length items - first_n \<le> extra" by simp
      then show ?thesis
        using run items probed pos cut slicewise_prefix [OF op first(1) True]
        by (auto simp del: drop_drop split: sum.splits option.splits prod.splits)
    next
      case False
      moreover have "0 < length items" using items by simp
      moreover note first(2) [OF unat_max_one_pos] range
      ultimately have "first_n = length items" "extra = 0" by linarith+
      then show ?thesis using run items probed pos by (auto simp: split: sum.splits)
    qed
  next
    case plain
    then show ?thesis using run items cut
      by (auto split: sum.splits option.splits prod.splits)
  qed
qed


lemma for_each_indexed_is_map:
  assumes "unat min_leaf < 2 ^ 63" "for_each_indexed r e p n min_leaf f = Inr (result, e')"
  shows "result = Some (map f [0..<n])"
proof (cases "n = 0")
  case False
  have "slicewise (\<lambda>start (chunk :: unit list). map f [start..<start + length chunk]) (@)"
    by unfold_locales (simp add: map_upt_split add.assoc)
  from for_each_chunk_indexed_min_leaf_cut [OF this assms(1), of "replicate n ()" r e p result e'] show ?thesis
    using assms(2) False by (simp add: for_each_indexed_def)
qed (use assms(2) in \<open>simp add: for_each_indexed_def\<close>)

text \<open>The chunks of \<open>for_each_chunk_ref\<close> lie end to end over the slice.\<close>

lemma ceil_div_less: "0 < w \<Longrightarrow> i < (n + w - 1) div w \<longleftrightarrow> i * w < (n :: nat)"
  using less_eq_div_iff_mult_less_eq [of w "Suc i" "n + w - 1"] by auto

lemma ref_chunks_tile:
  assumes w: "0 < w"
  shows "tiles 0 items (map (ref_chunk w items) [0..<(length items + w - 1) div w])"
proof -
  have chunk: "ref_chunk w items i = (i * w, take w (drop (i * w) items))" for i
    by (simp add: ref_chunk_def Let_def min_def)
  have "tiles (i * w) (drop (i * w) items)
      (map (ref_chunk w items) [i..<(length items + w - 1) div w])" for i
  proof (induction "(length items + w - 1) div w - i" arbitrary: i)
    case 0
    then show ?case using ceil_div_less [OF w, of i "length items"] by simp
  next
    case (Suc k)
    then have i: "i < (length items + w - 1) div w" by simp
    then have lt: "i * w < length items" using ceil_div_less [OF w] by blast
    have ih: "tiles (Suc i * w) (drop (Suc i * w) items)
        (map (ref_chunk w items) [Suc i..<(length items + w - 1) div w])"
      using Suc.hyps(1) [of "Suc i"] Suc.hyps(2) by simp
    show ?case
    proof (cases "Suc i * w \<le> length items")
      case True
      then show ?thesis
        using ih i lt w by (simp add: upt_conv_Cons chunk add.commute)
    next
      case False
      then have "\<not> Suc i < (length items + w - 1) div w" using ceil_div_less [OF w, of "Suc i" "length items"] by simp
      then show ?thesis using False lt i by (simp add: upt_conv_Cons chunk add.commute)
    qed
  qed
  from this [of 0] show ?thesis by simp
qed

lemma for_each_chunk_ref_tiles:
  assumes "for_each_chunk_ref r e p items min_leaf (\<lambda>lo chunk. (lo, chunk)) = Inr (result, e')"
  shows "\<exists>ps. result = Some ps \<and> tiles 0 items ps"
proof (cases "items = []")
  case False
  define w where "w = unat (max min_leaf 1)"
  have eta: "(\<lambda>i. let (lo, chunk) = ref_chunk w items i in (lo, chunk)) = ref_chunk w items"
    by (simp add: Let_def)
  show ?thesis
    using assms False for_each_indexed_is_map [of 1 r e p "(length items + w - 1) div w" "ref_chunk w items" result e']
      ref_chunks_tile [of w items]
    by (simp add: for_each_chunk_ref_def Let_def eta flip: w_def) (simp add: w_def)
qed (use assms in \<open>auto simp: for_each_chunk_ref_def\<close>)

section \<open>Three slices\<close>

lemma for_each_chunk_triple_min_leaf_cut:
  assumes "\<And>xs xs' ys ys' zs zs'. length xs = length ys \<Longrightarrow> length xs = length zs \<Longrightarrow>
      op xs ys zs @ op xs' ys' zs' = op (xs @ xs') (ys @ ys') (zs @ zs')"
    and "length out = length xs" "length out = length ys" "out \<noteq> []"
    and "for_each_chunk_triple_min_leaf r e p min_leaf op out xs ys = Inr (result, e')"
  shows "result = Some (op out xs ys)"
proof -
  have "slicewise (\<lambda>_ zs. op (map fst zs) (map (fst \<circ> snd) zs) (map (snd \<circ> snd) zs)) (@)"
    by unfold_locales (simp add: assms(1))
  note cut = slicewise.cut_anywhere [OF this]
  have triple: "bisect_triple migrated op floor splits m out xs ys = Some (op out xs ys)" if "0 < floor"
    for migrated floor splits m
    unfolding bisect_triple_def cut [OF that]
    using assms(2,3) by (simp add: map_fst_zip map_snd_zip flip: map_map)
  show ?thesis
    using assms(2-5) triple
    by (auto simp: for_each_chunk_triple_min_leaf_def Let_def dispatch_leaf_pos case_prod_beta
        split: if_splits sum.splits)
qed

end
