(* ===== verification/Par_Leaves.thy ===== *)
theory Par_Leaves
  imports Par_Laws
begin

text \<open>
  Reduction, and the shapes of the recursions of \<open>sched/par_iter.rs\<close>: how small and how large
  a leaf may come out, how many leaves a budget or a seed depth buys, and what a statistic
  batched per thread adds up to.
\<close>

section \<open>Reduction\<close>

lemma pair_up_map:
  assumes "\<And>xs ys. xs \<noteq> [] \<Longrightarrow> ys \<noteq> [] \<Longrightarrow> reduce (g xs) (g ys) = g (xs @ ys)"
  shows "\<forall>c \<in> set cs. c \<noteq> [] \<Longrightarrow> pair_up reduce (map g cs) = map g (pair_up (@) cs)"
  by (induction "(@) :: 'a list \<Rightarrow> 'a list \<Rightarrow> 'a list" cs rule: pair_up.induct) (auto simp: assms)

lemma pair_up_append:
  "concat (pair_up (@) cs) = concat cs"
  "\<forall>c \<in> set cs. c \<noteq> [] \<Longrightarrow> \<forall>c \<in> set (pair_up (@) cs). c \<noteq> []"
  by (induction "(@) :: 'a list \<Rightarrow> 'a list \<Rightarrow> 'a list" cs rule: pair_up.induct) auto

lemma merge_round_map:
  assumes "\<And>xs ys. xs \<noteq> [] \<Longrightarrow> ys \<noteq> [] \<Longrightarrow> reduce (g xs) (g ys) = g (xs @ ys)"
    and "\<forall>c \<in> set cs. c \<noteq> []"
  shows "merge_round reduce (map g cs) = map g (merge_round (@) cs)"
proof (cases "cs = []")
  case False
  have "\<forall>c \<in> set (butlast cs). c \<noteq> []" using assms(2) by (auto dest: in_set_butlastD)
  then show ?thesis
    using False assms(2) pair_up_map [where reduce = reduce and g = g, OF assms(1)]
    by (simp add: merge_round_def last_map flip: map_butlast)
qed (simp add: merge_round_def)

lemma merge_round_append:
  "concat (merge_round (@) cs) = concat cs"
  "\<forall>c \<in> set cs. c \<noteq> [] \<Longrightarrow> \<forall>c \<in> set (merge_round (@) cs). c \<noteq> []"
  "cs \<noteq> [] \<Longrightarrow> merge_round (@) cs \<noteq> []"
proof -
  show "concat (merge_round (@) cs) = concat cs"
  proof (cases "length cs mod 2 = 1")
    case True
    then have "cs = butlast cs @ [last cs]" by (metis append_butlast_last_id list.size(3) mod_0 zero_neq_one)
    then have "concat cs = concat (butlast cs) @ last cs" by (metis concat.simps concat_append append_Nil2)
    then show ?thesis using True by (simp add: merge_round_def pair_up_append(1))
  qed (simp add: merge_round_def pair_up_append(1))
  show "\<forall>c \<in> set (merge_round (@) cs). c \<noteq> []" if nonempty: "\<forall>c \<in> set cs. c \<noteq> []"
  proof (cases "cs = []")
    case False
    have "\<forall>c \<in> set (butlast cs). c \<noteq> []" using nonempty by (auto dest: in_set_butlastD)
    then show ?thesis using nonempty False pair_up_append(2) by (auto simp: merge_round_def)
  qed (simp add: merge_round_def)
  show "cs \<noteq> [] \<Longrightarrow> merge_round (@) cs \<noteq> []"
    using pair_up_length [of "(@)" cs] by (auto simp: merge_round_def)
qed

lemma tree_reduce_cut:
  assumes hom: "\<And>xs ys. xs \<noteq> [] \<Longrightarrow> ys \<noteq> [] \<Longrightarrow> reduce (g xs) (g ys) = g (xs @ ys)"
  shows "cs \<noteq> [] \<Longrightarrow> \<forall>c \<in> set cs. c \<noteq> [] \<Longrightarrow>
    tree_reduce_in_parallel reduce (map g cs) = Some (g (concat cs))"
proof (induction "length cs" arbitrary: cs rule: less_induct)
  case less
  show ?case
  proof (cases "1 < length cs")
    case True
    have "length (merge_round (@) cs) < length cs"
      using True by (simp add: merge_round_def pair_up_length) presburger
    then show ?thesis
      using less True merge_round_append [of cs] merge_round_map [where reduce = reduce and g = g, OF hom less.prems(2)]
      by (subst tree_reduce_in_parallel.simps) simp
  next
    case False
    then obtain c where "cs = [c]" using less.prems(1) by (cases cs) auto
    then show ?thesis by (subst tree_reduce_in_parallel.simps) simp
  qed
qed

lemma tiles_nonempty: "tiles s xs ps \<Longrightarrow> c \<in> set (map snd ps) \<Longrightarrow> c \<noteq> []"
  by (induction s xs ps rule: tiles.induct) auto

lemma flat_chunks_cut:
  assumes "0 < k" "items \<noteq> []"
  shows "concat (flat_chunks k items) = items" "\<forall>c \<in> set (flat_chunks k items). c \<noteq> []"
    "flat_chunks k items \<noteq> []"
proof -
  define w where "w = (length items + k - 1) div k"
  have w: "0 < w" using assms ceil_div_less [of k 0 "length items"] by (simp add: w_def)
  have chunks: "flat_chunks k items = map snd (map (ref_chunk w items) [0..<(length items + w - 1) div w])"
    unfolding flat_chunks_def Let_def w_def [symmetric] by (simp add: ref_chunk_def Let_def min_def add.commute)
  note tiling = ref_chunks_tile [OF w, of items]
  show "concat (flat_chunks k items) = items" using tiles_concat [OF tiling] by (simp add: chunks)
  show "\<forall>c \<in> set (flat_chunks k items). c \<noteq> []" using tiles_nonempty [OF tiling] unfolding chunks by blast
  show "flat_chunks k items \<noteq> []" using \<open>concat _ = items\<close> assms(2) by auto
qed

section \<open>Leaf sizes\<close>

text \<open>A driver run with \<open>\<lambda>xs. [xs]\<close> lists the slices it hands to the operation.\<close>

lemma pieces_of_leaves:
  assumes "0 < floor"
  shows "\<exists>ps. leaf_slices floor decide [] 0 items c = Some ps
    \<and> fork_join (\<lambda>_ xs. [xs]) (@) floor decide [] 0 items c = Some (map snd ps)"
  using fork_join_leaves [OF assms, of decide "[]" 0 items c "\<lambda>_ xs. [xs]"]
  by (metis (no_types, lifting) concat_map_singleton case_prod_beta' map_eq_conv)

lemma pieces_sizes:
  assumes "0 < floor" "items \<noteq> []" "fork_join (\<lambda>_ xs. [xs]) (@) floor decide [] 0 items c = Some cs"
  shows "concat cs = items"
    and "\<forall>p \<in> set cs. min (length items) ((floor + 1) div 2) \<le> length p"
    and "min (length items) ((floor + 1) div 2) * length cs \<le> length items"
proof -
  obtain ps where ps: "leaf_slices floor decide [] 0 items c = Some ps" "cs = map snd ps"
    using pieces_of_leaves [OF assms(1), of decide items c] assms(3) by auto
  then have t: "tiles 0 items ps" "\<forall>p \<in> set ps. min (length items) ((floor + 1) div 2) \<le> length (snd p)"
    using leaves_tile [OF assms(1,2), of decide "[]" 0 c] by auto
  show "concat cs = items" using tiles_concat [OF t(1)] ps(2) by simp
  show "\<forall>p \<in> set cs. min (length items) ((floor + 1) div 2) \<le> length p" using t(2) ps(2) by simp
  show "min (length items) ((floor + 1) div 2) * length cs \<le> length items"
    using tiles_count [OF t] ps(2) by simp
qed

text \<open>
  The budget of a fixed-chunk run is the number of chunks, and halving it keeps pace with
  halving the slice only up to rounding: no leaf has more than two chunks of items.
\<close>

lemma fixed_chunk_pieces:
  assumes chunk: "0 < chunk" and budget: "length items \<le> chunk * (b + 1)" "b \<le> m"
  shows "\<exists>cs. fork_join (\<lambda>_ xs. [xs]) (@) chunk (replenish migrated m) path s items b = Some cs
    \<and> (\<forall>p \<in> set cs. length p \<le> 2 * chunk)"
proof -
  have "\<exists>cs. fork_join (\<lambda>_ xs. [xs]) (@) chunk (replenish migrated m) path s items b = Some cs
    \<and> (length items \<le> chunk * (b + 1) \<longrightarrow> b \<le> m \<longrightarrow> (\<forall>p \<in> set cs. length p \<le> 2 * chunk))"
  proof (rule fork_join_rule [OF chunk], goal_cases)
    case (1 path start items b)
    show ?case
    proof (intro impI ballI)
      fix p assume prem: "length items \<le> chunk * (b + 1)" "b \<le> m" "p \<in> set [items]"
      then consider "length items \<le> chunk" | "b \<le> 1"
        using 1 by (auto simp: replenish_def Let_def split: if_splits)
      then show "length p \<le> 2 * chunk"
      proof cases
        case 2
        then have "chunk * (b + 1) \<le> chunk * 2" by (intro mult_le_mono) auto
        with prem(1) have "length items \<le> chunk * 2" by (rule order_trans)
        then show ?thesis using prem(3) by simp
      qed (use prem in simp)
    qed
  next
    case (2 path start xs ys b b' l r)
    show ?case
    proof (intro impI)
      assume prem: "length (xs @ ys) \<le> chunk * (b + 1)" "b \<le> m"
      obtain cur where cur: "b \<le> cur" "cur \<le> m" "b' = cur div 2"
        using 2(4) prem(2) by (auto simp: replenish_def Let_def split: if_splits)
      have "length xs + length ys \<le> chunk * (cur + 1)"
        using order_trans [OF prem(1) mult_le_mono2 [of "b + 1" "cur + 1" chunk]] cur(1) by simp
      moreover have "chunk * (cur + 1) \<le> chunk * (2 * b' + 2)" using cur(3) by (intro mult_le_mono) auto
      ultimately have "length xs + length ys \<le> 2 * (chunk * (b' + 1))" by (simp add: algebra_simps)
      then have "length xs \<le> chunk * (b' + 1)" "length ys \<le> chunk * (b' + 1)" using 2(2,3) by linarith+
      moreover have "b' \<le> m" using cur by simp
      ultimately show "\<forall>p \<in> set (l @ r). length p \<le> 2 * chunk" using 2(5,6) by auto
    qed
  qed
  then show ?thesis using budget by blast
qed

lemma bisect_fixed_pieces:
  assumes "0 < chunk"
  shows "\<exists>cs. bisect_fixed migrated (\<lambda>xs. [xs]) ((length items + chunk - 1) div chunk)
      ((length items + chunk - 1) div chunk) chunk items = Some cs
    \<and> (\<forall>p \<in> set cs. length p \<le> 2 * chunk)"
proof -
  have "\<not> (length items + chunk - 1) div chunk * chunk < length items"
    using ceil_div_less [OF assms, of "(length items + chunk - 1) div chunk" "length items"] by simp
  then have "length items \<le> chunk * ((length items + chunk - 1) div chunk + 1)"
    by (simp add: mult.commute)
  then show ?thesis unfolding bisect_fixed_def by (rule fixed_chunk_pieces [OF assms]) simp
qed

text \<open>Without a move, a budget of \<open>b\<close> buys at most \<open>b\<close> leaves.\<close>

lemma budget_bounds_leaves:
  assumes "0 < floor"
  shows "\<exists>ps. leaf_slices floor (replenish (\<lambda>_. False) m) path s items b = Some ps \<and> length ps \<le> max 1 b"
  by (rule fork_join_rule [OF assms]) (auto simp: replenish_def Let_def split: if_splits)

text \<open>
  On a pool where nothing is stolen, a seed depth whose slices all stay above the floor buys
  exactly its power of two.
\<close>

lemma seed_buys_leaves:
  assumes "0 < floor" and quiet: "\<And>path. stolen path = Some seen"
    and long: "0 < seed \<Longrightarrow> floor < length items div 2 ^ (seed - 1)"
  shows "\<exists>ps. leaf_slices floor (lazy_split stolen) path s items (seed, seen) = Some ps \<and> length ps = 2 ^ seed"
proof -
  have "\<exists>ps. leaf_slices floor (lazy_split stolen) path s items (seed, seen) = Some ps
    \<and> (snd (seed, seen) = seen \<longrightarrow> (0 < fst (seed, seen) \<longrightarrow> floor < length items div 2 ^ (fst (seed, seen) - 1))
      \<longrightarrow> length ps = 2 ^ fst (seed, seen))"
  proof (rule fork_join_rule [OF assms(1)], goal_cases)
    case (1 path start items c)
    obtain d sn where c: "c = (d, sn)" by (metis prod.exhaust)
    have "d = 0" if "sn = seen" "0 < d \<longrightarrow> floor < length items div 2 ^ (d - 1)"
    proof (rule ccontr)
      assume "d \<noteq> 0"
      then have "length items \<le> floor" "floor < length items div 2 ^ (d - 1)"
        using 1 that by (auto simp: lazy_split_def c)
      then show False using div_le_dividend [of "length items" "2 ^ (d - 1)"] by linarith
    qed
    then show ?case by (auto simp: c)
  next
    case (2 path start xs ys c c' l r)
    obtain d sn where c: "c = (d, sn)" by (metis prod.exhaust)
    show ?case
    proof (intro impI)
      assume prem: "snd c = seen" "0 < fst c \<longrightarrow> floor < length (xs @ ys) div 2 ^ (fst c - 1)"
      then have d: "0 < d" "c' = (d - 1, seen)"
        using 2(4) by (auto simp: lazy_split_def quiet c split: if_splits)
      have "floor < length xs div 2 ^ (d - 1 - 1)" if "0 < d - 1"
      proof -
        have "(2 :: nat) ^ (d - 1) = 2 * 2 ^ (d - 1 - 1)" using that by (cases "d - 1") auto
        then have "length (xs @ ys) div 2 ^ (d - 1) = (length xs + length ys) div 2 div 2 ^ (d - 1 - 1)"
          by (simp add: div_mult2_eq)
        moreover have "(length xs + length ys) div 2 = length xs" using 2(2,3) by linarith
        ultimately show ?thesis using prem(2) d(1) c by simp
      qed
      then have half: "0 < d - 1 \<longrightarrow> floor < length zs div 2 ^ (d - 1 - 1)" if "length xs \<le> length zs" for zs :: "'a list"
        using that div_le_mono [OF that, of "2 ^ (d - 1 - 1)"] by auto
      have "length l = 2 ^ (d - 1)" "length r = 2 ^ (d - 1)"
        using 2(5,6) half [of xs] half [OF 2(2)] by (simp_all add: d(2))
      then show "length (l @ r) = 2 ^ fst c" using d(1) by (cases d) (auto simp: c)
    qed
  qed
  then show ?thesis using long by simp
qed

end
