(* ===== verification/Leaf_Laws.thy ===== *)
theory Leaf_Laws
  imports Leaf_Stats Call_Site_Laws
begin

text \<open>
  What the per-thread leaf buffer promises: a leaf is counted once by the process and once by
  its site, at the latest when the buffer is flushed, and the buffer never holds a full batch.
\<close>

lemma ob_leaf_tick [simp]: "ob_leaf (tick_auto_classify ob) = ob_leaf ob"
  by (simp add: tick_auto_classify_def auto_decide_def Let_def split: prod.splits option.splits)

lemma ls_count_batch [simp]:
  "ls_count (ob_leaf (record_leaf_batch sum_ns sumsq cnt items sq ob)) = ls_count (ob_leaf ob) + cnt"
  by (simp add: record_leaf_batch_def Let_def)

lemma cs_leaf_tick [simp]: "cs_leaf (site_tick t s) = cs_leaf s"
  by (simp add: site_tick_def Let_def split: prod.splits option.splits)

lemma sc_count_frame [simp]:
  "sc_count (cs_leaf (record_batch_weighted t a b cnt items sq w s)) = sc_count (cs_leaf s) + cnt"
  "sc_count (cs_leaf (record_oncore_batch x y z s)) = sc_count (cs_leaf s)"
  "sc_count (cs_leaf (add_pool_ticks x y s)) = sc_count (cs_leaf s)"
  by (simp_all add: record_batch_weighted_def record_oncore_batch_def add_pool_ticks_def Let_def)

lemma update_site_frame [simp]:
  "he_observer (update_site site f e) = he_observer e"
  "length (he_sites (update_site site f e)) = length (he_sites e)"
  by (simp_all add: update_site_def split: option.splits)

lemma update_site_nth:
  "s < length (he_sites e) \<Longrightarrow>
    he_sites (update_site site f e) ! s = (if site = Some s then f (he_sites e ! s) else he_sites e ! s)"
  by (auto simp: update_site_def nth_list_update split: option.splits)

section \<open>What is counted or still buffered\<close>

definition process_leaves :: "leaf_buffer \<times> host_env \<Rightarrow> u64" where
  "process_leaves be = ls_count (ob_leaf (he_observer (snd be))) + lb_global_count (fst be)"

definition site_leaves :: "site_ref \<Rightarrow> leaf_buffer \<times> host_env \<Rightarrow> u64" where
  "site_leaves s be =
     sc_count (cs_leaf (he_sites (snd be) ! s)) + (if lb_site (fst be) = Some s then lb_site_count (fst be) else 0)"

definition buffer_ok :: "leaf_buffer \<Rightarrow> bool" where
  "buffer_ok b \<longleftrightarrow> lb_global_count b < FLUSH_THRESHOLD \<and> lb_site_count b < FLUSH_THRESHOLD
     \<and> (lb_site b = None \<longrightarrow> lb_site_count b = 0)"

named_theorems buffer_step "what a step of the buffer does to the counts"

lemma flush_global_counts [buffer_step]:
  "process_leaves (flush_global rate b e) = process_leaves (b, e)"
  "site_leaves s (flush_global rate b e) = site_leaves s (b, e)"
  "lb_global_count (fst (flush_global rate b e)) = 0"
  "lb_site_count (fst (flush_global rate b e)) = lb_site_count b"
  "lb_site (fst (flush_global rate b e)) = lb_site b"
  "length (he_sites (snd (flush_global rate b e))) = length (he_sites e)"
  by (simp_all add: flush_global_def process_leaves_def site_leaves_def Let_def split: prod.splits)

lemma flush_site_counts [buffer_step]:
  "process_leaves (flush_site rate bw now b e) = process_leaves (b, e)"
  "s < length (he_sites e) \<Longrightarrow> lb_site b = None \<longrightarrow> lb_site_count b = 0 \<Longrightarrow>
    site_leaves s (flush_site rate bw now b e) = site_leaves s (b, e)"
  "lb_global_count (fst (flush_site rate bw now b e)) = lb_global_count b"
  "lb_site_count (fst (flush_site rate bw now b e)) = 0"
  "lb_site (fst (flush_site rate bw now b e)) = lb_site b"
  "length (he_sites (snd (flush_site rate bw now b e))) = length (he_sites e)"
  by (auto simp: flush_site_def process_leaves_def site_leaves_def update_site_nth Let_def
      split: prod.splits option.splits)


lemma add_global_counts [buffer_step]:
  "process_leaves (add_global rate nanos items b e) = process_leaves (b, e) + 1"
  "site_leaves s (add_global rate nanos items b e) = site_leaves s (b, e)"
  "length (he_sites (snd (add_global rate nanos items b e))) = length (he_sites e)"
  "buffer_ok b \<Longrightarrow> buffer_ok (fst (add_global rate nanos items b e))"
  by (auto simp: add_global_def Let_def buffer_step buffer_ok_def not_le)
    (auto simp: process_leaves_def site_leaves_def FLUSH_THRESHOLD_def)

lemma retarget_counts [buffer_step]:
  assumes "buffer_ok b"
  shows "process_leaves (retarget rate bw now s b e) = process_leaves (b, e)"
    and "s' < length (he_sites e) \<Longrightarrow> site_leaves s' (retarget rate bw now s b e) = site_leaves s' (b, e)"
    and "length (he_sites (snd (retarget rate bw now s b e))) = length (he_sites e)"
    and "lb_site (fst (retarget rate bw now s b e)) = Some s"
    and "buffer_ok (fst (retarget rate bw now s b e))"
proof -
  obtain b1 e1 where f: "flush_site rate bw now b e = (b1, e1)" by (metis prod.exhaust)
  note c = flush_site_counts [where rate = rate and bw = bw and now = now and b = b and e = e, unfolded f fst_conv snd_conv]
  show "process_leaves (retarget rate bw now s b e) = process_leaves (b, e)"
    "lb_site (fst (retarget rate bw now s b e)) = Some s"
    "length (he_sites (snd (retarget rate bw now s b e))) = length (he_sites e)"
    using c(1,6) by (auto simp: retarget_def f process_leaves_def)
  show "site_leaves s' (retarget rate bw now s b e) = site_leaves s' (b, e)" if "s' < length (he_sites e)"
    using c(2) [OF that, unfolded site_leaves_def fst_conv snd_conv] c(4) assms
    by (auto simp: retarget_def f site_leaves_def buffer_ok_def cong: if_cong split: if_splits)
  show "buffer_ok (fst (retarget rate bw now s b e))"
    using c(3,4) assms by (auto simp: retarget_def f buffer_ok_def FLUSH_THRESHOLD_def)
qed

lemma accumulate_counts [simp]:
  "lb_site (accumulate now nanos items oncore b) = lb_site b"
  "lb_site_count (accumulate now nanos items oncore b) = lb_site_count b + 1"
  "lb_global_count (accumulate now nanos items oncore b) = lb_global_count b"
  by (simp_all add: accumulate_def Let_def split: option.splits)

lemma add_site_counts [buffer_step]:
  assumes "buffer_ok b"
  shows "process_leaves (add_site rate bw now s nanos items oncore b e) = process_leaves (b, e)"
    and "s' < length (he_sites e) \<Longrightarrow> site_leaves s' (add_site rate bw now s nanos items oncore b e)
      = site_leaves s' (b, e) + (if s' = s then 1 else 0)"
    and "length (he_sites (snd (add_site rate bw now s nanos items oncore b e))) = length (he_sites e)"
    and "buffer_ok (fst (add_site rate bw now s nanos items oncore b e))"
proof -
  obtain b1 e1 where r: "retarget rate bw (now 0) s b e = (b1, e1)" by (metis prod.exhaust)
  note c = retarget_counts [OF assms, where rate = rate and bw = bw and now = "now 0" and s = s and e = e, unfolded r]
  let ?b2 = "accumulate (now 1) nanos items oncore b1"
  have add: "add_site rate bw now s nanos items oncore b e
    = (if FLUSH_THRESHOLD \<le> lb_site_count ?b2 then flush_site rate bw (now 2) ?b2 e1 else (?b2, e1))"
    by (simp add: add_site_def r Let_def)
  note f = flush_site_counts [where rate = rate and bw = bw and now = "now 2" and b = ?b2 and e = e1]
  show "process_leaves (add_site rate bw now s nanos items oncore b e) = process_leaves (b, e)"
    using c(1) f(1) by (auto simp: add process_leaves_def)
  show "length (he_sites (snd (add_site rate bw now s nanos items oncore b e))) = length (he_sites e)"
    using c(3) f(6) by (auto simp: add)
  show "buffer_ok (fst (add_site rate bw now s nanos items oncore b e))"
    using c(4,5) f(3-5) by (auto simp: add buffer_ok_def FLUSH_THRESHOLD_def not_le)
  show "site_leaves s' (add_site rate bw now s nanos items oncore b e) = site_leaves s' (b, e) + (if s' = s then 1 else 0)"
    if "s' < length (he_sites e)"
  proof -
    have "site_leaves s' (?b2, e1) = site_leaves s' (b1, e1) + (if s' = s then 1 else 0)"
      using c(4) by (auto simp: site_leaves_def)
    moreover have "site_leaves s' (flush_site rate bw (now 2) ?b2 e1) = site_leaves s' (?b2, e1)"
      using f(2) c(3,4) that by simp
    ultimately show ?thesis using c(2) [OF that] by (auto simp: add)
  qed
qed

lemma add_leaf_counts:
  assumes "buffer_ok (fst be)"
  shows "process_leaves (add_leaf rate bw now site nanos items oncore be) = process_leaves be + 1"
    and "s < length (he_sites (snd be)) \<Longrightarrow> site_leaves s (add_leaf rate bw now site nanos items oncore be)
      = site_leaves s be + (if site = Some s then 1 else 0)"
    and "length (he_sites (snd (add_leaf rate bw now site nanos items oncore be))) = length (he_sites (snd be))"
    and "buffer_ok (fst (add_leaf rate bw now site nanos items oncore be))"
proof -
  obtain b1 e1 where g: "add_global rate nanos items (fst be) (snd be) = (b1, e1)" by (metis prod.exhaust)
  note c = add_global_counts [where rate = rate and nanos = nanos and items = items and b = "fst be" and e = "snd be", unfolded g, simplified]
  note d = add_site_counts [OF c(4) [OF assms], where rate = rate and bw = bw and now = now and nanos = nanos and items = items and oncore = oncore and e = e1]
  show "process_leaves (add_leaf rate bw now site nanos items oncore be) = process_leaves be + 1"
    "length (he_sites (snd (add_leaf rate bw now site nanos items oncore be))) = length (he_sites (snd be))"
    "buffer_ok (fst (add_leaf rate bw now site nanos items oncore be))"
    using c(1,3) c(4) [OF assms] d by (simp_all add: add_leaf_def g split: option.splits)
  show "site_leaves s (add_leaf rate bw now site nanos items oncore be)
      = site_leaves s be + (if site = Some s then 1 else 0)" if "s < length (he_sites (snd be))"
    using c(2,3) d(2) that by (auto simp: add_leaf_def g split: option.splits)
qed

section \<open>A run of leaves\<close>

type_synonym leaf_event = "(nat \<Rightarrow> clock_pair) \<times> site_ref option \<times> u64 \<times> u64 \<times> u64 option"

definition add_leaves :: "u64 \<Rightarrow> bool \<Rightarrow> leaf_event list \<Rightarrow> leaf_buffer \<times> host_env \<Rightarrow> leaf_buffer \<times> host_env" where
  "add_leaves rate bw evs be =
     foldl (\<lambda>be (now, site, nanos, items, oncore). add_leaf rate bw now site nanos items oncore be) be evs"

definition leaves_at :: "site_ref \<Rightarrow> leaf_event list \<Rightarrow> u64" where
  "leaves_at s evs = of_nat (number (\<lambda>(_, site, _). site = Some s) evs)"

lemma add_leaves_counts:
  assumes "buffer_ok (fst be)"
  shows "process_leaves (add_leaves rate bw evs be) = process_leaves be + of_nat (length evs)
    \<and> length (he_sites (snd (add_leaves rate bw evs be))) = length (he_sites (snd be))
    \<and> (s < length (he_sites (snd be)) \<longrightarrow> site_leaves s (add_leaves rate bw evs be) = site_leaves s be + leaves_at s evs)
    \<and> buffer_ok (fst (add_leaves rate bw evs be))"
  using assms
proof (induction evs arbitrary: be)
  case (Cons ev evs)
  obtain now site nanos items oncore where ev: "ev = (now, site, nanos, items, oncore)" by (metis prod.exhaust)
  note c = add_leaf_counts [OF Cons.prems, where rate = rate and bw = bw and now = now and site = site and nanos = nanos and items = items and oncore = oncore]
  show ?case
    using Cons.IH [OF c(4)] c(1-3) by (auto simp: add_leaves_def ev leaves_at_def number_def)
qed (simp add: add_leaves_def leaves_at_def number_def)

lemma flush_all_counts:
  assumes "buffer_ok (fst be)"
  shows "ls_count (ob_leaf (he_observer (snd (flush_all rate bw now be)))) = process_leaves be"
    and "s < length (he_sites (snd be)) \<Longrightarrow>
      sc_count (cs_leaf (he_sites (snd (flush_all rate bw now be)) ! s)) = site_leaves s be"
proof -
  obtain b1 e1 where g: "flush_global rate (fst be) (snd be) = (b1, e1)" by (metis prod.exhaust)
  note c = flush_global_counts [where rate = rate and b = "fst be" and e = "snd be", unfolded g, simplified]
  note f = flush_site_counts [where rate = rate and bw = bw and now = now and b = b1 and e = e1]
  show "ls_count (ob_leaf (he_observer (snd (flush_all rate bw now be)))) = process_leaves be"
    using c(1,3) f(1,3) by (simp add: flush_all_def g process_leaves_def)
  show "sc_count (cs_leaf (he_sites (snd (flush_all rate bw now be)) ! s)) = site_leaves s be"
    if "s < length (he_sites (snd be))"
    using c(2) f(2) [of s] f(4) c(4-6) assms that
    by (auto simp: flush_all_def g site_leaves_def buffer_ok_def split: if_splits)
qed

end
