(* ===== verification/Host_Profile.thy ===== *)
theory Host_Profile
  imports Leaf_Stats
begin

text \<open>
  The host's dispatch profile of \<open>sched/par_iter.rs\<close>: three figures, published through three
  atomics, pinned by an environment variable or measured by timed sweeps. Timings are
  arguments; so is the floating-point interpolation between the last two counts of a sweep.
\<close>

record host_profile =
  hp_dispatch_cost_ns :: u64
  hp_collapse_threshold_ns :: u64
  hp_jec_wake_threshold_ns :: u64

section \<open>The pinned profile\<close>

text \<open>\<open>str::trim\<close> over the code points below 256.\<close>

definition is_space :: "char \<Rightarrow> bool" where
  "is_space c \<longleftrightarrow> (let k = of_char c :: nat in 9 \<le> k \<and> k \<le> 13 \<or> k = 32 \<or> k = 0x85 \<or> k = 0xA0)"

definition trim :: "string \<Rightarrow> string" where
  "trim s = rev (dropWhile is_space (rev (dropWhile is_space s)))"

definition digit_value :: "char \<Rightarrow> nat option" where
  "digit_value c = (let k = of_char c :: nat in if 48 \<le> k \<and> k \<le> 57 then Some (k - 48) else None)"

fun parse_digits :: "nat \<Rightarrow> string \<Rightarrow> nat option" where
  "parse_digits acc [] = Some acc"
| "parse_digits acc (c # s) =
     (case digit_value c of None \<Rightarrow> None | Some d \<Rightarrow> parse_digits (10 * acc + d) s)"

text \<open>\<open>str::parse::<u64>\<close>: an optional plus sign, then digits, below \<open>2^64\<close>.\<close>

definition parse_u64 :: "string \<Rightarrow> u64 option" where
  "parse_u64 s =
     (let digits = (case s of c # rest \<Rightarrow> if c = CHR ''+'' then rest else s | [] \<Rightarrow> s)
      in if digits = [] then None
         else case parse_digits 0 digits of
           Some n \<Rightarrow> if n < 2 ^ 64 then Some (of_nat n) else None
         | None \<Rightarrow> None)"

fun split_commas :: "string \<Rightarrow> string list" where
  "split_commas [] = [[]]"
| "split_commas (c # s) =
     (if c = CHR '','' then [] # split_commas s
      else case split_commas s of f # fs \<Rightarrow> (c # f) # fs | [] \<Rightarrow> [[c]])"

text \<open>One field: trimmed, a whole number, and not zero.\<close>

definition take_field :: "string list \<Rightarrow> (u64 \<times> string list) option" where
  "take_field fs =
     (case fs of
        [] \<Rightarrow> None
      | field # rest \<Rightarrow>
          (case parse_u64 (trim field) of
             Some ns \<Rightarrow> if ns = 0 then None else Some (ns, rest)
           | None \<Rightarrow> None))"

definition parse_pinned_profile :: "string \<Rightarrow> host_profile option" where
  "parse_pinned_profile text =
     Option.bind (take_field (split_commas text)) (\<lambda>(dispatch, rest).
     Option.bind (take_field rest) (\<lambda>(collapse, rest).
     Option.bind (take_field rest) (\<lambda>(wake, rest).
       if rest \<noteq> [] then None
       else Some \<lparr>hp_dispatch_cost_ns = dispatch, hp_collapse_threshold_ns = collapse,
                  hp_jec_wake_threshold_ns = wake\<rparr>)))"

section \<open>Samples\<close>

definition SAMPLES :: nat where "SAMPLES = 9"
definition SWEEP_LEAF :: nat where "SWEEP_LEAF = 256"
definition MAX_ITEMS :: nat where "MAX_ITEMS = 2 ^ 17"
definition DIRECT_SAMPLES :: nat where "DIRECT_SAMPLES = 1024"

definition as_per_mille :: "u64 \<Rightarrow> u64 \<Rightarrow> u32" where
  "as_per_mille span median = ucast (min (sat_mul span 1000 div median) (ucast (- 1 :: u32)))"

definition sample_spread_per_mille :: "u64 list \<Rightarrow> u32" where
  "sample_spread_per_mille v =
     (if length v < 2 then 0
      else as_per_mille (sat_sub (v ! (length v - 1)) (v ! 0))
             (max (v ! (length v div 2)) 1))"

definition sample_iqr_per_mille :: "u64 list \<Rightarrow> u32" where
  "sample_iqr_per_mille v =
     (if length v < 4 then 0
      else as_per_mille (sat_sub (v ! (length v * 3 div 4)) (v ! (length v div 4)))
             (max (v ! (length v div 2)) 1))"

section \<open>Sweeps\<close>

text \<open>\<open>fastest\<close>: the least of the samples.\<close>

definition fastest :: "u64 list \<Rightarrow> u64" where
  "fastest samples = sort samples ! 0"

text \<open>
  \<open>interpolate_crossover\<close>, the differences as the source's signed words read as integers;
  \<open>along span d_prev diff\<close> is the floating-point \<open>span * d_prev / (d_prev - diff)\<close> cut to an
  integer.
\<close>

definition interpolate_crossover ::
  "(u64 \<Rightarrow> int \<Rightarrow> int \<Rightarrow> u64) \<Rightarrow> (u64 \<times> int) option \<Rightarrow> u64 \<Rightarrow> int \<Rightarrow> u64" where
  "interpolate_crossover along prev a diff =
     (case prev of
        Some (a_prev, d_prev) \<Rightarrow>
          if diff < d_prev \<and> a_prev < a then a_prev + along (a - a_prev) d_prev diff else a
      | None \<Rightarrow> a)"

text \<open>
  \<open>sweep\<close>: doubling counts from four leaves until the second side is no slower; \<open>first n\<close> and
  \<open>second n\<close> are the fastest times of the two sides at \<open>n\<close> items.
\<close>

function sweep_from ::
  "(u64 \<Rightarrow> int \<Rightarrow> int \<Rightarrow> u64) \<Rightarrow> (nat \<Rightarrow> u64) \<Rightarrow> (nat \<Rightarrow> u64) \<Rightarrow> nat \<Rightarrow> (u64 \<times> int) option \<Rightarrow> u64" where
  "sweep_from along first second n prev =
     (let a = first n; b = second n; diff = sint b - sint a
      in if diff \<le> 0 then interpolate_crossover along prev a diff
         else if MAX_ITEMS \<le> n \<or> n = 0 then a
         else sweep_from along first second (2 * n) (Some (a, diff)))"
  by pat_completeness auto
termination
  by (relation "measure (\<lambda>(_, _, _, n, _). MAX_ITEMS - n)") auto

declare sweep_from.simps [simp del]

definition sweep :: "(u64 \<Rightarrow> int \<Rightarrow> int \<Rightarrow> u64) \<Rightarrow> (nat \<Rightarrow> u64) \<Rightarrow> (nat \<Rightarrow> u64) \<Rightarrow> u64" where
  "sweep along first second = sweep_from along first second (4 * SWEEP_LEAF) None"

definition median_sweep :: "u64 list \<Rightarrow> u64 \<times> u32" where
  "median_sweep samples =
     (let v = sort samples in (v ! (SAMPLES div 2), sample_spread_per_mille v))"

text \<open>
  \<open>measure_host_dispatch\<close> over its timings: the direct joins of two items, the nine
  serial-against-pool sweeps and the nine polling-against-wake sweeps.
\<close>

definition measure_host_dispatch :: "u64 list \<Rightarrow> u64 list \<Rightarrow> u64 list \<Rightarrow> host_profile \<times> u32" where
  "measure_host_dispatch direct serial_vs_pool polling_vs_wake =
     (let dispatch = max (sort direct ! (DIRECT_SAMPLES div 2)) 1;
          (collapse_median, collapse_spread) = median_sweep serial_vs_pool;
          (wake, wake_spread) = median_sweep polling_vs_wake
      in (\<lparr>hp_dispatch_cost_ns = dispatch, hp_collapse_threshold_ns = max collapse_median dispatch,
           hp_jec_wake_threshold_ns = wake\<rparr>, max collapse_spread wake_spread))"

text \<open>What \<open>measure_host_dispatch\<close> and the pinned profile have in common.\<close>

definition profile_ok :: "host_profile \<Rightarrow> bool" where
  "profile_ok p \<longleftrightarrow> hp_dispatch_cost_ns p \<noteq> 0 \<and> hp_collapse_threshold_ns p \<noteq> 0"

lemma measured_ok: "profile_ok (fst (measure_host_dispatch direct svp pvw))"
proof -
  have "max x 1 \<noteq> 0" "max y (max x 1) \<noteq> 0" for x y :: u64
    by (metis max.cobounded2 word_le_0_iff zero_neq_one, metis max.cobounded2 word_le_0_iff zero_neq_one)
  then show ?thesis
    by (simp add: measure_host_dispatch_def profile_ok_def Let_def split: prod.splits)
qed

lemma take_field_nonzero: "take_field fs = Some (ns, rest) \<Longrightarrow> ns \<noteq> 0"
  by (auto simp: take_field_def split: list.splits option.splits if_splits)

lemma pinned_ok: "parse_pinned_profile text = Some p \<Longrightarrow> profile_ok p \<and> hp_jec_wake_threshold_ns p \<noteq> 0"
  by (auto simp: parse_pinned_profile_def profile_ok_def bind_eq_Some_conv
      dest: take_field_nonzero split: if_splits)

section \<open>Decimal round trip\<close>

fun show_nat :: "nat \<Rightarrow> string" where
  "show_nat n = (if n < 10 then [char_of (48 + n)] else show_nat (n div 10) @ [char_of (48 + n mod 10)])"

declare show_nat.simps [simp del]

definition is_digit :: "char \<Rightarrow> bool" where
  "is_digit c \<longleftrightarrow> digit_value c \<noteq> None"

lemma digit_value_char: "d < 10 \<Longrightarrow> digit_value (char_of (48 + d)) = Some d"
  by (simp add: digit_value_def Let_def)

lemma parse_digits_append:
  "parse_digits acc (s @ t) = Option.bind (parse_digits acc s) (\<lambda>a. parse_digits a t)"
  by (induction acc s rule: parse_digits.induct) (auto split: option.splits)

lemma parse_digits_show: "parse_digits 0 (show_nat n) = Some n"
proof (induction n rule: show_nat.induct)
  case (1 n)
  then show ?case
    by (subst show_nat.simps) (auto simp: parse_digits_append digit_value_char)
qed

lemma show_nat_digits: "(\<forall>c \<in> set (show_nat n). is_digit c) \<and> show_nat n \<noteq> []"
proof (induction n rule: show_nat.induct)
  case (1 n)
  then show ?case
    by (cases "n < 10") (auto simp: show_nat.simps [of n] is_digit_def digit_value_char)
qed

lemma digit_plain: "is_digit c \<Longrightarrow> \<not> is_space c \<and> c \<noteq> CHR '','' \<and> c \<noteq> CHR ''+''"
  by (auto simp: is_digit_def digit_value_def is_space_def Let_def split: if_splits)

lemma trim_digits: "\<forall>c \<in> set s. is_digit c \<Longrightarrow> trim s = s"
proof -
  assume digits: "\<forall>c \<in> set s. is_digit c"
  have "dropWhile is_space t = t" if "\<forall>c \<in> set t. is_digit c" for t
    using that digit_plain by (cases t) auto
  then show "trim s = s" using digits by (simp add: trim_def)
qed

lemma parse_show: "parse_u64 (trim (show_nat (unat w))) = Some w"
proof -
  note digits = show_nat_digits [of "unat w"]
  obtain c s where c: "show_nat (unat w) = c # s" using digits by (cases "show_nat (unat w)") auto
  then have "c \<noteq> CHR ''+''" using digits digit_plain by auto
  moreover have "unat w < 2 ^ 64" by (rule unat_u64_lt)
  ultimately show ?thesis
    using digits parse_digits_show [of "unat w"] by (simp add: trim_digits parse_u64_def c)
qed

lemma split_commas_field:
  "\<forall>c \<in> set s. is_digit c \<Longrightarrow> split_commas (s @ CHR '','' # t) = s # split_commas t"
  "\<forall>c \<in> set s. is_digit c \<Longrightarrow> split_commas s = [s]"
  using digit_plain by (induction s) auto

text \<open>The line \<open>host profile {},{},{}\<close> is written in this form.\<close>

definition show_profile :: "host_profile \<Rightarrow> string" where
  "show_profile p =
     show_nat (unat (hp_dispatch_cost_ns p)) @ CHR '','' #
     show_nat (unat (hp_collapse_threshold_ns p)) @ CHR '','' #
     show_nat (unat (hp_jec_wake_threshold_ns p))"

lemma take_field_show: "w \<noteq> 0 \<Longrightarrow> take_field (show_nat (unat w) # fs) = Some (w, fs)"
  by (simp add: take_field_def parse_show)

lemma split_show_profile:
  "split_commas (show_profile p) =
    [show_nat (unat (hp_dispatch_cost_ns p)), show_nat (unat (hp_collapse_threshold_ns p)),
     show_nat (unat (hp_jec_wake_threshold_ns p))]"
  using show_nat_digits by (simp add: show_profile_def split_commas_field)

lemma parse_show_profile:
  "profile_ok p \<Longrightarrow> hp_jec_wake_threshold_ns p \<noteq> 0 \<Longrightarrow> parse_pinned_profile (show_profile p) = Some p"
  by (simp add: parse_pinned_profile_def split_show_profile take_field_show profile_ok_def)

end
