(* ===== verification/Profile_Race.thy ===== *)
theory Profile_Race
  imports Host_Profile
begin

text \<open>
  \<open>host_dispatch_profile\<close> and \<open>calibrate_host_dispatch\<close> of \<open>sched/par_iter.rs\<close>, run by many
  threads over the three published figures and the flag \<open>CALIBRATING\<close>. One step is one atomic
  access. A schedule names the thread that moves and, for a thread that finishes measuring,
  the profile it found (\<open>None\<close>: the measurement panicked and its guard dropped the flag).
\<close>

section \<open>The machine\<close>

text \<open>
  A thread that calibrates carries whether it holds the flag: it does when it came through
  the query, and not when it called \<open>calibrate_host_dispatch\<close> itself.
\<close>

datatype profile_pc =
  PF_query | PF_try | PF_spin | PF_spin_try
| PF_read_cost u64 | PF_read_wake u64 u64
| PF_measure bool | PF_store_cost bool host_profile | PF_store_wake bool host_profile
| PF_store_collapse bool host_profile | PF_release host_profile
| PF_done host_profile | PF_panicked

record profile_globals =
  pg_cost :: u64
  pg_collapse :: u64
  pg_wake :: u64
  pg_calibrating :: bool

definition zero_profile :: host_profile where
  "zero_profile = \<lparr>hp_dispatch_cost_ns = 0, hp_collapse_threshold_ns = 0, hp_jec_wake_threshold_ns = 0\<rparr>"

fun profile_move ::
  "bool \<Rightarrow> host_profile option \<Rightarrow> profile_pc \<Rightarrow> profile_globals \<Rightarrow> profile_pc \<times> profile_globals" where
  "profile_move worker m PF_query g =
     (if pg_collapse g \<noteq> 0 then PF_read_cost (pg_collapse g) else PF_try, g)"
| "profile_move worker m PF_try g =
     (if \<not> pg_calibrating g then (PF_measure True, g\<lparr>pg_calibrating := True\<rparr>)
      else if worker then (PF_done zero_profile, g) else (PF_spin, g))"
| "profile_move worker m PF_spin g =
     (if pg_collapse g \<noteq> 0 then PF_read_cost (pg_collapse g) else PF_spin_try, g)"
| "profile_move worker m PF_spin_try g =
     (if \<not> pg_calibrating g then (PF_measure True, g\<lparr>pg_calibrating := True\<rparr>) else (PF_spin, g))"
| "profile_move worker m (PF_read_cost collapse) g = (PF_read_wake collapse (pg_cost g), g)"
| "profile_move worker m (PF_read_wake collapse cost) g =
     (PF_done \<lparr>hp_dispatch_cost_ns = cost, hp_collapse_threshold_ns = collapse,
               hp_jec_wake_threshold_ns = pg_wake g\<rparr>, g)"
| "profile_move worker m (PF_measure held) g =
     (case m of
        Some p \<Rightarrow> (PF_store_cost held p, g)
      | None \<Rightarrow> (PF_panicked, if held then g\<lparr>pg_calibrating := False\<rparr> else g))"
| "profile_move worker m (PF_store_cost held p) g =
     (PF_store_wake held p, g\<lparr>pg_cost := hp_dispatch_cost_ns p\<rparr>)"
| "profile_move worker m (PF_store_wake held p) g =
     (PF_store_collapse held p, g\<lparr>pg_wake := hp_jec_wake_threshold_ns p\<rparr>)"
| "profile_move worker m (PF_store_collapse held p) g =
     (if held then PF_release p else PF_done p, g\<lparr>pg_collapse := hp_collapse_threshold_ns p\<rparr>)"
| "profile_move worker m (PF_release p) g = (PF_done p, g\<lparr>pg_calibrating := False\<rparr>)"
| "profile_move worker m (PF_done p) g = (PF_done p, g)"
| "profile_move worker m PF_panicked g = (PF_panicked, g)"

type_synonym profile_sys = "profile_globals \<times> profile_pc list"

definition profile_step :: "(nat \<Rightarrow> bool) \<Rightarrow> nat \<times> host_profile option \<Rightarrow> profile_sys \<Rightarrow> profile_sys" where
  "profile_step worker im s =
     (let (i, m) = im; (g, pcs) = s
      in if i < length pcs
         then let (pc, g') = profile_move (worker i) m (pcs ! i) g in (g', pcs[i := pc])
         else s)"

definition profile_run ::
  "(nat \<Rightarrow> bool) \<Rightarrow> (nat \<times> host_profile option) list \<Rightarrow> profile_sys \<Rightarrow> profile_sys" where
  "profile_run worker sched s = foldl (\<lambda>s im. profile_step worker im s) s sched"

text \<open>
  At the start nothing is published; a thread is about to query, or to calibrate on its own.
\<close>

definition profile_start :: "profile_pc list \<Rightarrow> profile_sys" where
  "profile_start pcs = (\<lparr>pg_cost = 0, pg_collapse = 0, pg_wake = 0, pg_calibrating = False\<rparr>, pcs)"

definition may_start :: "profile_pc \<Rightarrow> bool" where
  "may_start pc \<longleftrightarrow> pc = PF_query \<or> pc = PF_measure False"

section \<open>The invariant\<close>

text \<open>\<open>ms\<close> lists the profiles the measurements of the run may find.\<close>

fun pc_ok :: "host_profile list \<Rightarrow> bool \<Rightarrow> profile_globals \<Rightarrow> profile_pc \<Rightarrow> bool" where
  "pc_ok ms worker g (PF_read_cost c) \<longleftrightarrow> c \<in> hp_collapse_threshold_ns ` set ms \<and> pg_collapse g \<noteq> 0"
| "pc_ok ms worker g (PF_read_wake c d) \<longleftrightarrow>
     c \<in> hp_collapse_threshold_ns ` set ms \<and> d \<in> hp_dispatch_cost_ns ` set ms \<and> pg_collapse g \<noteq> 0"
| "pc_ok ms worker g (PF_store_cost held p) \<longleftrightarrow> p \<in> set ms"
| "pc_ok ms worker g (PF_store_wake held p) \<longleftrightarrow> p \<in> set ms \<and> pg_cost g \<in> hp_dispatch_cost_ns ` set ms"
| "pc_ok ms worker g (PF_store_collapse held p) \<longleftrightarrow>
     p \<in> set ms \<and> pg_cost g \<in> hp_dispatch_cost_ns ` set ms \<and> pg_wake g \<in> hp_jec_wake_threshold_ns ` set ms"
| "pc_ok ms worker g (PF_release p) \<longleftrightarrow> p \<in> set ms"
| "pc_ok ms worker g (PF_done p) \<longleftrightarrow>
     worker \<and> p = zero_profile
     \<or> hp_dispatch_cost_ns p \<in> hp_dispatch_cost_ns ` set ms
       \<and> hp_collapse_threshold_ns p \<in> hp_collapse_threshold_ns ` set ms
       \<and> hp_jec_wake_threshold_ns p \<in> hp_jec_wake_threshold_ns ` set ms"
| "pc_ok ms worker g pc \<longleftrightarrow> True"

fun holds_flag :: "profile_pc \<Rightarrow> bool" where
  "holds_flag (PF_measure held) = held"
| "holds_flag (PF_store_cost held p) = held"
| "holds_flag (PF_store_wake held p) = held"
| "holds_flag (PF_store_collapse held p) = held"
| "holds_flag (PF_release p) = True"
| "holds_flag pc = False"

definition published_ok :: "host_profile list \<Rightarrow> profile_globals \<Rightarrow> bool" where
  "published_ok ms g \<longleftrightarrow>
     pg_collapse g \<noteq> 0 \<longrightarrow>
       pg_collapse g \<in> hp_collapse_threshold_ns ` set ms
       \<and> pg_cost g \<in> hp_dispatch_cost_ns ` set ms \<and> pg_wake g \<in> hp_jec_wake_threshold_ns ` set ms"

text \<open>What has been published stays published.\<close>

definition keeps :: "host_profile list \<Rightarrow> profile_globals \<Rightarrow> profile_globals \<Rightarrow> bool" where
  "keeps ms g g' \<longleftrightarrow>
     (pg_collapse g \<noteq> 0 \<longrightarrow> pg_collapse g' \<noteq> 0)
     \<and> (pg_cost g \<in> hp_dispatch_cost_ns ` set ms \<longrightarrow> pg_cost g' \<in> hp_dispatch_cost_ns ` set ms)
     \<and> (pg_wake g \<in> hp_jec_wake_threshold_ns ` set ms \<longrightarrow> pg_wake g' \<in> hp_jec_wake_threshold_ns ` set ms)"

lemma pc_ok_keeps: "keeps ms g g' \<Longrightarrow> pc_ok ms worker g pc \<Longrightarrow> pc_ok ms worker g' pc"
  by (cases pc) (auto simp: keeps_def)

definition profile_inv :: "host_profile list \<Rightarrow> (nat \<Rightarrow> bool) \<Rightarrow> profile_sys \<Rightarrow> bool" where
  "profile_inv ms worker s \<longleftrightarrow>
     published_ok ms (fst s)
     \<and> (\<forall>i < length (snd s). pc_ok ms (worker i) (fst s) (snd s ! i))
     \<and> number holds_flag (snd s) = of_bool (pg_calibrating (fst s))"

lemma move_ok:
  assumes "published_ok ms g" "pc_ok ms worker g pc" "profile_move worker m pc g = (pc', g')"
    and "\<forall>p. m = Some p \<longrightarrow> p \<in> set ms" "\<forall>p \<in> set ms. profile_ok p"
  shows "published_ok ms g' \<and> pc_ok ms worker g' pc' \<and> keeps ms g g'"
  using assms by (cases pc) (auto simp: published_ok_def keeps_def profile_ok_def split: if_splits option.splits)

lemma move_flag:
  assumes "profile_move worker m pc g = (pc', g')" "holds_flag pc \<longrightarrow> pg_calibrating g"
  shows "of_bool (holds_flag pc') + of_bool (pg_calibrating g) = of_bool (holds_flag pc) + (of_bool (pg_calibrating g') :: nat)"
  using assms by (cases pc) (auto split: if_splits option.splits)

lemma profile_step_inv:
  assumes inv: "profile_inv ms worker s" and m: "\<forall>p. snd im = Some p \<longrightarrow> p \<in> set ms" and ms: "\<forall>p \<in> set ms. profile_ok p"
  shows "profile_inv ms worker (profile_step worker im s)"
proof (cases "fst im < length (snd s)")
  case False
  then show ?thesis using inv by (simp add: profile_step_def case_prod_beta)
next
  case True
  let ?i = "fst im" let ?g = "fst s" let ?pcs = "snd s"
  obtain pc' g' where move: "profile_move (worker ?i) (snd im) (?pcs ! ?i) ?g = (pc', g')" by (metis prod.exhaust)
  have step: "profile_step worker im s = (g', ?pcs[?i := pc'])"
    using True by (simp add: profile_step_def case_prod_beta move)
  note ok = move_ok [OF _ _ move m ms]
  have moved: "published_ok ms g'" "pc_ok ms (worker ?i) g' pc'" "keeps ms ?g g'"
    using ok inv True by (auto simp: profile_inv_def)
  have others: "pc_ok ms (worker j) g' (?pcs[?i := pc'] ! j)" if "j < length ?pcs" for j
    using moved(2) pc_ok_keeps [OF moved(3)] inv that by (cases "j = ?i") (auto simp: profile_inv_def)
  have count: "number holds_flag ?pcs = of_bool (pg_calibrating ?g)" using inv by (simp add: profile_inv_def)
  have "holds_flag (?pcs ! ?i) \<longrightarrow> pg_calibrating ?g"
  proof
    assume "holds_flag (?pcs ! ?i)"
    then have "0 < number holds_flag ?pcs" using True by (auto simp: number_pos)
    then show "pg_calibrating ?g" using count by (auto split: if_splits)
  qed
  from move_flag [OF move this] number_update [OF True, of holds_flag pc'] count
  have "number holds_flag (?pcs[?i := pc']) = of_bool (pg_calibrating g')" by linarith
  then show ?thesis using moved(1) others by (simp add: profile_inv_def step)
qed

lemma profile_start_inv: "\<forall>pc \<in> set pcs. may_start pc \<Longrightarrow> profile_inv ms worker (profile_start pcs)"
proof -
  assume start: "\<forall>pc \<in> set pcs. may_start pc"
  have "\<not> holds_flag pc" if "may_start pc" for pc using that by (auto simp: may_start_def)
  with start have "number holds_flag pcs = 0" unfolding number_zero by blast
  moreover have "pc_ok ms w g (pcs ! i)" if "i < length pcs" for w g i
  proof -
    have "may_start (pcs ! i)" using start that by simp
    then show ?thesis by (auto simp: may_start_def)
  qed
  ultimately show ?thesis by (simp add: profile_inv_def profile_start_def published_ok_def)
qed

lemma profile_run_inv:
  assumes "profile_inv ms worker s" "\<forall>(i, m) \<in> set sched. \<forall>p. m = Some p \<longrightarrow> p \<in> set ms" "\<forall>p \<in> set ms. profile_ok p"
  shows "profile_inv ms worker (profile_run worker sched s)"
  using assms
proof (induction sched arbitrary: s)
  case (Cons im sched)
  have "profile_inv ms worker (profile_step worker im s)"
    by (rule profile_step_inv) (use Cons.prems in \<open>auto split: prod.splits\<close>)
  then show ?case using Cons by (simp add: profile_run_def)
qed (simp add: profile_run_def)

section \<open>A torn triple\<close>

text \<open>
  A thread that read zero before the first profile was published takes the flag after it is
  released, and measures again; a reader between its stores mixes the two profiles.
\<close>

definition torn_schedule :: "host_profile \<Rightarrow> host_profile \<Rightarrow> (nat \<times> host_profile option) list" where
  "torn_schedule p q =
     [(1, None), (0, None), (0, None), (0, Some p), (0, None), (0, None), (0, None), (0, None),
      (1, None), (1, Some q), (1, None), (2, None), (2, None), (2, None)]"

end
