(* ===== verification/Par_Properties.thy ===== *)
theory Par_Properties
  imports Par_Leaves Leaf_Laws Profile_Race
begin

text \<open>
  The properties of the parallel entry points, of the leaf statistics they keep and of the
  host profile they read.
\<close>

section \<open>What a run computes\<close>

text \<open>
  C7: The parallel collects are the sequential map. Whatever the learned state of the site,
  the measured times, the halves that moved to other workers and the points where the
  heartbeat or the token bucket promotes, \<open>collect_indexed\<close> (for a floor below \<open>2^63\<close>),
  \<open>collect_indexed_heartbeat\<close> and \<open>collect_indexed_token_bucket\<close> return, and the vector is
  \<open>f(0), ..., f(n - 1)\<close> in order: the probed prefix and the leaves leave no gap and do not
  overlap.
\<close>

theorem collects_are_the_map:
  assumes "unat min_leaf < 2 ^ 63"
  shows "fst (collect_indexed r e p n min_leaf f) = Some (map f [0..<n])
    \<and> fst (collect_indexed_heartbeat r ticked e p n f) = Some (map f [0..<n])
    \<and> fst (collect_indexed_token_bucket r polled e p n tokens f) = Some (map f [0..<n])"
  using assms
  by (simp add: collect_indexed_is_map collect_indexed_heartbeat_is_map collect_indexed_token_bucket_is_map)

theorem collects_are_the_map_witness:
  "\<forall>r e p. fst (collect_indexed r e p 2 1 Suc) = Some [1, 2]"
  using collects_are_the_map [of 1 _ _ _ 2 Suc] by (simp add: upt_conv_Cons del: upt_Suc)

text \<open>
  C8: An element-wise operation is applied to every element once. For every plan, host and
  schedule, \<open>for_each_chunk_min_leaf\<close> with an operation that treats the items of its chunk one
  by one gives what the operation gives on the whole slice, on each of its routes (on the
  caller, probe and confirmation items then bisect, lazy, and the two pinned variants); so do
  \<open>for_each_fixed_chunk\<close> and, item by item, \<open>par_map_in_place\<close>. \<open>par_zip_apply\<close> pairs by index
  and refuses unequal lengths.
\<close>

theorem for_each_covers_the_slice:
  "fst (for_each_chunk_min_leaf r e p min_leaf (\<lambda>xs. concat (map g xs)) items) = Some (concat (map g items))
   \<and> fst (for_each_fixed_chunk r e p chunk_size (\<lambda>xs. concat (map g xs)) items) = Some (concat (map g items))
   \<and> fst (par_map_in_place r e p h items) = Some (map h items)
   \<and> (if length items = length ys
      then \<exists>e'. par_zip_apply r e p z items ys = Inr (Some (map2 z items ys), e')
      else par_zip_apply r e p z items ys = Inl ())"
  by (simp add: for_each_chunk_min_leaf_each for_each_fixed_chunk_each par_map_in_place_map
      par_zip_apply_map2) (simp add: par_zip_apply_def)

text \<open>
  The indexed entries hand out the slice end to end. A run of \<open>for_each_indexed\<close> that does
  not overflow in the chunk-count model calls its body on every index below \<open>n\<close> once, in any
  schedule; the slices \<open>for_each_chunk_ref\<close> passes, with their offsets, are non-empty and lie
  end to end over its input.
\<close>

lemma indexed_entries_tile:
  assumes "unat min_leaf < 2 ^ 63" "for_each_indexed r e p n min_leaf f = Inr (result, e1)"
    and "for_each_chunk_ref r e p items width (\<lambda>lo chunk. (lo, chunk)) = Inr (parts, e2)"
  shows "result = Some (map f [0..<n]) \<and> (\<exists>ps. parts = Some ps \<and> tiles 0 items ps)"
  using for_each_indexed_is_map [OF assms(1,2)] for_each_chunk_ref_tiles [OF assms(3)] by blast

text \<open>
  C9: A reduction over a fold that respects concatenation is the sequential fold. When
  combining the folds of two adjacent non-empty slices gives the fold of their join,
  \<open>reduce_chunks\<close> returns the fold of the whole input, on each of its three paths (caller, flat
  with its rounds of pairwise merges, bisect), for every budget the environment or the
  observer sets and every pattern of steals.
\<close>

theorem reduce_is_the_fold:
  assumes hom: "\<And>xs ys. xs \<noteq> [] \<Longrightarrow> ys \<noteq> [] \<Longrightarrow> reduce (step init xs) (step init ys) = step init (xs @ ys)"
  shows "fst (fst (reduce_chunks r chunks_env flat e p items init step reduce)) = Some (step init items)"
proof -
  have "slicewise (\<lambda>_. step init) reduce" by unfold_locales (rule hom)
  then have inner: "reduce_inner migrated init step reduce splits m items = Some (step init items)" for migrated splits m
    by (simp add: reduce_inner_def slicewise.cut_anywhere MIN_LEAF_ITEMS_def)
  have flat: "reduce_chunks_flat init step reduce k items = Some (step init items)" if "0 < k" "k * MIN_LEAF_ITEMS \<le> length items" for k
  proof -
    have "items \<noteq> []" using that by (auto simp: MIN_LEAF_ITEMS_def)
    note cut = flat_chunks_cut [OF that(1) this]
    show ?thesis
      using tree_reduce_cut [where reduce = reduce and g = "step init", OF hom cut(3,2)] by (simp add: reduce_chunks_flat_def cut(1))
  qed
  show ?thesis
    using flat split_budget_pos inner by (auto simp: reduce_chunks_def Let_def split: option.splits)
qed

theorem reduce_is_the_fold_witness:
  "\<forall>r e p. fst (fst (reduce_chunks r (Some 3) True e p [1, 2, 3 :: nat] 0 (\<lambda>a xs. a + sum_list xs) (+))) = Some 6"
  using reduce_is_the_fold [of "(+)" "\<lambda>a xs. a + sum_list xs" "0 :: nat" _ "Some 3" True _ _ "[1, 2, 3]"]
  by simp

section \<open>Leaves\<close>

text \<open>
  Leaves may be half the floor and outnumber items over floor. Under every steal pattern
  the drivers' leaves join to the input and hold at least half the floor, rounded up (or the
  whole input); so their number is bounded by the items over half the floor. Over the floor
  itself it is not: three items with a floor of two come out as two leaves, where the
  documentation of \<open>for_each_chunk\<close> states \<open>items.len() / floor\<close> as the bound on every route.
\<close>

lemma leaves_at_least_half_the_floor:
  assumes "0 < floor" "items \<noteq> []"
  shows "(\<exists>cs. bisect_lazy_steal_driven stolen (\<lambda>xs. [xs]) seed seen floor items = Some cs \<and> concat cs = items
        \<and> (\<forall>c \<in> set cs. min (length items) ((floor + 1) div 2) \<le> length c)
        \<and> min (length items) ((floor + 1) div 2) * length cs \<le> length items)
    \<and> bisect_lazy_steal_driven stolen (\<lambda>xs. [xs]) 1 seen 2 [a, b, c] = Some [[a], [b, c]]"
proof -
  obtain cs where cs: "bisect_lazy_steal_driven stolen (\<lambda>xs. [xs]) seed seen floor items = Some cs"
    using pieces_of_leaves [OF assms(1), of "lazy_split stolen" items "(seed, seen)"]
    by (auto simp: bisect_lazy_steal_driven_def)
  moreover have "bisect_lazy_steal_driven stolen (\<lambda>xs. [xs]) 1 seen 2 [a, b, c] = Some [[a], [b, c]]"
    by (simp add: bisect_lazy_steal_driven_def fork_join.simps [of _ _ _ _ "[]"] fork_join_leaf lazy_split_def Let_def)
  ultimately show ?thesis
    using pieces_sizes [OF assms cs [unfolded bisect_lazy_steal_driven_def]] by simp
qed

text \<open>
  C25: A fixed chunk can be twice its size. \<open>for_each_fixed_chunk\<close> promises chunks of at most
  \<open>chunk_size\<close>; the split budget of one per chunk runs out before the halves do. No slice
  handed to the operation exceeds twice the size, for every steal pattern, and the excess is
  real: nine items in chunks of four, with no steals, come out as four and five.
\<close>

theorem fixed_chunks_at_most_double:
  assumes "0 < chunk"
  shows "(\<exists>cs. bisect_fixed migrated (\<lambda>xs. [xs]) ((length items + chunk - 1) div chunk)
            ((length items + chunk - 1) div chunk) chunk items = Some cs
          \<and> (\<forall>c \<in> set cs. length c \<le> 2 * chunk))
    \<and> bisect_fixed (\<lambda>_. False) (\<lambda>xs. [xs]) 3 3 4 [1, 2, 3, 4, 5, 6, 7, 8, 9 :: nat]
        = Some [[1, 2, 3, 4], [5, 6, 7, 8, 9]]"
  using bisect_fixed_pieces [OF assms, of migrated items]
  by (simp add: bisect_fixed_def fork_join.simps [of _ _ _ _ "[]"] fork_join_leaf replenish_def Let_def)

theorem fixed_chunks_at_most_double_witness:
  "\<exists>cs. bisect_fixed (\<lambda>_. True) (\<lambda>xs. [xs]) 3 3 2 [1, 2, 3, 4, 5 :: nat] = Some cs \<and> (\<forall>c \<in> set cs. length c \<le> 4)"
  using fixed_chunks_at_most_double [of 2 "\<lambda>_. True" "[1, 2, 3, 4, 5 :: nat]"] by (simp add: numeral_3_eq_3)

text \<open>
  C26: With a positive floor each of the nine recursive drivers returns, whatever is stolen: the
  plain, rayon-style, lazy, fixed-chunk, indexed, lazy indexed and triple bisections, the one
  that fills a collect and the one that reduces (whose floor is a constant). With a floor of
  zero the two lazy ones need not: on a thread outside the pool, which always splits, a slice of
  one item is its own right half. The entries clamp the floor to one: \<open>adaptive_min_leaf\<close> keeps a positive floor positive.
\<close>

theorem drivers_return_above_floor_zero:
  "(if 0 < floor
    then (\<exists>ys. bisect migrated op splits m floor items = Some ys)
       \<and> (\<exists>ys. bisect_rayon_style migrated op splits m floor items = Some ys)
       \<and> (\<exists>ys. bisect_lazy_steal_driven stolen op seed seen floor items = Some ys)
       \<and> (\<exists>ys. bisect_fixed migrated op splits m floor items = Some ys)
       \<and> (\<exists>ys. bisect_indexed migrated iop start floor splits m items = Some ys)
       \<and> (\<exists>ys. bisect_lazy_steal_driven_indexed stolen iop start seed seen floor items = Some ys)
       \<and> (\<exists>ys. bisect_triple migrated zop floor splits m out items others = Some ys)
       \<and> (\<exists>ys. collect_inner migrated f start floor splits m items = Some ys)
    else items \<noteq> [] \<longrightarrow> bisect_lazy_steal_driven (\<lambda>_. None) op seed seen floor items = None
       \<and> bisect_lazy_steal_driven_indexed (\<lambda>_. None) iop start seed seen floor items = None)
   \<and> (\<exists>y. reduce_inner migrated init step reduce splits m items = Some y)
   \<and> (0 < unat caller_floor \<longrightarrow> 0 < unat (adaptive_min_leaf cost e p caller_floor))"
proof -
  have "lazy_split (\<lambda>_. None) path c \<noteq> None" for path c
    by (simp add: lazy_split_def split: prod.splits)
  then have "items \<noteq> [] \<longrightarrow> bisect_lazy_steal_driven (\<lambda>_. None) op seed seen 0 items = None
      \<and> bisect_lazy_steal_driven_indexed (\<lambda>_. None) iop start seed seen 0 items = None"
    by (simp add: bisect_lazy_steal_driven_def bisect_lazy_steal_driven_indexed_def fork_join_diverges)
  moreover have "0 < MIN_LEAF_ITEMS" by (simp add: MIN_LEAF_ITEMS_def)
  ultimately show ?thesis
    by (simp add: bisect_def bisect_rayon_style_def bisect_lazy_steal_driven_def reduce_inner_def
        bisect_fixed_def bisect_indexed_def bisect_lazy_steal_driven_indexed_def bisect_triple_def
        collect_inner_def fork_join_total adaptive_min_leaf_pos)
qed

theorem drivers_return_above_floor_zero_witness:
  "bisect_lazy_steal_driven (\<lambda>_. None) (\<lambda>xs. xs) 0 0 0 [1 :: nat] = None
   \<and> (\<exists>ys. bisect_lazy_steal_driven (\<lambda>_. None) (\<lambda>xs. xs) 0 0 1 [1 :: nat] = Some ys)"
proof -
  note at = drivers_return_above_floor_zero [where migrated = "\<lambda>_. False" and op = "\<lambda>xs. xs" and iop = "\<lambda>_ xs. xs"
      and zop = "\<lambda>zs _ _. zs" and out = "[1 :: nat]" and items = "[1 :: nat]" and others = "[1 :: nat]"
      and f = id and start = 0 and stolen = "\<lambda>_. None" and seed = 0 and seen = 0
      and init = "()" and step = "\<lambda>_ _. ()" and reduce = "\<lambda>_ _. ()"]
  show ?thesis using at [where floor = 0] at [where floor = 1] by auto
qed

text \<open>
  C28: A floor of \<open>2^63\<close> takes the quota of the indexed probe past the input. For a small batch
  the quota is one leaf when \<open>2 * leaf\<close> is at most \<open>n\<close>; the product wraps to zero, and for a batch
  of ten the quota is \<open>2^63\<close>, unless the plan states its cost or asks for siblings. Below \<open>2^63\<close> the
  quota never exceeds the batch.
\<close>

theorem oversized_floor_overruns_the_probe:
  "(unat leaf < 2 ^ 63 \<longrightarrow> unat (probe_quota p leaf (of_nat n)) \<le> n)
   \<and> (\<not> jp_estimated_per_item_ns_explicit p \<and> \<not> jp_use_smt p \<longrightarrow> unat (probe_quota p (2 ^ 63) 10) = 2 ^ 63)"
  by (simp add: probe_quota_le) (simp add: probe_quota_def PROBE_MIN_N_def PROBE_SMALL_MIN_N_def max_def word_le_nat_alt)

theorem oversized_floor_overruns_the_probe_witness:
  "unat (probe_quota (plan_bare 0 10) (2 ^ 63) 10) = 2 ^ 63"
  using oversized_floor_overruns_the_probe [of 1 "plan_bare 0 10" 10] by (simp add: plan_bare_def)

section \<open>Leaf statistics\<close>

text \<open>
  C24: No leaf is lost in the per-thread buffers and none is counted twice. Any run of leaves
  recorded on one thread, over any sites and with any clock readings, followed by the flush of
  the dispatch guard (or of the thread's end), leaves the process counter up by the number of
  leaves and the counter of each site up by the number of its own, whatever batches the buffer
  formed on the way.
\<close>

theorem no_leaf_is_lost:
  assumes "s < length (he_sites e)"
  shows "ls_count (ob_leaf (he_observer (snd (flush_all rate bw now (add_leaves rate bw evs (leaf_buffer_new, e))))))
      = ls_count (ob_leaf (he_observer e)) + of_nat (length evs)
    \<and> sc_count (cs_leaf (he_sites (snd (flush_all rate bw now (add_leaves rate bw evs (leaf_buffer_new, e)))) ! s))
      = sc_count (cs_leaf (he_sites e ! s)) + leaves_at s evs"
proof -
  have new: "buffer_ok (fst (leaf_buffer_new, e))"
    by (simp add: buffer_ok_def leaf_buffer_new_def FLUSH_THRESHOLD_def)
  note run = add_leaves_counts [OF new, of rate bw evs s]
  then have flush: "buffer_ok (fst (add_leaves rate bw evs (leaf_buffer_new, e)))"
    "s < length (he_sites (snd (add_leaves rate bw evs (leaf_buffer_new, e))))" using assms by auto
  show ?thesis
    using run assms by (simp add: flush_all_counts [OF flush(1)] flush_all_counts(2) [OF flush])
      (simp add: process_leaves_def site_leaves_def leaf_buffer_new_def)
qed

theorem no_leaf_is_lost_witness:
  "\<forall>e. sc_count (cs_leaf (he_sites (snd (flush_all 16 False (None, 9)
      (add_leaves 16 False [(\<lambda>_. (None, 5), Some 0, 300, 2, None), (\<lambda>_. (None, 7), None, 10, 1, None)]
        (leaf_buffer_new, e\<lparr>he_sites := [call_site_new]\<rparr>)))) ! 0)) = 1"
  using no_leaf_is_lost [of 0 "_\<lparr>he_sites := [call_site_new]\<rparr>" 16 False "(None, 9)"
      "[(\<lambda>_. (None, 5), Some 0, 300, 2, None), (\<lambda>_. (None, 7), None, 10, 1, None)]"]
  by (simp add: leaves_at_def number_def call_site_new_def site_counters_zero_def)

section \<open>The host profile\<close>

text \<open>
  C10: A published profile is never half there. Any number of threads query the profile, or
  calibrate on their own, in any interleaving, with measurements that may panic. At every
  moment at most one query is calibrating, whether or not any thread has returned; and every
  thread that has returned has either figures each of which some measurement found, or, on a
  worker of the pool only, three zeros.
\<close>

theorem profile_never_half_published:
  assumes "\<forall>pc \<in> set pcs. may_start pc" "\<forall>p \<in> set ms. profile_ok p"
    and "\<forall>(i, m) \<in> set sched. \<forall>p. m = Some p \<longrightarrow> p \<in> set ms"
    and "profile_run worker sched (profile_start pcs) = (g, pcs')"
  shows "number holds_flag pcs' \<le> 1
    \<and> (\<forall>i < length pcs'. \<forall>p. pcs' ! i = PF_done p \<longrightarrow>
        worker i \<and> p = zero_profile
        \<or> hp_dispatch_cost_ns p \<in> hp_dispatch_cost_ns ` set ms
          \<and> hp_collapse_threshold_ns p \<in> hp_collapse_threshold_ns ` set ms
          \<and> hp_jec_wake_threshold_ns p \<in> hp_jec_wake_threshold_ns ` set ms)"
proof -
  have inv: "profile_inv ms worker (g, pcs')"
    using profile_run_inv [OF profile_start_inv [OF assms(1)] assms(3,2), of worker] assms(4) by simp
  then have "number holds_flag pcs' = of_bool (pg_calibrating g)" by (simp add: profile_inv_def)
  moreover have "pc_ok ms (worker i) g (pcs' ! i)" if "i < length pcs'" for i
    using inv that by (simp add: profile_inv_def)
  ultimately show ?thesis by fastforce
qed

theorem profile_never_half_published_witness:
  "\<exists>p g. profile_run (\<lambda>_. False) [(0, None), (0, None), (0, Some p), (0, None), (0, None), (0, None), (0, None)]
        (profile_start [PF_query]) = (g, [PF_done p]) \<and> hp_dispatch_cost_ns p = 3"
proof -
  define p where "p = \<lparr>hp_dispatch_cost_ns = 3, hp_collapse_threshold_ns = 7, hp_jec_wake_threshold_ns = 0\<rparr>"
  let ?sched = "[(0, None), (0, None), (0, Some p), (0, None), (0, None), (0, None), (0, None)]"
  obtain g where run: "profile_run (\<lambda>_. False) ?sched (profile_start [PF_query]) = (g, [PF_done p])"
    by (simp add: profile_run_def profile_start_def profile_step_def)
  have "hp_dispatch_cost_ns p = 3"
    using profile_never_half_published [of "[PF_query]" "[p]" ?sched "\<lambda>_. False" g "[PF_done p]"] run
    by (simp add: may_start_def profile_ok_def) (simp add: p_def)
  then show ?thesis using run by blast
qed

text \<open>
  C27: A published profile can be a mixture of two. The comment over the three atomics says a
  reader sees one calibration's triple entire or neither; a thread that read zero, then took
  the flag after the first profile was published, measures again, and a reader between its
  stores returns the second dispatch cost with the first two thresholds. No call of
  \<open>calibrate_host_dispatch\<close> besides the query's own is needed.
\<close>

theorem profile_triple_can_tear:
  assumes "hp_collapse_threshold_ns p \<noteq> 0"
  shows "snd (profile_run (\<lambda>_. False) (torn_schedule p q) (profile_start [PF_query, PF_query, PF_query])) ! 2
    = PF_done \<lparr>hp_dispatch_cost_ns = hp_dispatch_cost_ns q, hp_collapse_threshold_ns = hp_collapse_threshold_ns p,
               hp_jec_wake_threshold_ns = hp_jec_wake_threshold_ns p\<rparr>"
  using assms by (simp add: profile_run_def torn_schedule_def profile_start_def profile_step_def)

theorem profile_triple_can_tear_witness:
  "\<exists>p q. hp_collapse_threshold_ns p \<noteq> 0
     \<and> snd (profile_run (\<lambda>_. False) (torn_schedule p q) (profile_start [PF_query, PF_query, PF_query])) ! 2
       \<notin> {PF_done p, PF_done q, PF_done zero_profile}"
proof -
  define p where "p = \<lparr>hp_dispatch_cost_ns = 3, hp_collapse_threshold_ns = 7, hp_jec_wake_threshold_ns = 1\<rparr>"
  define q where "q = \<lparr>hp_dispatch_cost_ns = 4, hp_collapse_threshold_ns = 8, hp_jec_wake_threshold_ns = 2\<rparr>"
  have "hp_collapse_threshold_ns p \<noteq> 0" by (simp add: p_def)
  from profile_triple_can_tear [OF this, of q] this show ?thesis
    by (intro exI [of _ p] exI [of _ q]) (simp add: p_def q_def zero_profile_def)
qed

text \<open>
  A profile printed is a profile pinned. The three figures written in decimal with commas,
  as the notices print them, are read back by \<open>parse_pinned_profile\<close>; and whatever text it
  accepts gives three figures of which none is zero, the mark of a host not calibrated.
\<close>

lemma pinned_profile_round_trip:
  assumes "profile_ok p" "hp_jec_wake_threshold_ns p \<noteq> 0"
  shows "parse_pinned_profile (show_profile p) = Some p
    \<and> (\<forall>text q. parse_pinned_profile text = Some q \<longrightarrow> profile_ok q \<and> hp_jec_wake_threshold_ns q \<noteq> 0)"
  using parse_show_profile [OF assms] pinned_ok by blast

text \<open>
  The seed depth buys exactly its leaves on a quiet pool. While no worker's steal counter
  moves, a lazy run of seed depth \<open>d\<close> over a slice whose pieces at depth \<open>d - 1\<close> are still longer
  than the floor hands out \<open>2^d\<close> slices, no more and no fewer.
\<close>

lemma quiet_pool_gets_the_seeded_leaves:
  assumes "0 < floor" "\<And>path. stolen path = Some seen" "0 < seed \<Longrightarrow> floor < length items div 2 ^ (seed - 1)"
  shows "\<exists>cs. bisect_lazy_steal_driven stolen (\<lambda>xs. [xs]) seed seen floor items = Some cs \<and> length cs = 2 ^ seed"
proof -
  have "\<exists>ps. leaf_slices floor (lazy_split stolen) [] 0 items (seed, seen) = Some ps \<and> length ps = 2 ^ seed"
    by (rule seed_buys_leaves [OF assms(1)]) (use assms(2,3) in auto)
  then show ?thesis
    using pieces_of_leaves [OF assms(1), of "lazy_split stolen" items "(seed, seen)"]
    by (auto simp: bisect_lazy_steal_driven_def)
qed

text \<open>
  An associative reduction is not enough for a reproducible result. With \<open>reduce\<close> addition,
  the fold of a chunk its number of items and an \<open>init\<close> of one, the result is the number of
  items plus the number of leaves: one with a budget of one, two with a budget of two, over
  any input longer than a leaf. The documentation of \<open>reduce_chunks\<close> asks for an associative
  operator only, and says that with one the result is reproducible.
\<close>

lemma reduce_sees_its_leaves:
  "reduce_inner migrated (1 :: nat) (\<lambda>a xs. a + length xs) (+) 1 1 items = Some (length items + 1)
   \<and> (if MIN_LEAF_ITEMS < length items
      then reduce_inner (\<lambda>_. False) (1 :: nat) (\<lambda>a xs. a + length xs) (+) 2 2 items = Some (length items + 2)
      else reduce_inner (\<lambda>_. False) (1 :: nat) (\<lambda>a xs. a + length xs) (+) 2 2 items = Some (length items + 1))"
  by (simp add: reduce_inner_def fork_join.simps [of _ _ _ _ "[]"] fork_join_leaf replenish_def Let_def)

end
