(* ===== verification/Race.thy ===== *)
theory Race
  imports Par_Collect
begin

text \<open>
  The races of \<open>sched/race.rs\<close>. The cancel-driven ones interleave their arms atomic access by
  atomic access: a schedule lists which arm moves next, so every order \<open>join\<close> and the
  indexed walker can run the arms in is a schedule. The others fan out through
  \<open>collect_indexed\<close> and choose from the collected results; they are written over the model of
  that walker. \<open>race_statistical\<close> is float arithmetic and is not here.
\<close>

section \<open>Arms\<close>

text \<open>
  A closure with a \<open>CancelToken\<close>: it returns, or asks \<open>is_canceled\<close> and goes on by the answer.
  The races hand the token out for that; the documentation keeps \<open>CancelToken::cancel\<close> for
  races composed by hand, so an arm that calls it itself is outside the model.
\<close>

datatype 'r task = Return 'r | Checkpoint "bool \<Rightarrow> 'r task"

text \<open>What the closure returns when no checkpoint ever finds the race canceled.\<close>

primrec undisturbed :: "'r task \<Rightarrow> 'r" where
  "undisturbed (Return r) = r"
| "undisturbed (Checkpoint k) = undisturbed (k False)"

text \<open>The accesses of a closure to its token and its return, at most.\<close>

primrec task_steps :: "'r task \<Rightarrow> nat" where
  "task_steps (Return r) = 1"
| "task_steps (Checkpoint k) = Suc (max (task_steps (k False)) (task_steps (k True)))"

text \<open>
  An arm runs its closure, claims with what it returned (one atomic access to the shared slot
  or ticket counter), stores the cancel flag if the claim says so, and has finished with the
  claim's answer.
\<close>

datatype ('r, 'o) arm = Working "'r task" | Signalling 'o | Finished 'o

record ('m, 'r, 'o) contest =
  ct_cancel :: bool
  ct_shared :: 'm
  ct_arms :: "('r, 'o) arm list"

type_synonym ('m, 'r, 'o) claim = "nat \<Rightarrow> 'r \<Rightarrow> 'm \<Rightarrow> bool \<times> 'o \<times> 'm"

definition contest_start :: "'m \<Rightarrow> 'r task list \<Rightarrow> ('m, 'r, 'o) contest" where
  "contest_start m tasks = \<lparr>ct_cancel = False, ct_shared = m, ct_arms = map Working tasks\<rparr>"

definition set_arm :: "nat \<Rightarrow> ('r, 'o) arm \<Rightarrow> ('m, 'r, 'o) contest \<Rightarrow> ('m, 'r, 'o) contest" where
  "set_arm i a s = s\<lparr>ct_arms := (ct_arms s)[i := a]\<rparr>"

definition arm_step :: "('m, 'r, 'o) claim \<Rightarrow> nat \<Rightarrow> ('m, 'r, 'o) contest \<Rightarrow> ('m, 'r, 'o) contest" where
  "arm_step claim i s =
     (if i < length (ct_arms s)
      then case ct_arms s ! i of
             Working (Checkpoint k) \<Rightarrow> set_arm i (Working (k (ct_cancel s))) s
           | Working (Return r) \<Rightarrow>
               let (signal, out, m) = claim i r (ct_shared s)
               in set_arm i (if signal then Signalling out else Finished out) (s\<lparr>ct_shared := m\<rparr>)
           | Signalling out \<Rightarrow> set_arm i (Finished out) (s\<lparr>ct_cancel := True\<rparr>)
           | Finished out \<Rightarrow> s
      else s)"

definition contest_run ::
  "('m, 'r, 'o) claim \<Rightarrow> 'm \<Rightarrow> 'r task list \<Rightarrow> nat list \<Rightarrow> ('m, 'r, 'o) contest" where
  "contest_run claim m tasks schedule = fold (arm_step claim) schedule (contest_start m tasks)"

definition is_finished :: "('r, 'o) arm \<Rightarrow> bool" where
  "is_finished a = (case a of Finished _ \<Rightarrow> True | _ \<Rightarrow> False)"

primrec arm_out :: "('r, 'o) arm \<Rightarrow> 'o option" where
  "arm_out (Working t) = None"
| "arm_out (Signalling out) = Some out"
| "arm_out (Finished out) = Some out"

definition all_finished :: "('m, 'r, 'o) contest \<Rightarrow> bool" where
  "all_finished s = list_all is_finished (ct_arms s)"

section \<open>First past the post\<close>

text \<open>\<open>OnceLock::set\<close>: the first value stays.\<close>

definition once_set :: "'w \<Rightarrow> 'w option \<Rightarrow> bool \<times> 'w option" where
  "once_set w slot = (case slot of None \<Rightarrow> (True, Some w) | Some v \<Rightarrow> (False, Some v))"

text \<open>
  The tiers: fast is arm 0, faithful arm 1, correct arm 2. A tier that met its contract tries
  the slot and stores the flag whether it won the slot or not.
\<close>

definition tier_of :: "nat \<Rightarrow> variant" where
  "tier_of i = (if i = 0 then Fast else if i = 1 then Faithful else Correct)"

definition tier_claim :: "(('r \<times> variant) option, 'r option, 'r option) claim" where
  "tier_claim i result slot =
     (case result of
        None \<Rightarrow> (False, None, slot)
      | Some v \<Rightarrow> (True, Some v, snd (once_set (v, tier_of i) slot)))"

text \<open>
  The outer \<open>None\<close> is a schedule some arm has not finished in; the inner one is the panic on
  an empty slot.
\<close>

definition race_variants ::
  "nat list \<Rightarrow> 'r option task \<Rightarrow> 'r option task \<Rightarrow> 'r task \<Rightarrow> ('r \<times> variant) option option" where
  "race_variants schedule fast faithful correct =
     (let s = contest_run tier_claim None [fast, faithful, map_task Some correct] schedule
      in if all_finished s then Some (ct_shared s) else None)"

text \<open>Hedged: whoever has finished takes the slot; only who took it stores the flag.\<close>

definition any_claim :: "((nat \<times> 'r) option, 'r, 'r) claim" where
  "any_claim i r slot = (let (won, slot) = once_set (i, r) slot in (won, r, slot))"

definition race_any ::
  "run \<Rightarrow> host_env \<Rightarrow> job_plan \<Rightarrow> nat list \<Rightarrow> 'r task list \<Rightarrow> (nat \<times> 'r) option option \<times> host_env" where
  "race_any r e p schedule attempts =
     (if attempts = [] then (Some None, e)
      else
        let s = contest_run any_claim None attempts schedule
        in if all_finished s
           then let (fanned_out, e) = collect_indexed r e p (length attempts) 1 (\<lambda>_. ())
                in (map_option (\<lambda>_. ct_shared s) fanned_out, e)
           else (None, e))"

datatype ('p, 'q) settled = Proved 'p | Refuted 'q | Unsettled

definition duel_claim :: "(('p, 'q) settled option, ('p, 'q) settled option, ('p, 'q) settled option) claim" where
  "duel_claim i result slot =
     (case result of
        None \<Rightarrow> (False, None, slot)
      | Some v \<Rightarrow> (let (won, slot) = once_set v slot in (won, Some v, slot)))"

definition race_refute ::
  "nat list \<Rightarrow> 'p option task \<Rightarrow> 'q option task \<Rightarrow> ('p, 'q) settled option" where
  "race_refute schedule prove refute =
     (let s = contest_run duel_claim None
                [map_task (map_option Proved) prove, map_task (map_option Refuted) refute] schedule
      in if all_finished s
         then Some (case ct_shared s of Some v \<Rightarrow> v | None \<Rightarrow> Unsettled) else None)"

section \<open>A quorum\<close>

text \<open>One ticket per finisher; the holder of the last ticket of the quorum stores the flag.\<close>

definition quorum_claim :: "nat \<Rightarrow> (nat, 'r, nat \<times> nat \<times> 'r) claim" where
  "quorum_claim k i r claimed = (claimed + 1 = k, (claimed, i, r), claimed + 1)"

definition quorum_of :: "nat \<Rightarrow> (nat \<times> nat \<times> 'r) list \<Rightarrow> (nat \<times> 'r) list" where
  "quorum_of k finished = map snd (take k (sort_key fst finished))"

definition race_quorum ::
  "run \<Rightarrow> host_env \<Rightarrow> job_plan \<Rightarrow> nat list \<Rightarrow> nat \<Rightarrow> 'r task list
    \<Rightarrow> (nat \<times> 'r) list option \<times> host_env" where
  "race_quorum r e p schedule k attempts =
     (let n = length attempts; k = min k n
      in if k = 0 then (Some [], e)
         else
           let s = contest_run (quorum_claim k) 0 attempts schedule
           in if all_finished s
              then let (finished, e) =
                         collect_indexed r e p n 1 (\<lambda>i. the (arm_out (ct_arms s ! i)))
                   in (map_option (quorum_of k) finished, e)
              else (None, e))"

section \<open>Explore and select\<close>

text \<open>The running best over the collected results; a tie keeps the earlier index.\<close>

definition best_index :: "('r \<Rightarrow> 'r \<Rightarrow> bool) \<Rightarrow> 'r list \<Rightarrow> nat" where
  "best_index better results =
     fold (\<lambda>i best. if better (results ! i) (results ! best) then i else best) [1..<length results] 0"

definition explore_select ::
  "run \<Rightarrow> host_env \<Rightarrow> job_plan \<Rightarrow> nat \<Rightarrow> (nat \<Rightarrow> 'r) \<Rightarrow> ('r \<Rightarrow> 'r \<Rightarrow> bool)
    \<Rightarrow> (nat \<times> 'r) option option \<times> host_env" where
  "explore_select r e p n explore better =
     (if n = 0 then (Some None, e)
      else let (results, e) = collect_indexed r e p n 1 explore
           in (map_option (\<lambda>xs. let best = best_index better xs in Some (best, xs ! best)) results, e))"

section \<open>Agreement\<close>

datatype 'r agreement = Consensus (agreed_value: 'r) (agreed_by: nat) (agreed_of: nat) | Split nat nat

text \<open>\<open>eq\<close> is the values' \<open>PartialEq\<close>, which need not be reflexive.\<close>

definition votes_for :: "('r \<Rightarrow> 'r \<Rightarrow> bool) \<Rightarrow> 'r list \<Rightarrow> nat \<Rightarrow> nat" where
  "votes_for eq results i = length (filter (\<lambda>r. eq r (results ! i)) results)"

definition largest_bloc :: "('r \<Rightarrow> 'r \<Rightarrow> bool) \<Rightarrow> 'r list \<Rightarrow> nat \<times> nat" where
  "largest_bloc eq results =
     fold (\<lambda>i (best_idx, best_count).
              let count = votes_for eq results i
              in if best_count < count then (i, count) else (best_idx, best_count))
          [0..<length results] (0, 0)"

definition race_agree ::
  "run \<Rightarrow> host_env \<Rightarrow> job_plan \<Rightarrow> ('r \<Rightarrow> 'r \<Rightarrow> bool) \<Rightarrow> nat \<Rightarrow> nat \<Rightarrow> (nat \<Rightarrow> 'r)
    \<Rightarrow> 'r agreement option \<times> host_env" where
  "race_agree r e p eq n threshold explore =
     (if n = 0 then (Some (Split 0 0), e)
      else let (results, e) = collect_indexed r e p n 1 explore
           in (map_option (\<lambda>xs. let total = length xs; (best_idx, best_count) = largest_bloc eq xs
                               in if max threshold 1 \<le> best_count
                                  then Consensus (xs ! best_idx) best_count total
                                  else Split best_count total) results, e))"

section \<open>Anytime\<close>

text \<open>A score is a float: a number of an ordered type, or \<open>None\<close>, which no comparison accepts.\<close>

type_synonym 'f score = "'f option"

definition score_ge :: "'f::linorder score \<Rightarrow> 'f score \<Rightarrow> bool" where
  "score_ge a b = (case (a, b) of (Some x, Some y) \<Rightarrow> y \<le> x | _ \<Rightarrow> False)"

definition score_gt :: "'f::linorder score \<Rightarrow> 'f score \<Rightarrow> bool" where
  "score_gt a b = (case (a, b) of (Some x, Some y) \<Rightarrow> y < x | _ \<Rightarrow> False)"

definition submit ::
  "'f::linorder score \<Rightarrow> 'r \<Rightarrow> ('f score \<times> 'r) option \<Rightarrow> ('f score \<times> 'r) option" where
  "submit score v best =
     (case best of
        Some (s, w) \<Rightarrow> if score_ge s score then Some (s, w) else Some (score, v)
      | None \<Rightarrow> Some (score, v))"

text \<open>
  An explorer publishes, asks whether the deadline has passed, or leaves. The clock arm sets
  the flag once, so the explorer's first \<open>live\<close> questions are answered no, the rest yes.
\<close>

datatype ('f, 'r) explorer =
    Leave
  | Publish "'f score" 'r "('f, 'r) explorer"
  | Ask_expired "bool \<Rightarrow> ('f, 'r) explorer"

primrec explorer_run ::
  "('f::linorder, 'r) explorer \<Rightarrow> nat \<Rightarrow> ('f score \<times> 'r) option \<Rightarrow> ('f score \<times> 'r) option" where
  "explorer_run Leave live best = best"
| "explorer_run (Publish s v k) live best = explorer_run k live (submit s v best)"
| "explorer_run (Ask_expired k) live best = explorer_run (k (live = 0)) (live - 1) best"

definition deadline_best ::
  "('f::linorder score \<times> 'r) option list \<Rightarrow> ('f score \<times> 'r) option" where
  "deadline_best published =
     fold (\<lambda>candidate best.
             case best of
               None \<Rightarrow> Some candidate
             | Some b \<Rightarrow> if score_gt (fst candidate) (fst b) then Some candidate else Some b)
          (List.map_filter id published) None"

definition race_deadline ::
  "run \<Rightarrow> host_env \<Rightarrow> job_plan \<Rightarrow> (nat \<Rightarrow> nat) \<Rightarrow> nat \<Rightarrow> (nat \<Rightarrow> ('f::linorder, 'r) explorer)
    \<Rightarrow> ('f score \<times> 'r) option option \<times> host_env" where
  "race_deadline r e p live n explore =
     (if n = 0 then (Some None, e)
      else let (published, e) =
                 collect_indexed r e p n 1 (\<lambda>i. explorer_run (explore i) (live i) None)
           in (map_option deadline_best published, e))"

section \<open>A tournament\<close>

text \<open>
  The standard library's stable \<open>sort_by\<close>, asked for the order by \<open>better\<close>: where neither is
  better, the earlier stays first. The library promises that only when the comparison is a
  total order, which it is where \<open>better\<close> is a strict weak order; for any other \<open>better\<close> it
  may panic or leave the items in any order, and the model gives no result (\<open>None\<close>).
\<close>

definition weak_order_on :: "('a \<Rightarrow> 'a \<Rightarrow> bool) \<Rightarrow> 'a set \<Rightarrow> bool" where
  "weak_order_on better A \<longleftrightarrow>
     (\<forall>x \<in> A. \<not> better x x)
     \<and> (\<forall>x \<in> A. \<forall>y \<in> A. \<forall>z \<in> A. better x y \<longrightarrow> better y z \<longrightarrow> better x z)
     \<and> (\<forall>x \<in> A. \<forall>y \<in> A. \<forall>z \<in> A. better x z \<longrightarrow> better x y \<or> better y z)"

fun insert_ranked :: "('a \<Rightarrow> 'a \<Rightarrow> bool) \<Rightarrow> 'a \<Rightarrow> 'a list \<Rightarrow> 'a list" where
  "insert_ranked better x [] = [x]"
| "insert_ranked better x (y # ys) =
     (if better y x then y # insert_ranked better x ys else x # y # ys)"

definition ranked :: "('a \<Rightarrow> 'a \<Rightarrow> bool) \<Rightarrow> 'a list \<Rightarrow> 'a list" where
  "ranked better xs = foldr (insert_ranked better) xs []"

definition rank_by :: "('a \<Rightarrow> 'a \<Rightarrow> bool) \<Rightarrow> 'a list \<Rightarrow> 'a list option" where
  "rank_by better xs = (if weak_order_on better (set xs) then Some (ranked better xs) else None)"

text \<open>The best of a round: the first of the ranking, rounded up to one in \<open>eta\<close>.\<close>

definition best_of_round :: "usize \<Rightarrow> (nat \<times> 'r) list \<Rightarrow> nat list \<Rightarrow> nat list" where
  "best_of_round eta round order =
     (let keep = max ((length round + unat eta - 1) div unat eta) 1
      in map (\<lambda>idx. fst (round ! idx)) (take keep order))"

definition tournament_cut :: "('r \<Rightarrow> 'r \<Rightarrow> bool) \<Rightarrow> usize \<Rightarrow> (nat \<times> 'r) list \<Rightarrow> nat list option" where
  "tournament_cut better eta round =
     map_option (best_of_round eta round)
       (rank_by (\<lambda>a b. better (snd (round ! a)) (snd (round ! b))) [0..<length round])"

text \<open>
  The rounds from the \<open>j\<close>-th on; each is a dispatch of its own. \<open>None\<close>: no end, or a ranking
  the library does not vouch for.
\<close>

partial_function (option) tournament_rounds ::
  "(nat \<Rightarrow> run) \<Rightarrow> job_plan \<Rightarrow> usize \<Rightarrow> (nat \<Rightarrow> u32 \<Rightarrow> 'r) \<Rightarrow> ('r \<Rightarrow> 'r \<Rightarrow> bool)
    \<Rightarrow> nat \<Rightarrow> host_env \<Rightarrow> nat list \<Rightarrow> u32 \<Rightarrow> ((nat \<times> 'r) \<times> host_env) option" where
  "tournament_rounds rs p eta run better j e survivors budget =
     (let (round, e) = collect_indexed (rs j) e p (length survivors) 1
                         (\<lambda>k. (survivors ! k, run (survivors ! k) budget))
      in Option.bind round (\<lambda>round.
           if length round = 1 then Some (hd round, e)
           else Option.bind (tournament_cut better eta round) (\<lambda>survivors.
                  tournament_rounds rs p eta run better (Suc j) e survivors
                    (sat_mul budget (ucast eta)))))"

definition race_tournament ::
  "(nat \<Rightarrow> run) \<Rightarrow> host_env \<Rightarrow> job_plan \<Rightarrow> nat \<Rightarrow> usize \<Rightarrow> u32 \<Rightarrow> (nat \<Rightarrow> u32 \<Rightarrow> 'r) \<Rightarrow> ('r \<Rightarrow> 'r \<Rightarrow> bool)
    \<Rightarrow> (nat \<times> 'r) option option" where
  "race_tournament rs e p n eta base_budget run better =
     (if n = 0 then Some None
      else map_option (\<lambda>(w, e). Some w)
             (tournament_rounds rs p (max eta 2) run better 0 e [0..<n] (max base_budget 1)))"

end
