(* ===== verification/Race_Laws.thy ===== *)
theory Race_Laws
  imports Race Par_Laws "HOL-Library.Multiset"
begin

text \<open>
  What the races of \<open>sched/race.rs\<close> promise. The cancel-driven races share one contract: until
  the race is decided no arm is ever told to stop, so the claims that decide it were made
  with what the closures return undisturbed.
\<close>

section \<open>Deciding a race\<close>

text \<open>
  \<open>undecided\<close> is a predicate of the shared word; \<open>good\<close> is what is kept of it; \<open>sound\<close> holds
  of every arm's answer and \<open>exact\<close> of an answer whose claim left the race undecided.
\<close>

locale race_rules =
  fixes claim :: "('m, 'r, 'o) claim" and tasks :: "'r task list" and undecided :: "'m \<Rightarrow> bool"
    and good :: "'m \<Rightarrow> bool" and sound :: "nat \<Rightarrow> 'o \<Rightarrow> bool" and exact :: "nat \<Rightarrow> 'o \<Rightarrow> bool"
  assumes claim_undecided: "i < length tasks \<Longrightarrow> undecided m \<Longrightarrow> good m
      \<Longrightarrow> claim i (undisturbed (tasks ! i)) m = (signal, out, m')
      \<Longrightarrow> good m' \<and> sound i out \<and> (undecided m' \<longrightarrow> exact i out) \<and> (signal \<longrightarrow> \<not> undecided m')"
    and claim_decided: "i < length tasks \<Longrightarrow> \<not> undecided m \<Longrightarrow> good m \<Longrightarrow> claim i r m = (signal, out, m')
      \<Longrightarrow> good m' \<and> sound i out \<and> \<not> undecided m'"
begin

text \<open>The state of one arm, in a race undecided or not.\<close>

definition arm_ok :: "bool \<Rightarrow> nat \<Rightarrow> ('r, 'o) arm \<Rightarrow> bool" where
  "arm_ok u i a =
     (case a of
        Working t \<Rightarrow> u \<longrightarrow> undisturbed t = undisturbed (tasks ! i)
      | Signalling out \<Rightarrow> \<not> u \<and> sound i out
      | Finished out \<Rightarrow> sound i out \<and> (u \<longrightarrow> exact i out))"

definition inv :: "('m, 'r, 'o) contest \<Rightarrow> bool" where
  "inv s \<longleftrightarrow> length (ct_arms s) = length tasks \<and> good (ct_shared s)
     \<and> (ct_cancel s \<longrightarrow> \<not> undecided (ct_shared s))
     \<and> (\<forall>i < length tasks. arm_ok (undecided (ct_shared s)) i (ct_arms s ! i))"

lemma arm_ok_decided: "arm_ok u i a \<Longrightarrow> arm_ok False i a"
  by (cases a) (auto simp: arm_ok_def)

lemma arm_ok_later: "arm_ok u i a \<Longrightarrow> (u' \<longrightarrow> u) \<Longrightarrow> arm_ok u' i a"
  by (cases u') (auto dest: arm_ok_decided)

lemma inv_set_arm:
  assumes "inv s" "i < length tasks" "good m" "c \<longrightarrow> \<not> undecided m"
    and "undecided m \<longrightarrow> undecided (ct_shared s)" "arm_ok (undecided m) i a"
  shows "inv (set_arm i a (s\<lparr>ct_cancel := c, ct_shared := m\<rparr>))"
  using assms unfolding inv_def set_arm_def
  by (auto simp: nth_list_update intro: arm_ok_later)

lemma inv_step:
  assumes "inv s"
  shows "inv (arm_step claim i s)"
proof (cases "i < length tasks")
  case True
  have ok: "arm_ok (undecided (ct_shared s)) i (ct_arms s ! i)" and len: "length (ct_arms s) = length tasks"
    and g: "good (ct_shared s)" and c: "ct_cancel s \<longrightarrow> \<not> undecided (ct_shared s)"
    using assms True by (auto simp: inv_def)
  show ?thesis
  proof (cases "ct_arms s ! i")
    case (Working t)
    show ?thesis
    proof (cases t)
      case (Checkpoint k)
      then have "arm_ok (undecided (ct_shared s)) i (Working (k (ct_cancel s)))"
        using ok c Working by (cases "ct_cancel s") (auto simp: arm_ok_def)
      then show ?thesis
        using inv_set_arm [OF assms True g c, of "Working (k (ct_cancel s))"] Working Checkpoint True len
        by (simp add: arm_step_def)
    next
      case (Return r)
      obtain signal out m where cl: "claim i r (ct_shared s) = (signal, out, m)"
        by (cases "claim i r (ct_shared s)") auto
      let ?a = "if signal then Signalling out else Finished out"
      have "good m \<and> (undecided m \<longrightarrow> undecided (ct_shared s)) \<and> arm_ok (undecided m) i ?a"
      proof (cases "undecided (ct_shared s)")
        case und: True
        then have "r = undisturbed (tasks ! i)" using ok Working Return by (simp add: arm_ok_def)
        then show ?thesis using claim_undecided [OF True und g] cl und by (auto simp: arm_ok_def)
      next
        case False
        then show ?thesis using claim_decided [OF True False g cl] by (auto simp: arm_ok_def)
      qed
      moreover have "ct_cancel s \<longrightarrow> \<not> undecided m" using c calculation by blast
      ultimately show ?thesis
        using inv_set_arm [OF assms True, of m "ct_cancel s" ?a] Working Return True len cl
        by (simp add: arm_step_def)
    qed
  next
    case (Signalling out)
    then have "\<not> undecided (ct_shared s)" "sound i out" using ok by (auto simp: arm_ok_def)
    then show ?thesis
      using inv_set_arm [OF assms True g, of True "Finished out"] Signalling True len
      by (simp add: arm_step_def arm_ok_def)
  next
    case (Finished out)
    then show ?thesis using assms True len by (simp add: arm_step_def)
  qed
next
  case False
  then show ?thesis using assms by (simp add: arm_step_def inv_def)
qed

lemma inv_run:
  assumes "good m"
  shows "inv (contest_run claim m tasks schedule)"
proof -
  have "inv (contest_start m tasks)"
    using assms by (auto simp: inv_def contest_start_def arm_ok_def)
  moreover have "inv s \<Longrightarrow> inv (fold (arm_step claim) schedule s)" for s
    by (induction schedule arbitrary: s) (auto simp: inv_step)
  ultimately show ?thesis by (simp add: contest_run_def)
qed

lemma run_good: "good m \<Longrightarrow> good (ct_shared (contest_run claim m tasks schedule))"
  using inv_run [of m schedule] by (simp add: inv_def)

lemma canceled_is_decided:
  "good m \<Longrightarrow> ct_cancel (contest_run claim m tasks schedule)
    \<Longrightarrow> \<not> undecided (ct_shared (contest_run claim m tasks schedule))"
  using inv_run [of m schedule] by (simp add: inv_def)

lemma finished_arm:
  assumes "good m" "all_finished (contest_run claim m tasks schedule)" "i < length tasks"
  shows "\<exists>out. ct_arms (contest_run claim m tasks schedule) ! i = Finished out \<and> sound i out
    \<and> (undecided (ct_shared (contest_run claim m tasks schedule)) \<longrightarrow> exact i out)"
proof -
  let ?s = "contest_run claim m tasks schedule"
  have inv: "inv ?s" by (rule inv_run [OF assms(1)])
  then have "is_finished (ct_arms ?s ! i)"
    using assms(2,3) by (auto simp: all_finished_def list_all_length inv_def)
  then obtain out where "ct_arms ?s ! i = Finished out"
    by (cases "ct_arms ?s ! i") (auto simp: is_finished_def)
  then show ?thesis using inv assms(3) by (auto simp: inv_def arm_ok_def)
qed

end

section \<open>Every arm finishes\<close>

text \<open>The accesses an arm has left.\<close>

definition arm_left :: "('r, 'o) arm \<Rightarrow> nat" where
  "arm_left a = (case a of Working t \<Rightarrow> Suc (task_steps t) | Signalling _ \<Rightarrow> 1 | Finished _ \<Rightarrow> 0)"

lemma length_set_arm [simp]: "length (ct_arms (set_arm i a s)) = length (ct_arms s)"
  by (simp add: set_arm_def)

lemma length_arm_step [simp]: "length (ct_arms (arm_step claim i s)) = length (ct_arms s)"
  by (auto simp: arm_step_def Let_def split: arm.splits task.splits prod.splits)

lemma task_steps_pos [simp]: "0 < task_steps t"
  by (cases t) auto

lemma arm_step_left:
  assumes "j < length (ct_arms s)"
  shows "arm_left (ct_arms (arm_step claim i s) ! j) \<le> arm_left (ct_arms s ! j) - of_bool (i = j)"
  using assms
  by (cases "ct_cancel s")
     (auto simp: arm_step_def set_arm_def arm_left_def nth_list_update Let_def split: arm.splits task.splits prod.splits)

lemma fold_arm_left:
  "j < length (ct_arms s)
    \<Longrightarrow> arm_left (ct_arms (fold (arm_step claim) schedule s) ! j) \<le> arm_left (ct_arms s ! j) - count_list schedule j"
proof (induction schedule arbitrary: s)
  case (Cons i schedule)
  then have "arm_left (ct_arms (fold (arm_step claim) schedule (arm_step claim i s)) ! j)
      \<le> arm_left (ct_arms (arm_step claim i s) ! j) - count_list schedule j" by simp
  also have "\<dots> \<le> arm_left (ct_arms s ! j) - of_bool (i = j) - count_list schedule j"
    using arm_step_left [OF Cons.prems, of claim i] by (rule diff_le_mono)
  finally show ?case by (auto simp: of_bool_def split: if_splits)
qed simp

lemma length_fold_arm_step [simp]:
  "length (ct_arms (fold (arm_step claim) schedule s)) = length (ct_arms s)"
  by (induction schedule arbitrary: s) auto

lemma length_contest_run [simp]: "length (ct_arms (contest_run claim m tasks schedule)) = length tasks"
  by (simp add: contest_run_def contest_start_def)

text \<open>A schedule that gives every arm its accesses lets every arm finish.\<close>

definition serves_all :: "nat list \<Rightarrow> 'r task list \<Rightarrow> bool" where
  "serves_all schedule tasks = (\<forall>i < length tasks. task_steps (tasks ! i) < count_list schedule i)"

lemma served_all_finish:
  assumes "serves_all schedule tasks"
  shows "all_finished (contest_run claim m tasks schedule)"
proof -
  have "is_finished (ct_arms (contest_run claim m tasks schedule) ! j)" if "j < length tasks" for j
  proof -
    have "arm_left (ct_arms (contest_run claim m tasks schedule) ! j)
        \<le> Suc (task_steps (tasks ! j)) - count_list schedule j"
      using fold_arm_left [of j "contest_start m tasks" claim schedule] that
      by (simp add: contest_run_def contest_start_def arm_left_def)
    also have "\<dots> = 0" using assms that by (simp add: serves_all_def Suc_le_eq)
    finally show ?thesis
      by (cases "ct_arms (contest_run claim m tasks schedule) ! j") (auto simp: arm_left_def is_finished_def)
  qed
  then show ?thesis by (simp add: all_finished_def list_all_length)
qed

lemma undisturbed_map [simp]: "undisturbed (map_task f t) = f (undisturbed t)"
  by (induction t) auto

lemma task_steps_map [simp]: "task_steps (map_task f t) = task_steps t"
  by (induction t) auto

section \<open>First past the post\<close>

interpretation tiers: race_rules tier_claim tasks "\<lambda>m. m = None"
  "\<lambda>m. \<forall>v t. m = Some (v, t) \<longrightarrow> (\<exists>i < length tasks. t = tier_of i \<and> undisturbed (tasks ! i) = Some v)"
  "\<lambda>_ _. True" "\<lambda>i _. undisturbed (tasks ! i) = None"
  for tasks :: "'r option task list"
  by unfold_locales (auto simp: tier_claim_def once_set_def split: option.splits)

interpretation hedged: race_rules any_claim tasks "\<lambda>m. m = None"
  "\<lambda>m. \<forall>i v. m = Some (i, v) \<longrightarrow> i < length tasks \<and> undisturbed (tasks ! i) = v"
  "\<lambda>_ _. True" "\<lambda>_ _. False"
  for tasks :: "'r task list"
  by unfold_locales (auto simp: any_claim_def once_set_def split: option.splits)

interpretation duel: race_rules duel_claim tasks "\<lambda>m. m = None"
  "\<lambda>m. \<forall>v. m = Some v \<longrightarrow> (\<exists>i < length tasks. undisturbed (tasks ! i) = Some v)"
  "\<lambda>_ _. True" "\<lambda>i _. undisturbed (tasks ! i) = None"
  for tasks :: "('p, 'q) settled option task list"
  by unfold_locales (auto simp: duel_claim_def once_set_def split: option.splits)

lemma race_variants_sound:
  assumes "race_variants schedule fast faithful correct = Some res"
  obtains v t where "res = Some (v, t)"
    and "case t of Fast \<Rightarrow> undisturbed fast = Some v | Faithful \<Rightarrow> undisturbed faithful = Some v
      | Correct \<Rightarrow> undisturbed correct = v"
proof -
  let ?tasks = "[fast, faithful, map_task Some correct]"
  let ?s = "contest_run tier_claim None ?tasks schedule"
  have fin: "all_finished ?s" and res: "res = ct_shared ?s"
    using assms by (auto simp: race_variants_def Let_def split: if_splits)
  have "ct_shared ?s \<noteq> None"
    using tiers.finished_arm [where tasks = ?tasks and m = None and i = 2, OF _ fin] by auto
  then obtain v t where vt: "ct_shared ?s = Some (v, t)" by auto
  then obtain i where "i < length ?tasks" "t = tier_of i" "undisturbed (?tasks ! i) = Some v"
    using tiers.run_good [where tasks = ?tasks and m = None and schedule = schedule] by auto
  moreover have "i = 0 \<or> i = 1 \<or> i = 2" using \<open>i < length ?tasks\<close> by auto
  ultimately have "case t of Fast \<Rightarrow> undisturbed fast = Some v | Faithful \<Rightarrow> undisturbed faithful = Some v
      | Correct \<Rightarrow> undisturbed correct = v" by (auto simp: tier_of_def)
  with vt res that show thesis by blast
qed

lemma race_refute_sound:
  assumes "race_refute schedule prove refute = Some res"
  shows "case res of Proved v \<Rightarrow> undisturbed prove = Some v | Refuted w \<Rightarrow> undisturbed refute = Some w
      | Unsettled \<Rightarrow> undisturbed prove = None \<and> undisturbed refute = None"
proof -
  let ?tasks = "[map_task (map_option Proved) prove, map_task (map_option Refuted) refute]"
  let ?s = "contest_run duel_claim None ?tasks schedule"
  have fin: "all_finished ?s" and res: "res = (case ct_shared ?s of Some v \<Rightarrow> v | None \<Rightarrow> Unsettled)"
    using assms by (auto simp: race_refute_def Let_def split: if_splits)
  show ?thesis
  proof (cases "ct_shared ?s")
    case None
    have "undisturbed (?tasks ! i) = None" if "i < length ?tasks" for i
      using duel.finished_arm [where tasks = ?tasks and m = None, OF _ fin that] None by auto
    from this [of 0] this [of 1] show ?thesis using res None by simp
  next
    case (Some v)
    then obtain i where "i < length ?tasks" "undisturbed (?tasks ! i) = Some v"
      using duel.run_good [where tasks = ?tasks and m = None and schedule = schedule] by auto
    moreover have "i = 0 \<or> i = 1" using \<open>i < length ?tasks\<close> by auto
    ultimately show ?thesis using res Some by auto
  qed
qed

section \<open>A quorum\<close>

interpretation quorum: race_rules "quorum_claim k" tasks "\<lambda>m. m < k" "\<lambda>_. True"
  "\<lambda>i (ticket, j, r). j = i \<and> (ticket < k \<longrightarrow> r = undisturbed (tasks ! i))" "\<lambda>_ _. True"
  for k :: nat and tasks :: "'r task list"
  by unfold_locales (auto simp: quorum_claim_def)

text \<open>The tickets that are out are the numbers below the counter, each held once.\<close>

definition tickets :: "(nat, 'r, nat \<times> nat \<times> 'r) contest \<Rightarrow> nat multiset" where
  "tickets s = image_mset (\<lambda>a. case arm_out a of Some (t, _) \<Rightarrow> t | None \<Rightarrow> 0)
     (filter_mset (\<lambda>a. arm_out a \<noteq> None) (mset (ct_arms s)))"

lemma tickets_set_arm:
  assumes "i < length (ct_arms s)"
  shows "tickets (set_arm i a s) + (case arm_out (ct_arms s ! i) of Some (t, _) \<Rightarrow> {#t#} | None \<Rightarrow> {#})
    = tickets s + (case arm_out a of Some (t, _) \<Rightarrow> {#t#} | None \<Rightarrow> {#})"
proof -
  have "ct_arms s ! i \<in># mset (ct_arms s)" using assms by simp
  then obtain M where "mset (ct_arms s) = add_mset (ct_arms s ! i) M" by (blast dest: multi_member_split)
  then show ?thesis
    using assms by (auto simp: tickets_def set_arm_def mset_update split: option.split)
qed

lemma tickets_same [simp]: "tickets (s\<lparr>ct_cancel := c\<rparr>) = tickets s" "tickets (s\<lparr>ct_shared := m\<rparr>) = tickets s"
  by (simp_all add: tickets_def)

lemma shared_set_arm [simp]: "ct_shared (set_arm i a s) = ct_shared s"
  by (simp add: set_arm_def)

lemma arm_out_claimed [simp]: "arm_out (if c then Signalling out else Finished out) = Some out"
  by simp

lemma tickets_step:
  assumes "tickets s = mset [0..<ct_shared s]"
  shows "tickets (arm_step (quorum_claim k) i s) = mset [0..<ct_shared (arm_step (quorum_claim k) i s)]"
proof (cases "i < length (ct_arms s)")
  case True
  show ?thesis
  proof (cases "ct_arms s ! i")
    case (Working t)
    then show ?thesis
      using tickets_set_arm [of i s "Working u" for u] True assms
        tickets_set_arm [of i "s\<lparr>ct_shared := m\<rparr>" a for m a]
      by (cases t) (auto simp: arm_step_def quorum_claim_def split del: if_split)
  next
    case (Signalling out)
    then show ?thesis
      using tickets_set_arm [of i "s\<lparr>ct_cancel := True\<rparr>" "Finished out"] True assms
      by (auto simp: arm_step_def)
  qed (use True assms in \<open>simp add: arm_step_def\<close>)
next
  case False
  then show ?thesis using assms by (simp add: arm_step_def)
qed

lemma tickets_run: "tickets (contest_run (quorum_claim k) 0 tasks schedule)
    = mset [0..<ct_shared (contest_run (quorum_claim k) 0 tasks schedule)]"
proof -
  have "tickets (contest_start 0 tasks) = mset [0..<ct_shared (contest_start (0::nat) tasks)]"
    by (induction tasks) (auto simp: tickets_def contest_start_def)
  moreover have "tickets s = mset [0..<ct_shared s]
      \<Longrightarrow> tickets (fold (arm_step (quorum_claim k)) schedule s)
          = mset [0..<ct_shared (fold (arm_step (quorum_claim k)) schedule s)]" for s
    by (induction schedule arbitrary: s) (auto simp: tickets_step simp del: mset_upt)
  ultimately show ?thesis unfolding contest_run_def by blast
qed

end
