(* ===== verification/Race_Choice.thy ===== *)
theory Race_Choice
  imports Race_Laws
begin

text \<open>
  The races of \<open>sched/race.rs\<close> that run every closure and choose afterwards, and the end of
  the quorum, which sorts what the walker collected.
\<close>

lemma fanned: "fst (collect_indexed r e p n 1 f) = Some (map f [0..<n])"
  by (rule collect_indexed_is_map) simp

lemma race_any_sound:
  assumes "fst (race_any r e p schedule attempts) = Some res" "attempts \<noteq> []"
  obtains i where "i < length attempts" "res = Some (i, undisturbed (attempts ! i))"
proof -
  let ?s = "contest_run any_claim None attempts schedule"
  have fin: "all_finished ?s" and res: "res = ct_shared ?s"
    using assms by (auto simp: race_any_def Let_def case_prod_beta fanned split: if_splits)
  have "ct_shared ?s \<noteq> None"
    using hedged.finished_arm [where tasks = attempts and m = None and i = 0, OF _ fin] assms(2) by auto
  then obtain i v where "ct_shared ?s = Some (i, v)" by auto
  then show thesis
    using hedged.run_good [where tasks = attempts and m = None and schedule = schedule] res that by auto
qed

section \<open>The quorum's answer\<close>

lemma sort_key_permutation:
  assumes "mset (map fst xs) = mset [0..<n]"
  shows "map fst (sort_key fst xs) = [0..<n]"
proof -
  have "mset (map fst (sort_key fst xs)) = mset [0..<n]" using assms by simp
  then show ?thesis
    using properties_for_sort [OF _ sorted_sort_key] by (metis sorted_sort_id sorted_upt)
qed

lemma tickets_finished: "ct_arms s = map Finished F \<Longrightarrow> tickets s = mset (map fst F)"
proof -
  have "image_mset (\<lambda>a. case arm_out a of Some (t, _) \<Rightarrow> t | None \<Rightarrow> 0)
      (filter_mset (\<lambda>a. arm_out a \<noteq> None) (mset (map Finished F))) = mset (map fst F)"
    by (induction F) (auto split: prod.split)
  then show "ct_arms s = map Finished F \<Longrightarrow> tickets s = mset (map fst F)"
    by (simp add: tickets_def del: mset_map)
qed

lemma race_quorum_sound:
  assumes "fst (race_quorum r e p schedule k attempts) = Some qs"
  shows "length qs = min k (length attempts)" "distinct (map fst qs)"
    and "\<forall>(i, v) \<in> set qs. i < length attempts \<and> v = undisturbed (attempts ! i)"
proof -
  let ?n = "length attempts" and ?k = "min k (length attempts)"
  let ?s = "contest_run (quorum_claim ?k) 0 attempts schedule"
  define F where "F = map (\<lambda>i. the (arm_out (ct_arms ?s ! i))) [0..<?n]"
  have "length qs = ?k \<and> distinct (map fst qs)
      \<and> (\<forall>(i, v) \<in> set qs. i < ?n \<and> v = undisturbed (attempts ! i))"
  proof (cases "?k = 0")
    case True
    then show ?thesis using assms by (auto simp: race_quorum_def Let_def)
  next
    case False
    then have "race_quorum r e p schedule k attempts =
        (if all_finished ?s
         then case collect_indexed r e p ?n 1 (\<lambda>i. the (arm_out (ct_arms ?s ! i))) of
                (finished, e) \<Rightarrow> (map_option (quorum_of ?k) finished, e)
         else (None, e))"
      unfolding race_quorum_def Let_def by (rule if_not_P)
    then have fin: "all_finished ?s" and qs: "qs = quorum_of ?k F"
      using assms by (simp_all add: case_prod_beta F_def fanned split: if_splits)
    have arm: "\<exists>t r. ct_arms ?s ! i = Finished (t, i, r) \<and> (t < ?k \<longrightarrow> r = undisturbed (attempts ! i))"
      if "i < ?n" for i
      using quorum.finished_arm [where m = 0 and k = ?k, OF _ fin that] by auto
    have out: "F ! i = (t, j, r) \<Longrightarrow> j = i \<and> (t < ?k \<longrightarrow> r = undisturbed (attempts ! i))"
      if "i < ?n" for i t j r
      using arm [OF that] that by (auto simp: F_def)
    have "ct_arms ?s = map (\<lambda>x. Finished x) F"
      using arm by (intro nth_equalityI) (fastforce simp: F_def)+
    have lenF: "length F = ?n" by (simp add: F_def)
    from \<open>ct_arms ?s = _\<close> have tick: "mset (map fst F) = mset [0..<ct_shared ?s]"
      using tickets_run [of ?k attempts schedule] tickets_finished [of ?s F] by argo
    then have "ct_shared ?s = ?n" using mset_eq_length [OF tick] lenF by simp
    with tick have order: "map fst (sort_key fst F) = [0..<?n]" by (simp add: sort_key_permutation)
    have len: "length (sort_key fst F) = ?n" by (simp add: F_def)
    have "map (fst \<circ> snd) F = [0..<?n]"
      proof (intro nth_equalityI)
      fix l
      assume "l < length (map (fst \<circ> snd) F)"
      then have l: "l < ?n" by (simp add: F_def)
      obtain t j r where "F ! l = (t, j, r)" by (metis prod.exhaust)
      then show "map (fst \<circ> snd) F ! l = [0..<?n] ! l" using out [OF l] l lenF by simp
    qed (simp add: lenF)
    then have "distinct (map (fst \<circ> snd) (sort_key fst F))"
      by (metis distinct_upt mset_eq_imp_distinct_iff mset_map mset_sort)
    then have "distinct (map fst qs)"
      by (simp add: qs quorum_of_def comp_def take_map [symmetric] distinct_take)
    moreover have "i < ?n \<and> v = undisturbed (attempts ! i)" if mem: "(i, v) \<in> set qs" for i v
    proof -
      obtain j where j: "j < ?k" "sort_key fst F ! j = (fst (sort_key fst F ! j), i, v)" "j < ?n"
        proof -
        obtain l where l: "l < length qs" "qs ! l = (i, v)" using mem by (metis in_set_conv_nth)
        then have "l < ?k" "l < ?n" "snd (sort_key fst F ! l) = (i, v)"
          using len by (simp_all add: qs quorum_of_def)
        then show thesis by (intro that [of l]) (simp_all add: prod_eq_iff)
      qed
      then have "fst (sort_key fst F ! j) = j" using order len by (metis add_0 nth_map nth_upt)
      then have "(j, i, v) \<in> set (sort_key fst F)" using j len by (metis nth_mem)
      then obtain l where "l < ?n" "F ! l = (j, i, v)" by (auto simp: in_set_conv_nth F_def)
      then show ?thesis using out [of l j i v] j(1) by auto
    qed
    moreover have "length qs = ?k" by (simp add: qs quorum_of_def lenF)
    ultimately show ?thesis by blast
  qed
  then show "length qs = min k (length attempts)" "distinct (map fst qs)"
    and "\<forall>(i, v) \<in> set qs. i < length attempts \<and> v = undisturbed (attempts ! i)" by blast+
qed

section \<open>The best of a list\<close>

text \<open>A strict order in which what neither beats the other is a tie, and ties are transitive.\<close>

definition strict_preference :: "('r \<Rightarrow> 'r \<Rightarrow> bool) \<Rightarrow> bool" where
  "strict_preference better \<longleftrightarrow>
     (\<forall>x y. better x y \<longrightarrow> \<not> better y x) \<and> (\<forall>x y z. better x z \<longrightarrow> better x y \<or> better y z)"

lemma preference_asym: "strict_preference better \<Longrightarrow> better x y \<Longrightarrow> \<not> better y x"
  unfolding strict_preference_def by blast

lemma preference_negtrans: "strict_preference better \<Longrightarrow> better x z \<Longrightarrow> better x y \<or> better y z"
  unfolding strict_preference_def by blast

lemma preference_irrefl: "strict_preference better \<Longrightarrow> \<not> better x x"
  unfolding strict_preference_def by blast

definition best_up_to :: "('r \<Rightarrow> 'r \<Rightarrow> bool) \<Rightarrow> 'r list \<Rightarrow> nat \<Rightarrow> nat \<Rightarrow> bool" where
  "best_up_to better xs m b \<longleftrightarrow> b < m \<and> (\<forall>j < m. \<not> better (xs ! j) (xs ! b)) \<and> (\<forall>j < b. better (xs ! b) (xs ! j))"

lemma best_up_to_Suc:
  "strict_preference better \<Longrightarrow> best_up_to better xs m b \<Longrightarrow> best_up_to better xs (Suc m) (if better (xs ! m) (xs ! b) then m else b)"
proof (cases "better (xs ! m) (xs ! b)")
  case True
  assume pref: "strict_preference better" and up: "best_up_to better xs m b"
  have "\<not> better (xs ! j) (xs ! m)" "better (xs ! m) (xs ! j)" if "j < m" for j
  proof -
    have "\<not> better (xs ! j) (xs ! b)" using up that by (simp add: best_up_to_def)
    then show "better (xs ! m) (xs ! j)" using preference_negtrans [OF pref True, of "xs ! j"] by simp
    then show "\<not> better (xs ! j) (xs ! m)" by (rule preference_asym [OF pref])
  qed
  then show ?thesis using True preference_irrefl [OF pref, of "xs ! m"] by (auto simp: best_up_to_def less_Suc_eq)
next
  case False
  assume "best_up_to better xs m b"
  then show ?thesis using False by (auto simp: best_up_to_def less_Suc_eq)
qed

lemma best_index_best:
  assumes pref: "strict_preference better" and "xs \<noteq> []"
  shows "best_up_to better xs (length xs) (best_index better xs)"
proof -
  have "best_up_to better xs (Suc m) (fold (\<lambda>i best. if better (xs ! i) (xs ! best) then i else best) [Suc 0..<Suc m] 0)" for m
  proof (induction m)
    case 0
    then show ?case by (simp add: best_up_to_def preference_irrefl [OF pref])
  next
    case (Suc m)
    have "[Suc 0..<Suc (Suc m)] = [Suc 0..<Suc m] @ [Suc m]" by simp
    then show ?case using best_up_to_Suc [OF pref Suc] by (simp del: upt_Suc)
  qed
  from this [of "length xs - 1"] show ?thesis using assms by (simp add: best_index_def)
qed

section \<open>Agreement\<close>

lemma largest_bloc_max:
  assumes "largest_bloc eq xs = (i, c)" "xs \<noteq> []"
  shows "i < length xs" "c = votes_for eq xs i" "\<forall>j < length xs. votes_for eq xs j \<le> c"
proof -
  define f where "f = (\<lambda>i (best_idx, best_count).
      let count = votes_for eq xs i in if best_count < count then (i, count) else (best_idx, best_count))"
  have inv: "(\<forall>j < m. votes_for eq xs j \<le> snd (fold f [0..<m] (0, 0)))
      \<and> fst (fold f [0..<m] (0, 0)) < max m 1
      \<and> (fold f [0..<m] (0, 0) = (0, 0)
         \<or> snd (fold f [0..<m] (0, 0)) = votes_for eq xs (fst (fold f [0..<m] (0, 0))))" for m
  proof (induction m)
    case (Suc m)
    obtain b k where "fold f [0..<m] (0, 0) = (b, k)" by (cases "fold f [0..<m] (0, 0)") auto
    with Suc show ?case by (auto simp: f_def Let_def less_Suc_eq)
  qed simp
  have "fold f [0..<length xs] (0, 0) = (i, c)" using assms(1) by (simp add: largest_bloc_def f_def)
  then show "i < length xs" "c = votes_for eq xs i" "\<forall>j < length xs. votes_for eq xs j \<le> c"
    using inv [of "length xs"] assms(2) by (auto simp: max_def split: if_splits)
qed

lemma race_agree_verdict:
  assumes "0 < n" "fst (race_agree r e p eq n threshold explore) = Some verdict"
  obtains i c where "i < n" "c = votes_for eq (map explore [0..<n]) i"
    and "\<forall>j < n. votes_for eq (map explore [0..<n]) j \<le> c"
    and "verdict = (if max threshold 1 \<le> c then Consensus (explore i) c n else Split c n)"
proof -
  obtain i c where "largest_bloc eq (map explore [0..<n]) = (i, c)" by fastforce
  then show thesis
    using largest_bloc_max [of eq "map explore [0..<n]" i c] assms that [of i c]
    by (simp add: race_agree_def case_prod_beta fanned Let_def split: if_splits)
qed

section \<open>Anytime\<close>

text \<open>What an explorer publishes, in order.\<close>

primrec publications :: "('f, 'r) explorer \<Rightarrow> nat \<Rightarrow> ('f score \<times> 'r) list" where
  "publications Leave live = []"
| "publications (Publish s v k) live = (s, v) # publications k live"
| "publications (Ask_expired k) live = publications (k (live = 0)) (live - 1)"

lemma explorer_run_submits:
  "explorer_run t live best = fold (\<lambda>(s, v). submit s v) (publications t live) best"
  by (induction t arbitrary: live best) auto

text \<open>The best of a set of publications whose scores are numbers.\<close>

definition top_of :: "('f::linorder score \<times> 'r) option \<Rightarrow> ('f score \<times> 'r) set \<Rightarrow> bool" where
  "top_of best S =
     (case best of None \<Rightarrow> S = {} | Some b \<Rightarrow> b \<in> S \<and> (\<forall>c \<in> S. the (fst c) \<le> the (fst b)))"

lemma submit_top:
  assumes "top_of best S" "\<forall>c \<in> insert (s, v) S. fst c \<noteq> None"
  shows "top_of (submit s v best) (insert (s, v) S)"
  using assms by (auto simp: top_of_def submit_def score_ge_def split: option.splits)

lemma explorer_run_top:
  assumes "\<forall>c \<in> set (publications t live). fst c \<noteq> None"
  shows "top_of (explorer_run t live None) (set (publications t live))"
proof -
  have "top_of best S \<Longrightarrow> \<forall>c \<in> S \<union> set ps. fst c \<noteq> None
      \<Longrightarrow> top_of (fold (\<lambda>(s, v). submit s v) ps best) (S \<union> set ps)"
    for best S and ps :: "('a score \<times> 'b) list"
  proof (induction ps arbitrary: best S)
    case (Cons c ps)
    obtain s v where c: "c = (s, v)" by (cases c)
    have "top_of (submit s v best) (insert (s, v) S)" using Cons.prems by (intro submit_top) (auto simp: c)
    then have "top_of (fold (\<lambda>(s, v). submit s v) ps (submit s v best)) (insert (s, v) S \<union> set ps)"
      using Cons.prems by (intro Cons.IH) (auto simp: c)
    then show ?case by (simp add: c)
  qed simp
  from this [of None "{}"] assms show ?thesis by (simp add: explorer_run_submits top_of_def)
qed

lemma top_of_union:
  assumes "top_of (Some d) A" "top_of (Some c) B" "\<forall>z \<in> A \<union> B. fst z \<noteq> None"
  shows "top_of (if score_gt (fst c) (fst d) then Some c else Some d) (A \<union> B)"
proof -
  have d: "d \<in> A" "\<And>z. z \<in> A \<Longrightarrow> the (fst z) \<le> the (fst d)"
    and c: "c \<in> B" "\<And>z. z \<in> B \<Longrightarrow> the (fst z) \<le> the (fst c)"
    using assms(1,2) by (simp_all add: top_of_def)
  obtain x y where xy: "fst c = Some x" "fst d = Some y" using d(1) c(1) assms(3) by blast
  show ?thesis
  proof (cases "y < x")
    case True
    then have "the (fst z) \<le> x" if "z \<in> A \<union> B" for z using that d(2) [of z] c(2) [of z] xy by auto
    then show ?thesis using True c(1) by (simp add: top_of_def score_gt_def xy)
  next
    case False
    then have "the (fst z) \<le> y" if "z \<in> A \<union> B" for z using that d(2) [of z] c(2) [of z] xy by auto
    then show ?thesis using False d(1) by (simp add: top_of_def score_gt_def xy)
  qed
qed

lemma deadline_best_top:
  assumes "\<forall>i < length bests. top_of (bests ! i) (S i)" "\<forall>i < length bests. \<forall>c \<in> S i. fst c \<noteq> None"
  shows "top_of (deadline_best bests) (\<Union>i < length bests. S i)"
  using assms
proof (induction bests rule: rev_induct)
  case Nil
  then show ?case by (simp add: deadline_best_def top_of_def map_filter_def)
next
  case (snoc b bests)
  have ih: "top_of (deadline_best bests) (\<Union>i < length bests. S i)"
  proof (intro snoc.IH allI impI)
    fix i
    assume i: "i < length bests"
    then have i': "i < length (bests @ [b])" by simp
    then have "top_of ((bests @ [b]) ! i) (S i)" using snoc.prems(1) by blast
    with i show "top_of (bests ! i) (S i)" by (simp add: nth_append)
    show "\<forall>c \<in> S i. fst c \<noteq> None" using snoc.prems(2) i' by blast
  qed
  have b: "top_of b (S (length bests))" using snoc.prems(1) by (metis length_append_singleton lessI nth_append_length)
  have nums: "\<forall>c \<in> (\<Union>i < length bests. S i) \<union> S (length bests). fst c \<noteq> None"
    using snoc.prems(2) by (fastforce simp: less_Suc_eq)
  have U: "(\<Union>i < length (bests @ [b]). S i) = (\<Union>i < length bests. S i) \<union> S (length bests)"
    by (auto simp: less_Suc_eq)
  have step: "deadline_best (bests @ [b]) =
      (case b of None \<Rightarrow> deadline_best bests
       | Some c \<Rightarrow> (case deadline_best bests of None \<Rightarrow> Some c
           | Some d \<Rightarrow> if score_gt (fst c) (fst d) then Some c else Some d))"
    by (simp add: deadline_best_def map_filter_def split: option.split)
  show ?case
  proof (cases b)
    case None
    then show ?thesis using ih b unfolding U step by (simp add: top_of_def)
  next
    case (Some c)
    show ?thesis
    proof (cases "deadline_best bests")
      case None
      then show ?thesis using ih b Some unfolding U step by (simp add: top_of_def)
    next
      case d: (Some d)
      have "top_of (if score_gt (fst c) (fst d) then Some c else Some d)
          ((\<Union>i < length bests. S i) \<union> S (length bests))"
        using ih b nums unfolding Some d by (rule top_of_union)
      then show ?thesis unfolding U step by (simp add: Some d)
    qed
  qed
qed

lemma score_gt_nan: "\<not> score_gt a None"
  by (simp add: score_gt_def split: option.split)

lemma deadline_best_nan: "deadline_best (Some (None, v) # bests) = Some (None, v)"
proof -
  have "fold (\<lambda>candidate best. case best of None \<Rightarrow> Some candidate
      | Some b \<Rightarrow> if score_gt (fst candidate) (fst b) then Some candidate else Some b) cs (Some (None, v))
    = Some (None, v)" for cs :: "('a score \<times> 'b) list"
    by (induction cs) (simp_all add: score_gt_nan)
  then show ?thesis by (simp add: deadline_best_def map_filter_def)
qed

section \<open>The tournament\<close>

lemma mset_ranked [simp]: "mset (ranked better xs) = mset xs"
proof -
  have "mset (insert_ranked better x ys) = add_mset x (mset ys)" for x ys
    by (induction ys) auto
  then show ?thesis by (induction xs) (auto simp: ranked_def)
qed

lemma set_ranked [simp]: "set (ranked better xs) = set xs"
  by (metis mset_ranked set_mset_mset)

lemma length_ranked [simp]: "length (ranked better xs) = length xs"
  by (metis mset_ranked size_mset)

lemma hd_ranked:
  assumes "c \<in> set xs" "\<forall>y \<in> set xs. \<not> better y c" "\<forall>y \<in> set xs. y \<noteq> c \<longrightarrow> better c y"
  shows "\<exists>ys. ranked better xs = c # ys"
  using assms
proof (induction xs)
  case (Cons x xs)
  show ?case
  proof (cases "x = c")
    case True
    have "\<forall>y \<in> set (ranked better xs). \<not> better y c" using Cons.prems(2) by simp
    then show ?thesis using True by (cases "ranked better xs") (auto simp: ranked_def)
  next
    case False
    then obtain ys where "ranked better xs = c # ys" using Cons by auto
    then show ?thesis using False Cons.prems(3) by (auto simp: ranked_def)
  qed
qed simp

text \<open>The list that is left when the ranking is one the library vouches for.\<close>

definition cut_list :: "('r \<Rightarrow> 'r \<Rightarrow> bool) \<Rightarrow> usize \<Rightarrow> (nat \<times> 'r) list \<Rightarrow> nat list" where
  "cut_list better eta round =
     best_of_round eta round (ranked (\<lambda>a b. better (snd (round ! a)) (snd (round ! b))) [0..<length round])"

lemma weak_order_mono: "weak_order_on better B \<Longrightarrow> A \<subseteq> B \<Longrightarrow> weak_order_on better A"
  unfolding weak_order_on_def by blast

lemma weak_order_image: "weak_order_on better (f ` A) \<Longrightarrow> weak_order_on (\<lambda>a b. better (f a) (f b)) A"
  unfolding weak_order_on_def ball_simps by blast

lemma tournament_cut_some:
  assumes "weak_order_on better (snd ` set round)"
  shows "tournament_cut better eta round = Some (cut_list better eta round)"
proof -
  have "(\<lambda>k. snd (round ! k)) ` set [0..<length round] \<subseteq> snd ` set round" by auto
  then have "weak_order_on (\<lambda>a b. better (snd (round ! a)) (snd (round ! b))) (set [0..<length round])"
    by (intro weak_order_image [of better "\<lambda>k. snd (round ! k)"] weak_order_mono [OF assms])
  then show ?thesis by (simp add: tournament_cut_def rank_by_def cut_list_def)
qed

definition cut_size :: "nat \<Rightarrow> nat \<Rightarrow> nat" where
  "cut_size n eta = max ((n + eta - 1) div eta) 1"

lemma cut_size_lt: "2 \<le> eta \<Longrightarrow> 2 \<le> n \<Longrightarrow> cut_size n eta < n"
proof -
  assume a: "2 \<le> eta" "2 \<le> n"
  have "n + eta - 1 < n * eta"
  proof -
    have "2 * (n - 1) \<le> eta * (n - 1)" using a(1) by (rule mult_le_mono1)
    moreover have "n * eta = eta * (n - 1) + eta" using a(2) by (cases n) (auto simp: algebra_simps)
    ultimately show ?thesis using a by linarith
  qed
  then show "cut_size n eta < n" using a by (simp add: cut_size_def less_mult_imp_div_less)
qed

lemma cut_size_pos [simp]: "0 < cut_size n eta"
  by (simp add: cut_size_def)

lemma cut_list_shape:
  assumes "round = map (\<lambda>k. (survivors ! k, f k)) [0..<length survivors]"
  shows "length (cut_list better eta round) = min (cut_size (length survivors) (unat eta)) (length survivors)"
    "set (cut_list better eta round) \<subseteq> set survivors"
proof -
  show "length (cut_list better eta round) = min (cut_size (length survivors) (unat eta)) (length survivors)"
    using assms by (simp add: cut_list_def best_of_round_def cut_size_def Let_def min.commute)
  show "set (cut_list better eta round) \<subseteq> set survivors"
    using assms by (auto simp: cut_list_def best_of_round_def Let_def dest!: in_set_takeD)
qed

text \<open>One round: collect from every survivor, then stop or cut.\<close>

definition round_of :: "(nat \<Rightarrow> u32 \<Rightarrow> 'r) \<Rightarrow> nat list \<Rightarrow> u32 \<Rightarrow> (nat \<times> 'r) list" where
  "round_of run survivors budget = map (\<lambda>k. (survivors ! k, run (survivors ! k) budget)) [0..<length survivors]"

lemma length_round_of [simp]: "length (round_of run survivors budget) = length survivors"
  by (simp add: round_of_def)

lemma hd_round_of: "length survivors = 1 \<Longrightarrow> hd (round_of run survivors budget) = (hd survivors, run (hd survivors) budget)"
  by (cases survivors) (simp_all add: round_of_def)

lemma tournament_unfold:
  assumes order: "weak_order_on better {run id b |id b. id \<in> set survivors}"
  shows "\<exists>e'. tournament_rounds rs p eta run better j e survivors budget =
     (if length survivors = 1 then Some ((hd survivors, run (hd survivors) budget), e')
      else tournament_rounds rs p eta run better (Suc j) e'
             (cut_list better eta (round_of run survivors budget)) (sat_mul budget (ucast eta)))"
proof -
  let ?fan = "collect_indexed (rs j) e p (length survivors) 1 (\<lambda>k. (survivors ! k, run (survivors ! k) budget))"
  obtain e' where e': "e' = snd ?fan" by blast
  have collect: "?fan = (Some (round_of run survivors budget), e')"
    by (simp add: e' prod_eq_iff fanned round_of_def)
  have "tournament_rounds rs p eta run better j e survivors budget =
      (case (Some (round_of run survivors budget), e') of (round, e) \<Rightarrow>
         Option.bind round (\<lambda>round.
           if length round = 1 then Some (hd round, e)
           else Option.bind (tournament_cut better eta round) (\<lambda>survivors.
                  tournament_rounds rs p eta run better (Suc j) e survivors (sat_mul budget (ucast eta)))))"
    by (subst tournament_rounds.simps) (simp only: collect Let_def)
  moreover have "snd ` set (round_of run survivors budget) \<subseteq> {run id b |id b. id \<in> set survivors}"
    using nth_mem [of _ survivors] by (fastforce simp: round_of_def)
  then have "tournament_cut better eta (round_of run survivors budget)
      = Some (cut_list better eta (round_of run survivors budget))"
    by (intro tournament_cut_some weak_order_mono [OF order])
  ultimately show ?thesis
    by (intro exI [of _ e']) (simp only: prod.case bind.bind_lunit length_round_of hd_round_of cong: if_cong)
qed

lemma tournament_returns:
  assumes "2 \<le> unat eta" "survivors \<noteq> []"
    and order: "weak_order_on better {run id b |id b. id \<in> set survivors}"
    and ok: "ok survivors budget"
    and kept: "\<And>survivors budget. ok survivors budget \<Longrightarrow> 1 < length survivors
      \<Longrightarrow> ok (cut_list better eta (round_of run survivors budget)) (sat_mul budget (ucast eta))"
  shows "\<exists>id b e'. tournament_rounds rs p eta run better j e survivors budget = Some ((id, run id b), e')
    \<and> id \<in> set survivors \<and> ok [id] b"
  using assms(2,3,4)
proof (induction "length survivors" arbitrary: survivors budget j e rule: less_induct)
  case less
  obtain e' where unf: "tournament_rounds rs p eta run better j e survivors budget =
     (if length survivors = 1 then Some ((hd survivors, run (hd survivors) budget), e')
      else tournament_rounds rs p eta run better (Suc j) e'
             (cut_list better eta (round_of run survivors budget)) (sat_mul budget (ucast eta)))"
    using tournament_unfold [OF less.prems(2)] by blast
  show ?case
  proof (cases "length survivors = 1")
    case True
    then have "survivors = [hd survivors]" by (cases survivors) auto
    then show ?thesis using unf True less.prems by (metis list.set_intros(1))
  next
    case False
    then have two: "2 \<le> length survivors" using less.prems(1) by (cases survivors) (auto simp: Suc_le_eq)
    let ?cut = "cut_list better eta (round_of run survivors budget)"
    have len: "length ?cut = min (cut_size (length survivors) (unat eta)) (length survivors)"
      and sub: "set ?cut \<subseteq> set survivors"
      by (rule cut_list_shape(1) [OF round_of_def], rule cut_list_shape(2) [OF round_of_def])
    have "length ?cut < length survivors" using len cut_size_lt [OF assms(1) two] by simp
    moreover have "0 < length ?cut" using two by (auto simp: len)
    moreover have "ok ?cut (sat_mul budget (ucast eta))" using kept less.prems(3) two by simp
    moreover have "weak_order_on better {run id b |id b. id \<in> set ?cut}"
      by (rule weak_order_mono [OF less.prems(2)]) (use sub in blast)
    ultimately obtain id b e'' where
      "tournament_rounds rs p eta run better (Suc j) e' ?cut (sat_mul budget (ucast eta)) = Some ((id, run id b), e'')"
      "id \<in> set ?cut" "ok [id] b"
      using less.hyps [of ?cut "sat_mul budget (ucast eta)" "Suc j" e'] by auto
    then show ?thesis using unf False sub by auto
  qed
qed

text \<open>A candidate that beats every other at every budget is never cut.\<close>

lemma champion_kept:
  assumes "w \<in> set survivors" "distinct survivors"
    and beats: "\<And>v b. v \<in> set survivors \<Longrightarrow> v \<noteq> w \<Longrightarrow> better (run w b) (run v b)"
    and not_beaten: "\<And>v b. v \<in> set survivors \<Longrightarrow> \<not> better (run v b) (run w b)"
  shows "w \<in> set (cut_list better eta (round_of run survivors budget))"
proof -
  obtain c where c: "c < length survivors" "survivors ! c = w" using assms(1) by (metis in_set_conv_nth)
  let ?round = "round_of run survivors budget"
  let ?lt = "\<lambda>a b. better (snd (?round ! a)) (snd (?round ! b))"
  have "\<exists>ys. ranked ?lt [0..<length survivors] = c # ys"
  proof (rule hd_ranked)
    show "\<forall>y \<in> set [0..<length survivors]. y \<noteq> c \<longrightarrow> ?lt c y"
      using c assms(2) beats nth_eq_iff_index_eq [OF assms(2)] by (auto simp: round_of_def)
    show "\<forall>y \<in> set [0..<length survivors]. \<not> ?lt y c"
      using c not_beaten by (auto simp: round_of_def)
  qed (use c in simp)
  then obtain ys where ys: "ranked ?lt [0..<length ?round] = c # ys" by (auto simp: round_of_def)
  have "c \<in> set (take (cut_size (length ?round) (unat eta)) (c # ys))"
    by (metis cut_size_pos gr0_conv_Suc list.set_intros(1) take_Suc_Cons)
  then have "fst (?round ! c) \<in> set (cut_list better eta ?round)"
    unfolding cut_list_def best_of_round_def Let_def cut_size_def [symmetric] ys by simp
  then show ?thesis using c by (simp add: round_of_def)
qed

lemma distinct_cut:
  assumes "distinct survivors"
  shows "distinct (cut_list better eta (round_of run survivors budget))"
proof -
  let ?round = "round_of run survivors budget"
  let ?picked = "take (cut_size (length ?round) (unat eta))
      (ranked (\<lambda>a b. better (snd (?round ! a)) (snd (?round ! b))) [0..<length ?round])"
  have "set ?picked \<subseteq> {..<length survivors}"
    by (auto simp: round_of_def dest!: in_set_takeD)
  moreover have "distinct ?picked"
    by (rule distinct_take) (metis distinct_upt mset_eq_imp_distinct_iff mset_ranked)
  moreover have "distinct (map (\<lambda>idx. fst (?round ! idx)) xs)"
    if "set xs \<subseteq> {..<length survivors}" "distinct xs" for xs
    using that nth_eq_iff_index_eq [OF assms]
    by (induction xs) (auto simp: round_of_def simp del: upt_Suc)
  ultimately show ?thesis
    unfolding cut_list_def best_of_round_def Let_def cut_size_def [symmetric] by blast
qed

lemma race_tournament_returns:
  assumes "0 < n" and order: "weak_order_on better {run id b |id b. id < n}" and start: "ok [0..<n] (max base 1)"
    and kept: "\<And>survivors budget. ok survivors budget \<Longrightarrow> 1 < length survivors
      \<Longrightarrow> ok (cut_list better (max eta 2) (round_of run survivors budget))
             (sat_mul budget (ucast (max eta 2)))"
  shows "\<exists>id b. race_tournament rs e p n eta base run better = Some (Some (id, run id b)) \<and> id < n \<and> ok [id] b"
proof -
  have "2 \<le> unat (max eta 2)" by (simp add: max_def word_le_nat_alt)
  then obtain id b e' where "tournament_rounds rs p (max eta 2) run better 0 e [0..<n] (max base 1)
      = Some ((id, run id b), e')" "id \<in> set [0..<n]" "ok [id] b"
    using tournament_returns [where ok = ok and survivors = "[0..<n]" and budget = "max base 1" and j = 0
        and rs = rs and p = p and e = e, OF _ _ _ start kept] assms(1) order
    by auto
  then show ?thesis using assms(1) by (auto simp: race_tournament_def)
qed

end
