(* ===== verification/Race_Properties.thy ===== *)
theory Race_Properties
  imports Race_Choice
begin

text \<open>
  The properties of the races of \<open>sched/race.rs\<close>, over every schedule of the arms and every
  outcome of the dispatches they fan out through.
\<close>

text \<open>
  C20: A race of the three tiers never finds its slot empty: whatever the schedule, a result
  comes with the tier that produced it, and it is what that tier's closure returns when it is
  never told to stop (so a fast or faithful winner met its contract undisturbed). A schedule
  that gives every arm its accesses reaches a result.
\<close>

theorem race_variants_contract:
  "(\<forall>res. race_variants schedule fast faithful correct = Some res \<longrightarrow>
      (\<exists>v. res = Some (v, Fast) \<and> undisturbed fast = Some v
         \<or> res = Some (v, Faithful) \<and> undisturbed faithful = Some v
         \<or> res = Some (v, Correct) \<and> undisturbed correct = v))
    \<and> (serves_all schedule [fast, faithful, map_task Some correct]
        \<longrightarrow> race_variants schedule fast faithful correct \<noteq> None)"
proof (intro conjI allI impI)
  fix res
  assume "race_variants schedule fast faithful correct = Some res"
  then obtain v t where "res = Some (v, t)"
    and "case t of Fast \<Rightarrow> undisturbed fast = Some v | Faithful \<Rightarrow> undisturbed faithful = Some v
      | Correct \<Rightarrow> undisturbed correct = v"
    by (rule race_variants_sound)
  then show "\<exists>v. res = Some (v, Fast) \<and> undisturbed fast = Some v
         \<or> res = Some (v, Faithful) \<and> undisturbed faithful = Some v
         \<or> res = Some (v, Correct) \<and> undisturbed correct = v"
    by (cases t) auto
next
  assume "serves_all schedule [fast, faithful, map_task Some correct]"
  then show "race_variants schedule fast faithful correct \<noteq> None"
    by (simp add: race_variants_def Let_def served_all_finish)
qed

theorem race_variants_contract_witness:
  "race_variants [0, 1, 2, 2, 1, 0, 2, 2, 1, 1, 0, 0]
     (Checkpoint (\<lambda>c. Return (if c then None else Some (7 :: nat)))) (Return None)
     (Checkpoint (\<lambda>_. Return 8)) = Some (Some (8, Correct))
   \<and> race_variants [0, 1, 2, 2, 1, 0, 2, 2, 1, 1, 0, 0]
     (Checkpoint (\<lambda>c. Return (if c then None else Some (7 :: nat)))) (Return None)
     (Checkpoint (\<lambda>_. Return 8)) \<noteq> None"
proof
  show "race_variants [0, 1, 2, 2, 1, 0, 2, 2, 1, 1, 0, 0]
     (Checkpoint (\<lambda>c. Return (if c then None else Some (7 :: nat)))) (Return None)
     (Checkpoint (\<lambda>_. Return 8)) = Some (Some (8, Correct))"
    by (simp add: race_variants_def contest_run_def contest_start_def arm_step_def set_arm_def
        tier_claim_def once_set_def tier_of_def all_finished_def is_finished_def)
  have "serves_all [0, 1, 2, 2, 1, 0, 2, 2, 1, 1, 0, 0]
     [Checkpoint (\<lambda>c. Return (if c then None else Some (7 :: nat))), Return None,
      map_task Some (Checkpoint (\<lambda>_. Return 8))]"
    by (simp add: serves_all_def All_less_Suc)
  then show "race_variants [0, 1, 2, 2, 1, 0, 2, 2, 1, 1, 0, 0]
     (Checkpoint (\<lambda>c. Return (if c then None else Some (7 :: nat)))) (Return None)
     (Checkpoint (\<lambda>_. Return 8)) \<noteq> None"
    using race_variants_contract [of "[0, 1, 2, 2, 1, 0, 2, 2, 1, 1, 0, 0]"
        "Checkpoint (\<lambda>c. Return (if c then None else Some (7 :: nat)))" "Return None" "Checkpoint (\<lambda>_. Return 8)"]
    by blast
qed

text \<open>
  C21: A quorum is exactly \<open>min k n\<close> different attempts, and each of its members was never told
  to stop: its result is what the attempt returns undisturbed.
\<close>

theorem quorum_is_undisturbed:
  assumes "fst (race_quorum r e p schedule k attempts) = Some qs"
  shows "length qs = min k (length attempts) \<and> distinct (map fst qs)
    \<and> (\<forall>(i, v) \<in> set qs. i < length attempts \<and> v = undisturbed (attempts ! i))"
  using race_quorum_sound [OF assms] by blast

theorem quorum_is_undisturbed_witness:
  "\<forall>r e p. \<exists>qs. fst (race_quorum r e p [1, 1, 0, 0, 2] 2
      [Return 5, Checkpoint (\<lambda>c. Return (if c then 0 else 6)), Return (7 :: nat)]) = Some qs
    \<and> length qs = 2 \<and> distinct (map fst qs)"
proof (intro allI)
  fix r e p
  let ?attempts = "[Return 5, Checkpoint (\<lambda>c. Return (if c then 0 else 6)), Return (7 :: nat)]"
  have "fst (race_quorum r e p [1, 1, 0, 0, 2] 2 ?attempts) = Some [(1, 6), (0, 5)]"
    by (simp add: race_quorum_def contest_run_def contest_start_def arm_step_def set_arm_def quorum_claim_def
        all_finished_def is_finished_def case_prod_beta fanned quorum_of_def upt_conv_Cons numeral_3_eq_3
        insort_key.simps del: upt_Suc)
  then show "\<exists>qs. fst (race_quorum r e p [1, 1, 0, 0, 2] 2 ?attempts) = Some qs
      \<and> length qs = 2 \<and> distinct (map fst qs)"
    using quorum_is_undisturbed [of r e p "[1, 1, 0, 0, 2]" 2 ?attempts] by fastforce
qed

text \<open>
  Selection among explorers under a strict preference (nothing beats itself, ties are
  transitive) returns the earliest of the best: no explorer's result beats it, and it beats
  every earlier one.
\<close>

lemma explore_select_earliest_best:
  assumes "strict_preference better" and "0 < n"
  shows "\<exists>i < n. fst (explore_select r e p n explore better) = Some (Some (i, explore i))
    \<and> (\<forall>j < n. \<not> better (explore j) (explore i)) \<and> (\<forall>j < i. better (explore i) (explore j))"
proof -
  let ?xs = "map explore [0..<n]"
  let ?i = "best_index better ?xs"
  have best: "best_up_to better ?xs n ?i" using best_index_best [OF assms(1), of ?xs] assms(2) by simp
  then have "?i < n" by (simp add: best_up_to_def)
  then show ?thesis
    using best assms(2)
    by (intro exI [of _ ?i]) (simp add: explore_select_def case_prod_beta fanned best_up_to_def Let_def)
qed

text \<open>
  A vote returns a consensus exactly when some answer was given by at least \<open>threshold\<close>
  explorers (one, for a threshold of zero); the value is one explorer's answer, the count is
  how many answers equal it, and no answer has more. This holds of any \<open>PartialEq\<close>, reflexive
  or not.
\<close>

lemma agreement_is_plurality:
  assumes "0 < n" and "fst (race_agree r e p eq n threshold explore) = Some verdict"
  shows "\<exists>i < n. let c = votes_for eq (map explore [0..<n]) i in
      (\<forall>j < n. votes_for eq (map explore [0..<n]) j \<le> c)
      \<and> verdict = (if max threshold 1 \<le> c then Consensus (explore i) c n else Split c n)"
  using race_agree_verdict [OF assms] unfolding Let_def by metis

text \<open>
  C22: Where \<open>better\<close> is a strict weak order of the results the candidates can give, a
  tournament ends, whatever \<open>eta\<close>, with a result of one of its candidates; and a candidate
  that beats every other at every budget, and is beaten by none, wins it. The order is what
  the library's \<open>sort_by\<close> asks of its comparison: without it, say with a score that is no
  number, the sort may panic.
\<close>

theorem tournament_crowns_champion:
  assumes "0 < n" and order: "weak_order_on better {run id b |id b. id < n}"
  shows "(\<exists>id b. race_tournament rs e p n eta base run better = Some (Some (id, run id b)) \<and> id < n)
    \<and> (w < n \<and> (\<forall>v < n. \<forall>b. \<not> better (run v b) (run w b) \<and> (v \<noteq> w \<longrightarrow> better (run w b) (run v b)))
        \<longrightarrow> (\<exists>b. race_tournament rs e p n eta base run better = Some (Some (w, run w b))))"
proof (intro conjI impI)
  show "\<exists>id b. race_tournament rs e p n eta base run better = Some (Some (id, run id b)) \<and> id < n"
    using race_tournament_returns [where ok = "\<lambda>_ _. True", OF assms TrueI] by blast
next
  assume champion: "w < n \<and> (\<forall>v < n. \<forall>b. \<not> better (run v b) (run w b)
    \<and> (v \<noteq> w \<longrightarrow> better (run w b) (run v b)))"
  let ?ok = "\<lambda>survivors (b :: u32). w \<in> set survivors \<and> distinct survivors \<and> set survivors \<subseteq> {..<n}"
  have "\<exists>id b. race_tournament rs e p n eta base run better = Some (Some (id, run id b)) \<and> id < n \<and> ?ok [id] b"
  proof (rule race_tournament_returns [where ok = ?ok, OF assms])
    show "?ok [0..<n] (max base 1)" using champion by auto
    show "?ok (cut_list better (max eta 2) (round_of run survivors budget))
        (sat_mul budget (ucast (max eta 2)))"
      if "?ok survivors budget" for survivors and budget :: u32
    proof (intro conjI)
      show "w \<in> set (cut_list better (max eta 2) (round_of run survivors budget))"
        using that champion by (intro champion_kept) auto
      show "distinct (cut_list better (max eta 2) (round_of run survivors budget))"
        using that by (simp add: distinct_cut)
      show "set (cut_list better (max eta 2) (round_of run survivors budget)) \<subseteq> {..<n}"
        using cut_list_shape(2) [OF round_of_def] that by blast
    qed
  qed
  then show "\<exists>b. race_tournament rs e p n eta base run better = Some (Some (w, run w b))" by auto
qed

theorem tournament_crowns_champion_witness:
  "\<forall>rs e p. race_tournament rs e p 3 2 1 (\<lambda>id _. id) (\<lambda>x y. y < x) = Some (Some (2 :: nat, 2))"
proof (intro allI)
  fix rs e p
  have "weak_order_on (\<lambda>x y :: nat. y < x) {id |id b. id < 3}"
    unfolding weak_order_on_def by (simp, linarith)
  then show "race_tournament rs e p 3 2 1 (\<lambda>id _. id) (\<lambda>x y. y < x) = Some (Some (2 :: nat, 2))"
    using tournament_crowns_champion [where n = 3 and w = 2 and better = "\<lambda>x y. y < x" and run = "\<lambda>id _. id"
        and rs = rs and e = e and p = p and eta = 2 and base = 1]
    by auto
qed

text \<open>
  An \<open>eta\<close> that is a multiple of \<open>2 ^ 32\<close> loses its value in the cast to \<open>u32\<close>: with two
  candidates the final is run at budget zero, not at a larger one.
\<close>

lemma tournament_final_at_zero:
  assumes order: "weak_order_on better {run id b |id b. id < 2}"
  shows "\<exists>id < 2. race_tournament rs e p 2 4294967296 base run better = Some (Some (id, run id 0))"
proof -
  have order2: "weak_order_on better {run id b |id b. id \<in> set [0..<2]}" using order by simp
  let ?eta = "4294967296 :: usize" and ?b = "max base 1"
  let ?cut = "cut_list better ?eta (round_of run [0..<2] ?b)"
  have eta: "max ?eta 2 = ?eta" "unat ?eta = 4294967296" by (simp_all add: max_def word_le_nat_alt)
  have "ucast ?eta = (0 :: u32)" by simp
  then have zero: "sat_mul ?b (ucast ?eta) = 0" by (simp only: sat_mul_def) simp
  have "length ?cut = 1" "set ?cut \<subseteq> {0, 1}"
    using cut_list_shape [OF round_of_def, of better ?eta run "[0..<2]" ?b]
    by (auto simp: cut_size_def eta)
  then obtain id where cut: "?cut = [id]" "id < 2" by (cases ?cut) auto
  obtain e1 where "tournament_rounds rs p ?eta run better 0 e [0..<2] ?b
      = (if length [0..<2] = 1 then Some ((hd [0..<2], run (hd [0..<2]) ?b), e1)
         else tournament_rounds rs p ?eta run better (Suc 0) e1 ?cut (sat_mul ?b (ucast ?eta)))"
    using tournament_unfold [OF order2] by blast
  then have first: "tournament_rounds rs p ?eta run better 0 e [0..<2] ?b
      = tournament_rounds rs p ?eta run better (Suc 0) e1 ?cut 0"
    unfolding zero by simp
  have order_one: "weak_order_on better {run k b |k b. k \<in> set [id]}"
    by (rule weak_order_mono [OF order]) (use cut(2) in auto)
  obtain e2 where "tournament_rounds rs p ?eta run better (Suc 0) e1 [id] 0 = Some ((id, run id 0), e2)"
    using tournament_unfold [OF order_one, of rs p ?eta "Suc 0" e1 0] by auto
  then show ?thesis using first cut by (auto simp: race_tournament_def eta(1))
qed

text \<open>
  C23: A score that is not a number replaces whatever its explorer had published, and if the
  first explorer to have published ends on one, the race returns it whatever the others
  reached. Where every score is a number, the race returns the best of everything published.
\<close>

theorem nan_score_wins:
  "submit None v best = Some (None, v)
    \<and> deadline_best (Some (None, v) # bests) = Some (None, v)
    \<and> ((\<forall>i < n. \<forall>c \<in> set (publications (explore i) (live i)). fst c \<noteq> None) \<and> 0 < n
       \<longrightarrow> (\<exists>best. fst (race_deadline r e p live n explore) = Some best
              \<and> top_of best (\<Union>i < n. set (publications (explore i) (live i)))))"
proof (intro conjI impI)
  show "submit None v best = Some (None, v)" by (simp add: submit_def score_ge_def split: option.split)
  show "deadline_best (Some (None, v) # bests) = Some (None, v)" by (rule deadline_best_nan)
next
  assume nums: "(\<forall>i < n. \<forall>c \<in> set (publications (explore i) (live i)). fst c \<noteq> None) \<and> 0 < n"
  let ?bests = "map (\<lambda>i. explorer_run (explore i) (live i) None) [0..<n]"
  have "top_of (deadline_best ?bests) (\<Union>i < length ?bests. set (publications (explore i) (live i)))"
    using nums by (intro deadline_best_top) (simp_all add: explorer_run_top)
  then show "\<exists>best. fst (race_deadline r e p live n explore) = Some best
      \<and> top_of best (\<Union>i < n. set (publications (explore i) (live i)))"
    using nums by (simp add: race_deadline_def case_prod_beta fanned)
qed

theorem nan_score_wins_witness:
  "\<forall>r e p live. \<exists>best. fst (race_deadline r e p live 2 (\<lambda>i. Publish (Some (int i)) i Leave)) = Some best
    \<and> top_of best {(Some 0, 0), (Some 1, 1)}"
proof (intro allI)
  fix r e p live
  show "\<exists>best. fst (race_deadline r e p live 2 (\<lambda>i. Publish (Some (int i)) i Leave)) = Some best
      \<and> top_of best {(Some 0, 0), (Some 1, 1)}"
    using nan_score_wins [where n = 2 and explore = "\<lambda>i. Publish (Some (int i)) i Leave" and live = live
        and r = r and e = e and p = p, THEN conjunct2, THEN conjunct2]
    by (simp add: lessThan_Suc numeral_2_eq_2 insert_commute)
qed

end
