(* ===== verification/Cooperative.thy ===== *)
theory Cooperative
  imports Job_Line Latch Plan
begin

text \<open>
  The N-way fork-join of \<open>sched/cooperative.rs\<close>: which shape a list of closures takes, the
  tree, where a fan-out puts its jobs, and the fan-out itself as the interleaved steps of the
  calling worker and its peers. A closure is the index of a job with an outcome, a value or a
  panic's payload; the last closure runs on the caller.
\<close>

section \<open>Shapes\<close>

definition JOBS_PER_SLOT :: nat where "JOBS_PER_SLOT = 3"
definition DEQUE_FIRST_BURST :: nat where "DEQUE_FIRST_BURST = JOBS_PER_SLOT"
definition MAILBOX_GATE_POOL_MULTIPLE :: usize where "MAILBOX_GATE_POOL_MULTIPLE = 32"
definition MAILBOX_CAPACITY :: nat where "MAILBOX_CAPACITY = 16"
definition DEQUE_RING_CAPACITY :: nat where "DEQUE_RING_CAPACITY = 256"

definition mailbox_gate :: "usize \<Rightarrow> usize" where
  "mailbox_gate n_workers = sat_mul n_workers MAILBOX_GATE_POOL_MULTIPLE"

datatype fan_out_mode = Deque_mode | Mailbox_mode

datatype coop_shape = On_caller | Shape_tree | Shape_flat fan_out_mode

text \<open>
  Fewer than three closures take the tree's fast paths in every entry. The external entry of
  the mailbox shape asks for mailboxes and \<open>fan_out_in_worker\<close> applies the gate again.
\<close>

definition effective_mode :: "usize \<Rightarrow> usize \<Rightarrow> fan_out_mode \<Rightarrow> fan_out_mode" where
  "effective_mode n_workers n mode =
     (if mode = Mailbox_mode \<and> n < mailbox_gate n_workers then Deque_mode else mode)"

definition shape_tree :: "job_plan \<Rightarrow> coop_shape" where
  "shape_tree p = (if capped_to_caller p then On_caller else Shape_tree)"

definition shape_flat :: "job_plan \<Rightarrow> usize \<Rightarrow> coop_shape" where
  "shape_flat p n =
     (if capped_to_caller p then On_caller
      else if n < 3 then Shape_tree else Shape_flat Deque_mode)"

definition shape_mailbox :: "job_plan \<Rightarrow> bool \<Rightarrow> usize \<Rightarrow> usize \<Rightarrow> coop_shape" where
  "shape_mailbox p in_worker n_workers n =
     (if capped_to_caller p then On_caller
      else if n < 3 then Shape_tree
      else let mode = (if in_worker
                       then if mailbox_gate n_workers \<le> n then Mailbox_mode else Deque_mode
                       else Mailbox_mode)
           in Shape_flat (effective_mode n_workers n mode))"

definition shape_join_n :: "job_plan \<Rightarrow> bool \<Rightarrow> usize \<Rightarrow> usize \<Rightarrow> coop_shape" where
  "shape_join_n p in_worker n_workers n =
     (if capped_to_caller p then On_caller
      else if n < 3 then shape_tree p
      else case jp_cooperative_routing p of
             ForceTree \<Rightarrow> shape_tree p
           | ForceMailbox \<Rightarrow> shape_mailbox p in_worker n_workers n
           | ForceDeque \<Rightarrow> shape_flat p n
           | Coop_Auto \<Rightarrow>
               if n < n_workers then shape_tree p else shape_mailbox p in_worker n_workers n)"

section \<open>The tree\<close>

text \<open>Nothing, one closure inline, or a \<open>join\<close> of two halves.\<close>

datatype 'c join_tree = Join_none | Join_one 'c | Join_two "'c join_tree" "'c join_tree"

function cooperative_join_n_tree :: "'c list \<Rightarrow> 'c join_tree" where
  "cooperative_join_n_tree closures =
     (case closures of
        [] \<Rightarrow> Join_none
      | [c] \<Rightarrow> Join_one c
      | [a, b] \<Rightarrow> Join_two (Join_one a) (Join_one b)
      | _ \<Rightarrow>
          let mid = length closures div 2
          in Join_two (cooperative_join_n_tree (take mid closures)) (cooperative_join_n_tree (drop mid closures)))"
  by pat_completeness auto

termination
  by (relation "measure length") auto

declare cooperative_join_n_tree.simps [simp del]

text \<open>The results in the caller's order: the left half's, then the right half's.\<close>

primrec tree_results :: "('c \<Rightarrow> 'r) \<Rightarrow> 'c join_tree \<Rightarrow> 'r list" where
  "tree_results run Join_none = []"
| "tree_results run (Join_one c) = [run c]"
| "tree_results run (Join_two l r) = tree_results run l @ tree_results run r"

primrec tree_depth :: "'c join_tree \<Rightarrow> nat" where
  "tree_depth Join_none = 0"
| "tree_depth (Join_one c) = 0"
| "tree_depth (Join_two l r) = Suc (max (tree_depth l) (tree_depth r))"

section \<open>Where a job goes\<close>

text \<open>The mailbox of the next worker but the caller, counting from the caller's neighbour.\<close>

definition mailbox_target :: "nat \<Rightarrow> nat \<Rightarrow> nat \<Rightarrow> nat" where
  "mailbox_target n_workers index i =
     (if 1 < n_workers
      then let t = (index + 1 + i) mod n_workers
           in if t = index then (t + 1) mod n_workers else t
      else index)"

section \<open>The fan-out\<close>

text \<open>
  A worker runs no job of this fan-out, runs one, or has stored the result of one and is about
  to count it down.
\<close>

datatype fan_worker = Fan_idle | Fan_running nat | Fan_stored nat

text \<open>The caller pushes from job \<open>i\<close> on, runs the last closure, waits, or has returned.\<close>

datatype fan_parent = Fan_push nat | Fan_last | Fan_wait | Fan_done

text \<open>
  The caller's accumulator, which no thief can see, the ring of its deque with the published
  lines of up to three jobs, a mailbox and a stash for what is left of a taken line per worker,
  the workers, the jobs, the shared latch and the outcome of the last closure. The log
  \<open>fo_executed\<close> has the jobs whose closures were called, in the order of the calls.
\<close>

record ('r, 'p) fan_out =
  fo_buffer :: "nat list"
  fo_ring :: "nat list list"
  fo_mail :: "nat list list"
  fo_stash :: "nat list list"
  fo_workers :: "fan_worker list"
  fo_jobs :: "('r, 'p) stack_job list"
  fo_latch :: count_latch
  fo_last :: "('r, 'p) job_result"
  fo_parent :: fan_parent
  fo_executed :: "nat list"

text \<open>
  \<open>CountLatch::new\<close> on the number of jobs, which its assertion wants positive. The ring holds
  nothing else when the fan-out starts.
\<close>

definition fan_out_start :: "nat \<Rightarrow> (nat \<Rightarrow> 'r + 'p) \<Rightarrow> nat \<Rightarrow> ('r, 'p) fan_out" where
  "fan_out_start n_workers closures m =
     \<lparr>fo_buffer = [], fo_ring = [], fo_mail = replicate n_workers [], fo_stash = replicate n_workers [],
      fo_workers = replicate n_workers Fan_idle,
      fo_jobs = map (\<lambda>j. stack_job_new (\<lambda>_. closures j)) [0..<m],
      fo_latch = \<lparr>latch_count = of_nat m, latch_core = core_new\<rparr>,
      fo_last = Job_none, fo_parent = Fan_push 0, fo_executed = []\<rparr>"

text \<open>
  Publishing the accumulator as one line. \<open>None\<close>: the ring is full, and \<open>publish\<close> spins until a
  thief has freed a slot.
\<close>

definition ring_room :: "('r, 'p) fan_out \<Rightarrow> bool" where
  "ring_room s \<longleftrightarrow> length (fo_ring s) < DEQUE_RING_CAPACITY"

definition fan_flush :: "('r, 'p) fan_out \<Rightarrow> ('r, 'p) fan_out option" where
  "fan_flush s =
     (if fo_buffer s = [] then Some s
      else if ring_room s then Some (s\<lparr>fo_ring := fo_ring s @ [fo_buffer s], fo_buffer := []\<rparr>)
      else None)"

definition fan_begin :: "nat \<Rightarrow> nat \<Rightarrow> ('r, 'p) fan_out \<Rightarrow> ('r, 'p) fan_out" where
  "fan_begin w j s = s\<lparr>fo_workers := (fo_workers s)[w := Fan_running j]\<rparr>"

text \<open>A push to a mailbox is refused by a full one, and the job goes to the accumulator.\<close>

definition push_to_mailbox :: "nat \<Rightarrow> nat \<Rightarrow> ('r, 'p) fan_out \<Rightarrow> ('r, 'p) fan_out" where
  "push_to_mailbox target j s =
     (if target < length (fo_mail s) \<and> length (fo_mail s ! target) < MAILBOX_CAPACITY
      then s\<lparr>fo_mail := (fo_mail s)[target := fo_mail s ! target @ [j]]\<rparr>
      else s\<lparr>fo_buffer := fo_buffer s @ [j]\<rparr>)"

text \<open>
  \<open>try_push\<close>: the accumulator first, then the job as a line of its own; refused where there is
  no room, and where a thief still reads the slot (\<open>refused\<close>).
\<close>

definition try_push_one :: "bool \<Rightarrow> nat \<Rightarrow> ('r, 'p) fan_out \<Rightarrow> bool \<times> ('r, 'p) fan_out" where
  "try_push_one refused j s =
     (if refused then (False, s)
      else case fan_flush s of
             None \<Rightarrow> (False, s)
           | Some s \<Rightarrow> if ring_room s then (True, s\<lparr>fo_ring := fo_ring s @ [[j]]\<rparr>) else (False, s))"

text \<open>
  One push of the caller. In deque mode the first three jobs go to the accumulator, and from
  then on a push that the ring refuses runs its job on the caller.
\<close>

definition fan_push :: "fan_out_mode \<Rightarrow> nat \<Rightarrow> nat \<Rightarrow> bool \<Rightarrow> nat \<Rightarrow> ('r, 'p) fan_out \<Rightarrow> ('r, 'p) fan_out" where
  "fan_push mode n_workers index refused i s =
     (case mode of
        Deque_mode \<Rightarrow>
          if i < DEQUE_FIRST_BURST then s\<lparr>fo_buffer := fo_buffer s @ [i]\<rparr>
          else (case try_push_one refused i s of
                  (True, s) \<Rightarrow> s
                | (False, s) \<Rightarrow> fan_begin index i s)
      | Mailbox_mode \<Rightarrow>
          let target = mailbox_target n_workers index i
          in if target = index then s\<lparr>fo_buffer := fo_buffer s @ [i]\<rparr> else push_to_mailbox target i s)"

text \<open>
  Before a push the accumulator has to be published when it is a full line, and in deque mode
  when the first burst is over (\<open>flush_all\<close>).
\<close>

definition flush_due :: "fan_out_mode \<Rightarrow> nat \<Rightarrow> ('r, 'p) fan_out \<Rightarrow> bool" where
  "flush_due mode i s \<longleftrightarrow>
     length (fo_buffer s) = JOBS_PER_SLOT \<or> mode = Deque_mode \<and> i = DEQUE_FIRST_BURST \<and> fo_buffer s \<noteq> []"

definition worker_idle :: "nat \<Rightarrow> ('r, 'p) fan_out \<Rightarrow> bool" where
  "worker_idle w s \<longleftrightarrow> w < length (fo_workers s) \<and> fo_workers s ! w = Fan_idle"

text \<open>Calling a closure takes it out of its job; a second call would find it gone.\<close>

definition fan_execute :: "nat \<Rightarrow> nat \<Rightarrow> ('r, 'p) fan_out \<Rightarrow> ('r, 'p) fan_out option" where
  "fan_execute w j s =
     (case sj_func (fo_jobs s ! j) of
        None \<Rightarrow> None
      | Some f \<Rightarrow>
          Some (s\<lparr>fo_jobs := (fo_jobs s)[j := (fo_jobs s ! j)\<lparr>sj_func := None, sj_result := job_capture f True\<rparr>],
                  fo_executed := fo_executed s @ [j],
                  fo_workers := (fo_workers s)[w := Fan_stored j]\<rparr>))"

definition fan_count_down :: "nat \<Rightarrow> ('r, 'p) fan_out \<Rightarrow> ('r, 'p) fan_out" where
  "fan_count_down w s =
     s\<lparr>fo_latch := snd (count_set (fo_latch s)), fo_workers := (fo_workers s)[w := Fan_idle]\<rparr>"

text \<open>
  The steps. The caller, worker \<open>index\<close>, moves on only while it runs no job itself, and not past
  a line it has to publish while the ring has no room; a worker with nothing to do takes a
  published line, runs its first job and keeps the others in its stash, or takes a job from its
  stash or its own mailbox.
\<close>

inductive fan_step ::
  "fan_out_mode \<Rightarrow> nat \<Rightarrow> nat \<Rightarrow> 'r + 'p \<Rightarrow> ('r, 'p) fan_out \<Rightarrow> ('r, 'p) fan_out \<Rightarrow> bool"
  for mode :: fan_out_mode and n_workers :: nat and index :: nat and own :: "'r + 'p" where
  push: "fo_parent s = Fan_push i \<Longrightarrow> worker_idle index s \<Longrightarrow> i < length (fo_jobs s) \<Longrightarrow> \<not> flush_due mode i s
    \<Longrightarrow> fan_step mode n_workers index own s
          ((fan_push mode n_workers index refused i s)\<lparr>fo_parent := Fan_push (Suc i)\<rparr>)"
| publish: "fo_parent s = Fan_push i \<Longrightarrow> worker_idle index s \<Longrightarrow> fo_buffer s \<noteq> []
    \<Longrightarrow> flush_due mode i s \<or> i = length (fo_jobs s) \<Longrightarrow> fan_flush s = Some s'
    \<Longrightarrow> fan_step mode n_workers index own s s'"
| pushed: "fo_parent s = Fan_push i \<Longrightarrow> worker_idle index s \<Longrightarrow> i = length (fo_jobs s) \<Longrightarrow> fo_buffer s = []
    \<Longrightarrow> fan_step mode n_workers index own s (s\<lparr>fo_parent := Fan_last\<rparr>)"
| run_last: "fo_parent s = Fan_last
    \<Longrightarrow> fan_step mode n_workers index own s (s\<lparr>fo_last := job_capture (\<lambda>_. own) False, fo_parent := Fan_wait\<rparr>)"
| leave: "fo_parent s = Fan_wait \<Longrightarrow> worker_idle index s \<Longrightarrow> core_is_set (latch_core (fo_latch s))
    \<Longrightarrow> fan_step mode n_workers index own s (s\<lparr>fo_parent := Fan_done\<rparr>)"
| take_published: "worker_idle w s \<Longrightarrow> w \<noteq> index \<or> fo_parent s = Fan_wait \<Longrightarrow> w < length (fo_stash s)
    \<Longrightarrow> fo_stash s ! w = [] \<Longrightarrow> fo_ring s = xs @ (j # js) # ys
    \<Longrightarrow> fan_step mode n_workers index own s
          (fan_begin w j (s\<lparr>fo_ring := xs @ ys, fo_stash := (fo_stash s)[w := js]\<rparr>))"
| take_stash: "worker_idle w s \<Longrightarrow> w \<noteq> index \<or> fo_parent s = Fan_wait \<Longrightarrow> w < length (fo_stash s)
    \<Longrightarrow> fo_stash s ! w = j # js
    \<Longrightarrow> fan_step mode n_workers index own s (fan_begin w j (s\<lparr>fo_stash := (fo_stash s)[w := js]\<rparr>))"
| take_mail: "worker_idle w s \<Longrightarrow> w \<noteq> index \<or> fo_parent s = Fan_wait \<Longrightarrow> w < length (fo_mail s)
    \<Longrightarrow> fo_mail s ! w = j # js
    \<Longrightarrow> fan_step mode n_workers index own s (fan_begin w j (s\<lparr>fo_mail := (fo_mail s)[w := js]\<rparr>))"
| execute: "w < length (fo_workers s) \<Longrightarrow> fo_workers s ! w = Fan_running j \<Longrightarrow> fan_execute w j s = Some s'
    \<Longrightarrow> fan_step mode n_workers index own s s'"
| count: "w < length (fo_workers s) \<Longrightarrow> fo_workers s ! w = Fan_stored j
    \<Longrightarrow> fan_step mode n_workers index own s (fan_count_down w s)"

text \<open>
  What the caller returns: the jobs' values in order, then the last closure's; the first
  job's panic is raised again before the last closure's is looked at.
\<close>

fun collect_results :: "('r, 'p) stack_job list \<Rightarrow> ('r list + 'p) option" where
  "collect_results [] = Some (Inl [])"
| "collect_results (j # js) =
     (case fst (into_result j) of
        None \<Rightarrow> None
      | Some (Inr p) \<Rightarrow> Some (Inr p)
      | Some (Inl v) \<Rightarrow> map_option (map_sum ((#) v) id) (collect_results js))"

definition fan_out_result :: "('r, 'p) fan_out \<Rightarrow> ('r list + 'p) option" where
  "fan_out_result s =
     (case collect_results (fo_jobs s) of
        None \<Rightarrow> None
      | Some (Inr p) \<Rightarrow> Some (Inr p)
      | Some (Inl vs) \<Rightarrow>
          (case fo_last s of Job_none \<Rightarrow> None | Job_ok v \<Rightarrow> Some (Inl (vs @ [v])) | Job_panic p \<Rightarrow> Some (Inr p)))"

section \<open>A gated worker\<close>

text \<open>
  An SMT sibling runs only while some dispatch has requested the siblings: at the top of its loop,
  before it looks at its stash, its mailbox or any deque, it parks until the count of requests
  is positive. A run in which worker \<open>g\<close> is gated is one in which it never takes a job.
\<close>

definition gated_step ::
  "nat \<Rightarrow> fan_out_mode \<Rightarrow> nat \<Rightarrow> nat \<Rightarrow> 'r + 'p \<Rightarrow> ('r, 'p) fan_out \<Rightarrow> ('r, 'p) fan_out \<Rightarrow> bool" where
  "gated_step g mode n_workers index own s s' \<longleftrightarrow>
     fan_step mode n_workers index own s s' \<and> fo_workers s' ! g = Fan_idle"

end
