(* ===== verification/Cooperative_Laws.thy ===== *)
theory Cooperative_Laws
  imports Cooperative
begin

text \<open>
  What the fan-out of \<open>sched/cooperative.rs\<close> keeps under every interleaving, and how it ends;
  the order of the tree's results and its depth; how the mailbox targets are spread.
\<close>

section \<open>Counting jobs\<close>

definition unpushed :: "fan_parent \<Rightarrow> nat \<Rightarrow> bool" where
  "unpushed pc j \<longleftrightarrow> (case pc of Fan_push i \<Rightarrow> i \<le> j | _ \<Rightarrow> False)"

definition waiting_at :: "('r, 'p) fan_out \<Rightarrow> nat \<Rightarrow> nat" where
  "waiting_at s j = count_list (fo_buffer s) j + sum_list (map (\<lambda>q. count_list q j) (fo_ring s))
     + sum_list (map (\<lambda>q. count_list q j) (fo_mail s)) + sum_list (map (\<lambda>q. count_list q j) (fo_stash s))
     + number (\<lambda>w. w = Fan_running j) (fo_workers s)"

definition is_stored :: "fan_worker \<Rightarrow> bool" where
  "is_stored w = (case w of Fan_stored _ \<Rightarrow> True | _ \<Rightarrow> False)"

definition tally :: "nat \<Rightarrow> ('r, 'p) fan_out \<Rightarrow> nat \<Rightarrow> nat" where
  "tally m s j = waiting_at s j + count_list (fo_executed s) j
     + (if j < m \<and> unpushed (fo_parent s) j then 1 else 0)"

text \<open>Every job is in one place, or has run once and holds what its closure gave.\<close>

definition jobs_ok :: "(nat \<Rightarrow> 'r + 'p) \<Rightarrow> nat \<Rightarrow> ('r, 'p) fan_out \<Rightarrow> bool" where
  "jobs_ok closures m s \<longleftrightarrow> length (fo_jobs s) = m
     \<and> (\<forall>j. tally m s j = (if j < m then 1 else 0))
     \<and> (\<forall>j < m. if j \<in> set (fo_executed s)
                then sj_func (fo_jobs s ! j) = None
                  \<and> sj_result (fo_jobs s ! j) = job_capture (\<lambda>_. closures j) True
                else sj_func (fo_jobs s ! j) = Some (\<lambda>_. closures j))"

definition latch_ok :: "nat \<Rightarrow> ('r, 'p) fan_out \<Rightarrow> bool" where
  "latch_ok m s \<longleftrightarrow> unat (latch_count (fo_latch s)) + length (fo_executed s) = m + number is_stored (fo_workers s)
     \<and> (core_is_set (latch_core (fo_latch s)) \<longleftrightarrow> latch_count (fo_latch s) = 0)"

definition parent_ok :: "nat \<Rightarrow> 'r + 'p \<Rightarrow> nat \<Rightarrow> ('r, 'p) fan_out \<Rightarrow> bool" where
  "parent_ok index own m s \<longleftrightarrow>
     (case fo_parent s of
        Fan_push i \<Rightarrow> i \<le> m
      | Fan_last \<Rightarrow> fo_buffer s = [] \<and> worker_idle index s
      | Fan_wait \<Rightarrow> fo_buffer s = [] \<and> fo_last s = job_capture (\<lambda>_. own) False
      | Fan_done \<Rightarrow> fo_buffer s = [] \<and> fo_last s = job_capture (\<lambda>_. own) False
          \<and> core_is_set (latch_core (fo_latch s)))"

definition fan_ok :: "nat \<Rightarrow> nat \<Rightarrow> (nat \<Rightarrow> 'r + 'p) \<Rightarrow> 'r + 'p \<Rightarrow> nat \<Rightarrow> ('r, 'p) fan_out \<Rightarrow> bool" where
  "fan_ok n_workers index closures own m s \<longleftrightarrow>
     length (fo_workers s) = n_workers \<and> length (fo_mail s) = n_workers \<and> length (fo_stash s) = n_workers
     \<and> [] \<notin> set (fo_ring s) \<and> jobs_ok closures m s \<and> latch_ok m s \<and> parent_ok index own m s"

lemma waiting_simps [simp]:
  "waiting_at (s\<lparr>fo_parent := pc\<rparr>) j = waiting_at s j"
  "waiting_at (s\<lparr>fo_last := r\<rparr>) j = waiting_at s j"
  "waiting_at (s\<lparr>fo_latch := l\<rparr>) j = waiting_at s j"
  "waiting_at (s\<lparr>fo_jobs := js\<rparr>) j = waiting_at s j"
  "waiting_at (s\<lparr>fo_executed := xs\<rparr>) j = waiting_at s j"
  by (simp_all add: waiting_at_def)

lemma waiting_buffer: "waiting_at (s\<lparr>fo_buffer := fo_buffer s @ [i]\<rparr>) j = waiting_at s j + of_bool (i = j)"
  by (simp add: waiting_at_def)

text \<open>A flush moves the accumulator to the ring, and leaves everything else alone.\<close>

lemma fan_flush_frame:
  assumes "fan_flush s = Some s'"
  shows "waiting_at s' j = waiting_at s j" "fo_jobs s' = fo_jobs s" "fo_latch s' = fo_latch s"
    "fo_executed s' = fo_executed s" "fo_mail s' = fo_mail s" "fo_stash s' = fo_stash s"
    "fo_workers s' = fo_workers s" "fo_parent s' = fo_parent s" "fo_last s' = fo_last s" "fo_buffer s' = []"
    "set (fo_ring s') \<subseteq> set (fo_ring s) \<union> {q. q \<noteq> []}"
  using assms by (auto simp: waiting_at_def fan_flush_def split: if_splits)

text \<open>A pushed job either waits in the ring or is refused, and then only the flush has happened.\<close>

lemma try_push_cases:
  assumes "try_push_one refused i s = (ok, s')"
  obtains (refused) "\<not> ok" "s' = s" | (flushed) "\<not> ok" "fan_flush s = Some s'"
  | (pushed) t where "ok" "fan_flush s = Some t" "ring_room t" "s' = t\<lparr>fo_ring := fo_ring t @ [[i]]\<rparr>"
  using assms by (auto simp: try_push_one_def split: if_splits option.splits)

lemma waiting_ring: "waiting_at (s\<lparr>fo_ring := fo_ring s @ [[i]]\<rparr>) j = waiting_at s j + of_bool (i = j)"
  by (simp add: waiting_at_def)

lemma waiting_stash:
  assumes "w < length (fo_stash s)"
  shows "waiting_at (s\<lparr>fo_stash := (fo_stash s)[w := q]\<rparr>) j + count_list (fo_stash s ! w) j
    = waiting_at s j + count_list q j"
  using sum_list_swap [OF assms, of "\<lambda>q. count_list q j" q] by (simp add: waiting_at_def)

lemma waiting_worker:
  assumes "w < length (fo_workers s)"
  shows "waiting_at (s\<lparr>fo_workers := (fo_workers s)[w := v]\<rparr>) j + of_bool (fo_workers s ! w = Fan_running j)
    = waiting_at s j + of_bool (v = Fan_running j)"
  using number_update [OF assms, of "\<lambda>w. w = Fan_running j" v] by (simp add: waiting_at_def)

lemma waiting_mail:
  assumes "t < length (fo_mail s)"
  shows "waiting_at (s\<lparr>fo_mail := (fo_mail s)[t := q]\<rparr>) j + count_list (fo_mail s ! t) j
    = waiting_at s j + count_list q j"
  using sum_list_swap [OF assms, of "\<lambda>q. count_list q j" q] by (simp add: waiting_at_def)

lemma waiting_begin:
  "worker_idle w s \<Longrightarrow> waiting_at (fan_begin w i s) j = waiting_at s j + of_bool (i = j)"
  using waiting_worker [of w s "Fan_running i" j] by (auto simp: worker_idle_def fan_begin_def)

lemma worker_idle_simps [simp]:
  "worker_idle w (s\<lparr>fo_parent := pc\<rparr>) = worker_idle w s"
  "worker_idle w (s\<lparr>fo_last := r\<rparr>) = worker_idle w s"
  "worker_idle w (s\<lparr>fo_buffer := b\<rparr>) = worker_idle w s"
  "worker_idle w (s\<lparr>fo_ring := rs\<rparr>) = worker_idle w s"
  "worker_idle w (s\<lparr>fo_stash := ms\<rparr>) = worker_idle w s"
  "worker_idle w (s\<lparr>fo_mail := ms\<rparr>) = worker_idle w s"
  by (simp_all add: worker_idle_def)

lemma worker_idle_flush: "fan_flush s = Some s' \<Longrightarrow> worker_idle w s' = worker_idle w s"
  by (simp add: worker_idle_def fan_flush_frame)

text \<open>What a push makes of the state: the job waits in one more place, and nothing else moves.\<close>

lemma fan_push_cases:
  obtains (buffered) "fan_push mode n_workers index refused i s = s\<lparr>fo_buffer := fo_buffer s @ [i]\<rparr>"
      "mode = Mailbox_mode \<or> i < DEQUE_FIRST_BURST"
  | (mailed) t where "t < length (fo_mail s)" "mode = Mailbox_mode"
      "fan_push mode n_workers index refused i s = s\<lparr>fo_mail := (fo_mail s)[t := fo_mail s ! t @ [i]]\<rparr>"
  | (begun) t where "mode = Deque_mode" "\<not> i < DEQUE_FIRST_BURST" "t = s \<or> fan_flush s = Some t"
      "fan_push mode n_workers index refused i s = fan_begin index i t"
  | (rung) t where "mode = Deque_mode" "\<not> i < DEQUE_FIRST_BURST" "fan_flush s = Some t" "ring_room t"
      "fan_push mode n_workers index refused i s = t\<lparr>fo_ring := fo_ring t @ [[i]]\<rparr>"
proof (cases mode)
  case Mailbox_mode
  let ?t = "mailbox_target n_workers index i"
  have push: "fan_push mode n_workers index refused i s = (if ?t = index then s\<lparr>fo_buffer := fo_buffer s @ [i]\<rparr>
      else if ?t < length (fo_mail s) \<and> length (fo_mail s ! ?t) < MAILBOX_CAPACITY
      then s\<lparr>fo_mail := (fo_mail s)[?t := fo_mail s ! ?t @ [i]]\<rparr> else s\<lparr>fo_buffer := fo_buffer s @ [i]\<rparr>)"
    by (simp add: Mailbox_mode fan_push_def push_to_mailbox_def Let_def)
  show thesis
  proof (cases "?t \<noteq> index \<and> ?t < length (fo_mail s) \<and> length (fo_mail s ! ?t) < MAILBOX_CAPACITY")
    case True
    then show thesis using mailed [of ?t] Mailbox_mode push by simp
  next
    case False
    then have "fan_push mode n_workers index refused i s = s\<lparr>fo_buffer := fo_buffer s @ [i]\<rparr>" unfolding push by auto
    then show thesis using buffered Mailbox_mode by simp
  qed
next
  case Deque_mode
  show thesis
  proof (cases "i < DEQUE_FIRST_BURST")
    case True
    then show thesis using buffered Deque_mode by (simp add: fan_push_def)
  next
    case False
    obtain ok s' where t: "try_push_one refused i s = (ok, s')" by (metis prod.exhaust)
    then have push: "fan_push mode n_workers index refused i s = (if ok then s' else fan_begin index i s')"
      using False Deque_mode by (simp add: fan_push_def)
    show thesis
      using t
    proof (cases rule: try_push_cases)
      case refused
      then show thesis using begun [OF Deque_mode False, of s] push by simp
    next
      case flushed
      then show thesis using begun [OF Deque_mode False, of s'] push by simp
    next
      case (pushed t)
      then show thesis using rung [OF Deque_mode False, of t] push by simp
    qed
  qed
qed

lemma waiting_push:
  assumes "worker_idle index s"
  shows "waiting_at (fan_push mode n_workers index refused i s) j = waiting_at s j + of_bool (i = j)"
proof (cases rule: fan_push_cases [of mode n_workers index refused i s])
  case buffered
  then show ?thesis by (simp add: waiting_buffer)
next
  case (mailed t)
  then show ?thesis using waiting_mail [of t s "fo_mail s ! t @ [i]" j] by simp
next
  case (begun t)
  then have "worker_idle index t" "waiting_at t j = waiting_at s j"
    using assms worker_idle_flush fan_flush_frame(1) by auto
  then show ?thesis using begun(4) waiting_begin [of index t i j] by simp
next
  case (rung t)
  then show ?thesis using fan_flush_frame(1) [of s t j] by (simp add: waiting_ring)
qed

text \<open>What a push leaves alone.\<close>

lemma fan_push_frame:
  "fo_jobs (fan_push mode n_workers index refused i s) = fo_jobs s"
  "fo_latch (fan_push mode n_workers index refused i s) = fo_latch s"
  "fo_executed (fan_push mode n_workers index refused i s) = fo_executed s"
  "length (fo_mail (fan_push mode n_workers index refused i s)) = length (fo_mail s)"
  "length (fo_workers (fan_push mode n_workers index refused i s)) = length (fo_workers s)"
  "fo_stash (fan_push mode n_workers index refused i s) = fo_stash s"
  "[] \<notin> set (fo_ring s) \<Longrightarrow> [] \<notin> set (fo_ring (fan_push mode n_workers index refused i s))"
  by (cases rule: fan_push_cases [of mode n_workers index refused i s];
      use fan_flush_frame in \<open>fastforce simp: fan_begin_def\<close>)+

lemma fan_push_stored:
  "worker_idle index s \<Longrightarrow> number is_stored (fo_workers (fan_push mode n_workers index refused i s))
    = number is_stored (fo_workers s)"
  using number_update [of index "fo_workers s" is_stored "Fan_running i"]
  by (cases rule: fan_push_cases [of mode n_workers index refused i s])
    (auto simp: fan_begin_def worker_idle_def is_stored_def fan_flush_frame)

section \<open>The steps keep the invariant\<close>

lemma fan_ok_start:
  assumes "0 < m" "m < 2 ^ 64"
  shows "fan_ok n_workers index closures own m (fan_out_start n_workers closures m)"
proof -
  have "sum_list (map (\<lambda>q. count_list q j) (replicate n ([] :: nat list))) = 0" for j n
    by (induction n) auto
  moreover have "unat (of_nat m :: u64) = m" "(of_nat m :: u64) \<noteq> 0"
    using assms by (simp_all add: unat_of_nat word_unat_eq_iff)
  moreover have "\<not> core_is_set core_new" by (simp add: core_is_set_def core_new_def SET_def UNSET_def)
  ultimately show ?thesis
    by (simp add: fan_ok_def jobs_ok_def latch_ok_def parent_ok_def fan_out_start_def tally_def waiting_at_def unpushed_def
        number_replicate is_stored_def stack_job_new_def)
qed

lemma push_ok:
  assumes "fan_ok n_workers index closures own m s" "fo_parent s = Fan_push i" "worker_idle index s" "i < m"
  shows "fan_ok n_workers index closures own m
    ((fan_push mode n_workers index refused i s)\<lparr>fo_parent := Fan_push (Suc i)\<rparr>)"
proof -
  let ?s' = "(fan_push mode n_workers index refused i s)\<lparr>fo_parent := Fan_push (Suc i)\<rparr>"
  have "tally m ?s' j = tally m s j" for j
    using assms(2,4) by (auto simp: tally_def waiting_push [OF assms(3)] fan_push_frame unpushed_def)
  then show ?thesis
    using assms by (simp add: fan_ok_def jobs_ok_def latch_ok_def fan_push_frame fan_push_stored parent_ok_def)
qed

lemma flush_ok:
  assumes "fan_ok n_workers index closures own m s" "fo_parent s = Fan_push i" "fan_flush s = Some s'"
  shows "fan_ok n_workers index closures own m s'"
proof -
  note frame = fan_flush_frame [OF assms(3)]
  have "[] \<notin> set (fo_ring s')" using frame(11) assms(1) by (auto simp: fan_ok_def)
  then show ?thesis
    using assms(1,2) frame(1-9) by (simp add: fan_ok_def jobs_ok_def latch_ok_def parent_ok_def tally_def)
qed

lemma pushed_ok:
  assumes "fan_ok n_workers index closures own m s" "fo_parent s = Fan_push m" "worker_idle index s" "fo_buffer s = []"
  shows "fan_ok n_workers index closures own m (s\<lparr>fo_parent := Fan_last\<rparr>)"
proof -
  have "tally m (s\<lparr>fo_parent := Fan_last\<rparr>) j = tally m s j" for j
    using assms(2) by (simp add: tally_def unpushed_def)
  then show ?thesis
    using assms by (simp add: fan_ok_def jobs_ok_def latch_ok_def parent_ok_def)
qed

lemma take_ok:
  assumes ok: "fan_ok n_workers index closures own m s" and idle: "worker_idle w s"
    and w: "w \<noteq> index \<or> fo_parent s = Fan_wait" and j: "\<And>k. waiting_at s' k + of_bool (j = k) = waiting_at s k"
    and s': "s' = s\<lparr>fo_ring := d, fo_mail := ms, fo_stash := ss\<rparr>" "length ms = length (fo_mail s)"
      "length ss = length (fo_stash s)" "set d \<subseteq> set (fo_ring s)"
  shows "fan_ok n_workers index closures own m (fan_begin w j s')"
proof -
  have idle': "worker_idle w s'" using idle by (simp add: s' worker_idle_def)
  have "tally m (fan_begin w j s') k = tally m s k" for k
    using waiting_begin [OF idle', of j k] j [of k] by (simp add: tally_def) (simp add: fan_begin_def s')
  moreover have "number is_stored (fo_workers (fan_begin w j s')) = number is_stored (fo_workers s)"
    using number_update [of w "fo_workers s" is_stored "Fan_running j"] idle
    by (simp add: fan_begin_def s' worker_idle_def is_stored_def)
  moreover have "parent_ok index own m (fan_begin w j s')"
    using ok w by (auto simp: fan_ok_def parent_ok_def fan_begin_def s' worker_idle_def split: fan_parent.splits)
  moreover have "[] \<notin> set (fo_ring (fan_begin w j s'))" using ok s'(4) by (auto simp: fan_ok_def fan_begin_def s'(1))
  ultimately show ?thesis
    using ok s'(2,3) by (simp add: fan_ok_def jobs_ok_def latch_ok_def fan_begin_def s'(1))
qed

lemma running_fresh:
  assumes "jobs_ok closures m s" "w < length (fo_workers s)" "fo_workers s ! w = Fan_running j"
  shows "j < m" "j \<notin> set (fo_executed s)"
proof -
  have "0 < number (\<lambda>w. w = Fan_running j) (fo_workers s)"
    using assms(2,3) by (auto simp: number_pos) (metis nth_mem)
  then have "0 < waiting_at s j" by (simp add: waiting_at_def)
  moreover have "tally m s j = (if j < m then 1 else 0)" using assms(1) by (simp add: jobs_ok_def)
  ultimately have "j < m \<and> count_list (fo_executed s) j = 0" by (auto simp: tally_def split: if_splits)
  then show "j < m" "j \<notin> set (fo_executed s)" by (simp_all add: count_list_0_iff)
qed

lemma execute_ok:
  assumes ok: "fan_ok n_workers index closures own m s" and w: "w < length (fo_workers s)"
    and j: "fo_workers s ! w = Fan_running j" and s': "fan_execute w j s = Some s'"
  shows "fan_ok n_workers index closures own m s'"
proof -
  have jobs: "jobs_ok closures m s" using ok by (simp add: fan_ok_def)
  note fresh = running_fresh [OF jobs w j]
  have func: "sj_func (fo_jobs s ! j) = Some (\<lambda>_. closures j)" using jobs fresh by (simp add: jobs_ok_def)
  have s'_eq: "s' = s\<lparr>fo_jobs := (fo_jobs s)[j := (fo_jobs s ! j)\<lparr>sj_func := None, sj_result := job_capture (\<lambda>_. closures j) True\<rparr>],
      fo_executed := fo_executed s @ [j], fo_workers := (fo_workers s)[w := Fan_stored j]\<rparr>"
    using s' by (simp add: fan_execute_def func)
  have "tally m s' k = tally m s k" for k
    using waiting_worker [OF w, of "Fan_stored j" k] j by (auto simp: s'_eq tally_def waiting_at_def)
  moreover have "number is_stored (fo_workers s') = Suc (number is_stored (fo_workers s))"
    using number_update [OF w, of is_stored "Fan_stored j"] j by (simp add: s'_eq is_stored_def)
  moreover have "parent_ok index own m s'"
    using ok w j unfolding fan_ok_def parent_ok_def
    by (auto simp: s'_eq worker_idle_def nth_list_update split: fan_parent.splits)
  ultimately show ?thesis
    using ok fresh
    by (auto simp: fan_ok_def jobs_ok_def latch_ok_def s'_eq nth_list_update)
qed

lemma count_le_1_distinct: "(\<And>j. count_list xs j \<le> 1) \<Longrightarrow> distinct xs"
proof (induction xs)
  case (Cons x xs)
  have "count_list xs j \<le> 1" for j using Cons.prems [of j] by (auto split: if_splits)
  moreover have "x \<notin> set xs" using Cons.prems [of x] by (auto simp: count_list_0_iff [symmetric])
  ultimately show ?case using Cons.IH by simp
qed simp

lemma executed_once:
  assumes "jobs_ok closures m s"
  shows "distinct (fo_executed s)" "set (fo_executed s) \<subseteq> {..<m}" "length (fo_executed s) \<le> m"
proof -
  have le: "count_list (fo_executed s) j \<le> (if j < m then 1 else 0)" for j
  proof -
    have "tally m s j = (if j < m then 1 else 0)" using assms by (simp add: jobs_ok_def)
    then show ?thesis by (simp add: tally_def)
  qed
  have "count_list (fo_executed s) j \<le> 1" for j using le [of j] by (simp split: if_splits)
  then show d: "distinct (fo_executed s)" by (rule count_le_1_distinct)
  show sub: "set (fo_executed s) \<subseteq> {..<m}"
  proof
    fix j
    assume "j \<in> set (fo_executed s)"
    then have "count_list (fo_executed s) j \<noteq> 0" by (simp add: count_list_0_iff)
    then show "j \<in> {..<m}" using le [of j] by (auto split: if_splits)
  qed
  show "length (fo_executed s) \<le> m"
    using card_mono [OF _ sub] distinct_card [OF d] by simp
qed

lemma core_is_set_core_set: "core_is_set (snd (core_set c))"
  by (simp add: core_is_set_def core_set_def)

lemma count_ok:
  assumes ok: "fan_ok n_workers index closures own m s" and w: "w < length (fo_workers s)"
    and j: "fo_workers s ! w = Fan_stored j"
  shows "fan_ok n_workers index closures own m (fan_count_down w s)"
proof -
  let ?c = "latch_count (fo_latch s)"
  have stored: "number is_stored (fo_workers (fan_count_down w s)) + 1 = number is_stored (fo_workers s)"
    using number_update [OF w, of is_stored Fan_idle] j by (simp add: fan_count_down_def is_stored_def)
  have sum: "unat ?c + length (fo_executed s) = m + number is_stored (fo_workers s)"
    and set_iff: "core_is_set (latch_core (fo_latch s)) \<longleftrightarrow> ?c = 0"
    using ok by (simp_all add: fan_ok_def latch_ok_def)
  have "length (fo_executed s) \<le> m" using ok executed_once(3) [of closures m s] by (simp add: fan_ok_def)
  then have pos: "0 < unat ?c" using sum stored by simp
  then have pred: "unat (?c - 1) = unat ?c - 1" by (simp add: unat_sub_if_size)
  have "latch_ok m (fan_count_down w s)"
  proof (cases "1 < ?c")
    case True
    then have "1 < unat ?c" by (simp add: word_less_nat_alt)
    then have "?c - 1 \<noteq> 0" "?c \<noteq> 0" using pred by (auto simp: word_unat_eq_iff)
    then show ?thesis
      using sum stored set_iff pred pos True by (simp add: latch_ok_def fan_count_down_def count_set_def Let_def)
  next
    case False
    then have "?c = 1" using pos by (simp add: word_less_nat_alt word_unat_eq_iff)
    then show ?thesis
      using sum stored by (simp add: latch_ok_def fan_count_down_def count_set_def Let_def case_prod_beta
          core_is_set_core_set)
  qed
  moreover have "tally m (fan_count_down w s) k = tally m s k" for k
    using waiting_worker [OF w, of Fan_idle k] j by (simp add: tally_def fan_count_down_def waiting_at_def)
  moreover have "parent_ok index own m (fan_count_down w s)"
  proof -
    have "fo_parent s = Fan_done \<Longrightarrow> False" 
      using ok set_iff pos by (auto simp: fan_ok_def parent_ok_def)
    then show ?thesis
      using ok w by (auto simp: fan_ok_def parent_ok_def fan_count_down_def worker_idle_def nth_list_update
          split: fan_parent.splits)
  qed
  ultimately show ?thesis
    using ok by (simp add: fan_ok_def jobs_ok_def) (simp add: fan_count_down_def)
qed

lemma last_ok:
  assumes "fan_ok n_workers index closures own m s" "fo_parent s = Fan_last"
  shows "fan_ok n_workers index closures own m (s\<lparr>fo_last := job_capture (\<lambda>_. own) False, fo_parent := Fan_wait\<rparr>)"
  using assms by (simp add: fan_ok_def jobs_ok_def latch_ok_def parent_ok_def tally_def unpushed_def)

lemma leave_ok:
  assumes "fan_ok n_workers index closures own m s" "fo_parent s = Fan_wait" "core_is_set (latch_core (fo_latch s))"
  shows "fan_ok n_workers index closures own m (s\<lparr>fo_parent := Fan_done\<rparr>)"
  using assms by (auto simp: fan_ok_def jobs_ok_def latch_ok_def parent_ok_def tally_def unpushed_def)

lemma fan_step_ok:
  assumes "fan_step mode n_workers index own s s'" "fan_ok n_workers index closures own m s"
  shows "fan_ok n_workers index closures own m s'"
  using assms
proof (cases rule: fan_step.cases)
  case (push i refused)
  have "i < m" using push(4) assms(2) by (simp add: fan_ok_def jobs_ok_def)
  then show ?thesis unfolding push(1) using push_ok [OF assms(2) push(2,3)] by blast
next
  case (publish i)
  then show ?thesis using assms(2) flush_ok by blast
next
  case (pushed i)
  then have "i = m" using assms(2) by (simp add: fan_ok_def jobs_ok_def)
  then show ?thesis using pushed assms(2) pushed_ok by blast
next
  case run_last
  then show ?thesis using assms(2) last_ok by blast
next
  case leave
  then show ?thesis using assms(2) leave_ok by blast
next
  case (take_published w xs j js ys)
  let ?s' = "s\<lparr>fo_ring := xs @ ys, fo_stash := (fo_stash s)[w := js]\<rparr>"
  have "waiting_at ?s' k + of_bool (j = k) = waiting_at s k" for k
    using waiting_stash [of w "s\<lparr>fo_ring := xs @ ys\<rparr>" js k] take_published(4,5,6) by (simp add: waiting_at_def)
  then show ?thesis
    unfolding take_published(1)
    by (intro take_ok [OF assms(2) take_published(2,3), where d = "xs @ ys" and ms = "fo_mail s" and ss = "(fo_stash s)[w := js]"])
      (simp_all add: take_published(6), blast)
next
  case (take_stash w j js)
  have "waiting_at (s\<lparr>fo_stash := (fo_stash s)[w := js]\<rparr>) k + of_bool (j = k) = waiting_at s k" for k
    using waiting_stash [OF take_stash(4), of js k] take_stash(5) by (auto split: if_splits)
  then show ?thesis
    unfolding take_stash(1)
    by (intro take_ok [OF assms(2) take_stash(2,3), where d = "fo_ring s" and ms = "fo_mail s" and ss = "(fo_stash s)[w := js]"]) simp_all
next
  case (take_mail w j js)
  have "waiting_at (s\<lparr>fo_mail := (fo_mail s)[w := js]\<rparr>) k + of_bool (j = k) = waiting_at s k" for k
    using waiting_mail [OF take_mail(4), of js k] take_mail(5) by (auto split: if_splits)
  then show ?thesis
    unfolding take_mail(1)
    by (intro take_ok [OF assms(2) take_mail(2,3), where d = "fo_ring s" and ms = "(fo_mail s)[w := js]" and ss = "fo_stash s"]) simp_all
next
  case (execute w j)
  then show ?thesis using assms(2) execute_ok by blast
next
  case (count w j)
  then show ?thesis using assms(2) count_ok by blast
qed

lemma fan_run_ok:
  assumes "(fan_step mode n_workers index own)\<^sup>*\<^sup>* s s'" "fan_ok n_workers index closures own m s"
  shows "fan_ok n_workers index closures own m s'"
  using assms by (induction rule: rtranclp_induct) (auto intro: fan_step_ok)

section \<open>The end of a fan-out\<close>

lemma sum_list_zero: "sum_list (map f xs) = (0 :: nat) \<longleftrightarrow> (\<forall>x \<in> set xs. f x = 0)"
  by (induction xs) auto

lemma no_counts: "(\<And>j. count_list xs j = 0) \<Longrightarrow> xs = []"
  by (metis all_not_in_conv count_list_0_iff set_empty)

text \<open>With the latch down to zero every job has run and no worker holds one.\<close>

lemma fan_drained:
  assumes ok: "fan_ok n_workers index closures own m s" and zero: "latch_count (fo_latch s) = 0"
  shows "set (fo_executed s) = {..<m}" "distinct (fo_executed s)" "\<And>j. waiting_at s j = 0"
    "number is_stored (fo_workers s) = 0"
proof -
  have jobs: "jobs_ok closures m s" and latch: "latch_ok m s" using ok by (simp_all add: fan_ok_def)
  note once = executed_once [OF jobs]
  have len: "length (fo_executed s) = m" "number is_stored (fo_workers s) = 0"
    using latch zero once(3) by (simp_all add: latch_ok_def)
  then show "number is_stored (fo_workers s) = 0" by simp
  show "distinct (fo_executed s)" by (rule once(1))
  show all: "set (fo_executed s) = {..<m}"
    using once(1,2) len by (intro card_subset_eq) (auto simp: distinct_card)
  show "waiting_at s j = 0" for j
  proof -
    have "tally m s j = (if j < m then 1 else 0)" using jobs by (simp add: jobs_ok_def)
    moreover have "j < m \<Longrightarrow> count_list (fo_executed s) j \<noteq> 0" using all by (simp add: count_list_0_iff)
    ultimately show ?thesis by (auto simp: tally_def split: if_splits)
  qed
qed

lemma fan_empty:
  assumes "\<And>j. waiting_at s j = 0"
  shows "q \<in> set (fo_ring s) \<Longrightarrow> q = []" "t < length (fo_mail s) \<Longrightarrow> fo_mail s ! t = []"
    "t < length (fo_stash s) \<Longrightarrow> fo_stash s ! t = []"
    "w < length (fo_workers s) \<Longrightarrow> fo_workers s ! w \<noteq> Fan_running j"
proof -
  have zero: "sum_list (map (\<lambda>q. count_list q j) (fo_ring s)) = 0" "sum_list (map (\<lambda>q. count_list q j) (fo_mail s)) = 0"
    "sum_list (map (\<lambda>q. count_list q j) (fo_stash s)) = 0"
    "number (\<lambda>w. w = Fan_running j) (fo_workers s) = 0" for j
    using assms [of j] by (simp_all add: waiting_at_def)
  show "q \<in> set (fo_ring s) \<Longrightarrow> q = []" using zero(1) by (auto intro!: no_counts simp: sum_list_zero)
  show "t < length (fo_mail s) \<Longrightarrow> fo_mail s ! t = []" using zero(2) by (auto intro!: no_counts simp: sum_list_zero)
  show "t < length (fo_stash s) \<Longrightarrow> fo_stash s ! t = []" using zero(3) by (auto intro!: no_counts simp: sum_list_zero)
  show "w < length (fo_workers s) \<Longrightarrow> fo_workers s ! w \<noteq> Fan_running j" using zero(4) by (auto simp: number_zero)
qed

text \<open>The values in the order of the list, or the first panic in that order.\<close>

fun gather :: "('r + 'p) list \<Rightarrow> 'r list + 'p" where
  "gather [] = Inl []"
| "gather (Inl v # xs) = map_sum ((#) v) id (gather xs)"
| "gather (Inr p # xs) = Inr p"

lemma gather_append: "gather (xs @ [x]) =
    (case gather xs of Inr p \<Rightarrow> Inr p | Inl vs \<Rightarrow> (case x of Inl v \<Rightarrow> Inl (vs @ [v]) | Inr p \<Rightarrow> Inr p))"
  by (induction xs rule: gather.induct) (auto split: sum.splits)

lemma collect_results_gather:
  "list_all2 (\<lambda>j x. sj_result j = job_capture (\<lambda>_. x) True) js xs \<Longrightarrow> collect_results js = Some (gather xs)"
proof (induction js xs rule: list_all2_induct)
  case (Cons j js x xs)
  then show ?case by (cases x) (simp_all add: into_result_def job_capture_def)
qed simp

lemma fan_done_result:
  assumes ok: "fan_ok n_workers index closures own m s" and fin: "fo_parent s = Fan_done"
  shows "fan_out_result s = Some (gather (map closures [0..<m] @ [own]))"
proof -
  have jobs: "jobs_ok closures m s" and own: "fo_last s = job_capture (\<lambda>_. own) False"
    and zero: "latch_count (fo_latch s) = 0"
    using ok fin by (auto simp: fan_ok_def parent_ok_def latch_ok_def)
  have "list_all2 (\<lambda>j x. sj_result j = job_capture (\<lambda>_. x) True) (fo_jobs s) (map closures [0..<m])"
    using jobs fan_drained(1) [OF ok zero] by (simp add: list_all2_conv_all_nth jobs_ok_def)
  then show ?thesis
    by (simp add: fan_out_result_def collect_results_gather gather_append own job_capture_def split: sum.splits)
qed

section \<open>No fan-out is stuck\<close>

lemma unexecuted_somewhere:
  assumes jobs: "jobs_ok closures m s" and "length (fo_executed s) < m" and "fo_parent s = Fan_wait"
  obtains j where "0 < waiting_at s j"
proof -
  have "card (set (fo_executed s)) < card {..<m}"
    using assms(2) card_length [of "fo_executed s"] by simp
  then obtain j where j: "j < m" "j \<notin> set (fo_executed s)"
    by (metis card_mono finite_set lessThan_iff linorder_not_less subsetI)
  then have "tally m s j = 1" "count_list (fo_executed s) j = 0" using jobs by (simp_all add: jobs_ok_def count_list_0_iff)
  then have "0 < waiting_at s j" using assms(3) by (simp add: tally_def unpushed_def)
  then show thesis by (rule that)
qed

text \<open>
  Where the caller never has to spin: in deque mode the only line it publishes is the first in
  the ring, and a burst that keeps to the mailboxes and to full lines cannot outgrow a ring that
  holds all its jobs.
\<close>

definition ring_fits :: "fan_out_mode \<Rightarrow> nat \<Rightarrow> ('r, 'p) fan_out \<Rightarrow> bool" where
  "ring_fits mode m s \<longleftrightarrow>
     (case fo_parent s of
        Fan_push i \<Rightarrow>
          length (fo_buffer s) \<le> i
          \<and> (mode = Deque_mode \<longrightarrow> (fo_buffer s \<noteq> [] \<or> i < DEQUE_FIRST_BURST \<and> i < m \<longrightarrow> fo_ring s = []))
          \<and> (mode = Mailbox_mode \<longrightarrow> (fo_buffer s \<noteq> [] \<or> i < m
               \<longrightarrow> JOBS_PER_SLOT * length (fo_ring s) + length (fo_buffer s) \<le> i))
      | _ \<Rightarrow> True)"

definition ring_suffices :: "fan_out_mode \<Rightarrow> nat \<Rightarrow> bool" where
  "ring_suffices mode m \<longleftrightarrow> mode = Deque_mode \<or> m \<le> JOBS_PER_SLOT * DEQUE_RING_CAPACITY"

lemma flush_due_buffer: "flush_due mode i s \<Longrightarrow> fo_buffer s \<noteq> []"
  by (auto simp: flush_due_def JOBS_PER_SLOT_def)

lemma ring_fits_room:
  assumes "ring_fits mode m s" "fo_parent s = Fan_push i" "i \<le> m" "fo_buffer s \<noteq> []" "ring_suffices mode m"
  shows "ring_room s"
proof (cases mode)
  case Deque_mode
  then show ?thesis using assms by (simp add: ring_fits_def ring_room_def DEQUE_RING_CAPACITY_def)
next
  case Mailbox_mode
  have "1 \<le> length (fo_buffer s)" using assms(4) by (cases "fo_buffer s") simp_all
  moreover have "3 * length (fo_ring s) + length (fo_buffer s) \<le> 768"
    using assms Mailbox_mode by (simp add: ring_fits_def ring_suffices_def JOBS_PER_SLOT_def DEQUE_RING_CAPACITY_def)
  ultimately show ?thesis unfolding ring_room_def DEQUE_RING_CAPACITY_def by linarith
qed

lemma ring_fits_push:
  assumes "ring_fits mode m s" "fo_parent s = Fan_push i" "i < m" "\<not> flush_due mode i s"
  shows "ring_fits mode m ((fan_push mode n_workers index refused i s)\<lparr>fo_parent := Fan_push (Suc i)\<rparr>)"
proof (cases rule: fan_push_cases [of mode n_workers index refused i s])
  case buffered
  then show ?thesis
    using assms by (cases mode) (auto simp: ring_fits_def JOBS_PER_SLOT_def)
next
  case (mailed t)
  then show ?thesis using assms by (auto simp: ring_fits_def)
next
  case (begun t)
  then show ?thesis using assms by (auto simp: ring_fits_def fan_begin_def fan_flush_def split: if_splits)
next
  case (rung t)
  then show ?thesis using assms fan_flush_frame(10) [OF rung(3)] by (auto simp: ring_fits_def)
qed

lemma ring_fits_flush:
  assumes "ring_fits mode m s" "fo_parent s = Fan_push i" "flush_due mode i s \<or> i = m" "fan_flush s = Some s'"
    "length (fo_buffer s) \<le> JOBS_PER_SLOT" "fo_buffer s \<noteq> []"
  shows "ring_fits mode m s'"
proof -
  have s': "s' = s\<lparr>fo_ring := fo_ring s @ [fo_buffer s], fo_buffer := []\<rparr>"
    using assms(4,6) by (simp add: fan_flush_def split: if_splits)
  show ?thesis
    using assms(1,2,3,5,6)
    by (cases mode) (auto simp: ring_fits_def s' flush_due_def JOBS_PER_SLOT_def DEQUE_FIRST_BURST_def)
qed

lemma ring_fits_less:
  "ring_fits mode m s \<Longrightarrow> fo_parent s' = fo_parent s \<Longrightarrow> fo_buffer s' = fo_buffer s
    \<Longrightarrow> length (fo_ring s') \<le> length (fo_ring s) \<Longrightarrow> ring_fits mode m s'"
  by (cases "fo_parent s") (auto simp: ring_fits_def JOBS_PER_SLOT_def)

lemma short_buffer_push:
  assumes "length (fo_buffer s) \<le> JOBS_PER_SLOT" "\<not> flush_due mode i s"
  shows "length (fo_buffer (fan_push mode n_workers index refused i s)) \<le> JOBS_PER_SLOT"
proof (cases rule: fan_push_cases [of mode n_workers index refused i s])
  case buffered
  then show ?thesis using assms by (auto simp: flush_due_def)
next
  case (rung t)
  then show ?thesis using fan_flush_frame(10) [OF rung(3)] by simp
next
  case (begun t)
  then show ?thesis using assms(1) fan_flush_frame(10) [of s t] by (auto simp: fan_begin_def)
qed (use assms in simp)

definition ring_ok :: "fan_out_mode \<Rightarrow> nat \<Rightarrow> ('r, 'p) fan_out \<Rightarrow> bool" where
  "ring_ok mode m s \<longleftrightarrow> ring_fits mode m s \<and> length (fo_buffer s) \<le> JOBS_PER_SLOT \<and> length (fo_jobs s) = m"

lemma ring_ok_step:
  assumes "fan_step mode n_workers index own s s'" "ring_ok mode m s"
  shows "ring_ok mode m s'"
  using assms(1)
proof (cases rule: fan_step.cases)
  case (push i refused)
  then show ?thesis
    using assms(2) ring_fits_push [of mode m s i n_workers index refused] short_buffer_push [of s mode i n_workers index refused]
    by (simp add: ring_ok_def fan_push_frame)
next
  case (publish i)
  then show ?thesis
    using assms(2) ring_fits_flush [of mode m s i s'] fan_flush_frame(2,10) [OF publish(5)] by (auto simp: ring_ok_def)
next
  case (execute w j)
  then show ?thesis
    using assms(2) ring_fits_less [of mode m s s'] by (auto simp: ring_ok_def fan_execute_def split: option.splits)
next
  case (pushed i)
  then show ?thesis using assms(2) by (simp add: ring_ok_def ring_fits_def)
next
  case run_last
  then show ?thesis using assms(2) by (simp add: ring_ok_def ring_fits_def)
next
  case leave
  then show ?thesis using assms(2) by (simp add: ring_ok_def ring_fits_def)
qed (use assms(2) ring_fits_less [of mode m s s'] in \<open>auto simp: ring_ok_def fan_begin_def fan_count_down_def\<close>)

lemma ring_ok_run:
  assumes "(fan_step mode n_workers index own)\<^sup>*\<^sup>* s s'" "ring_ok mode m s"
  shows "ring_ok mode m s'"
  using assms by (induction rule: rtranclp_induct) (auto intro: ring_ok_step)

lemma ring_ok_start: "ring_ok mode m (fan_out_start n_workers closures m)"
  by (simp add: ring_ok_def ring_fits_def fan_out_start_def)

text \<open>A worker other than the caller can always do something while the ring holds a line.\<close>

lemma peer_moves:
  assumes ok: "fan_ok n_workers index closures own m s" and ring: "fo_ring s \<noteq> []"
    and w: "w < n_workers" "w \<noteq> index \<or> fo_parent s = Fan_wait" "worker_idle w s"
  shows "\<exists>s'. fan_step mode n_workers index own s s'"
proof (cases "fo_stash s ! w")
  case Nil
  obtain line ys where r: "fo_ring s = [] @ line # ys" using ring by (cases "fo_ring s") auto
  then have "line \<noteq> []" using ok by (auto simp: fan_ok_def)
  then obtain j js where "line = j # js" by (cases line) auto
  then show ?thesis
    using fan_step.take_published [OF w(3,2), of "[]" j js ys] Nil r ok w(1) by (auto simp: fan_ok_def)
next
  case (Cons j js)
  then show ?thesis using fan_step.take_stash [OF w(3,2) _ Cons] ok w(1) by (auto simp: fan_ok_def)
qed

lemma fan_progress:
  assumes ok: "fan_ok n_workers index closures own m s" and index: "index < n_workers"
    and fits: "ring_ok mode m s" and enough: "2 \<le> n_workers \<or> ring_suffices mode m"
    and busy: "fo_parent s \<noteq> Fan_done"
  shows "\<exists>s'. fan_step mode n_workers index own s s'"
proof (cases "\<forall>w < n_workers. fo_workers s ! w = Fan_idle")
  case False
  then obtain w where w: "w < length (fo_workers s)" "fo_workers s ! w \<noteq> Fan_idle"
    using ok by (auto simp: fan_ok_def)
  have jobs: "jobs_ok closures m s" using ok by (simp add: fan_ok_def)
  show ?thesis
  proof (cases "fo_workers s ! w")
    case (Fan_running j)
    have "sj_func (fo_jobs s ! j) = Some (\<lambda>_. closures j)"
      using running_fresh [OF jobs w(1) Fan_running] jobs by (simp add: jobs_ok_def)
    then obtain s' where "fan_execute w j s = Some s'" by (simp add: fan_execute_def)
    then show ?thesis using fan_step.execute [OF w(1) Fan_running] by blast
  next
    case (Fan_stored j)
    then show ?thesis using fan_step.count [OF w(1)] by blast
  qed (use w in simp)
next
  case True
  then have idle: "worker_idle w s" if "w < n_workers" for w
    using that ok by (simp add: worker_idle_def fan_ok_def)
  have parent: "parent_ok index own m s" and jobs: "jobs_ok closures m s" and latch: "latch_ok m s"
    using ok by (simp_all add: fan_ok_def)
  show ?thesis
  proof (cases "fo_parent s")
    case (Fan_push i)
    have i: "i \<le> m" "length (fo_jobs s) = m" using Fan_push parent jobs by (simp_all add: parent_ok_def jobs_ok_def)
    show ?thesis
    proof (cases "fo_buffer s \<noteq> [] \<and> (flush_due mode i s \<or> i = m)")
      case publish: True
      show ?thesis
      proof (cases "ring_room s")
        case True
        then obtain s' where "fan_flush s = Some s'" by (cases "fan_flush s") (auto simp: fan_flush_def split: if_splits)
        then show ?thesis using fan_step.publish [OF Fan_push idle [OF index]] publish i(2) by blast
      next
        case full: False
        then have "\<not> ring_suffices mode m"
          using ring_fits_room [OF _ Fan_push i(1)] publish fits by (auto simp: ring_ok_def)
        then have two: "2 \<le> n_workers" using enough by simp
        obtain w where w: "w < n_workers" "w \<noteq> index"
          using two that [of 0] that [of 1] by (cases "index = 0") auto
        have "fo_ring s \<noteq> []" using full by (auto simp: ring_room_def DEQUE_RING_CAPACITY_def)
        then show ?thesis using peer_moves [OF ok _ w(1) _ idle [OF w(1)]] w(2) by blast
      qed
    next
      case False
      then have "\<not> flush_due mode i s" using flush_due_buffer [of mode i s] by blast
      then show ?thesis
        using fan_step.push [OF Fan_push idle [OF index], of mode] fan_step.pushed [OF Fan_push idle [OF index]] False i
        by (metis le_neq_implies_less)
    qed
  next
    case Fan_last
    then show ?thesis using fan_step.run_last by blast
  next
    case Fan_wait
    show ?thesis
    proof (cases "core_is_set (latch_core (fo_latch s))")
      case True
      then show ?thesis using fan_step.leave [OF Fan_wait idle [OF index]] by blast
    next
      case unset: False
      have "number is_stored (fo_workers s) = 0"
        using True ok by (auto simp: number_zero is_stored_def fan_ok_def in_set_conv_nth)
      then have "length (fo_executed s) < m"
        using latch unset by (simp add: latch_ok_def word_unat_eq_iff)
      then obtain j where "0 < waiting_at s j" using unexecuted_somewhere [OF jobs _ Fan_wait] by blast
      moreover have "number (\<lambda>w. w = Fan_running j) (fo_workers s) = 0"
        using True ok by (auto simp: number_zero fan_ok_def in_set_conv_nth)
      moreover have "fo_buffer s = []" using parent Fan_wait by (simp add: parent_ok_def)
      ultimately consider "fo_ring s \<noteq> []" | q where "q \<in> set (fo_mail s)" "j \<in> set q"
        | q where "q \<in> set (fo_stash s)" "j \<in> set q"
        by (cases "fo_ring s = []")
          (auto simp: waiting_at_def sum_list_zero count_list_0_iff neq0_conv [symmetric] simp del: neq0_conv)
      then show ?thesis
      proof cases
        case 1
        then show ?thesis using peer_moves [OF ok _ index _ idle [OF index]] Fan_wait by blast
      next
        case 2
        then obtain t where t: "t < length (fo_mail s)" "fo_mail s ! t = q" by (auto simp: in_set_conv_nth)
        moreover obtain i js where "q = i # js" using 2(2) by (cases q) auto
        moreover have "t < n_workers" using t ok by (simp add: fan_ok_def)
        ultimately show ?thesis using fan_step.take_mail [OF idle] Fan_wait by blast
      next
        case 3
        then obtain t where t: "t < length (fo_stash s)" "fo_stash s ! t = q" by (auto simp: in_set_conv_nth)
        moreover obtain i js where "q = i # js" using 3(2) by (cases q) auto
        moreover have "t < n_workers" using t ok by (simp add: fan_ok_def)
        ultimately show ?thesis using fan_step.take_stash [OF idle] Fan_wait by blast
      qed
    qed
  qed (use busy in simp)
qed

section \<open>Every fan-out ends\<close>

definition worker_left :: "fan_worker \<Rightarrow> nat" where
  "worker_left w = (case w of Fan_idle \<Rightarrow> 0 | Fan_stored _ \<Rightarrow> 1 | Fan_running _ \<Rightarrow> 2)"

definition parent_left :: "nat \<Rightarrow> fan_parent \<Rightarrow> nat" where
  "parent_left m pc = (case pc of Fan_push i \<Rightarrow> 6 * (m - i) + 3 | Fan_last \<Rightarrow> 2 | Fan_wait \<Rightarrow> 1 | Fan_done \<Rightarrow> 0)"

definition fan_left :: "('r, 'p) fan_out \<Rightarrow> nat" where
  "fan_left s = parent_left (length (fo_jobs s)) (fo_parent s) + 5 * length (fo_buffer s)
     + 4 * sum_list (map length (fo_ring s)) + 3 * sum_list (map length (fo_mail s))
     + 3 * sum_list (map length (fo_stash s)) + sum_list (map worker_left (fo_workers s))"

lemma left_worker:
  "w < length (fo_workers s) \<Longrightarrow> sum_list (map worker_left ((fo_workers s)[w := v])) + worker_left (fo_workers s ! w)
    = sum_list (map worker_left (fo_workers s)) + worker_left v"
  using sum_list_swap [of w "fo_workers s" worker_left v] by simp

lemma left_queue:
  "t < length qs \<Longrightarrow> sum_list (map length (qs[t := q])) + length (qs ! t) = sum_list (map length qs) + length q"
  using sum_list_swap [of t qs length q] by simp

lemma fan_flush_left: "fan_flush s = Some s' \<Longrightarrow> fan_left s' + length (fo_buffer s) = fan_left s"
  by (auto simp: fan_flush_def fan_left_def split: if_splits)

lemma fan_begin_left: "worker_idle w s \<Longrightarrow> fan_left (fan_begin w j s) = fan_left s + 2"
  using left_worker [of w s "Fan_running j"] by (simp add: fan_left_def fan_begin_def worker_idle_def worker_left_def)

lemma next_push_left:
  "fo_parent s = Fan_push i \<Longrightarrow> i < length (fo_jobs s) \<Longrightarrow> fan_left (s\<lparr>fo_parent := Fan_push (Suc i)\<rparr>) + 6 = fan_left s"
  by (simp add: fan_left_def parent_left_def)

lemma fan_push_left:
  assumes "worker_idle index s" "i < length (fo_jobs s)" "fo_parent s = Fan_push i"
  shows "fan_left ((fan_push mode n_workers index refused i s)\<lparr>fo_parent := Fan_push (Suc i)\<rparr>) < fan_left s"
proof -
  let ?s = "fan_push mode n_workers index refused i s"
  have at: "fo_parent ?s = Fan_push i"
    by (cases rule: fan_push_cases [of mode n_workers index refused i s])
      (use assms(3) fan_flush_frame(8) [of s] in \<open>auto simp: fan_begin_def\<close>)
  have "fan_left ?s \<le> fan_left s + 5"
  proof (cases rule: fan_push_cases [of mode n_workers index refused i s])
    case buffered
    then show ?thesis by (simp add: fan_left_def)
  next
    case (mailed t)
    then show ?thesis using left_queue [of t "fo_mail s" "fo_mail s ! t @ [i]"] by (simp add: fan_left_def)
  next
    case (begun t)
    then have "worker_idle index t" "fan_left t \<le> fan_left s"
      using assms(1) worker_idle_flush fan_flush_left [of s t] by auto
    then show ?thesis using begun(4) fan_begin_left [of index t i] by simp
  next
    case (rung t)
    then show ?thesis using fan_flush_left [of s t] by (simp add: fan_left_def)
  qed
  then show ?thesis using next_push_left [OF at] assms(2) by (simp add: fan_push_frame)
qed

lemma fan_step_left:
  assumes "fan_step mode n_workers index own s s'"
  shows "fan_left s' < fan_left s"
  using assms
proof (cases rule: fan_step.cases)
  case (push i refused)
  then show ?thesis using fan_push_left by blast
next
  case (publish i)
  then show ?thesis using fan_flush_left [OF publish(5)] by (cases "fo_buffer s") simp_all
next
  case (take_published w xs j js ys)
  let ?t = "s\<lparr>fo_ring := xs @ ys, fo_stash := (fo_stash s)[w := js]\<rparr>"
  have "fan_left ?t + 4 + length js = fan_left s"
    using take_published(4,5,6) left_queue [of w "fo_stash s" js] by (simp add: fan_left_def)
  then show ?thesis using take_published(1,2) fan_begin_left [of w ?t j] by simp
next
  case (take_stash w j js)
  let ?t = "s\<lparr>fo_stash := (fo_stash s)[w := js]\<rparr>"
  have "fan_left ?t + 3 = fan_left s"
    using take_stash(4,5) left_queue [of w "fo_stash s" js] by (simp add: fan_left_def)
  then show ?thesis using take_stash(1,2) fan_begin_left [of w ?t j] by simp
next
  case (take_mail w j js)
  let ?t = "s\<lparr>fo_mail := (fo_mail s)[w := js]\<rparr>"
  have "fan_left ?t + 3 = fan_left s"
    using take_mail(4,5) left_queue [of w "fo_mail s" js] by (simp add: fan_left_def)
  then show ?thesis using take_mail(1,2) fan_begin_left [of w ?t j] by simp
next
  case (execute w j)
  then show ?thesis
    using left_worker [of w s "Fan_stored j"]
    by (auto simp: fan_left_def fan_execute_def worker_left_def split: option.splits)
next
  case (count w j)
  then show ?thesis
    using left_worker [of w s Fan_idle] by (simp add: fan_left_def fan_count_down_def worker_left_def)
qed (simp_all add: fan_left_def parent_left_def)

lemma fan_completes:
  assumes "fan_ok n_workers index closures own m s" "ring_ok mode m s" "index < n_workers"
    "2 \<le> n_workers \<or> ring_suffices mode m"
  shows "\<exists>s'. (fan_step mode n_workers index own)\<^sup>*\<^sup>* s s' \<and> fo_parent s' = Fan_done"
  using assms(1,2)
proof (induction "fan_left s" arbitrary: s rule: less_induct)
  case less
  show ?case
  proof (cases "fo_parent s = Fan_done")
    case False
    then obtain t where t: "fan_step mode n_workers index own s t"
      using fan_progress [OF less.prems(1) assms(3) less.prems(2) assms(4)] by blast
    then obtain s' where "(fan_step mode n_workers index own)\<^sup>*\<^sup>* t s'" "fo_parent s' = Fan_done"
      using less.hyps [OF fan_step_left [OF t] fan_step_ok [OF t less.prems(1)] ring_ok_step [OF t less.prems(2)]] by blast
    with t show ?thesis by (meson converse_rtranclp_into_rtranclp)
  qed blast
qed

section \<open>A lone worker\<close>

text \<open>
  With one worker every mailbox push is a burst push to the caller's own ring, which nobody
  empties before the caller waits.
\<close>

definition lone_pushing :: "nat \<Rightarrow> ('r, 'p) fan_out \<Rightarrow> bool" where
  "lone_pushing m s \<longleftrightarrow>
     (\<exists>i \<le> m. fo_parent s = Fan_push i \<and> i = JOBS_PER_SLOT * length (fo_ring s) + length (fo_buffer s))
     \<and> length (fo_ring s) \<le> DEQUE_RING_CAPACITY \<and> length (fo_buffer s) \<le> JOBS_PER_SLOT
     \<and> fo_workers s = [Fan_idle] \<and> length (fo_jobs s) = m"

lemma lone_push: "fan_push Mailbox_mode 1 0 refused i s = s\<lparr>fo_buffer := fo_buffer s @ [i]\<rparr>"
  by (simp add: fan_push_def mailbox_target_def)

lemma lone_step:
  assumes "fan_step Mailbox_mode 1 0 own s s'" "lone_pushing m s" "JOBS_PER_SLOT * DEQUE_RING_CAPACITY < m"
  shows "lone_pushing m s'"
proof -
  obtain i where i: "i \<le> m" "fo_parent s = Fan_push i" "i = JOBS_PER_SLOT * length (fo_ring s) + length (fo_buffer s)"
    and s: "length (fo_ring s) \<le> DEQUE_RING_CAPACITY" "length (fo_buffer s) \<le> JOBS_PER_SLOT"
      "fo_workers s = [Fan_idle]" "length (fo_jobs s) = m"
    using assms(2) by (auto simp: lone_pushing_def)
  have idle: "w = 0" if "worker_idle w s" for w using that s(3) by (simp add: worker_idle_def)
  show ?thesis
    using assms(1)
  proof (cases rule: fan_step.cases)
    case (push k refused)
    have "length (fo_buffer s) \<noteq> JOBS_PER_SLOT" using push(5) by (simp add: flush_due_def)
    then show ?thesis
      unfolding push(1) lone_push using push(2,4) i s by (simp add: lone_pushing_def)
  next
    case (publish k)
    have room: "ring_room s" and s': "s' = s\<lparr>fo_ring := fo_ring s @ [fo_buffer s], fo_buffer := []\<rparr>"
      using publish(3,5) by (auto simp: fan_flush_def split: if_splits)
    have "length (fo_buffer s) = JOBS_PER_SLOT"
    proof (rule ccontr)
      assume short: "length (fo_buffer s) \<noteq> JOBS_PER_SLOT"
      then have "i = m" using publish(1,4) i(2) s(4) by (auto simp: flush_due_def)
      then show False using i(3) s(1,2) short assms(3) room
        by (simp add: JOBS_PER_SLOT_def DEQUE_RING_CAPACITY_def ring_room_def)
    qed
    then show ?thesis using i s room by (simp add: s' lone_pushing_def ring_room_def)
  next
    case (pushed k)
    then have "m = JOBS_PER_SLOT * length (fo_ring s)" using i s(4) by simp
    then show ?thesis using s(1) assms(3) by (simp add: JOBS_PER_SLOT_def DEQUE_RING_CAPACITY_def)
  qed (use i s(3) idle in \<open>auto simp: less_Suc_eq\<close>)
qed

lemma lone_run:
  assumes "(fan_step Mailbox_mode 1 0 own)\<^sup>*\<^sup>* s s'" "lone_pushing m s" "JOBS_PER_SLOT * DEQUE_RING_CAPACITY < m"
  shows "lone_pushing m s'"
  using assms by (induction rule: rtranclp_induct) (auto intro: lone_step)

lemma lone_start: "lone_pushing m (fan_out_start 1 closures m)"
  by (simp add: lone_pushing_def fan_out_start_def)

section \<open>The tree\<close>

lemma tree_none: "cooperative_join_n_tree [] = Join_none"
  by (subst cooperative_join_n_tree.simps) simp

lemma tree_one: "cooperative_join_n_tree [c] = Join_one c"
  by (subst cooperative_join_n_tree.simps) simp

lemma tree_join:
  assumes "2 \<le> length cs"
  shows "cooperative_join_n_tree cs =
     Join_two (cooperative_join_n_tree (take (length cs div 2) cs)) (cooperative_join_n_tree (drop (length cs div 2) cs))"
proof -
  obtain a b cs' where cs: "cs = a # b # cs'" using assms by (cases cs; cases "tl cs") auto
  show ?thesis
  proof (cases cs')
    case Nil
    then show ?thesis unfolding cs by (subst cooperative_join_n_tree.simps) (simp add: tree_one)
  next
    case (Cons c cs'')
    then show ?thesis unfolding cs by (subst cooperative_join_n_tree.simps) (simp only: list.case Let_def)
  qed
qed

lemma tree_two:
  assumes "2 \<le> length cs"
  obtains ls rs where "cs = ls @ rs" "length ls < length cs" "length rs < length cs"
    "length ls = length cs div 2" "length rs = length cs - length cs div 2"
    "cooperative_join_n_tree cs = Join_two (cooperative_join_n_tree ls) (cooperative_join_n_tree rs)"
proof (rule that)
  show "cs = take (length cs div 2) cs @ drop (length cs div 2) cs" by simp
  show "cooperative_join_n_tree cs = Join_two (cooperative_join_n_tree (take (length cs div 2) cs))
      (cooperative_join_n_tree (drop (length cs div 2) cs))"
    by (rule tree_join [OF assms])
  have half: "length cs div 2 < length cs" "0 < length cs div 2" using assms by linarith+
  show "length (take (length cs div 2) cs) = length cs div 2" using half(1) by (simp only: length_take min.absorb3 min.strict_order_iff)
  then show "length (take (length cs div 2) cs) < length cs" using half(1) by simp
  show "length (drop (length cs div 2) cs) = length cs - length cs div 2" by (rule length_drop)
  then show "length (drop (length cs div 2) cs) < length cs" using half(2) assms by linarith
qed

lemma tree_results_map: "tree_results run (cooperative_join_n_tree cs) = map run cs"
proof (induction "length cs" arbitrary: cs rule: less_induct)
  case less
  consider "cs = []" | c where "cs = [c]" | "2 \<le> length cs" by (cases cs; cases "tl cs") auto
  then show ?case
  proof cases
    case 3
    then obtain ls rs where "cs = ls @ rs" "length ls < length cs" "length rs < length cs"
      "cooperative_join_n_tree cs = Join_two (cooperative_join_n_tree ls) (cooperative_join_n_tree rs)"
      by (rule tree_two)
    then show ?thesis using less by simp
  qed (simp_all add: tree_none tree_one)
qed

lemma tree_depth_log: "length cs \<le> 2 ^ k \<Longrightarrow> tree_depth (cooperative_join_n_tree cs) \<le> k"
proof (induction "length cs" arbitrary: cs k rule: less_induct)
  case less
  consider "cs = []" | c where "cs = [c]" | "2 \<le> length cs" by (cases cs; cases "tl cs") auto
  then show ?case
  proof cases
    case 3
    then obtain ls rs where split: "cs = ls @ rs" "length ls < length cs" "length rs < length cs"
      "length ls = length cs div 2" "length rs = length cs - length cs div 2"
      "cooperative_join_n_tree cs = Join_two (cooperative_join_n_tree ls) (cooperative_join_n_tree rs)"
      by (rule tree_two)
    obtain k' where k: "k = Suc k'" using less.prems 3 by (cases k) auto
    obtain p :: nat where p: "p = 2 ^ k'" by blast
    then have "length cs \<le> 2 * p" using less.prems by (simp add: k)
    then have "length ls \<le> 2 ^ k'" "length rs \<le> 2 ^ k'"
      using split(4,5) unfolding p [symmetric] by linarith+
    then have "tree_depth (cooperative_join_n_tree ls) \<le> k'" "tree_depth (cooperative_join_n_tree rs) \<le> k'"
      using less.hyps [OF split(2)] less.hyps [OF split(3)] by blast+
    then show ?thesis unfolding split(6) by (simp add: k)
  qed (simp_all add: tree_none tree_one)
qed

section \<open>Mailbox targets\<close>

lemma lap_position:
  assumes "index < n" "v < n" "i < (n :: nat)"
  shows "(index + 1 + i) mod n = v \<longleftrightarrow> i = (if index < v then v - (index + 1) else v + n - (index + 1))"
proof -
  have "(index + 1 + i) mod n = (if index + 1 + i < n then index + 1 + i else index + 1 + i - n)"
    using assms by (simp add: mod_if)
  then show ?thesis using assms by auto
qed

lemma lap_card:
  assumes "index < n" "v < (n :: nat)"
  shows "card {i. i < n \<and> (index + 1 + i) mod n = v} = 1"
proof -
  let ?i = "if index < v then v - (index + 1) else v + n - (index + 1)"
  have lt: "?i < n" using assms by auto
  have "i < n \<and> (index + 1 + i) mod n = v \<longleftrightarrow> i = ?i" for i
    using lap_position [OF assms, of i] lt by blast
  then have "{i. i < n \<and> (index + 1 + i) mod n = v} = {?i}" by (intro set_eqI) (simp only: mem_Collect_eq singleton_iff)
  then show ?thesis by (simp only: card.insert finite.emptyI empty_iff card.empty) simp
qed

lemma mailbox_target_lap:
  assumes "2 \<le> n" "index < n" "t < n"
  shows "card {i. i < n \<and> mailbox_target n index i = t} =
    (if t = index then 0 else if t = (index + 1) mod n then 2 else 1)"
proof -
  let ?at = "\<lambda>v. {i. i < n \<and> (index + 1 + i) mod n = v}"
  have next_other: "(index + 1) mod n \<noteq> index" using assms(1,2) by (simp add: mod_if)
  have "mailbox_target n index i = t \<longleftrightarrow>
      (t \<noteq> index \<and> (index + 1 + i) mod n = t) \<or> (t = (index + 1) mod n \<and> (index + 1 + i) mod n = index)" for i
    using assms(1) next_other by (auto simp: mailbox_target_def Let_def)
  then have sets: "{i. i < n \<and> mailbox_target n index i = t} =
      (if t = index then {} else if t = (index + 1) mod n then ?at t \<union> ?at index else ?at t)"
    using next_other by auto
  have "?at t \<inter> ?at index = {}" if "t \<noteq> index" using that by auto
  then have "card (?at t \<union> ?at index) = 2" if "t \<noteq> index"
    using that lap_card [OF assms(2,3)] lap_card [OF assms(2,2)] card_Un_disjoint [of "?at t" "?at index"]
    by (simp only: finite_Collect_conjI finite_Collect_less_nat) simp
  then show ?thesis unfolding sets using lap_card [OF assms(2,3)] next_other
    by (cases "t = index"; cases "t = (index + 1) mod n") (simp_all only: if_True if_False card.empty simp_thms)
qed

lemma mailbox_target_laps:
  assumes "2 \<le> n" "index < n" "t < n"
  shows "card {i. i < laps * n \<and> mailbox_target n index i = t} =
    laps * (if t = index then 0 else if t = (index + 1) mod n then 2 else 1)"
proof (induction laps)
  case (Suc laps)
  have periodic: "mailbox_target n index (laps * n + i) = mailbox_target n index i" for i
  proof -
    have "(index + 1 + (laps * n + i)) mod n = (index + 1 + i) mod n"
      by (metis add.commute add.left_commute mod_mult_self3)
    then show ?thesis by (simp only: mailbox_target_def)
  qed
  let ?A = "{i. i < laps * n \<and> mailbox_target n index i = t}"
  let ?B = "{i. i < n \<and> mailbox_target n index i = t}"
  have "{i. i < Suc laps * n \<and> mailbox_target n index i = t} = ?A \<union> (\<lambda>i. laps * n + i) ` ?B"
  proof (intro equalityI subsetI)
    fix i
    assume i: "i \<in> {i. i < Suc laps * n \<and> mailbox_target n index i = t}"
    show "i \<in> ?A \<union> (\<lambda>i. laps * n + i) ` ?B"
    proof (cases "i < laps * n")
      case False
      then have "i = laps * n + (i - laps * n)" "i - laps * n < n" using i by auto
      then show ?thesis using i periodic [of "i - laps * n"] by (intro UnI2 image_eqI [of _ _ "i - laps * n"]) auto
    qed (use i in simp)
  qed (use periodic in auto)
  moreover have "card (?A \<union> (\<lambda>i. laps * n + i) ` ?B) = card ?A + card ?B"
    by (subst card_Un_disjoint) (auto simp: card_image)
  ultimately show ?case using Suc mailbox_target_lap [OF assms] by simp
qed simp

section \<open>A gated worker and its mailbox\<close>

definition mail_kept :: "nat \<Rightarrow> nat \<Rightarrow> ('r, 'p) fan_out \<Rightarrow> bool" where
  "mail_kept g i s \<longleftrightarrow> fo_mail s ! g \<noteq> [] \<or> (case fo_parent s of Fan_push k \<Rightarrow> k \<le> i | _ \<Rightarrow> False)"

lemma mail_kept_push:
  assumes "mail_kept g i s" "fo_parent s = Fan_push k" "mailbox_target n_workers index i = g" "g \<noteq> index"
    "g < length (fo_mail s)"
  shows "mail_kept g i ((fan_push Mailbox_mode n_workers index refused k s)\<lparr>fo_parent := Fan_push (Suc k)\<rparr>)"
  using assms by (cases "k = i") (auto simp: mail_kept_def fan_push_def push_to_mailbox_def MAILBOX_CAPACITY_def nth_list_update Let_def
      split: if_splits)

lemma gated_step_keeps:
  assumes "gated_step g Mailbox_mode n_workers index own s s'" "mail_kept g i s" "fan_ok n_workers index closures own m s"
    "mailbox_target n_workers index i = g" "g \<noteq> index" "g < n_workers" "i < m"
  shows "mail_kept g i s'"
proof -
  have step: "fan_step Mailbox_mode n_workers index own s s'" and idle: "fo_workers s' ! g = Fan_idle"
    using assms(1) by (simp_all add: gated_step_def)
  have len: "length (fo_mail s) = n_workers" "length (fo_workers s) = n_workers" "length (fo_jobs s) = m"
    using assms(3) by (simp_all add: fan_ok_def jobs_ok_def)
  show ?thesis
    using step
  proof (cases rule: fan_step.cases)
    case (push k refused)
    then show ?thesis using mail_kept_push [OF assms(2) push(2) assms(4,5)] assms(6) len(1) by simp
  next
    case (pushed k)
    then show ?thesis using assms(2,7) len(3) by (simp add: mail_kept_def fan_flush_def)
  next
    case (publish k)
    then show ?thesis using assms(2) fan_flush_frame [OF publish(5)] by (simp add: mail_kept_def)
  next
    case (take_mail w j js)
    then have "w \<noteq> g" using idle len by (auto simp: fan_begin_def)
    then show ?thesis using take_mail assms(2) by (simp add: mail_kept_def fan_begin_def)
  qed (use assms(2) in \<open>auto simp: mail_kept_def fan_flush_def fan_begin_def fan_execute_def fan_count_down_def
      split: option.splits\<close>)
qed

lemma gated_run_keeps:
  assumes run: "(gated_step g Mailbox_mode n_workers index own)\<^sup>*\<^sup>* s s'"
    and s: "mail_kept g i s" "fan_ok n_workers index closures own m s"
    and t: "mailbox_target n_workers index i = g" "g \<noteq> index" "g < n_workers" "i < m"
  shows "mail_kept g i s' \<and> fan_ok n_workers index closures own m s'"
  using run
proof induction
  case (step a b)
  then show ?case
    using gated_step_keeps [OF step(2) _ _ t] fan_step_ok [of Mailbox_mode n_workers index own a b]
    by (auto simp: gated_step_def)
qed (use s in simp)

end
