(* ===== verification/Coop_Properties.thy ===== *)
theory Coop_Properties
  imports Cooperative_Laws
begin

text \<open>The properties of the N-way fork-join of \<open>sched/cooperative.rs\<close>.\<close>

text \<open>
  C11: A fan-out that returns has run every closure exactly once and returns what running them
  in the caller's order would: the values in order, or the first panic in that order. No job is
  left in the ring, a mailbox or a stash and no worker still holds one, so the caller may free them. This
  holds of every interleaving of the caller and its peers, in both modes, whatever pushes the
  ring refuses.
\<close>

theorem fan_out_runs_each_once:
  assumes "0 < m" "m < 2 ^ 64"
    and "(fan_step mode n_workers index own)\<^sup>*\<^sup>* (fan_out_start n_workers closures m) s" "fo_parent s = Fan_done"
  shows "fan_out_result s = Some (gather (map closures [0..<m] @ [own]))
    \<and> set (fo_executed s) = {..<m} \<and> distinct (fo_executed s)
    \<and> fo_buffer s = [] \<and> fo_ring s = []
    \<and> (\<forall>w < n_workers. fo_mail s ! w = [] \<and> fo_stash s ! w = [] \<and> fo_workers s ! w = Fan_idle)"
proof -
  have ok: "fan_ok n_workers index closures own m s"
    by (rule fan_run_ok [OF assms(3) fan_ok_start [OF assms(1,2)]])
  then have zero: "latch_count (fo_latch s) = 0" and len: "length (fo_workers s) = n_workers" "length (fo_mail s) = n_workers"
      "length (fo_stash s) = n_workers" and buffer: "fo_buffer s = []"
    using assms(4) by (auto simp: fan_ok_def parent_ok_def latch_ok_def)
  note drained = fan_drained [OF ok zero]
  have "fo_workers s ! w = Fan_idle" if "w < n_workers" for w
  proof -
    have "\<not> is_stored (fo_workers s ! w)" using drained(4) that len by (simp add: number_zero)
    then show ?thesis
      using fan_empty(4) [OF drained(3)] that len by (cases "fo_workers s ! w") (auto simp: is_stored_def)
  qed
  moreover have "fo_ring s = []"
  proof (rule ccontr)
    assume "fo_ring s \<noteq> []"
    then have "hd (fo_ring s) \<in> set (fo_ring s)" by simp
    then show False using fan_empty(1) [OF drained(3)] ok by (metis fan_ok_def)
  qed
  ultimately show ?thesis
    using fan_done_result [OF ok assms(4)] drained(1,2) fan_empty(2,3) [OF drained(3)] len buffer by simp
qed

theorem fan_out_runs_each_once_witness:
  "\<exists>s. (fan_step Mailbox_mode 2 1 (Inl 9))\<^sup>*\<^sup>* (fan_out_start 2 (\<lambda>j. if j = 1 then Inr True else Inl j) 2) s
    \<and> fo_parent s = Fan_done \<and> fan_out_result s = Some (Inr True) \<and> set (fo_executed s) = {0, 1}"
proof -
  let ?closures = "\<lambda>j :: nat. if j = 1 then Inr True else Inl j"
  have "fan_ok 2 1 ?closures (Inl 9) 2 (fan_out_start 2 ?closures 2)" by (rule fan_ok_start) simp_all
  then obtain s where s: "(fan_step Mailbox_mode 2 1 (Inl 9))\<^sup>*\<^sup>* (fan_out_start 2 ?closures 2) s" "fo_parent s = Fan_done"
    using fan_completes [OF _ ring_ok_start, of 2 1 ?closures "Inl 9" 2 2 ?closures Mailbox_mode] by auto
  have "gather (map ?closures [0..<2] @ [Inl 9]) = Inr True" "{..<2} = {0, 1 :: nat}"
    by (auto simp: upt_conv_Cons numeral_2_eq_2)
  then show ?thesis using fan_out_runs_each_once [OF _ _ s] s by (intro exI [of _ s]) simp
qed

text \<open>
  C12: A fan-out whose workers all take part returns where the ring can be emptied or does not fill,
  and hangs where neither is so. Every step brings the end nearer: no run is longer than \<open>fan_left\<close> of
  its start, six steps for each job and three more. With two workers, or in deque mode, or with
  no more than \<open>3 * 256\<close> jobs, some step can be taken until the caller has returned, also while the
  caller spins on a full ring and with jobs in mailboxes only their owners read. A lone worker in
  mailbox mode with more jobs bursts them all to its own ring, which nobody empties, and never
  returns. The ring is empty at the start, no thread but the workers takes part, and every closure ends.
\<close>

theorem fan_out_always_returns:
  assumes "0 < m" "m < 2 ^ 64" "index < n_workers"
    and run: "(fan_step mode n_workers index own)\<^sup>*\<^sup>* (fan_out_start n_workers closures m) s"
  shows "(\<forall>s'. fan_step mode n_workers index own s s' \<longrightarrow> fan_left s' < fan_left s)
    \<and> fan_left (fan_out_start n_workers closures m) = 6 * m + 3
    \<and> (if 2 \<le> n_workers \<or> mode = Deque_mode \<or> m \<le> JOBS_PER_SLOT * DEQUE_RING_CAPACITY
       then fo_parent s \<noteq> Fan_done \<longrightarrow> (\<exists>s'. fan_step mode n_workers index own s s')
       else fo_parent s \<noteq> Fan_done)"
proof -
  have "sum_list (map f (replicate n_workers x)) = n_workers * f x" for f :: "'x \<Rightarrow> nat" and x
    by (induction n_workers) auto
  then have left: "fan_left (fan_out_start n_workers closures m) = 6 * m + 3"
    by (simp add: fan_left_def fan_out_start_def parent_left_def worker_left_def)
  have "\<exists>s'. fan_step mode n_workers index own s s'"
    if "2 \<le> n_workers \<or> mode = Deque_mode \<or> m \<le> JOBS_PER_SLOT * DEQUE_RING_CAPACITY" "fo_parent s \<noteq> Fan_done"
    using fan_progress [OF fan_run_ok [OF run fan_ok_start [OF assms(1,2)]] assms(3) ring_ok_run [OF run ring_ok_start] _ that(2)]
      that(1) by (simp add: ring_suffices_def)
  moreover have "fo_parent s \<noteq> Fan_done"
    if "\<not> (2 \<le> n_workers \<or> mode = Deque_mode \<or> m \<le> JOBS_PER_SLOT * DEQUE_RING_CAPACITY)"
  proof -
    have "n_workers = 1" "index = 0" "mode = Mailbox_mode" "JOBS_PER_SLOT * DEQUE_RING_CAPACITY < m"
      using that assms(3) by (cases mode; simp)+
    then have "lone_pushing m s" using lone_run [OF _ lone_start] run by simp
    then show ?thesis by (auto simp: lone_pushing_def)
  qed
  ultimately show ?thesis using left fan_step_left [of mode n_workers index own s] by auto
qed

theorem fan_out_always_returns_witness:
  "(\<exists>s'. fan_step Deque_mode 2 0 (Inl 9) (fan_out_start 2 (\<lambda>j. Inl j :: nat + bool) 2) s' \<and> fan_left s' < 15)
    \<and> (\<nexists>s. (fan_step Mailbox_mode 1 0 (Inl 9))\<^sup>*\<^sup>* (fan_out_start 1 (\<lambda>j. Inl j :: nat + bool) 800) s
        \<and> fo_parent s = Fan_done)"
proof (intro conjI)
  show "\<exists>s'. fan_step Deque_mode 2 0 (Inl 9) (fan_out_start 2 (\<lambda>j. Inl j :: nat + bool) 2) s' \<and> fan_left s' < 15"
    using fan_out_always_returns [where m = 2 and index = 0 and n_workers = 2 and mode = Deque_mode and own = "Inl 9"
        and closures = "\<lambda>j. Inl j :: nat + bool" and s = "fan_out_start 2 (\<lambda>j. Inl j) 2"]
    by (auto simp: fan_out_start_def)
  have "fo_parent s \<noteq> Fan_done"
    if "(fan_step Mailbox_mode 1 0 (Inl 9))\<^sup>*\<^sup>* (fan_out_start 1 (\<lambda>j. Inl j :: nat + bool) 800) s" for s
    using fan_out_always_returns [OF _ _ _ that] by (simp add: JOBS_PER_SLOT_def DEQUE_RING_CAPACITY_def)
  then show "\<nexists>s. (fan_step Mailbox_mode 1 0 (Inl 9))\<^sup>*\<^sup>* (fan_out_start 1 (\<lambda>j. Inl j :: nat + bool) 800) s
      \<and> fo_parent s = Fan_done"
    by blast
qed

text \<open>
  The mailbox rotation gives the caller's next neighbour twice its share. Over whole laps of
  the worker count it is the target of two jobs per lap, every other peer of one, the caller of
  none. In mailbox mode (at least 32 jobs per worker) sixteen jobs per worker, which the
  documentation says fit, put 32 on that neighbour; its mailbox holds 16, and the rest go to
  the caller's own deque.
\<close>

lemma mailbox_neighbour_gets_double:
  assumes "2 \<le> n_workers" "index < n_workers" "t < n_workers"
  shows "card {i. i < laps * n_workers \<and> mailbox_target n_workers index i = t} =
      laps * (if t = index then 0 else if t = (index + 1) mod n_workers then 2 else 1)
    \<and> (t = (index + 1) mod n_workers
        \<longrightarrow> MAILBOX_CAPACITY < card {i. i < 16 * n_workers \<and> mailbox_target n_workers index i = t})"
proof (intro conjI impI)
  assume t: "t = (index + 1) mod n_workers"
  have "t \<noteq> index" using assms t by (simp add: mod_if)
  then show "MAILBOX_CAPACITY < card {i. i < 16 * n_workers \<and> mailbox_target n_workers index i = t}"
    unfolding mailbox_target_laps [OF assms, of 16] using t by (simp add: MAILBOX_CAPACITY_def)
qed (rule mailbox_target_laps [OF assms])

text \<open>
  C19: The tree runs the closures in the caller's order, and its depth is the logarithm of their
  number. On an odd number the right half is the larger: five closures give
  \<open>((c0, c1), (c2, (c3, c4)))\<close>, not the \<open>((c0, c1), ((c2, c3), c4))\<close> of the documentation.
\<close>

theorem tree_keeps_caller_order:
  "tree_results run (cooperative_join_n_tree cs) = map run cs
    \<and> (length cs \<le> 2 ^ k \<longrightarrow> tree_depth (cooperative_join_n_tree cs) \<le> k)
    \<and> cooperative_join_n_tree [c0, c1, c2, c3, c4] =
        Join_two (Join_two (Join_one c0) (Join_one c1))
          (Join_two (Join_one c2) (Join_two (Join_one c3) (Join_one c4)))"
proof (intro conjI impI)
  show "cooperative_join_n_tree [c0, c1, c2, c3, c4] =
        Join_two (Join_two (Join_one c0) (Join_one c1))
          (Join_two (Join_one c2) (Join_two (Join_one c3) (Join_one c4)))"
    by (simp add: tree_join tree_one)
qed (rule tree_results_map, rule tree_depth_log)

theorem tree_keeps_caller_order_witness:
  "tree_depth (cooperative_join_n_tree [1, 2, 3, 4 :: nat]) \<le> 2"
  using tree_keeps_caller_order [of id "[1, 2, 3, 4 :: nat]" 2 0 1 2 3 "4 :: nat"] by auto

text \<open>
  C13: A mailbox fan-out hangs when a target of it is a gated SMT sibling. The rotation runs over
  all workers of the arena, the siblings included, but a sibling drains its mailbox only while SMT
  is requested, and nobody else reads a mailbox. If closure \<open>i\<close> is aimed at a worker \<open>g\<close> that takes
  no job, then in no run does the caller return, whatever the other threads do.
\<close>

theorem gated_sibling_hangs_fan_out:
  assumes "0 < m" "m < 2 ^ 64" "i < m" "mailbox_target n_workers index i = g" "g \<noteq> index" "g < n_workers"
    and "(gated_step g Mailbox_mode n_workers index own)\<^sup>*\<^sup>* (fan_out_start n_workers closures m) s"
  shows "fo_parent s \<noteq> Fan_done"
proof
  assume fin: "fo_parent s = Fan_done"
  have kept: "mail_kept g i s" and ok: "fan_ok n_workers index closures own m s"
    using gated_run_keeps [OF assms(7) _ fan_ok_start [OF assms(1,2)] assms(4,5,6,3)]
    by (simp_all add: mail_kept_def fan_out_start_def)
  have "latch_count (fo_latch s) = 0" using ok fin by (auto simp: fan_ok_def parent_ok_def latch_ok_def)
  from fan_empty(2) [OF fan_drained(3) [OF ok this], of g] have "fo_mail s ! g = []"
    using ok assms(6) by (simp add: fan_ok_def)
  then show False using kept fin by (simp add: mail_kept_def)
qed

theorem gated_sibling_hangs_fan_out_witness:
  "\<exists>s. (gated_step 1 Mailbox_mode 2 0 (Inl 9))\<^sup>*\<^sup>* (fan_out_start 2 (\<lambda>j. Inl j :: nat + bool) 1) s
    \<and> fo_parent s = Fan_wait \<and> (\<forall>s'. (gated_step 1 Mailbox_mode 2 0 (Inl 9))\<^sup>*\<^sup>* s s' \<longrightarrow> fo_parent s' \<noteq> Fan_done)"
proof -
  let ?step = "gated_step 1 Mailbox_mode 2 0 (Inl 9)" and ?s0 = "fan_out_start 2 (\<lambda>j. Inl j :: nat + bool) 1"
  let ?s1 = "(fan_push Mailbox_mode 2 0 False 0 ?s0)\<lparr>fo_parent := Fan_push (Suc 0)\<rparr>"
  let ?s2 = "?s1\<lparr>fo_parent := Fan_last\<rparr>"
  let ?s3 = "?s2\<lparr>fo_last := job_capture (\<lambda>_. Inl 9) False, fo_parent := Fan_wait\<rparr>"
  note defs = fan_out_start_def worker_idle_def fan_push_def mailbox_target_def push_to_mailbox_def MAILBOX_CAPACITY_def
    flush_due_def JOBS_PER_SLOT_def
  have st1: "?step ?s0 ?s1" unfolding gated_step_def
    by (intro conjI fan_step.push) (simp_all add: defs)
  have st2: "?step ?s1 ?s2" unfolding gated_step_def
    by (intro conjI fan_step.pushed [where i = 1]) (simp_all add: defs)
  have st3: "?step ?s2 ?s3" unfolding gated_step_def
    by (intro conjI fan_step.run_last) (simp_all add: defs)
  have run: "?step\<^sup>*\<^sup>* ?s0 ?s3"
    by (rule converse_rtranclp_into_rtranclp [of ?step, OF st1 converse_rtranclp_into_rtranclp [of ?step, OF st2 r_into_rtranclp [of ?step, OF st3]]])
  have "fo_parent s' \<noteq> Fan_done" if "?step\<^sup>*\<^sup>* ?s3 s'" for s'
    using gated_sibling_hangs_fan_out [of 1 0 2 0 1 "Inl 9" "\<lambda>j. Inl j :: nat + bool" s'] rtranclp_trans [OF run that]
    by (simp add: mailbox_target_def)
  then show ?thesis using run by (intro exI [of _ ?s3]) simp
qed

end
