(* ===== verification/Adaptive_Worker.thy ===== *)
theory Adaptive_Worker
  imports Khl Routing
begin

text \<open>
  The worker handles over the two line deques (\<open>sched/khl_worker.rs\<close>, \<open>sched/fcl_worker.rs\<close>),
  which hand out one job at a time and keep the rest of a line in a stash, and the worker that
  carries both and switches between them (\<open>sched/adaptive_worker.rs\<close>), one operation at a
  time. The result \<open>None\<close> of a pop or a steal is the unpacking of a null slot, which the laws
  show never happens.
\<close>

section \<open>The stash\<close>

record 'j line_stash =
  st_n :: nat
  st_k_outer :: u8
  st_numa_hint :: u8
  st_variant :: u8
  st_items :: "'j option list"

definition stash_empty :: "'j line_stash" where
  "stash_empty = \<lparr>st_n = 0, st_k_outer = 0, st_numa_hint = 0, st_variant = 0, st_items = [None, None]\<rparr>"

definition stash_is_empty :: "'j line_stash \<Rightarrow> bool" where
  "stash_is_empty st \<longleftrightarrow> st_n st = 0"

definition drain_one :: "'j line_stash \<Rightarrow> 'j job_ref steal option \<times> 'j line_stash" where
  "drain_one st =
     (if st_n st = 0 then (Some Empty, st)
      else let n = st_n st - 1
           in (map_option (\<lambda>x. Success (to_jobref x (st_k_outer st) (st_numa_hint st) (st_variant st)))
                 (st_items st ! n), st\<lparr>st_n := n\<rparr>))"

text \<open>The first job of a line is returned, the others replace the contents of the stash.\<close>

definition stash_extras :: "'j line \<Rightarrow> 'j line_stash \<Rightarrow> 'j job_ref steal option \<times> 'j line_stash" where
  "stash_extras l st =
     (let n = ln_n_items l
      in if n = 0 then (Some Empty, st)
         else (map_option (\<lambda>x. Success (to_jobref x (ln_k_outer l) (ln_numa_hint l) (ln_variant l)))
                 (ln_items l ! 0),
               \<lparr>st_n = n - 1, st_k_outer = ln_k_outer l, st_numa_hint = ln_numa_hint l, st_variant = ln_variant l,
                st_items = take (n - 1) (drop 1 (ln_items l)) @ drop (n - 1) (st_items st)\<rparr>))"

section \<open>A worker over one deque of lines\<close>

record ('d, 'j) line_worker =
  lw_deque :: "('d, 'j) line_deque"
  lw_stash :: "'j line_stash"

type_synonym ('d, 'j) put_line = "'d \<Rightarrow> 'j line \<Rightarrow> ('j line + unit) \<times> 'd"
type_synonym ('d, 'j) take_line = "'d \<Rightarrow> 'j line steal option \<times> 'd"

definition on_deque :: "('d, 'j) line_worker \<Rightarrow> ('d, 'j) line_deque option \<Rightarrow> ('d, 'j) line_worker option" where
  "on_deque w q = map_option (\<lambda>q. w\<lparr>lw_deque := q\<rparr>) q"

definition khl_worker_push ::
  "('d, 'j) put_line \<Rightarrow> 'j job_ref \<Rightarrow> ('d, 'j) line_worker \<Rightarrow> ('d, 'j) line_worker option" where
  "khl_worker_push put j w = on_deque w (line_push_one put j (lw_deque w))"

definition fcl_worker_push ::
  "('d, 'j) put_line \<Rightarrow> 'j job_ref \<Rightarrow> ('d, 'j) line_worker \<Rightarrow> ('d, 'j) line_worker option" where
  "fcl_worker_push put j w =
     on_deque w (case line_push put j (lw_deque w) of None \<Rightarrow> None | Some q \<Rightarrow> line_flush put q)"

definition worker_try_push ::
  "('d, 'j) put_line \<Rightarrow> 'j job_ref \<Rightarrow> ('d, 'j) line_worker
    \<Rightarrow> ('j job_ref option + unit) \<times> ('d, 'j) line_worker" where
  "worker_try_push put j w =
     (let (r, q) = line_try_push_one put j (lw_deque w) in (r, w\<lparr>lw_deque := q\<rparr>))"

definition worker_push_burst ::
  "('d, 'j) put_line \<Rightarrow> 'j job_ref \<Rightarrow> ('d, 'j) line_worker \<Rightarrow> ('d, 'j) line_worker option" where
  "worker_push_burst put j w = on_deque w (line_push put j (lw_deque w))"

definition worker_flush :: "('d, 'j) put_line \<Rightarrow> ('d, 'j) line_worker \<Rightarrow> ('d, 'j) line_worker option" where
  "worker_flush put w = on_deque w (line_flush put (lw_deque w))"

text \<open>A line, or nothing, taken through a stash.\<close>

definition through_stash :: "'j line steal option \<Rightarrow> 'j line_stash \<Rightarrow> 'j job_ref steal option \<times> 'j line_stash" where
  "through_stash r st =
     (case r of
        Some (Success l) \<Rightarrow> stash_extras l st
      | Some Empty \<Rightarrow> (Some Empty, st)
      | Some Retry \<Rightarrow> (Some Retry, st)
      | None \<Rightarrow> (None, st))"

definition worker_pop ::
  "('d, 'j) take_line \<Rightarrow> ('d, 'j) line_worker \<Rightarrow> 'j job_ref steal option \<times> ('d, 'j) line_worker" where
  "worker_pop newest w =
     (case drain_one (lw_stash w) of
        (Some Empty, _) \<Rightarrow>
          let (r, q) = line_pop newest (lw_deque w);
              (a, st) = through_stash r (lw_stash w)
          in (a, \<lparr>lw_deque = q, lw_stash = st\<rparr>)
      | (a, st) \<Rightarrow> (a, w\<lparr>lw_stash := st\<rparr>))"

text \<open>A thief's steal fills the thief's stash, which it has drained before.\<close>

definition worker_steal ::
  "('d, 'j) take_line \<Rightarrow> ('d, 'j) line_worker \<Rightarrow> 'j line_stash
    \<Rightarrow> 'j job_ref steal option \<times> ('d, 'j) line_worker \<times> 'j line_stash" where
  "worker_steal oldest w st =
     (let (r, q) = line_steal oldest (lw_deque w);
          (a, st) = through_stash r st
      in (a, w\<lparr>lw_deque := q\<rparr>, st))"

definition khl_worker_new :: "nat \<Rightarrow> ('j line khl_header, 'j) line_worker" where
  "khl_worker_new cap = \<lparr>lw_deque = khl_deque_new cap, lw_stash = stash_empty\<rparr>"

definition fcl_worker_new :: "nat \<Rightarrow> ('j line header, 'j) line_worker" where
  "fcl_worker_new cap = \<lparr>lw_deque = fcl_new cap, lw_stash = stash_empty\<rparr>"

text \<open>
  What a worker says of itself. The line worker over Chase-Lev does not look past its stash and
  reports no pending jobs.
\<close>

definition khl_worker_is_empty :: "('j line khl_header, 'j) line_worker \<Rightarrow> bool" where
  "khl_worker_is_empty w \<longleftrightarrow> stash_is_empty (lw_stash w)
     \<and> ln_n_items (ld_acc (lw_deque w)) = 0 \<and> khl_is_inner_empty (ld_inner (lw_deque w))"

definition fcl_worker_is_empty :: "('j line header, 'j) line_worker \<Rightarrow> bool" where
  "fcl_worker_is_empty w \<longleftrightarrow> stash_is_empty (lw_stash w)"

definition khl_pending_items :: "('j line khl_header, 'j) line_worker \<Rightarrow> nat" where
  "khl_pending_items w = ln_n_items (ld_acc (lw_deque w))"

definition fcl_pending_items :: "('j line header, 'j) line_worker \<Rightarrow> nat" where
  "fcl_pending_items w = 0"

section \<open>Both deques\<close>

definition ACTIVE_KHL :: u32 where "ACTIVE_KHL = 0"
definition ACTIVE_FCL :: u32 where "ACTIVE_FCL = 1"

record 'j adaptive_worker =
  ad_active :: u32
  ad_khl :: "('j line khl_header, 'j) line_worker"
  ad_fcl :: "('j line header, 'j) line_worker"
  ad_dirty :: bool

text \<open>\<open>gating\<close> is what \<open>resolved\<close> returned.\<close>

definition gating_tag :: "k_gating \<Rightarrow> u32" where
  "gating_tag gating = (if gating = CounterOnly then ACTIVE_FCL else ACTIVE_KHL)"

definition new_adaptive :: "nat \<Rightarrow> k_gating \<Rightarrow> 'j adaptive_worker" where
  "new_adaptive cap gating =
     \<lparr>ad_active = gating_tag gating, ad_khl = khl_worker_new cap, ad_fcl = fcl_worker_new cap, ad_dirty = False\<rparr>"

definition in_khl :: "'j adaptive_worker \<Rightarrow> ('j line khl_header, 'j) line_worker option \<Rightarrow> 'j adaptive_worker option" where
  "in_khl a w = map_option (\<lambda>w. a\<lparr>ad_khl := w\<rparr>) w"

definition in_fcl :: "'j adaptive_worker \<Rightarrow> ('j line header, 'j) line_worker option \<Rightarrow> 'j adaptive_worker option" where
  "in_fcl a w = map_option (\<lambda>w. a\<lparr>ad_fcl := w\<rparr>) w"

definition ad_push :: "'j job_ref \<Rightarrow> 'j adaptive_worker \<Rightarrow> 'j adaptive_worker option" where
  "ad_push j a =
     (if ad_active a = ACTIVE_KHL then in_khl a (khl_worker_push khl_try_publish j (ad_khl a))
      else in_fcl a (fcl_worker_push cl_push j (ad_fcl a)))"

definition ad_try_push :: "'j job_ref \<Rightarrow> 'j adaptive_worker \<Rightarrow> ('j job_ref option + unit) \<times> 'j adaptive_worker" where
  "ad_try_push j a =
     (if ad_active a = ACTIVE_KHL
      then let (r, w) = worker_try_push khl_try_publish j (ad_khl a) in (r, a\<lparr>ad_khl := w\<rparr>)
      else let (r, w) = worker_try_push cl_push j (ad_fcl a) in (r, a\<lparr>ad_fcl := w\<rparr>))"

definition ad_push_burst :: "'j job_ref \<Rightarrow> 'j adaptive_worker \<Rightarrow> 'j adaptive_worker option" where
  "ad_push_burst j a =
     (if ad_active a = ACTIVE_KHL then in_khl a (worker_push_burst khl_try_publish j (ad_khl a))
      else in_fcl a (worker_push_burst cl_push j (ad_fcl a)))"

definition ad_flush :: "'j adaptive_worker \<Rightarrow> 'j adaptive_worker option" where
  "ad_flush a =
     (if ad_active a = ACTIVE_KHL then in_khl a (worker_flush khl_try_publish (ad_khl a))
      else in_fcl a (worker_flush cl_push (ad_fcl a)))"

definition pop_khl :: "'j adaptive_worker \<Rightarrow> 'j job_ref steal option \<times> 'j adaptive_worker" where
  "pop_khl a = (let (r, w) = worker_pop khl_pop_newest (ad_khl a) in (r, a\<lparr>ad_khl := w\<rparr>))"

definition pop_fcl :: "'j adaptive_worker \<Rightarrow> 'j job_ref steal option \<times> 'j adaptive_worker" where
  "pop_fcl a = (let (r, w) = worker_pop cl_pop (ad_fcl a) in (r, a\<lparr>ad_fcl := w\<rparr>))"

text \<open>
  The active deque first, then the other one while the flag says it may hold jobs; a fallback
  that finds nothing clears the flag. A pop has no third answer: a retry is nothing.
\<close>

definition no_job :: "'a steal option \<Rightarrow> bool" where
  "no_job r \<longleftrightarrow> r = Some Empty \<or> r = Some Retry"

definition ad_pop :: "'j adaptive_worker \<Rightarrow> 'j job_ref steal option \<times> 'j adaptive_worker" where
  "ad_pop a =
     (let active = ad_active a;
          (primary, a1) = (if active = ACTIVE_KHL then pop_khl a else pop_fcl a)
      in if \<not> no_job primary then (primary, a1)
         else if \<not> ad_dirty a1 then (Some Empty, a1)
         else let (fallback, a2) = (if active = ACTIVE_KHL then pop_fcl a1 else pop_khl a1)
              in if no_job fallback then (Some Empty, a2\<lparr>ad_dirty := False\<rparr>) else (fallback, a2))"

definition ad_migrate :: "k_gating \<Rightarrow> 'j adaptive_worker \<Rightarrow> 'j adaptive_worker option" where
  "ad_migrate gating a =
     (let target = gating_tag gating; current = ad_active a
      in map_option (\<lambda>a. a\<lparr>ad_dirty := ad_dirty a \<or> current \<noteq> target, ad_active := target\<rparr>) (ad_flush a))"

definition ad_is_empty :: "'j adaptive_worker \<Rightarrow> bool" where
  "ad_is_empty a \<longleftrightarrow> khl_worker_is_empty (ad_khl a) \<and> fcl_worker_is_empty (ad_fcl a)"

definition ad_pending_items :: "'j adaptive_worker \<Rightarrow> nat" where
  "ad_pending_items a = (if ad_active a = ACTIVE_KHL then khl_pending_items (ad_khl a) else fcl_pending_items (ad_fcl a))"

definition active_gating :: "'j adaptive_worker \<Rightarrow> k_gating" where
  "active_gating a = (if ad_active a = ACTIVE_KHL then PerSlot else CounterOnly)"

type_synonym 'j adaptive_stash = "'j line_stash \<times> 'j line_stash"

definition adaptive_drain_one :: "'j adaptive_stash \<Rightarrow> 'j job_ref steal option \<times> 'j adaptive_stash" where
  "adaptive_drain_one st =
     (case drain_one (fst st) of
        (Some Empty, _) \<Rightarrow> let (r, f) = drain_one (snd st) in (r, fst st, f)
      | (r, k) \<Rightarrow> (r, k, snd st))"

definition steal_khl ::
  "'j adaptive_worker \<Rightarrow> 'j adaptive_stash \<Rightarrow> 'j job_ref steal option \<times> 'j adaptive_worker \<times> 'j adaptive_stash" where
  "steal_khl a st = (let (r, w, k) = worker_steal khl_steal (ad_khl a) (fst st) in (r, a\<lparr>ad_khl := w\<rparr>, k, snd st))"

definition steal_fcl ::
  "'j adaptive_worker \<Rightarrow> 'j adaptive_stash \<Rightarrow> 'j job_ref steal option \<times> 'j adaptive_worker \<times> 'j adaptive_stash" where
  "steal_fcl a st = (let (r, w, f) = worker_steal cl_steal (ad_fcl a) (snd st) in (r, a\<lparr>ad_fcl := w\<rparr>, fst st, f))"

definition steal_via_stash ::
  "'j adaptive_worker \<Rightarrow> 'j adaptive_stash \<Rightarrow> 'j job_ref steal option \<times> 'j adaptive_worker \<times> 'j adaptive_stash" where
  "steal_via_stash a st =
     (let active = ad_active a;
          (primary, a1, st1) = (if active = ACTIVE_KHL then steal_khl a st else steal_fcl a st)
      in if primary \<noteq> Some Empty then (primary, a1, st1)
         else if \<not> ad_dirty a1 then (Some Empty, a1, st1)
         else let (fallback, a2, st2) = (if active = ACTIVE_KHL then steal_fcl a1 st1 else steal_khl a1 st1)
              in if fallback = Some Empty then (Some Empty, a2\<lparr>ad_dirty := False\<rparr>, st2)
                 else (fallback, a2, st2))"

text \<open>
  The migration of a whole arena (\<open>LocalArena::migrate_all_workers_k_gating\<close>): a store to the
  tag of every worker and tier, without a flush and without the flag.
\<close>

definition migrate_all_workers_k_gating ::
  "k_gating \<Rightarrow> 'j adaptive_worker list list \<Rightarrow> 'j adaptive_worker list list" where
  "migrate_all_workers_k_gating gating = map (map (\<lambda>a. a\<lparr>ad_active := gating_tag gating\<rparr>))"

section \<open>The owner's operations and a thief's\<close>

text \<open>A thief drains its stash before it steals, as the search for work does.\<close>

datatype 'j adaptive_op =
    Ad_push "'j job_ref"
  | Ad_try_push "'j job_ref"
  | Ad_push_burst "'j job_ref"
  | Ad_flush
  | Ad_pop
  | Ad_migrate k_gating
  | Ad_steal

datatype 'j adaptive_answer =
  Ad_ok | Ad_spins | Ad_refused | Ad_took "'j job_ref" | Ad_nothing | Ad_broken

type_synonym 'j adaptive_pair = "'j adaptive_worker \<times> 'j adaptive_stash"

definition done_or_spins :: "'j adaptive_worker option \<Rightarrow> 'j adaptive_pair \<Rightarrow> 'j adaptive_answer \<times> 'j adaptive_pair" where
  "done_or_spins r s = (case r of Some a \<Rightarrow> (Ad_ok, a, snd s) | None \<Rightarrow> (Ad_spins, s))"

definition taken :: "'j job_ref steal option \<Rightarrow> 'j adaptive_answer" where
  "taken r = (case r of None \<Rightarrow> Ad_broken | Some (Success j) \<Rightarrow> Ad_took j | _ \<Rightarrow> Ad_nothing)"

definition thief_takes :: "'j adaptive_pair \<Rightarrow> 'j job_ref steal option \<times> 'j adaptive_pair" where
  "thief_takes s =
     (case adaptive_drain_one (snd s) of
        (Some Empty, _) \<Rightarrow> steal_via_stash (fst s) (snd s)
      | (r, st) \<Rightarrow> (r, fst s, st))"

fun adaptive_apply :: "'j adaptive_op \<Rightarrow> 'j adaptive_pair \<Rightarrow> 'j adaptive_answer \<times> 'j adaptive_pair" where
  "adaptive_apply (Ad_push j) s = done_or_spins (ad_push j (fst s)) s"
| "adaptive_apply (Ad_try_push j) s =
     (let (r, a) = ad_try_push j (fst s)
      in (case r of Inr u \<Rightarrow> Ad_ok | Inl (Some j') \<Rightarrow> Ad_refused | Inl None \<Rightarrow> Ad_broken, a, snd s))"
| "adaptive_apply (Ad_push_burst j) s = done_or_spins (ad_push_burst j (fst s)) s"
| "adaptive_apply Ad_flush s = done_or_spins (ad_flush (fst s)) s"
| "adaptive_apply Ad_pop s = (let (r, a) = ad_pop (fst s) in (taken r, a, snd s))"
| "adaptive_apply (Ad_migrate g) s = done_or_spins (ad_migrate g (fst s)) s"
| "adaptive_apply Ad_steal s = (let (r, s') = thief_takes s in (taken r, s'))"

end
