(* ===== verification/Adaptive_Laws.thy ===== *)
theory Adaptive_Laws
  imports Adaptive_Worker "HOL-Library.Multiset"
begin

text \<open>
  The jobs a worker holds, as a multiset over its stash, its published lines and the line
  under construction; what each operation of a worker does to them, over any deque that is
  a line sink; and the invariant of the worker that carries two.
\<close>

section \<open>Groups and stashes\<close>

definition group_bag :: "'j groups \<Rightarrow> 'j multiset" where
  "group_bag gs = mset (concat (fst gs)) + mset (snd gs)"

definition no_empty_group :: "'j groups \<Rightarrow> bool" where
  "no_empty_group gs \<longleftrightarrow> [] \<notin> set (fst gs)"

lemma publish_bag:
  assumes "groups_publish cap g gs = Some gs'" "g \<noteq> []" "no_empty_group gs"
  shows "no_empty_group gs'" "group_bag gs' = group_bag gs + mset g"
  using assms by (auto simp: groups_publish_def no_empty_group_def group_bag_def split: if_splits)

lemma push_bag:
  assumes "groups_push cap x gs = Some gs'" "no_empty_group gs"
  shows "no_empty_group gs' \<and> group_bag gs' = add_mset x (group_bag gs)"
  using assms by (auto simp: groups_push_def groups_publish_def no_empty_group_def group_bag_def split: if_splits)

lemma flush_bag:
  assumes "groups_flush cap gs = Some gs'" "no_empty_group gs"
  shows "no_empty_group gs' \<and> group_bag gs' = group_bag gs \<and> snd gs' = []"
  using assms by (auto simp: groups_flush_def groups_publish_def no_empty_group_def group_bag_def split: if_splits)

definition stash_ok :: "'j line_stash \<Rightarrow> bool" where
  "stash_ok st \<longleftrightarrow> length (st_items st) = 2 \<and> st_n st \<le> 2 \<and> None \<notin> set (take (st_n st) (st_items st))"

definition stash_bag :: "'j line_stash \<Rightarrow> 'j multiset" where
  "stash_bag st = mset (map the (take (st_n st) (st_items st)))"

lemma stash_empty_ok [simp]: "stash_ok stash_empty" "stash_bag stash_empty = {#}"
  by (simp_all add: stash_ok_def stash_bag_def stash_empty_def)

lemma stash_bag_empty: "stash_ok st \<Longrightarrow> stash_bag st = {#} \<longleftrightarrow> st_n st = 0"
  by (auto simp: stash_ok_def stash_bag_def)

text \<open>What the answer to a pop or a steal hands out.\<close>

definition answer_bag :: "'j job_ref steal option \<Rightarrow> 'j multiset" where
  "answer_bag r = (case r of Some (Success j) \<Rightarrow> {#job_body j#} | _ \<Rightarrow> {#})"

lemma answer_bag_simps [simp]:
  "answer_bag (Some (Success j)) = {#job_body j#}" "answer_bag (Some Empty) = {#}" "answer_bag (Some Retry) = {#}"
  by (simp_all add: answer_bag_def)

lemma drain_some:
  assumes "stash_ok st" "st_n st \<noteq> 0"
  obtains j st' where "drain_one st = (Some (Success j), st')" "stash_ok st'"
    "stash_bag st = add_mset (job_body j) (stash_bag st')"
proof -
  obtain n where n: "st_n st = Suc n" using assms(2) not0_implies_Suc by blast
  have len: "n < length (st_items st)" using assms n by (simp add: stash_ok_def)
  have tk: "take (Suc n) (st_items st) = take n (st_items st) @ [st_items st ! n]"
    using len by (simp add: take_Suc_conv_app_nth)
  obtain x where x: "st_items st ! n = Some x"
    using assms n tk by (cases "st_items st ! n") (auto simp: stash_ok_def)
  show thesis
  proof (rule that)
    show "drain_one st = (Some (Success (to_jobref x (st_k_outer st) (st_numa_hint st) (st_variant st))), st\<lparr>st_n := n\<rparr>)"
      using x n by (simp add: drain_one_def)
    show "stash_ok (st\<lparr>st_n := n\<rparr>)" using assms n tk by (auto simp: stash_ok_def)
    show "stash_bag st = add_mset (job_body (to_jobref x (st_k_outer st) (st_numa_hint st) (st_variant st)))
        (stash_bag (st\<lparr>st_n := n\<rparr>))"
      using x n tk by (simp add: stash_bag_def to_jobref_def)
  qed
qed

lemma drain_none: "st_n st = 0 \<Longrightarrow> drain_one st = (Some Empty, st)"
  by (simp add: drain_one_def)

lemma stash_extras_some:
  assumes "line_ok l" "ln_n_items l \<noteq> 0" "length (st_items st) = 2"
  obtains j st' where "stash_extras l st = (Some (Success j), st')" "stash_ok st'"
    "mset (line_jobs l) = add_mset (job_body j) (stash_bag st')"
proof -
  obtain a b c where abc: "ln_items l = [a, b, c]"
    using assms(1) by (auto simp: line_ok_def numeral_3_eq_3 length_Suc_conv)
  obtain d e where de: "st_items st = [d, e]"
    using assms(3) by (auto simp: numeral_2_eq_2 length_Suc_conv)
  have n: "ln_n_items l = 1 \<or> ln_n_items l = 2 \<or> ln_n_items l = 3"
    using assms(1,2) by (auto simp: line_ok_def)
  obtain x where x: "a = Some x"
    using assms(1) n abc by (cases a) (auto simp: line_ok_def)
  show thesis
  proof (rule that)
    show "stash_extras l st = (Some (Success (to_jobref x (ln_k_outer l) (ln_numa_hint l) (ln_variant l))),
        snd (stash_extras l st))"
      using assms(2) abc x by (simp add: stash_extras_def Let_def)
    show "stash_ok (snd (stash_extras l st))"
      using assms(1) n abc de by (auto simp: stash_extras_def stash_ok_def line_ok_def)
    show "mset (line_jobs l) = add_mset (job_body (to_jobref x (ln_k_outer l) (ln_numa_hint l) (ln_variant l)))
        (stash_bag (snd (stash_extras l st)))"
      using n abc de x by (auto simp: stash_extras_def stash_bag_def line_jobs_def to_jobref_def)
  qed
qed

section \<open>One worker over any line sink\<close>

context line_sink begin

definition worker_ok :: "('d, 'j) line_worker \<Rightarrow> bool" where
  "worker_ok w \<longleftrightarrow> sink_ok (lw_deque w) \<and> no_empty_group (sink_view (lw_deque w)) \<and> stash_ok (lw_stash w)"

definition worker_bag :: "('d, 'j) line_worker \<Rightarrow> 'j multiset" where
  "worker_bag w = stash_bag (lw_stash w) + group_bag (sink_view (lw_deque w))"

text \<open>A worker that is not in use: nothing under construction, and no lines unless the flag is set.\<close>

definition idle_ok :: "bool \<Rightarrow> bool \<Rightarrow> ('d, 'j) line_worker \<Rightarrow> bool" where
  "idle_ok thief dirty w \<longleftrightarrow> worker_ok w \<and> snd (sink_view (lw_deque w)) = []
     \<and> (dirty \<or> fst (sink_view (lw_deque w)) = [] \<and> (thief \<or> st_n (lw_stash w) = 0))"

lemma on_deque_bag:
  assumes "op_sim (lw_deque w) r g" "on_deque w r = Some w'" "worker_ok w"
    "\<And>gs'. g = Some gs' \<Longrightarrow> no_empty_group gs' \<and> group_bag gs' = group_bag (sink_view (lw_deque w)) + b"
  shows "worker_ok w' \<and> worker_bag w' = worker_bag w + b"
proof -
  obtain q where q: "r = Some q" "w' = w\<lparr>lw_deque := q\<rparr>" using assms(2) by (auto simp: on_deque_def)
  then have "sink_ok q" "g = Some (sink_view q)" using assms(1) by (simp_all add: op_sim_def)
  with assms(3) assms(4) [of "sink_view q"] q(2) show ?thesis by (simp add: worker_ok_def worker_bag_def)
qed

lemma burst_bag:
  assumes "worker_ok w" "worker_push_burst push j w = Some w'"
  shows "worker_ok w' \<and> worker_bag w' = worker_bag w + {#job_body j#}"
proof (rule on_deque_bag [OF push_op])
  show "sink_ok (lw_deque w)" using assms(1) by (simp add: worker_ok_def)
  show "on_deque w (line_push push j (lw_deque w)) = Some w'" using assms(2) by (simp add: worker_push_burst_def)
  show "no_empty_group gs' \<and> group_bag gs' = group_bag (sink_view (lw_deque w)) + {#job_body j#}"
    if "groups_push (cap (ld_inner (lw_deque w))) (job_body j) (sink_view (lw_deque w)) = Some gs'" for gs'
    using push_bag [OF that] assms(1) by (simp add: worker_ok_def)
qed (rule assms(1))

lemma worker_flush_bag:
  assumes "worker_ok w" "worker_flush push w = Some w'"
  shows "worker_ok w' \<and> worker_bag w' = worker_bag w + {#} \<and> snd (sink_view (lw_deque w')) = []"
proof (rule conjI [OF _ conjI])
  obtain q where q: "line_flush push (lw_deque w) = Some q" "w' = w\<lparr>lw_deque := q\<rparr>"
    using assms(2) by (auto simp: worker_flush_def on_deque_def)
  have ok: "sink_ok (lw_deque w)" "no_empty_group (sink_view (lw_deque w))" using assms(1) by (simp_all add: worker_ok_def)
  have g: "sink_ok q" "groups_flush (cap (ld_inner (lw_deque w))) (sink_view (lw_deque w)) = Some (sink_view q)"
    using flush_op [OF ok(1)] q(1) by (simp_all add: op_sim_def)
  note f = flush_bag [OF g(2) ok(2)]
  show "worker_ok w'" "worker_bag w' = worker_bag w + {#}" "snd (sink_view (lw_deque w')) = []"
    using f g q(2) assms(1) by (simp_all add: worker_ok_def worker_bag_def)
qed

lemma push_one_bag:
  assumes "worker_ok w" "khl_worker_push push j w = Some w'"
  shows "worker_ok w' \<and> worker_bag w' = worker_bag w + {#job_body j#}"
proof (rule on_deque_bag [OF push_one_op])
  show "sink_ok (lw_deque w)" using assms(1) by (simp add: worker_ok_def)
  show "on_deque w (line_push_one push j (lw_deque w)) = Some w'" using assms(2) by (simp add: khl_worker_push_def)
  show "no_empty_group gs' \<and> group_bag gs' = group_bag (sink_view (lw_deque w)) + {#job_body j#}"
    if g: "(if snd (sink_view (lw_deque w)) = []
        then groups_publish (cap (ld_inner (lw_deque w))) [job_body j] (sink_view (lw_deque w))
        else case groups_push (cap (ld_inner (lw_deque w))) (job_body j) (sink_view (lw_deque w)) of
               None \<Rightarrow> None | Some gs \<Rightarrow> groups_flush (cap (ld_inner (lw_deque w))) gs) = Some gs'" for gs'
  proof (cases "snd (sink_view (lw_deque w)) = []")
    case True
    then show ?thesis using g publish_bag [of _ "[job_body j]" "sink_view (lw_deque w)" gs'] assms(1)
      by (simp add: worker_ok_def)
  next
    case False
    then obtain gs where gs: "groups_push (cap (ld_inner (lw_deque w))) (job_body j) (sink_view (lw_deque w)) = Some gs"
        "groups_flush (cap (ld_inner (lw_deque w))) gs = Some gs'"
      using g by (auto split: option.splits)
    show ?thesis using push_bag [OF gs(1)] flush_bag [OF gs(2)] assms(1) by (simp add: worker_ok_def)
  qed
qed (rule assms(1))

lemma fcl_push_bag:
  assumes "worker_ok w" "fcl_worker_push push j w = Some w'"
  shows "worker_ok w' \<and> worker_bag w' = worker_bag w + {#job_body j#}"
proof -
  obtain q where q: "line_push push j (lw_deque w) = Some q" "on_deque w (line_flush push q) = Some w'"
    using assms(2) by (auto simp: fcl_worker_push_def on_deque_def split: option.splits)
  have "worker_push_burst push j w = Some (w\<lparr>lw_deque := q\<rparr>)" by (simp add: worker_push_burst_def on_deque_def q(1))
  from burst_bag [OF assms(1) this]
  have b: "worker_ok (w\<lparr>lw_deque := q\<rparr>)" "worker_bag (w\<lparr>lw_deque := q\<rparr>) = worker_bag w + {#job_body j#}"
    by simp_all
  have "worker_flush push (w\<lparr>lw_deque := q\<rparr>) = Some w'"
    using q(2) by (auto simp: worker_flush_def on_deque_def)
  from worker_flush_bag [OF b(1) this] show ?thesis using b(2) by simp
qed

lemma try_push_bag:
  assumes "worker_ok w" "worker_try_push push j w = (r, w')"
  shows "worker_ok w' \<and> r \<noteq> Inl None
    \<and> worker_bag w' = worker_bag w + (if r = Inr () then {#job_body j#} else {#})"
proof -
  let ?q = "lw_deque w"
  obtain q where q: "line_try_push_one push j ?q = (r, q)" "w' = w\<lparr>lw_deque := q\<rparr>"
    using assms(2) by (auto simp: worker_try_push_def split: prod.splits)
  have ok: "sink_ok ?q" "no_empty_group (sink_view ?q)" using assms(1) by (simp_all add: worker_ok_def)
  note sim = try_push_sim [OF ok(1), of j]
  have ok': "sink_ok q" using sim q(1) by (simp split: sum.splits option.splits)
  have "r \<noteq> Inl None \<and> no_empty_group (sink_view q)
    \<and> group_bag (sink_view q) = group_bag (sink_view ?q) + (if r = Inr () then {#job_body j#} else {#})"
  proof (cases "groups_flush (cap (ld_inner ?q)) (sink_view ?q)")
    case None
    then show ?thesis using sim q(1) ok(2) by (auto split: sum.splits option.splits)
  next
    case (Some gs)
    note f = flush_bag [OF Some ok(2)]
    show ?thesis
    proof (cases "groups_publish (cap (ld_inner ?q)) [job_body j] gs")
      case None
      then show ?thesis using sim q(1) f Some by (auto split: sum.splits option.splits)
    next
      case (Some gs')
      have "no_empty_group gs'" "group_bag gs' = group_bag gs + {#job_body j#}"
        using publish_bag [OF Some] f by simp_all
      then show ?thesis using sim q(1) f Some \<open>groups_flush _ _ = Some gs\<close>
        by (cases r) (auto split: option.splits)
    qed
  qed
  with ok' assms(1) q(2) show ?thesis by (simp add: worker_ok_def worker_bag_def)
qed

lemma sink_taken:
  assumes "sink_ok q" "no_empty_group (sink_view q)" "abs (ld_inner q) = xs @ l # ys"
    "ok d'" "abs d' = xs @ ys"
  shows "sink_ok (q\<lparr>ld_inner := d'\<rparr>)" "no_empty_group (sink_view (q\<lparr>ld_inner := d'\<rparr>))"
    "line_ok l" "ln_n_items l \<noteq> 0"
    "group_bag (sink_view q) = mset (line_jobs l) + group_bag (sink_view (q\<lparr>ld_inner := d'\<rparr>))"
proof -
  show l: "line_ok l" using assms(1,3) by (simp add: sink_ok_def)
  have "line_jobs l \<noteq> []" using assms(2,3) by (auto simp: no_empty_group_def sink_view_def)
  then show "ln_n_items l \<noteq> 0" using line_jobs_Nil [OF l] by simp
qed (use assms in \<open>auto simp: sink_ok_def no_empty_group_def sink_view_def group_bag_def\<close>)

lemma line_pop_bag:
  assumes q: "sink_ok q" "no_empty_group (sink_view q)"
  obtains "line_pop pop q = (Some Empty, q)" "group_bag (sink_view q) = {#}"
  | l q' where "line_pop pop q = (Some (Success l), q')" "sink_ok q'" "no_empty_group (sink_view q')"
      "snd (sink_view q') = []"
      "line_ok l" "ln_n_items l \<noteq> 0" "group_bag (sink_view q) = mset (line_jobs l) + group_bag (sink_view q')"
proof -
  have ok: "ok (ld_inner q)" and acc: "line_ok (ld_acc q)" using q(1) by (simp_all add: sink_ok_def)
  consider "0 < ln_n_items (ld_acc q)" | "ln_n_items (ld_acc q) = 0" "abs (ld_inner q) = []"
    | xs l where "ln_n_items (ld_acc q) = 0" "abs (ld_inner q) = xs @ [l]"
    using rev_exhaust by blast
  then show thesis
  proof cases
    case 1
    show thesis
    proof (rule that(2))
      show "line_pop pop q = (Some (Success (ld_acc q)), q\<lparr>ld_acc := line_empty 0 0 0\<rparr>)"
        using 1 by (simp add: line_pop_def)
      show "sink_ok (q\<lparr>ld_acc := line_empty 0 0 0\<rparr>)" using sink_acc(1) [OF q(1)] by simp
      show "no_empty_group (sink_view (q\<lparr>ld_acc := line_empty 0 0 0\<rparr>))"
        using q(2) by (simp add: sink_view_def no_empty_group_def)
      show "snd (sink_view (q\<lparr>ld_acc := line_empty 0 0 0\<rparr>)) = []" by (simp add: sink_view_def)
      show "group_bag (sink_view q)
          = mset (line_jobs (ld_acc q)) + group_bag (sink_view (q\<lparr>ld_acc := line_empty 0 0 0\<rparr>))"
        by (simp add: group_bag_def sink_view_def)
    qed (use 1 acc in simp_all)
  next
    case 2
    then show thesis using pop_none [OF ok] line_jobs_Nil [OF acc]
      by (intro that(1)) (simp_all add: line_pop_def group_bag_def sink_view_def)
  next
    case 3
    obtain d' where d: "pop (ld_inner q) = (Some (Success l), d')" "ok d'" "abs d' = xs"
      using pop_last [OF ok 3(2)] by blast
    have "line_pop pop q = (Some (Success l), q\<lparr>ld_inner := d'\<rparr>)" using 3 d by (simp add: line_pop_def)
    moreover have "snd (sink_view (q\<lparr>ld_inner := d'\<rparr>)) = []"
      using 3 line_jobs_Nil [OF acc] by (simp add: sink_view_def)
    ultimately show thesis using sink_taken [OF q, of xs l "[]" d'] 3 d by (intro that(2)) simp_all
  qed
qed

lemma line_steal_bag:
  assumes q: "sink_ok q" "no_empty_group (sink_view q)"
  obtains "line_steal steal q = (Some Empty, q)" "fst (sink_view q) = []"
  | l q' where "line_steal steal q = (Some (Success l), q')" "sink_ok q'" "no_empty_group (sink_view q')"
      "snd (sink_view q') = snd (sink_view q)"
      "line_ok l" "ln_n_items l \<noteq> 0" "group_bag (sink_view q) = mset (line_jobs l) + group_bag (sink_view q')"
proof (cases "abs (ld_inner q)")
  case Nil
  then show thesis using steal_none [of "ld_inner q"] q(1)
    by (intro that(1)) (simp_all add: line_steal_def sink_view_def sink_ok_def)
next
  case (Cons l xs)
  obtain d' where d: "steal (ld_inner q) = (Some (Success l), d')" "ok d'" "abs d' = xs"
    using steal_first [OF _ Cons] q(1) unfolding sink_ok_def by blast
  have "line_steal steal q = (Some (Success l), q\<lparr>ld_inner := d'\<rparr>)" using d by (simp add: line_steal_def)
  moreover have "snd (sink_view (q\<lparr>ld_inner := d'\<rparr>)) = snd (sink_view q)" by (simp add: sink_view_def)
  ultimately show thesis using sink_taken [OF q, of "[]" l xs d'] Cons d by (intro that(2)) simp_all
qed

lemma worker_pop_bag:
  assumes "worker_ok w"
  obtains "worker_pop pop w = (Some Empty, w)" "worker_bag w = {#}"
  | j w' where "worker_pop pop w = (Some (Success j), w')" "worker_ok w'"
      "snd (sink_view (lw_deque w)) = [] \<Longrightarrow> snd (sink_view (lw_deque w')) = []"
      "worker_bag w = add_mset (job_body j) (worker_bag w')"
proof -
  have w: "sink_ok (lw_deque w)" "no_empty_group (sink_view (lw_deque w))" "stash_ok (lw_stash w)"
    using assms by (simp_all add: worker_ok_def)
  show thesis
  proof (cases "st_n (lw_stash w) = 0")
    case False
    obtain j st where "drain_one (lw_stash w) = (Some (Success j), st)" "stash_ok st"
        "stash_bag (lw_stash w) = add_mset (job_body j) (stash_bag st)"
      using drain_some [OF w(3) False] by blast
    then show thesis using w
      by (intro that(2) [of j "w\<lparr>lw_stash := st\<rparr>"]) (simp_all add: worker_pop_def worker_ok_def worker_bag_def)
  next
    case True
    have bag: "stash_bag (lw_stash w) = {#}" using stash_bag_empty [OF w(3)] True by simp
    show thesis
    proof (cases rule: line_pop_bag [OF w(1,2)])
      case 1
      then show thesis using w drain_none [OF True] bag
        by (intro that(1))
          (simp_all add: worker_pop_def through_stash_def worker_ok_def worker_bag_def)
    next
      case (2 l q)
      obtain j st where "stash_extras l (lw_stash w) = (Some (Success j), st)" "stash_ok st"
          "mset (line_jobs l) = add_mset (job_body j) (stash_bag st)"
        using stash_extras_some [OF 2(5,6)] w(3) unfolding stash_ok_def by blast
      then show thesis using 2 w drain_none [OF True] bag
        by (intro that(2) [of j "\<lparr>lw_deque = q, lw_stash = st\<rparr>"])
          (simp_all add: worker_pop_def through_stash_def worker_ok_def worker_bag_def)
    qed
  qed
qed

lemma worker_pop_nothing:
  assumes "worker_ok w" "worker_bag w = {#}"
  shows "worker_pop pop w = (Some Empty, w)"
  using assms(2) by (cases rule: worker_pop_bag [OF assms(1)]) simp_all

text \<open>A thief whose stash is drained sees the published lines and nothing else.\<close>

lemma worker_steal_bag:
  assumes "worker_ok w" "stash_ok st" "st_n st = 0"
  obtains "worker_steal steal w st = (Some Empty, w, st)" "fst (sink_view (lw_deque w)) = []"
  | j w' st' where "worker_steal steal w st = (Some (Success j), w', st')" "worker_ok w'" "stash_ok st'"
      "snd (sink_view (lw_deque w')) = snd (sink_view (lw_deque w))"
      "worker_bag w = add_mset (job_body j) (worker_bag w' + stash_bag st')"
proof -
  have w: "sink_ok (lw_deque w)" "no_empty_group (sink_view (lw_deque w))" "stash_ok (lw_stash w)"
    using assms by (simp_all add: worker_ok_def)
  show thesis
  proof (cases rule: line_steal_bag [OF w(1,2)])
    case 1
    then show thesis by (intro that(1)) (simp_all add: worker_steal_def through_stash_def)
  next
    case (2 l q)
    obtain j st' where "stash_extras l st = (Some (Success j), st')" "stash_ok st'"
        "mset (line_jobs l) = add_mset (job_body j) (stash_bag st')"
      using stash_extras_some [OF 2(5,6)] assms(2) unfolding stash_ok_def by blast
    then show thesis using 2 w
      by (intro that(2) [of j "w\<lparr>lw_deque := q\<rparr>" st'])
        (simp_all add: worker_steal_def through_stash_def worker_ok_def worker_bag_def)
  qed
qed

end

section \<open>The worker that carries both\<close>

definition adaptive_bag :: "'j adaptive_worker \<Rightarrow> 'j multiset" where
  "adaptive_bag a = khl.worker_bag (ad_khl a) + fcl.worker_bag (ad_fcl a)"

text \<open>
  \<open>thief\<close> says whether thieves take part: a thief that finds no published lines in the idle
  worker clears the flag although the owner's stash there may hold jobs.
\<close>

definition adaptive_inv :: "bool \<Rightarrow> 'j adaptive_worker \<Rightarrow> bool" where
  "adaptive_inv thief a \<longleftrightarrow>
     ad_active a = ACTIVE_KHL \<and> khl.worker_ok (ad_khl a) \<and> fcl.idle_ok thief (ad_dirty a) (ad_fcl a)
   \<or> ad_active a = ACTIVE_FCL \<and> fcl.worker_ok (ad_fcl a) \<and> khl.idle_ok thief (ad_dirty a) (ad_khl a)"

lemma tags_differ [simp]: "ACTIVE_FCL \<noteq> ACTIVE_KHL" "ACTIVE_KHL \<noteq> ACTIVE_FCL"
  by (simp_all add: ACTIVE_FCL_def ACTIVE_KHL_def)

lemma khl_worker_new_ok: "khl.worker_ok (khl_worker_new cap)" "khl.worker_bag (khl_worker_new cap) = {#}"
    "khl.idle_ok thief dirty (khl_worker_new cap)"
  by (simp_all add: khl_deque_ok khl_deque_view khl_worker_new_def khl.worker_ok_def khl.worker_bag_def khl.idle_ok_def no_empty_group_def
      group_bag_def) (simp_all add: stash_empty_def)

lemma fcl_worker_new_ok: "fcl.worker_ok (fcl_worker_new cap)" "fcl.worker_bag (fcl_worker_new cap) = {#}"
    "fcl.idle_ok thief dirty (fcl_worker_new cap)"
  by (simp_all add: fcl_new_ok fcl_new_view fcl_worker_new_def fcl.worker_ok_def fcl.worker_bag_def fcl.idle_ok_def no_empty_group_def
      group_bag_def) (simp_all add: stash_empty_def)

lemma new_adaptive_inv: "adaptive_inv thief (new_adaptive cap g)" "adaptive_bag (new_adaptive cap g) = {#}"
  by (simp_all add: adaptive_inv_def adaptive_bag_def new_adaptive_def gating_tag_def khl_worker_new_ok fcl_worker_new_ok)

text \<open>The owner's pushes change the active worker only.\<close>

lemma ad_push_bag:
  assumes "adaptive_inv thief a" "ad_push j a = Some a'"
  shows "adaptive_inv thief a' \<and> adaptive_bag a' = adaptive_bag a + {#job_body j#}"
  using assms khl.push_one_bag [of "ad_khl a" j] fcl.fcl_push_bag [of "ad_fcl a" j]
  by (auto simp: ad_push_def adaptive_inv_def adaptive_bag_def in_khl_def in_fcl_def)

lemma ad_burst_bag:
  assumes "adaptive_inv thief a" "ad_push_burst j a = Some a'"
  shows "adaptive_inv thief a' \<and> adaptive_bag a' = adaptive_bag a + {#job_body j#}"
  using assms khl.burst_bag [of "ad_khl a" j] fcl.burst_bag [of "ad_fcl a" j]
  by (auto simp: ad_push_burst_def adaptive_inv_def adaptive_bag_def in_khl_def in_fcl_def)

lemma ad_try_push_bag:
  assumes "adaptive_inv thief a" "ad_try_push j a = (r, a')"
  shows "adaptive_inv thief a' \<and> r \<noteq> Inl None
    \<and> adaptive_bag a' = adaptive_bag a + (if r = Inr () then {#job_body j#} else {#})"
  using assms khl.try_push_bag [of "ad_khl a" j] fcl.try_push_bag [of "ad_fcl a" j]
  by (auto simp: ad_try_push_def adaptive_inv_def adaptive_bag_def split: prod.splits)

lemma ad_flush_bag:
  assumes "adaptive_inv thief a" "ad_flush a = Some a'"
  shows "adaptive_inv thief a' \<and> adaptive_bag a' = adaptive_bag a \<and> ad_active a' = ad_active a
    \<and> ad_dirty a' = ad_dirty a
    \<and> (if ad_active a = ACTIVE_KHL then snd (khl.sink_view (lw_deque (ad_khl a'))) = []
       else snd (fcl.sink_view (lw_deque (ad_fcl a'))) = [])"
  using assms khl.worker_flush_bag [of "ad_khl a"] fcl.worker_flush_bag [of "ad_fcl a"]
  by (auto simp: ad_flush_def adaptive_inv_def adaptive_bag_def in_khl_def in_fcl_def)

lemma idle_dirty: "khl.idle_ok thief d w \<Longrightarrow> khl.idle_ok thief True w" "fcl.idle_ok thief d v \<Longrightarrow> fcl.idle_ok thief True v"
  by (simp_all add: khl.idle_ok_def fcl.idle_ok_def)

lemma idle_worker: "khl.idle_ok thief d w \<Longrightarrow> khl.worker_ok w" "fcl.idle_ok thief d v \<Longrightarrow> fcl.worker_ok v"
  by (simp_all add: khl.idle_ok_def fcl.idle_ok_def)

lemma ad_migrate_bag:
  assumes "adaptive_inv thief a" "ad_migrate g a = Some a'"
  shows "adaptive_inv thief a' \<and> adaptive_bag a' = adaptive_bag a"
proof -
  obtain a1 where a1: "ad_flush a = Some a1"
      "a' = a1\<lparr>ad_dirty := ad_dirty a1 \<or> ad_active a \<noteq> gating_tag g, ad_active := gating_tag g\<rparr>"
    using assms(2) by (auto simp: ad_migrate_def Let_def)
  note f = ad_flush_bag [OF assms(1) a1(1)]
  have bag: "adaptive_bag a' = adaptive_bag a" using f a1(2) by (simp add: adaptive_bag_def)
  have "gating_tag g = ACTIVE_KHL \<or> gating_tag g = ACTIVE_FCL" by (simp add: gating_tag_def)
  moreover have "ad_active a = ACTIVE_KHL \<or> ad_active a = ACTIVE_FCL" using assms(1) by (auto simp: adaptive_inv_def)
  ultimately have "adaptive_inv thief a'"
    using f a1(2) idle_worker
    by (elim disjE; simp add: adaptive_inv_def) (auto simp: khl.idle_ok_def fcl.idle_ok_def)
  with bag show ?thesis by simp
qed

text \<open>What is left in an idle worker once its lines are gone: the stash, at most two jobs.\<close>

lemma idle_left:
  "khl.idle_ok thief False w \<Longrightarrow> size (khl.worker_bag w) \<le> 2 \<and> (\<not> thief \<longrightarrow> khl.worker_bag w = {#})"
  "fcl.idle_ok thief False v \<Longrightarrow> size (fcl.worker_bag v) \<le> 2 \<and> (\<not> thief \<longrightarrow> fcl.worker_bag v = {#})"
  by (auto simp: khl.idle_ok_def fcl.idle_ok_def khl.worker_ok_def fcl.worker_ok_def khl.worker_bag_def
      fcl.worker_bag_def group_bag_def stash_bag_def stash_ok_def)

lemma idle_clean:
  "khl.idle_ok thief d w \<Longrightarrow> khl.worker_bag w = {#} \<Longrightarrow> khl.idle_ok thief d' w"
  "fcl.idle_ok thief d v \<Longrightarrow> fcl.worker_bag v = {#} \<Longrightarrow> fcl.idle_ok thief d' v"
proof -
  assume w: "khl.idle_ok thief d w" "khl.worker_bag w = {#}"
  then have "fst (khl.sink_view (lw_deque w)) = []"
    by (cases "fst (khl.sink_view (lw_deque w))") (auto simp: khl.idle_ok_def khl.worker_ok_def no_empty_group_def
        khl.worker_bag_def group_bag_def)
  then show "khl.idle_ok thief d' w"
    using w by (auto simp: khl.idle_ok_def khl.worker_ok_def khl.worker_bag_def dest: stash_bag_empty)
next
  assume v: "fcl.idle_ok thief d v" "fcl.worker_bag v = {#}"
  then have "fst (fcl.sink_view (lw_deque v)) = []"
    by (cases "fst (fcl.sink_view (lw_deque v))") (auto simp: fcl.idle_ok_def fcl.worker_ok_def no_empty_group_def
        fcl.worker_bag_def group_bag_def)
  then show "fcl.idle_ok thief d' v"
    using v by (auto simp: fcl.idle_ok_def fcl.worker_ok_def fcl.worker_bag_def dest: stash_bag_empty)
qed

lemma idle_taken:
  "khl.worker_ok w \<Longrightarrow> snd (khl.sink_view (lw_deque w)) = [] \<Longrightarrow> khl.idle_ok thief True w"
  "fcl.worker_ok v \<Longrightarrow> snd (fcl.sink_view (lw_deque v)) = [] \<Longrightarrow> fcl.idle_ok thief True v"
  by (simp_all add: khl.idle_ok_def fcl.idle_ok_def)

lemma idle_acc:
  "khl.idle_ok thief d w \<Longrightarrow> snd (khl.sink_view (lw_deque w)) = []"
  "fcl.idle_ok thief d v \<Longrightarrow> snd (fcl.sink_view (lw_deque v)) = []"
  by (simp_all add: khl.idle_ok_def fcl.idle_ok_def)

text \<open>An answer of nothing changes the flag at most.\<close>

definition flag_cleared :: "'j adaptive_worker \<Rightarrow> 'j adaptive_worker \<Rightarrow> bool" where
  "flag_cleared a a' \<longleftrightarrow> a' = a \<or> a' = a\<lparr>ad_dirty := False\<rparr>"

lemma flag_cleared_simps [simp]: "flag_cleared a a" "flag_cleared a (a\<lparr>ad_dirty := False\<rparr>)"
  by (simp_all add: flag_cleared_def)

text \<open>What an answer to a pop promises.\<close>

definition pop_promise :: "bool \<Rightarrow> 'j adaptive_worker \<Rightarrow> 'j job_ref steal option \<Rightarrow> 'j adaptive_worker \<Rightarrow> bool" where
  "pop_promise thief a r a' \<longleftrightarrow> adaptive_inv thief a' \<and> adaptive_bag a = answer_bag r + adaptive_bag a'
     \<and> (r = Some Empty \<and> flag_cleared a a' \<and> size (adaptive_bag a') \<le> 2 \<and> (\<not> thief \<longrightarrow> adaptive_bag a' = {#})
        \<or> (\<exists>j. r = Some (Success j)))"

lemma pop_from_khl:
  assumes a: "ad_active a = ACTIVE_KHL" "khl.worker_ok (ad_khl a)" "fcl.idle_ok thief (ad_dirty a) (ad_fcl a)"
  shows "pop_promise thief a (fst (ad_pop a)) (snd (ad_pop a))"
proof (cases rule: khl.worker_pop_bag [OF a(2)])
  case (2 j w)
  then show ?thesis using a
    by (simp add: ad_pop_def pop_khl_def no_job_def pop_promise_def adaptive_inv_def adaptive_bag_def)
next
  case 1
  have p: "pop_khl a = (Some Empty, a)" using 1 by (simp add: pop_khl_def)
  show ?thesis
  proof (cases "ad_dirty a")
    case False
    then show ?thesis using a 1 p idle_left(2) [of thief "ad_fcl a"]
      by (simp add: ad_pop_def no_job_def pop_promise_def adaptive_inv_def adaptive_bag_def)
  next
    case True
    show ?thesis
    proof (cases rule: fcl.worker_pop_bag [OF idle_worker(2) [OF a(3)]])
      case e: 1
      then show ?thesis using a 1 p True idle_clean(2) [OF a(3) e(2), of False]
        by (simp add: ad_pop_def pop_fcl_def no_job_def pop_promise_def adaptive_inv_def adaptive_bag_def)
    next
      case (2 j w)
      then show ?thesis using a 1 p True idle_taken(2) [OF 2(2) 2(3) [OF idle_acc(2) [OF a(3)]], of thief]
        by (simp add: ad_pop_def pop_fcl_def no_job_def pop_promise_def adaptive_inv_def adaptive_bag_def)
    qed
  qed
qed

lemma pop_from_fcl:
  assumes a: "ad_active a = ACTIVE_FCL" "fcl.worker_ok (ad_fcl a)" "khl.idle_ok thief (ad_dirty a) (ad_khl a)"
  shows "pop_promise thief a (fst (ad_pop a)) (snd (ad_pop a))"
proof (cases rule: fcl.worker_pop_bag [OF a(2)])
  case (2 j w)
  then show ?thesis using a
    by (simp add: ad_pop_def pop_fcl_def no_job_def pop_promise_def adaptive_inv_def adaptive_bag_def)
next
  case 1
  have p: "pop_fcl a = (Some Empty, a)" using 1 by (simp add: pop_fcl_def)
  show ?thesis
  proof (cases "ad_dirty a")
    case False
    then show ?thesis using a 1 p idle_left(1) [of thief "ad_khl a"]
      by (simp add: ad_pop_def no_job_def pop_promise_def adaptive_inv_def adaptive_bag_def)
  next
    case True
    show ?thesis
    proof (cases rule: khl.worker_pop_bag [OF idle_worker(1) [OF a(3)]])
      case e: 1
      then show ?thesis using a 1 p True idle_clean(1) [OF a(3) e(2), of False]
        by (simp add: ad_pop_def pop_khl_def no_job_def pop_promise_def adaptive_inv_def adaptive_bag_def)
    next
      case (2 j w)
      then show ?thesis using a 1 p True idle_taken(1) [OF 2(2) 2(3) [OF idle_acc(1) [OF a(3)]], of thief]
        by (simp add: ad_pop_def pop_khl_def no_job_def pop_promise_def adaptive_inv_def adaptive_bag_def)
    qed
  qed
qed

lemma ad_pop_bag: "adaptive_inv thief a \<Longrightarrow> pop_promise thief a (fst (ad_pop a)) (snd (ad_pop a))"
  using pop_from_khl pop_from_fcl by (auto simp: adaptive_inv_def)

section \<open>Thieves\<close>

definition thief_ok :: "'j adaptive_stash \<Rightarrow> bool" where
  "thief_ok st \<longleftrightarrow> stash_ok (fst st) \<and> stash_ok (snd st)"

definition thief_bag :: "'j adaptive_stash \<Rightarrow> 'j multiset" where
  "thief_bag st = stash_bag (fst st) + stash_bag (snd st)"

text \<open>No line a thief would see: none in the active deque, and none in the other while the flag is set.\<close>

definition no_offer :: "'j adaptive_worker \<Rightarrow> bool" where
  "no_offer a \<longleftrightarrow>
     (if ad_active a = ACTIVE_KHL
      then fst (khl.sink_view (lw_deque (ad_khl a))) = []
        \<and> (ad_dirty a \<longrightarrow> fst (fcl.sink_view (lw_deque (ad_fcl a))) = [])
      else fst (fcl.sink_view (lw_deque (ad_fcl a))) = []
        \<and> (ad_dirty a \<longrightarrow> fst (khl.sink_view (lw_deque (ad_khl a))) = []))"

definition steal_promise :: "'j adaptive_pair \<Rightarrow> 'j job_ref steal option \<times> 'j adaptive_pair \<Rightarrow> bool" where
  "steal_promise s t \<longleftrightarrow> adaptive_inv True (fst (snd t)) \<and> thief_ok (snd (snd t))
     \<and> (fst t = Some Empty \<and> no_offer (fst s) \<and> flag_cleared (fst s) (fst (snd t)) \<and> snd (snd t) = snd s
        \<or> (\<exists>j. fst t = Some (Success j)))
     \<and> adaptive_bag (fst s) + thief_bag (snd s)
       = answer_bag (fst t) + adaptive_bag (fst (snd t)) + thief_bag (snd (snd t))"

lemma idle_no_lines:
  "khl.idle_ok True d w \<Longrightarrow> fst (khl.sink_view (lw_deque w)) = [] \<Longrightarrow> khl.idle_ok True d' w"
  "fcl.idle_ok True d v \<Longrightarrow> fst (fcl.sink_view (lw_deque v)) = [] \<Longrightarrow> fcl.idle_ok True d' v"
  by (simp_all add: khl.idle_ok_def fcl.idle_ok_def)

lemma steal_from_khl:
  assumes a: "ad_active a = ACTIVE_KHL" "khl.worker_ok (ad_khl a)" "fcl.idle_ok True (ad_dirty a) (ad_fcl a)"
    and st: "thief_ok st" "st_n (fst st) = 0" "st_n (snd st) = 0"
  shows "steal_promise (a, st) (steal_via_stash a st)"
proof -
  have ok: "stash_ok (fst st)" "stash_ok (snd st)" and bags: "stash_bag (fst st) = {#}" "stash_bag (snd st) = {#}"
    using st stash_bag_empty by (auto simp: thief_ok_def)
  show ?thesis
  proof (cases rule: khl.worker_steal_bag [OF a(2) ok(1) st(2)])
    case (2 j w k)
    then show ?thesis using a ok bags
      by (simp add: steal_via_stash_def steal_khl_def steal_promise_def adaptive_inv_def adaptive_bag_def thief_ok_def
          thief_bag_def)
  next
    case 1
    have p: "steal_khl a st = (Some Empty, a, st)" using 1 by (simp add: steal_khl_def)
    show ?thesis
    proof (cases "ad_dirty a")
      case False
      then show ?thesis using a st p 1
        by (simp add: steal_via_stash_def steal_promise_def adaptive_inv_def no_offer_def)
    next
      case True
      show ?thesis
      proof (cases rule: fcl.worker_steal_bag [OF idle_worker(2) [OF a(3)] ok(2) st(3)])
        case e: 1
        then show ?thesis using a st p 1 e True idle_no_lines(2) [OF a(3) e(2), of False]
          by (simp add: steal_via_stash_def steal_fcl_def steal_promise_def adaptive_inv_def adaptive_bag_def no_offer_def)
      next
        case (2 j w f)
        then show ?thesis using a ok bags p True idle_taken(2) [OF 2(2), of True] idle_acc(2) [OF a(3)]
          by (simp add: steal_via_stash_def steal_fcl_def steal_promise_def adaptive_inv_def adaptive_bag_def
              thief_ok_def thief_bag_def)
      qed
    qed
  qed
qed

lemma steal_from_fcl:
  assumes a: "ad_active a = ACTIVE_FCL" "fcl.worker_ok (ad_fcl a)" "khl.idle_ok True (ad_dirty a) (ad_khl a)"
    and st: "thief_ok st" "st_n (fst st) = 0" "st_n (snd st) = 0"
  shows "steal_promise (a, st) (steal_via_stash a st)"
proof -
  have ok: "stash_ok (fst st)" "stash_ok (snd st)" and bags: "stash_bag (fst st) = {#}" "stash_bag (snd st) = {#}"
    using st stash_bag_empty by (auto simp: thief_ok_def)
  show ?thesis
  proof (cases rule: fcl.worker_steal_bag [OF a(2) ok(2) st(3)])
    case (2 j w f)
    then show ?thesis using a ok bags
      by (simp add: steal_via_stash_def steal_fcl_def steal_promise_def adaptive_inv_def adaptive_bag_def thief_ok_def
          thief_bag_def)
  next
    case 1
    have p: "steal_fcl a st = (Some Empty, a, st)" using 1 by (simp add: steal_fcl_def)
    show ?thesis
    proof (cases "ad_dirty a")
      case False
      then show ?thesis using a st p 1
        by (simp add: steal_via_stash_def steal_promise_def adaptive_inv_def no_offer_def)
    next
      case True
      show ?thesis
      proof (cases rule: khl.worker_steal_bag [OF idle_worker(1) [OF a(3)] ok(1) st(2)])
        case e: 1
        then show ?thesis using a st p 1 e True idle_no_lines(1) [OF a(3) e(2), of False]
          by (simp add: steal_via_stash_def steal_khl_def steal_promise_def adaptive_inv_def adaptive_bag_def no_offer_def)
      next
        case (2 j w k)
        then show ?thesis using a ok bags p True idle_taken(1) [OF 2(2), of True] idle_acc(1) [OF a(3)]
          by (simp add: steal_via_stash_def steal_khl_def steal_promise_def adaptive_inv_def adaptive_bag_def
              thief_ok_def thief_bag_def)
      qed
    qed
  qed
qed

lemma thief_takes_bag:
  assumes "adaptive_inv True (fst s)" "thief_ok (snd s)"
  shows "steal_promise s (thief_takes s)"
proof -
  obtain a k f where s: "s = (a, k, f)" by (metis prod.exhaust)
  have ok: "stash_ok k" "stash_ok f" using assms(2) s by (simp_all add: thief_ok_def)
  show ?thesis
  proof (cases "st_n k = 0")
    case False
    obtain j k' where "drain_one k = (Some (Success j), k')" "stash_ok k'"
        "stash_bag k = add_mset (job_body j) (stash_bag k')" using drain_some [OF ok(1) False] by blast
    then show ?thesis using s ok assms
      by (simp add: thief_takes_def adaptive_drain_one_def steal_promise_def thief_ok_def thief_bag_def)
  next
    case k: True
    show ?thesis
    proof (cases "st_n f = 0")
      case False
      obtain j f' where "drain_one f = (Some (Success j), f')" "stash_ok f'"
          "stash_bag f = add_mset (job_body j) (stash_bag f')" using drain_some [OF ok(2) False] by blast
      then show ?thesis using s ok assms drain_none [OF k]
        by (simp add: thief_takes_def adaptive_drain_one_def steal_promise_def thief_ok_def thief_bag_def)
    next
      case f: True
      have "thief_takes s = steal_via_stash a (k, f)"
        using s drain_none [OF k] drain_none [OF f] by (simp add: thief_takes_def adaptive_drain_one_def)
      moreover have "steal_promise (a, k, f) (steal_via_stash a (k, f))"
        using steal_from_khl [of a "(k, f)"] steal_from_fcl [of a "(k, f)"] assms s k f
        by (auto simp: adaptive_inv_def)
      ultimately show ?thesis using s by simp
    qed
  qed
qed

section \<open>Runs\<close>

text \<open>The jobs an operation put in, by its answer, and the job an answer handed out.\<close>

fun put_in :: "'j adaptive_op \<Rightarrow> 'j adaptive_answer \<Rightarrow> 'j multiset" where
  "put_in (Ad_push j) Ad_ok = {#job_body j#}"
| "put_in (Ad_try_push j) Ad_ok = {#job_body j#}"
| "put_in (Ad_push_burst j) Ad_ok = {#job_body j#}"
| "put_in _ _ = {#}"

fun handed_out :: "'j adaptive_answer \<Rightarrow> 'j multiset" where
  "handed_out (Ad_took j) = {#job_body j#}"
| "handed_out _ = {#}"

definition all_put_in :: "'j adaptive_op list \<Rightarrow> 'j adaptive_answer list \<Rightarrow> 'j multiset" where
  "all_put_in ops rs = sum_list (map2 put_in ops rs)"

definition all_handed_out :: "'j adaptive_answer list \<Rightarrow> 'j multiset" where
  "all_handed_out rs = sum_list (map handed_out rs)"

definition pair_bag :: "'j adaptive_pair \<Rightarrow> 'j multiset" where
  "pair_bag s = adaptive_bag (fst s) + thief_bag (snd s)"

definition pair_inv :: "bool \<Rightarrow> 'j adaptive_pair \<Rightarrow> bool" where
  "pair_inv thief s \<longleftrightarrow> adaptive_inv thief (fst s) \<and> thief_ok (snd s)"

definition step_keeps :: "bool \<Rightarrow> 'j adaptive_op \<Rightarrow> 'j adaptive_pair \<Rightarrow> 'j adaptive_answer \<times> 'j adaptive_pair \<Rightarrow> bool" where
  "step_keeps thief op s t \<longleftrightarrow> pair_inv thief (snd t) \<and> fst t \<noteq> Ad_broken
     \<and> pair_bag s + put_in op (fst t) = handed_out (fst t) + pair_bag (snd t)"

lemma done_or_spins_keeps:
  assumes s: "pair_inv thief s"
    and step: "\<And>a. r = Some a \<Longrightarrow> adaptive_inv thief a \<and> adaptive_bag a = adaptive_bag (fst s) + put_in op Ad_ok"
    and spin: "put_in op Ad_spins = {#}"
  shows "step_keeps thief op s (done_or_spins r s)"
  using assms by (cases r) (auto simp: done_or_spins_def step_keeps_def pair_inv_def pair_bag_def)

lemma adaptive_step_keeps:
  assumes s: "pair_inv thief s" and thief: "op = Ad_steal \<Longrightarrow> thief"
  shows "step_keeps thief op s (adaptive_apply op s)"
proof -
  have inv: "adaptive_inv thief (fst s)" using s by (simp add: pair_inv_def)
  show ?thesis
  proof (cases op)
    case (Ad_push j)
    then show ?thesis using done_or_spins_keeps [OF s, of "ad_push j (fst s)" op] ad_push_bag [OF inv] by simp
  next
    case (Ad_push_burst j)
    then show ?thesis using done_or_spins_keeps [OF s, of "ad_push_burst j (fst s)" op] ad_burst_bag [OF inv] by simp
  next
    case Ad_flush
    have "adaptive_inv thief a \<and> adaptive_bag a = adaptive_bag (fst s) + put_in op Ad_ok"
      if "ad_flush (fst s) = Some a" for a
      using ad_flush_bag [OF inv that] Ad_flush by simp
    then show ?thesis using done_or_spins_keeps [OF s, of "ad_flush (fst s)" op] Ad_flush by simp
  next
    case (Ad_migrate g)
    then show ?thesis using done_or_spins_keeps [OF s, of "ad_migrate g (fst s)" op] ad_migrate_bag [OF inv] by simp
  next
    case (Ad_try_push j)
    obtain r a where t: "ad_try_push j (fst s) = (r, a)" by fastforce
    show ?thesis using ad_try_push_bag [OF inv t] s Ad_try_push t
      by (cases r) (auto simp: step_keeps_def pair_inv_def pair_bag_def split: option.splits)
  next
    case Ad_pop
    obtain r a where t: "ad_pop (fst s) = (r, a)" by (cases "ad_pop (fst s)")
    then have p: "pop_promise thief (fst s) r a" using ad_pop_bag [OF inv] by simp
    show ?thesis using Ad_pop t p s
      by (auto simp: step_keeps_def pair_inv_def pair_bag_def pop_promise_def taken_def)
  next
    case Ad_steal
    obtain r t where t: "thief_takes s = (r, t)" by (cases "thief_takes s")
    then have p: "steal_promise s (r, t)" using thief_takes_bag [of s] thief [OF Ad_steal] s by (simp add: pair_inv_def)
    show ?thesis using Ad_steal t p thief
      by (auto simp: step_keeps_def pair_inv_def pair_bag_def steal_promise_def taken_def add.assoc)
  qed
qed

lemma adaptive_run_keeps:
  assumes "pair_inv thief s" "Ad_steal \<in> set ops \<Longrightarrow> thief"
  shows "pair_inv thief (snd (run_ops adaptive_apply ops s))
    \<and> Ad_broken \<notin> set (fst (run_ops adaptive_apply ops s))
    \<and> pair_bag s + all_put_in ops (fst (run_ops adaptive_apply ops s))
      = all_handed_out (fst (run_ops adaptive_apply ops s)) + pair_bag (snd (run_ops adaptive_apply ops s))"
  using assms
proof (induction ops arbitrary: s)
  case Nil
  then show ?case by (simp add: all_put_in_def all_handed_out_def)
next
  case (Cons op ops)
  obtain r s1 where step: "adaptive_apply op s = (r, s1)" by (cases "adaptive_apply op s")
  have k: "pair_inv thief s1" "r \<noteq> Ad_broken" "pair_bag s + put_in op r = handed_out r + pair_bag s1"
    using adaptive_step_keeps [of thief s op] Cons.prems step by (auto simp: step_keeps_def)
  obtain rs s2 where run: "run_ops adaptive_apply ops s1 = (rs, s2)" by (cases "run_ops adaptive_apply ops s1")
  have ih: "pair_inv thief s2" "Ad_broken \<notin> set rs" "pair_bag s1 + all_put_in ops rs = all_handed_out rs + pair_bag s2"
    using Cons.IH [OF k(1)] Cons.prems(2) run by auto
  have "pair_bag s + (put_in op r + all_put_in ops rs) = handed_out r + (pair_bag s1 + all_put_in ops rs)"
    using k(3) by (metis add.assoc)
  also have "\<dots> = (handed_out r + all_handed_out rs) + pair_bag s2" unfolding ih(3) by (simp add: add.assoc)
  finally show ?case using step run k ih by (simp add: all_put_in_def all_handed_out_def)
qed

end
