(* ===== verification/Adaptive_Properties.thy ===== *)
theory Adaptive_Properties
  imports Adaptive_Laws
begin

text \<open>
  The properties of the worker that carries both line deques, under its owner's operations, a
  thief's, and the migration of a whole arena.
\<close>

section \<open>A tag stored from outside\<close>

definition idle_part :: "'j adaptive_worker \<Rightarrow>
    ('j line khl_header, 'j) line_worker option \<times> ('j line header, 'j) line_worker option" where
  "idle_part a = (if ad_active a = ACTIVE_KHL then (None, Some (ad_fcl a)) else (Some (ad_khl a), None))"

definition idle_bag :: "'j adaptive_worker \<Rightarrow> 'j multiset" where
  "idle_bag a = (if ad_active a = ACTIVE_KHL then fcl.worker_bag (ad_fcl a) else khl.worker_bag (ad_khl a))"

lemma idle_bag_cong: "ad_active a' = ad_active a \<Longrightarrow> idle_part a' = idle_part a \<Longrightarrow> idle_bag a' = idle_bag a"
  by (auto simp: idle_part_def idle_bag_def split: if_splits)

text \<open>While the flag is not set, nothing but a migration looks at the idle worker.\<close>

definition stays_put :: "'j adaptive_worker \<Rightarrow> 'j adaptive_worker \<Rightarrow> bool" where
  "stays_put a a' \<longleftrightarrow> ad_active a' = ad_active a \<and> idle_part a' = idle_part a \<and> \<not> ad_dirty a'"

lemma stays_put_upd:
  "\<not> ad_dirty a \<Longrightarrow> ad_active a = ACTIVE_KHL \<Longrightarrow> stays_put a (a\<lparr>ad_khl := w\<rparr>)"
  "\<not> ad_dirty a \<Longrightarrow> ad_active a \<noteq> ACTIVE_KHL \<Longrightarrow> stays_put a (a\<lparr>ad_fcl := v\<rparr>)"
  "\<not> ad_dirty a \<Longrightarrow> stays_put a a"
  by (simp_all add: stays_put_def idle_part_def)

lemma done_or_spins_put:
  assumes "stays_put (fst s) (fst s)" "\<And>a. r = Some a \<Longrightarrow> stays_put (fst s) a"
  shows "stays_put (fst s) (fst (snd (done_or_spins r s)))"
  using assms by (cases r) (simp_all add: done_or_spins_def)

lemma step_stays_put:
  assumes "\<not> ad_dirty (fst s)" "\<And>g. op \<noteq> Ad_migrate g"
  shows "stays_put (fst s) (fst (snd (adaptive_apply op s)))"
proof -
  note put = stays_put_upd [OF assms(1)]
  show ?thesis
  proof (cases op)
    case (Ad_push j)
    then show ?thesis using put
      by (auto intro!: done_or_spins_put simp: ad_push_def in_khl_def in_fcl_def split: if_splits)
  next
    case (Ad_push_burst j)
    then show ?thesis using put
      by (auto intro!: done_or_spins_put simp: ad_push_burst_def in_khl_def in_fcl_def split: if_splits)
  next
    case Ad_flush
    then show ?thesis using put
      by (auto intro!: done_or_spins_put simp: ad_flush_def in_khl_def in_fcl_def split: if_splits)
  next
    case (Ad_try_push j)
    then show ?thesis using put by (auto simp: ad_try_push_def split: prod.splits)
  next
    case Ad_pop
    then show ?thesis using put assms(1)
      by (auto simp: ad_pop_def pop_khl_def pop_fcl_def Let_def split: prod.splits)
  next
    case Ad_steal
    then show ?thesis using put assms(1)
      by (auto simp: thief_takes_def steal_via_stash_def steal_khl_def steal_fcl_def Let_def
          split: prod.splits option.splits steal.splits)
  qed (use assms(2) in simp)
qed

lemma run_stays_put:
  assumes "\<not> ad_dirty (fst s)" "\<And>g. Ad_migrate g \<notin> set ops"
  shows "stays_put (fst s) (fst (snd (run_ops adaptive_apply ops s)))"
  using assms
proof (induction ops arbitrary: s)
  case Nil
  then show ?case by (simp add: stays_put_upd)
next
  case (Cons op ops)
  have 1: "stays_put (fst s) (fst (snd (adaptive_apply op s)))"
    using Cons.prems by (intro step_stays_put) auto
  then have "stays_put (fst (snd (adaptive_apply op s)))
      (fst (snd (run_ops adaptive_apply ops (snd (adaptive_apply op s)))))"
    using Cons.prems(2) by (intro Cons.IH) (auto simp: stays_put_def)
  then show ?case using 1 by (auto simp: stays_put_def Let_def split: prod.splits)
qed

abbreviation fresh_pair :: "nat \<Rightarrow> k_gating \<Rightarrow> 'j adaptive_pair" where
  "fresh_pair cap g \<equiv> (new_adaptive cap g, stash_empty, stash_empty)"

lemma fresh_pair_inv: "pair_inv thief (fresh_pair cap g)" "pair_bag (fresh_pair cap g) = {#}"
  by (simp_all add: pair_inv_def pair_bag_def new_adaptive_inv thief_ok_def thief_bag_def)

section \<open>Properties\<close>

text \<open>
  C14: Nothing is lost or handed out twice by a worker that switches its deque with
  \<open>migrate_to\<close>. Over any sequence of its owner's pushes, bursts, flushes, pops and migrations
  and of a thief's steals, no null slot is ever unpacked, and the jobs accepted are exactly the
  jobs handed out together with those still held by the worker and by the thief's stash. When
  a pop answers that there is nothing, at most two jobs are left behind, and none when no thief
  took part: after a migration the pops drain what the other deque still holds.
\<close>

theorem adaptive_owner_loses_nothing:
  "let (rs, s) = run_ops adaptive_apply ops (fresh_pair cap g)
   in Ad_broken \<notin> set rs
    \<and> all_put_in ops rs = all_handed_out rs + pair_bag s
    \<and> (fst (adaptive_apply Ad_pop s) = Ad_nothing
       \<longrightarrow> size (adaptive_bag (fst s)) \<le> 2 \<and> (Ad_steal \<notin> set ops \<longrightarrow> adaptive_bag (fst s) = {#}))"
proof -
  obtain rs s where run: "run_ops adaptive_apply ops (fresh_pair cap g) = (rs, s)"
    by (cases "run_ops adaptive_apply ops (fresh_pair cap g)")
  let ?thief = "Ad_steal \<in> set ops"
  note keeps = adaptive_run_keeps [OF fresh_pair_inv(1) [of ?thief cap g], of ops, unfolded run fresh_pair_inv(2)]
  have "pop_promise ?thief (fst s) (fst (ad_pop (fst s))) (snd (ad_pop (fst s)))"
    by (rule ad_pop_bag) (use keeps in \<open>simp add: pair_inv_def\<close>)
  then have "size (adaptive_bag (fst s)) \<le> 2 \<and> (\<not> ?thief \<longrightarrow> adaptive_bag (fst s) = {#})"
    if "fst (adaptive_apply Ad_pop s) = Ad_nothing"
    using that by (auto simp: pop_promise_def taken_def split: prod.splits)
  then show ?thesis using keeps unfolding run by simp
qed

definition some_job :: "nat \<Rightarrow> nat job_ref" where
  "some_job i = job_new i 0 NUMA_HINT_ANY Correct"

theorem adaptive_owner_loses_nothing_witness:
  "adaptive_bag (fst (snd (run_ops adaptive_apply
      [Ad_push_burst (some_job 1), Ad_push_burst (some_job 2), Ad_migrate CounterOnly, Ad_pop, Ad_pop]
      (fresh_pair 2 PerSlot)))) = {#}"
proof -
  let ?ops = "[Ad_push_burst (some_job 1), Ad_push_burst (some_job 2), Ad_migrate CounterOnly, Ad_pop, Ad_pop]"
  have "fst (adaptive_apply Ad_pop (snd (run_ops adaptive_apply ?ops (fresh_pair 2 PerSlot)))) = Ad_nothing"
    by code_simp
  then show ?thesis
    using adaptive_owner_loses_nothing [of ?ops 2 PerSlot] by (auto split: prod.splits)
qed

text \<open>
  C15: \<open>LocalArena::migrate_all_workers_k_gating\<close> strands every queued job. It stores the new
  tag alone, without the flush and without the flag that \<open>migrate_to\<close> sets first. Take a worker
  after any operations other than a migration; after the store the owner's next pop answers that there
  is nothing, and whatever operations follow, short of another migration, every job the worker held
  stays where it is. The documentation says that the old deque drains through the pops.
\<close>

theorem remote_flip_strands_jobs:
  assumes "\<forall>g'. Ad_migrate g' \<notin> set ops" "\<forall>g'. Ad_migrate g' \<notin> set later" "gating_tag target \<noteq> gating_tag g"
  shows "let s = snd (run_ops adaptive_apply ops (fresh_pair cap g));
      flipped = (hd (hd (migrate_all_workers_k_gating target [[fst s]])), snd s)
    in fst (adaptive_apply Ad_pop flipped) = Ad_nothing
      \<and> adaptive_bag (fst s) \<subseteq># adaptive_bag (fst (snd (run_ops adaptive_apply later flipped)))"
proof -
  define s where "s = snd (run_ops adaptive_apply ops (fresh_pair cap g))"
  define a where "a = (fst s)\<lparr>ad_active := gating_tag target\<rparr>"
  have put: "stays_put (new_adaptive cap g) (fst s)"
    using run_stays_put [of "fresh_pair cap g" ops] assms(1) by (simp add: new_adaptive_def s_def)
  have tags: "gating_tag g = ACTIVE_KHL \<and> gating_tag target = ACTIVE_FCL
      \<or> gating_tag g = ACTIVE_FCL \<and> gating_tag target = ACTIVE_KHL"
    using assms(3) by (auto simp: gating_tag_def split: if_splits)
  have bag: "idle_bag a = adaptive_bag (fst s)"
    using put tags by (auto simp: stays_put_def idle_part_def new_adaptive_def idle_bag_def adaptive_bag_def a_def
        khl_worker_new_ok fcl_worker_new_ok)
  have dirty: "\<not> ad_dirty a" using put by (simp add: stays_put_def a_def)
  have "fst (ad_pop a) = Some Empty"
    using tags put dirty
    by (auto simp: khl.worker_pop_nothing [OF khl_worker_new_ok(1,2)] fcl.worker_pop_nothing [OF fcl_worker_new_ok(1,2)]
        stays_put_def idle_part_def new_adaptive_def a_def ad_pop_def pop_khl_def pop_fcl_def no_job_def)
  moreover have "idle_bag (fst (snd (run_ops adaptive_apply later (a, snd s)))) = idle_bag a"
    by (rule idle_bag_cong) (use run_stays_put [of "(a, snd s)" later] dirty assms(2) in \<open>auto simp: stays_put_def\<close>)
  moreover have "idle_bag (fst (snd (run_ops adaptive_apply later (a, snd s))))
      \<subseteq># adaptive_bag (fst (snd (run_ops adaptive_apply later (a, snd s))))"
    by (simp add: idle_bag_def adaptive_bag_def)
  ultimately have "adaptive_bag (fst s) \<subseteq># adaptive_bag (fst (snd (run_ops adaptive_apply later (a, snd s))))"
    "fst (adaptive_apply Ad_pop (a, snd s)) = Ad_nothing"
    using bag by (auto simp: taken_def split: prod.splits)
  then show ?thesis unfolding s_def [symmetric]
    by (simp add: Let_def migrate_all_workers_k_gating_def a_def)
qed

theorem remote_flip_strands_jobs_witness:
  "fst (adaptive_apply Ad_pop
      (hd (hd (migrate_all_workers_k_gating CounterOnly
        [[fst (snd (run_ops adaptive_apply [Ad_push (some_job 1)] (fresh_pair 2 PerSlot)))]])),
       snd (snd (run_ops adaptive_apply [Ad_push (some_job 1)] (fresh_pair 2 PerSlot))))) = Ad_nothing"
  using remote_flip_strands_jobs [of "[Ad_push (some_job 1)]" "[]" CounterOnly PerSlot 2]
  by (simp add: Let_def gating_tag_def)

end
