(* ===== verification/Work_Search.thy ===== *)
theory Work_Search
  imports Adaptive_Worker Flynnel_Ring
begin

text \<open>
  A worker's side of the pool (\<open>sched/arena_local.rs\<close>): its pushes, the search for one job
  (\<open>find_work\<close>), the search of the worker's main loop and a waiter's \<open>try_run_one\<close>, over the
  deques, mailboxes and the injector (\<open>sched/injector.rs\<close>) that the workers share, one operation
  at a time. Prefetches have no effect and are left out; a wake is logged, not performed.
\<close>

section \<open>The injector\<close>

datatype 'a injector_steal = Injector_success 'a | Injector_empty | Injector_retry

definition DEFAULT_INJECTOR_CAPACITY :: nat where "DEFAULT_INJECTOR_CAPACITY = 4096"

definition injector_with_capacity :: "nat \<Rightarrow> 'a ring" where
  "injector_with_capacity cap = fr_new cap"

definition injector_new :: "'a ring" where
  "injector_new = injector_with_capacity DEFAULT_INJECTOR_CAPACITY"

text \<open>A push into a full ring spins; with nobody else running it does not return.\<close>

definition injector_push :: "'a \<Rightarrow> 'a ring \<Rightarrow> 'a ring option" where
  "injector_push x r = (case fr_push 1 r x of Some (Push_ok, r') \<Rightarrow> Some r' | _ \<Rightarrow> None)"

definition injector_try_push :: "'a \<Rightarrow> 'a ring \<Rightarrow> (('a + unit) \<times> 'a ring) option" where
  "injector_try_push x r =
     map_option (\<lambda>(p, r'). (case p of Push_ok \<Rightarrow> Inr () | Push_full y \<Rightarrow> Inl y, r')) (fr_push 1 r x)"

definition injector_steal :: "'a ring \<Rightarrow> ('a injector_steal \<times> 'a ring) option" where
  "injector_steal r =
     map_option (\<lambda>(p, r'). (case p of Pop_ok x \<Rightarrow> Injector_success x | Pop_empty \<Rightarrow> Injector_empty, r')) (fr_pop 1 r)"

section \<open>The pool and one of its workers\<close>

datatype wake = Internal_jobs u32 bool | Wake_worker nat

text \<open>
  The shared half: every worker's and slot's four deques, the mailboxes, the injector, the
  claimed slots, the counters a thief adds to its victim, and the log of wakes.
\<close>

record 'j pool =
  pl_deques :: "'j adaptive_worker list list"
  pl_mailboxes :: "'j job_ref ring list"
  pl_mailbox_used :: bool
  pl_injector :: "'j job_ref ring"
  pl_n_workers :: nat
  pl_slot_held :: "bool list"
  pl_claimed :: u64
  pl_stolen_from :: "u64 list"
  pl_wakes :: "wake list"

text \<open>The worker's own half; \<open>wc_use_jec_wake\<close> is the thread's \<open>DISPATCH_USE_JEC_WAKE\<close>.\<close>

record worker_stats =
  ws_local_pops :: u64
  ws_peer_steal_hits :: u64
  ws_peer_steal_misses :: u64
  ws_single_pushes :: u64
  ws_burst_pushes :: u64
  ws_push_refusals :: u64

record 'j worker_ctx =
  wc_index :: nat
  wc_ccx_size :: u64
  wc_stash :: "'j adaptive_stash"
  wc_rng :: u64
  wc_last_victim :: u64
  wc_burst_pushed :: u32
  wc_use_jec_wake :: bool
  wc_stats :: worker_stats

type_synonym 'j search = "'j worker_ctx \<times> 'j pool"

definition NO_VICTIM :: u64 where "NO_VICTIM = - 1"
definition N_TIERS :: nat where "N_TIERS = 4"
definition RNG_SEED :: u64 where "RNG_SEED = 0x9E3779B97F4A7C15"

definition own_deque :: "nat \<Rightarrow> 'j search \<Rightarrow> 'j adaptive_worker" where
  "own_deque tier s = pl_deques (snd s) ! wc_index (fst s) ! tier"

definition set_deque :: "nat \<Rightarrow> nat \<Rightarrow> 'j adaptive_worker \<Rightarrow> 'j pool \<Rightarrow> 'j pool" where
  "set_deque w tier a p = p\<lparr>pl_deques := (pl_deques p)[w := (pl_deques p ! w)[tier := a]]\<rparr>"

definition log_wake :: "wake \<Rightarrow> 'j pool \<Rightarrow> 'j pool" where
  "log_wake w p = p\<lparr>pl_wakes := pl_wakes p @ [w]\<rparr>"

section \<open>Pushes\<close>

definition ctx_push_to_mailbox :: "nat \<Rightarrow> 'j job_ref \<Rightarrow> 'j search \<Rightarrow> (('j job_ref + unit) \<times> 'j search) option" where
  "ctx_push_to_mailbox target j s =
     (let p = snd s in
      if length (pl_mailboxes p) \<le> target then Some (Inl j, s)
      else map_option
        (\<lambda>(r, ring). case r of
             Push_full j' \<Rightarrow> (Inl j', fst s, p\<lparr>pl_mailboxes := (pl_mailboxes p)[target := ring]\<rparr>)
           | Push_ok \<Rightarrow> (Inr (), fst s, log_wake (Wake_worker target)
               (p\<lparr>pl_mailboxes := (pl_mailboxes p)[target := ring], pl_mailbox_used := True\<rparr>)))
        (fr_push 1 (pl_mailboxes p ! target) j))"

definition sat_inc32 :: "u32 \<Rightarrow> u32" where
  "sat_inc32 n = (if n = - 1 then n else n + 1)"

definition push_tier_burst :: "'j job_ref \<Rightarrow> deque_tier \<Rightarrow> 'j search \<Rightarrow> 'j search option" where
  "push_tier_burst j tier s =
     map_option (\<lambda>a. ((fst s)\<lparr>wc_burst_pushed := sat_inc32 (wc_burst_pushed (fst s)),
           wc_stats := (wc_stats (fst s))\<lparr>ws_burst_pushes := ws_burst_pushes (wc_stats (fst s)) + 1\<rparr>\<rparr>,
         set_deque (wc_index (fst s)) (deque_tier_idx tier) a (snd s)))
       (ad_push_burst j (own_deque (deque_tier_idx tier) s))"

definition ctx_push_burst :: "'j job_ref \<Rightarrow> 'j search \<Rightarrow> 'j search option" where
  "ctx_push_burst j s = push_tier_burst j deque_tier_default s"

fun flush_tiers :: "deque_tier list \<Rightarrow> 'j search \<Rightarrow> 'j search option" where
  "flush_tiers [] s = Some s"
| "flush_tiers (t # ts) s =
     (case ad_flush (own_deque (deque_tier_idx t) s) of
        None \<Rightarrow> None
      | Some a \<Rightarrow> flush_tiers ts (fst s, set_deque (wc_index (fst s)) (deque_tier_idx t) a (snd s)))"

definition flush_all :: "'j search \<Rightarrow> 'j search option" where
  "flush_all s =
     map_option
       (\<lambda>(c, p). let n = wc_burst_pushed c; c = c\<lparr>wc_burst_pushed := 0\<rparr>
                 in if 0 < n \<and> wc_use_jec_wake c then (c, log_wake (Internal_jobs n True) p) else (c, p))
       (flush_tiers deque_tier_all s)"

definition try_push_tier ::
  "'j job_ref \<Rightarrow> deque_tier \<Rightarrow> 'j search \<Rightarrow> ('j job_ref option + unit) \<times> 'j search" where
  "try_push_tier j tier s =
     (let c = fst s; st = wc_stats c;
          any_was_empty = list_all ad_is_empty (pl_deques (snd s) ! wc_index c);
          (r, a) = ad_try_push j (own_deque (deque_tier_idx tier) s);
          p = set_deque (wc_index c) (deque_tier_idx tier) a (snd s)
      in case r of
           Inl j' \<Rightarrow> (Inl j', c\<lparr>wc_stats := st\<lparr>ws_push_refusals := ws_push_refusals st + 1\<rparr>\<rparr>, p)
         | Inr u \<Rightarrow>
             (Inr (), c\<lparr>wc_stats := st\<lparr>ws_single_pushes := ws_single_pushes st + 1\<rparr>\<rparr>,
              if wc_use_jec_wake c then log_wake (Internal_jobs 1 any_was_empty) p else p))"

definition ctx_try_push :: "'j job_ref \<Rightarrow> 'j search \<Rightarrow> ('j job_ref option + unit) \<times> 'j search" where
  "ctx_try_push j s = try_push_tier j deque_tier_default s"

definition arena_submit :: "'j job_ref \<Rightarrow> 'j pool \<Rightarrow> 'j pool option" where
  "arena_submit j p =
     (let was_empty = fr_is_empty (pl_injector p)
      in map_option (\<lambda>r. log_wake (Internal_jobs 1 was_empty) (p\<lparr>pl_injector := r\<rparr>))
           (injector_push j (pl_injector p)))"

section \<open>Finding one job\<close>

text \<open>\<open>Broken\<close> is a null slot that was unpacked or a ring operation that did not return.\<close>

datatype 'j found = Found "'j job_ref" | Nothing_found | Broken

definition as_found :: "'j job_ref steal option \<Rightarrow> 'j found" where
  "as_found r = (case r of None \<Rightarrow> Broken | Some (Success j) \<Rightarrow> Found j | Some _ \<Rightarrow> Nothing_found)"

definition or_else :: "'j found \<times> 's \<Rightarrow> ('s \<Rightarrow> 'j found \<times> 's) \<Rightarrow> 'j found \<times> 's" where
  "or_else r f = (case r of (Nothing_found, s) \<Rightarrow> f s | (x, s) \<Rightarrow> (x, s))"

definition own_pop :: "deque_tier \<Rightarrow> 'j search \<Rightarrow> 'j found \<times> 'j search" where
  "own_pop tier s =
     (let (r, a) = ad_pop (own_deque (deque_tier_idx tier) s)
      in (as_found r, fst s, set_deque (wc_index (fst s)) (deque_tier_idx tier) a (snd s)))"

fun own_pops :: "deque_tier list \<Rightarrow> 'j search \<Rightarrow> 'j found \<times> 'j search" where
  "own_pops [] s = (Nothing_found, s)"
| "own_pops (t # ts) s = or_else (own_pop t s) (own_pops ts)"

definition drain_stash :: "'j search \<Rightarrow> 'j found \<times> 'j search" where
  "drain_stash s =
     (let (r, st) = adaptive_drain_one (wc_stash (fst s)) in (as_found r, (fst s)\<lparr>wc_stash := st\<rparr>, snd s))"

definition mailbox_pop :: "'j search \<Rightarrow> 'j found \<times> 'j search" where
  "mailbox_pop s =
     (case fr_pop 1 (pl_mailboxes (snd s) ! wc_index (fst s)) of
        None \<Rightarrow> (Broken, s)
      | Some (r, ring) \<Rightarrow>
          (case r of Pop_ok j \<Rightarrow> Found j | Pop_empty \<Rightarrow> Nothing_found,
           fst s, (snd s)\<lparr>pl_mailboxes := (pl_mailboxes (snd s))[wc_index (fst s) := ring]\<rparr>))"

definition gated_mailbox_pop :: "'j search \<Rightarrow> 'j found \<times> 'j search" where
  "gated_mailbox_pop s = (if pl_mailbox_used (snd s) then mailbox_pop s else (Nothing_found, s))"

definition injector_take :: "'j search \<Rightarrow> 'j found \<times> 'j search" where
  "injector_take s =
     (case injector_steal (pl_injector (snd s)) of
        None \<Rightarrow> (Broken, s)
      | Some (r, ring) \<Rightarrow>
          (case r of Injector_success j \<Rightarrow> Found j | _ \<Rightarrow> Nothing_found, fst s, (snd s)\<lparr>pl_injector := ring\<rparr>))"

text \<open>One steal from one deque of a peer, through the worker's stash.\<close>

definition steal_tier :: "nat \<Rightarrow> nat \<Rightarrow> 'j search \<Rightarrow> 'j job_ref steal option \<times> 'j search" where
  "steal_tier peer tier s =
     (let (r, a, st) = steal_via_stash (pl_deques (snd s) ! peer ! tier) (wc_stash (fst s))
      in (r, (fst s)\<lparr>wc_stash := st\<rparr>, set_deque peer tier a (snd s)))"

definition note_steal :: "nat \<Rightarrow> 'j search \<Rightarrow> 'j search" where
  "note_steal peer s =
     ((fst s)\<lparr>wc_last_victim := of_nat peer\<rparr>,
      if peer < length (pl_stolen_from (snd s))
      then (snd s)\<lparr>pl_stolen_from := (pl_stolen_from (snd s))[peer := pl_stolen_from (snd s) ! peer + 1]\<rparr>
      else snd s)"

fun steal_tiers :: "nat \<Rightarrow> nat list \<Rightarrow> 'j search \<Rightarrow> 'j found \<times> 'j search" where
  "steal_tiers peer [] s = (Nothing_found, s)"
| "steal_tiers peer (t # ts) s =
     (let (r, s) = steal_tier peer t s
      in case r of
           Some (Success j) \<Rightarrow> (Found j, note_steal peer s)
         | None \<Rightarrow> (Broken, s)
         | Some _ \<Rightarrow> steal_tiers peer ts s)"

definition distance_to :: "nat \<Rightarrow> 'j search \<Rightarrow> nat" where
  "distance_to peer s = deque_tier_idx (peer_distance (of_nat (wc_index (fst s))) (of_nat peer) (wc_ccx_size (fst s)))"

definition steal_from_peer_tiered :: "nat \<Rightarrow> 'j search \<Rightarrow> 'j found \<times> 'j search" where
  "steal_from_peer_tiered peer s =
     (if peer = wc_index (fst s) \<or> length (pl_deques (snd s)) \<le> peer then (Nothing_found, s)
      else steal_tiers peer [distance_to peer s..<N_TIERS] s)"

text \<open>The held slots, from the lowest bit of the mask.\<close>

definition claimed_ids :: "u64 \<Rightarrow> nat list" where
  "claimed_ids m = filter (bit m) [0..<64]"

fun probe_slots :: "nat list \<Rightarrow> 'j search \<Rightarrow> 'j found \<times> 'j search" where
  "probe_slots [] s = (Nothing_found, s)"
| "probe_slots (i # is) s =
     or_else (steal_from_peer_tiered (pl_n_workers (snd s) + i) s) (probe_slots is)"

definition probe_last :: "'j search \<Rightarrow> 'j found \<times> 'j search" where
  "probe_last s =
     (let last = wc_last_victim (fst s)
      in if last \<noteq> NO_VICTIM \<and> unat last \<noteq> wc_index (fst s) \<and> unat last < length (pl_deques (snd s))
         then steal_from_peer_tiered (unat last) s else (Nothing_found, s))"

definition xorshift64 :: "u64 \<Rightarrow> u64" where
  "xorshift64 x =
     (let x = x XOR push_bit 13 x; x = x XOR drop_bit 7 x in x XOR push_bit 17 x)"

text \<open>The remainder by the number of workers, one further where it is the worker itself.\<close>

definition victim_of :: "u64 \<Rightarrow> nat \<Rightarrow> nat \<Rightarrow> nat" where
  "victim_of x self_idx n = (let v = unat x mod n in if v = self_idx then (v + 1) mod n else v)"

definition probe_random :: "'j search \<Rightarrow> 'j found \<times> 'j search" where
  "probe_random s =
     (let n = pl_n_workers (snd s) in
      if n < 2 then (Nothing_found, s)
      else let x = xorshift64 (if wc_rng (fst s) = 0 then RNG_SEED else wc_rng (fst s))
           in steal_from_peer_tiered (victim_of x (wc_index (fst s)) n) ((fst s)\<lparr>wc_rng := x\<rparr>, snd s))"

definition find_elsewhere :: "'j search \<Rightarrow> 'j found \<times> 'j search" where
  "find_elsewhere s =
     (if length (pl_deques (snd s)) < 2 then (Nothing_found, s)
      else or_else (probe_slots (claimed_ids (pl_claimed (snd s))) s)
             (\<lambda>s. or_else (probe_last s) probe_random))"

definition find_work :: "'j search \<Rightarrow> 'j found \<times> 'j search" where
  "find_work s =
     or_else (own_pop Public s)
       (\<lambda>s. or_else (drain_stash s)
       (\<lambda>s. or_else (gated_mailbox_pop s)
       (\<lambda>s. or_else (own_pops [SmtLocal, IntraCcx, CrossCcx] s)
       (\<lambda>s. or_else (injector_take s) find_elsewhere))))"

section \<open>The search of the main loop\<close>

definition PROBE_FULL_CUTOFF :: nat where "PROBE_FULL_CUTOFF = 8"
definition PROBE_LARGE :: nat where "PROBE_LARGE = 4"

definition pick_victim :: "u64 \<Rightarrow> nat \<Rightarrow> nat \<Rightarrow> nat \<times> u64" where
  "pick_victim state self_idx n = (let x = xorshift64 state in (victim_of x self_idx n, x))"

definition probe_count :: "nat \<Rightarrow> nat" where
  "probe_count n = (if n \<le> PROBE_FULL_CUTOFF then n - 1 else PROBE_LARGE)"

definition note_stats :: "(worker_stats \<Rightarrow> worker_stats) \<Rightarrow> 'j search \<Rightarrow> 'j search" where
  "note_stats f s = ((fst s)\<lparr>wc_stats := f (wc_stats (fst s))\<rparr>, snd s)"

text \<open>A lost race is retried once.\<close>

definition steal_tier_retrying :: "nat \<Rightarrow> nat \<Rightarrow> 'j search \<Rightarrow> 'j job_ref steal option \<times> 'j search" where
  "steal_tier_retrying peer tier s =
     (let (r, s1) = steal_tier peer tier s
      in if r = Some Retry then steal_tier peer tier s1 else (r, s1))"

fun loop_tiers :: "nat \<Rightarrow> nat list \<Rightarrow> 'j search \<Rightarrow> 'j found \<times> 'j search" where
  "loop_tiers victim [] s = (Nothing_found, s)"
| "loop_tiers victim (t # ts) s =
     (let (r, s) = steal_tier_retrying victim t s
      in case r of
           Some (Success j) \<Rightarrow>
             (Found j, note_steal victim (note_stats (\<lambda>w. w\<lparr>ws_peer_steal_hits := ws_peer_steal_hits w + 1\<rparr>) s))
         | None \<Rightarrow> (Broken, s)
         | Some _ \<Rightarrow> loop_tiers victim ts s)"

text \<open>The victims in rotated order, the worker itself left out, up to the count.\<close>

fun probe_peers :: "nat \<Rightarrow> nat list \<Rightarrow> 'j search \<Rightarrow> 'j found \<times> 'j search" where
  "probe_peers budget [] s = (Nothing_found, s)"
| "probe_peers budget (v # vs) s =
     (if budget = 0 then (Nothing_found, s)
      else if v = wc_index (fst s) then probe_peers budget vs s
      else or_else (loop_tiers v [distance_to v s..<N_TIERS] s) (probe_peers (budget - 1) vs))"

definition probe_round :: "u64 \<Rightarrow> 'j search \<Rightarrow> 'j found \<times> 'j search \<times> u64" where
  "probe_round rng s =
     (let n = pl_n_workers (snd s) in
      if n < 2 then (Nothing_found, s, rng)
      else let (start, rng) = pick_victim rng (wc_index (fst s)) n;
               (r, s) = probe_peers (probe_count n) (map (\<lambda>i. (start + i) mod n) [0..<n]) s
           in (r, if r = Nothing_found
                  then note_stats (\<lambda>w. w\<lparr>ws_peer_steal_misses := ws_peer_steal_misses w + 1\<rparr>) s else s, rng))"

definition counting_pop :: "'j found \<times> 'j search \<Rightarrow> 'j found \<times> 'j search" where
  "counting_pop r =
     (case r of
        (Found j, s) \<Rightarrow> (Found j, note_stats (\<lambda>w. w\<lparr>ws_local_pops := ws_local_pops w + 1\<rparr>) s)
      | (x, s) \<Rightarrow> (x, s))"

definition worker_round :: "u64 \<Rightarrow> 'j search \<Rightarrow> 'j found \<times> 'j search \<times> u64" where
  "worker_round rng s =
     (case or_else (drain_stash s)
        (\<lambda>s. or_else (counting_pop (mailbox_pop s))
        (\<lambda>s. or_else (counting_pop (own_pops deque_tier_all s))
        (\<lambda>s. or_else (injector_take s) (\<lambda>s. probe_slots (claimed_ids (pl_claimed (snd s))) s)))) of
        (Nothing_found, s) \<Rightarrow> probe_round rng s
      | (r, s) \<Rightarrow> (r, s, rng))"

text \<open>What the parking worker looks at again before it sleeps.\<close>

definition park_sees_work :: "'j search \<Rightarrow> bool" where
  "park_sees_work s \<longleftrightarrow> \<not> fr_is_empty (pl_injector (snd s))
     \<or> pl_mailbox_used (snd s) \<and> \<not> fr_is_empty (pl_mailboxes (snd s) ! wc_index (fst s))"

section \<open>A waiter from outside\<close>

text \<open>\<open>stash\<close> is the calling thread's; the job is run at once, its effects are not modelled.\<close>

definition try_run_one :: "u64 \<Rightarrow> 'j adaptive_stash \<Rightarrow> 'j pool \<Rightarrow> 'j found \<times> u64 \<times> 'j adaptive_stash \<times> 'j pool" where
  "try_run_one rng stash p =
     (case injector_steal (pl_injector p) of
        None \<Rightarrow> (Broken, rng, stash, p)
      | Some (Injector_success j, ring) \<Rightarrow> (Found j, rng, stash, p\<lparr>pl_injector := ring\<rparr>)
      | Some (_, ring) \<Rightarrow>
          let p = p\<lparr>pl_injector := ring\<rparr>; n = length (pl_deques p) in
          if n = 0 then (Nothing_found, rng, stash, p)
          else let x = xorshift64 (if rng = 0 then RNG_SEED else rng);
                   idx = unat x mod n;
                   (r, stash') = adaptive_drain_one stash
               in if r \<noteq> Some Empty then (as_found r, x, stash', p)
                  else let (r, a, stash') =
                             steal_via_stash (pl_deques p ! idx ! deque_tier_idx Public) stash'
                       in (as_found r, x, stash', set_deque idx (deque_tier_idx Public) a p))"

section \<open>The arena\<close>

definition EXTERNAL_SLOT_COUNT :: nat where "EXTERNAL_SLOT_COUNT = 32"
definition EXTERNAL_SLOT_DEQUE_CAPACITY :: nat where "EXTERNAL_SLOT_DEQUE_CAPACITY = 64"
definition ADAPTIVE_SLOT_CAPACITY :: nat where "ADAPTIVE_SLOT_CAPACITY = 256"
definition WORKER_MAILBOX_CAPACITY :: nat where "WORKER_MAILBOX_CAPACITY = 16"

definition worker_total :: "nat \<Rightarrow> nat \<Rightarrow> nat" where
  "worker_total primary_count smt_extension = max primary_count 1 + smt_extension"

text \<open>\<open>gating\<close> is what \<open>KGating::Auto\<close> resolved to.\<close>

definition arena_pool :: "nat \<Rightarrow> nat \<Rightarrow> k_gating \<Rightarrow> 'j pool" where
  "arena_pool primary_count smt_extension gating =
     (let n = worker_total primary_count smt_extension; total = n + EXTERNAL_SLOT_COUNT
      in \<lparr>pl_deques = replicate n (replicate N_TIERS (new_adaptive ADAPTIVE_SLOT_CAPACITY gating))
            @ replicate EXTERNAL_SLOT_COUNT (replicate N_TIERS (new_adaptive EXTERNAL_SLOT_DEQUE_CAPACITY gating)),
          pl_mailboxes = replicate total (fr_new WORKER_MAILBOX_CAPACITY),
          pl_mailbox_used = False,
          pl_injector = injector_new,
          pl_n_workers = n,
          pl_slot_held = replicate EXTERNAL_SLOT_COUNT False,
          pl_claimed = 0,
          pl_stolen_from = replicate total 0,
          pl_wakes = []\<rparr>)"

definition new_ctx :: "u64 \<Rightarrow> nat \<Rightarrow> 'j worker_ctx" where
  "new_ctx ccx_size idx =
     \<lparr>wc_index = idx, wc_ccx_size = ccx_size, wc_stash = (stash_empty, stash_empty),
      wc_rng = RNG_SEED * (of_nat idx + 1), wc_last_victim = NO_VICTIM, wc_burst_pushed = 0, wc_use_jec_wake = False,
      wc_stats = \<lparr>ws_local_pops = 0, ws_peer_steal_hits = 0, ws_peer_steal_misses = 0, ws_single_pushes = 0,
        ws_burst_pushes = 0, ws_push_refusals = 0\<rparr>\<rparr>"

text \<open>The first free slot is taken, and its context reset for the new caller.\<close>

fun first_free :: "nat \<Rightarrow> bool list \<Rightarrow> nat option" where
  "first_free i [] = None"
| "first_free i (held # hs) = (if held then first_free (Suc i) hs else Some i)"

definition reset_ctx :: "'j worker_ctx \<Rightarrow> 'j worker_ctx" where
  "reset_ctx c = c\<lparr>wc_rng := RNG_SEED * (of_nat (wc_index c) + 1), wc_last_victim := NO_VICTIM, wc_burst_pushed := 0\<rparr>"

definition try_claim_external_slot :: "'j pool \<Rightarrow> nat option \<times> 'j pool" where
  "try_claim_external_slot p =
     (case first_free 0 (pl_slot_held p) of
        None \<Rightarrow> (None, p)
      | Some i \<Rightarrow>
          (Some i, p\<lparr>pl_slot_held := (pl_slot_held p)[i := True], pl_claimed := pl_claimed p OR push_bit i 1\<rparr>))"

definition release_slot :: "nat \<Rightarrow> 'j pool \<Rightarrow> 'j pool" where
  "release_slot i p =
     p\<lparr>pl_claimed := pl_claimed p AND NOT (push_bit i 1), pl_slot_held := (pl_slot_held p)[i := False]\<rparr>"

section \<open>All the workers\<close>

text \<open>An operation of the worker at an index; a submission has no worker.\<close>

datatype 'j pool_op =
    Pl_try_push deque_tier "'j job_ref"
  | Pl_push_burst deque_tier "'j job_ref"
  | Pl_flush
  | Pl_to_mailbox nat "'j job_ref"
  | Pl_find_work
  | Pl_round u64
  | Pl_submit "'j job_ref"
  | Pl_claim
  | Pl_release nat

datatype 'j pool_answer = Pl_ok | Pl_refused "'j job_ref" | Pl_spins | Pl_took "'j job_ref" | Pl_nothing | Pl_broken

type_synonym 'j arena = "'j worker_ctx list \<times> 'j pool"

definition back_in :: "nat \<Rightarrow> 'j arena \<Rightarrow> 'j search \<Rightarrow> 'j arena" where
  "back_in i s t = ((fst s)[i := fst t], snd t)"

definition search_answer :: "'j found \<Rightarrow> 'j pool_answer" where
  "search_answer r = (case r of Found j \<Rightarrow> Pl_took j | Nothing_found \<Rightarrow> Pl_nothing | Broken \<Rightarrow> Pl_broken)"

definition push_answer :: "'j job_ref option + unit \<Rightarrow> 'j pool_answer" where
  "push_answer r = (case r of Inr u \<Rightarrow> Pl_ok | Inl (Some j) \<Rightarrow> Pl_refused j | Inl None \<Rightarrow> Pl_broken)"

fun worker_apply :: "'j pool_op \<Rightarrow> 'j search \<Rightarrow> 'j pool_answer \<times> 'j search" where
  "worker_apply (Pl_try_push t j) s = (let (r, s') = try_push_tier j t s in (push_answer r, s'))"
| "worker_apply (Pl_push_burst t j) s =
     (case push_tier_burst j t s of None \<Rightarrow> (Pl_spins, s) | Some s' \<Rightarrow> (Pl_ok, s'))"
| "worker_apply Pl_flush s = (case flush_all s of None \<Rightarrow> (Pl_spins, s) | Some s' \<Rightarrow> (Pl_ok, s'))"
| "worker_apply (Pl_to_mailbox t j) s =
     (case ctx_push_to_mailbox t j s of
        None \<Rightarrow> (Pl_broken, s)
      | Some (Inl j', s') \<Rightarrow> (Pl_refused j', s')
      | Some (Inr u, s') \<Rightarrow> (Pl_ok, s'))"
| "worker_apply Pl_find_work s = (let (r, s') = find_work s in (search_answer r, s'))"
| "worker_apply (Pl_round rng) s = (let (r, s', _) = worker_round rng s in (search_answer r, s'))"
| "worker_apply (Pl_submit j) s =
     (case arena_submit j (snd s) of None \<Rightarrow> (Pl_spins, s) | Some p \<Rightarrow> (Pl_ok, fst s, p))"
| "worker_apply Pl_claim s =
     (case try_claim_external_slot (snd s) of
        (None, p) \<Rightarrow> (Pl_nothing, fst s, p)
      | (Some i, p) \<Rightarrow> (Pl_ok, fst s, p))"
| "worker_apply (Pl_release i) s = (Pl_ok, fst s, release_slot i (snd s))"

text \<open>The claimed slot's own context, at the index after the workers', is reset by the claim.\<close>

fun claim_resets :: "'j pool_op \<Rightarrow> 'j pool \<Rightarrow> 'j worker_ctx list \<Rightarrow> 'j worker_ctx list" where
  "claim_resets Pl_claim p cs =
     (case fst (try_claim_external_slot p) of
        None \<Rightarrow> cs
      | Some i \<Rightarrow> let k = pl_n_workers p + i in cs[k := reset_ctx (cs ! k)])"
| "claim_resets _ p cs = cs"

definition pool_apply :: "nat \<times> 'j pool_op \<Rightarrow> 'j arena \<Rightarrow> 'j pool_answer \<times> 'j arena" where
  "pool_apply op s =
     (if fst op < length (fst s)
      then let (r, t) = worker_apply (snd op) (fst s ! fst op, snd s); (cs, p) = back_in (fst op) s t
           in (r, claim_resets (snd op) (snd s) cs, p)
      else (Pl_nothing, s))"

definition arena_start :: "nat \<Rightarrow> nat \<Rightarrow> u64 \<Rightarrow> k_gating \<Rightarrow> 'j arena" where
  "arena_start primary_count smt_extension ccx_size gating =
     (map (new_ctx ccx_size) [0..<worker_total primary_count smt_extension + EXTERNAL_SLOT_COUNT],
      arena_pool primary_count smt_extension gating)"

end
