(* ===== verification/Work_Laws.thy ===== *)
theory Work_Laws
  imports Work_Search Adaptive_Laws
begin

text \<open>
  What one probe of the search does to the jobs of the pool, and what it has seen when it
  answers that there is nothing.
\<close>

section \<open>The jobs of a pool\<close>

definition ring_bag :: "'j job_ref ring \<Rightarrow> 'j multiset" where
  "ring_bag r = mset (map job_body (fr_abs r))"

definition deques_bag :: "'j adaptive_worker list list \<Rightarrow> 'j multiset" where
  "deques_bag ds = sum_list (map (\<lambda>ws. sum_list (map adaptive_bag ws)) ds)"

definition pool_bag :: "'j pool \<Rightarrow> 'j multiset" where
  "pool_bag p = deques_bag (pl_deques p) + sum_list (map ring_bag (pl_mailboxes p)) + ring_bag (pl_injector p)"

definition search_bag :: "'j search \<Rightarrow> 'j multiset" where
  "search_bag s = pool_bag (snd s) + thief_bag (wc_stash (fst s))"

definition pool_ok :: "'j pool \<Rightarrow> bool" where
  "pool_ok p \<longleftrightarrow> (\<forall>ws \<in> set (pl_deques p). length ws = N_TIERS \<and> (\<forall>a \<in> set ws. adaptive_inv True a))
     \<and> (\<forall>r \<in> set (pl_mailboxes p). fr_ok r) \<and> fr_ok (pl_injector p) \<and> pl_n_workers p \<le> length (pl_deques p)"

definition search_ok :: "'j search \<Rightarrow> bool" where
  "search_ok s \<longleftrightarrow> pool_ok (snd s) \<and> thief_ok (wc_stash (fst s))
     \<and> wc_index (fst s) < length (pl_deques (snd s)) \<and> wc_index (fst s) < length (pl_mailboxes (snd s))"

definition deque_at :: "'j search \<Rightarrow> nat \<Rightarrow> nat \<Rightarrow> 'j adaptive_worker" where
  "deque_at s w t = pl_deques (snd s) ! w ! t"

lemma deque_at_ok:
  assumes "pool_ok (snd s)" "w < length (pl_deques (snd s))" "t < N_TIERS"
  shows "adaptive_inv True (deque_at s w t)" "length (pl_deques (snd s) ! w) = N_TIERS"
proof -
  have ws: "pl_deques (snd s) ! w \<in> set (pl_deques (snd s))" using assms(2) by simp
  then show len: "length (pl_deques (snd s) ! w) = N_TIERS" using assms(1) by (auto simp: pool_ok_def)
  then have "deque_at s w t \<in> set (pl_deques (snd s) ! w)" using assms(3) by (simp add: deque_at_def)
  with ws show "adaptive_inv True (deque_at s w t)" using assms(1) by (auto simp: pool_ok_def)
qed

lemma sum_list_update:
  fixes f :: "'x \<Rightarrow> 'm :: comm_monoid_add"
  assumes "i < length xs"
  shows "sum_list (map f (xs[i := x])) + f (xs ! i) = sum_list (map f xs) + f x"
  using assms
proof (induction xs arbitrary: i)
  case (Cons y ys)
  then show ?case by (cases i) (auto simp: ac_simps)
qed simp

lemma set_deque_bag:
  assumes "pool_ok p" "w < length (pl_deques p)" "t < N_TIERS"
  shows "pool_bag (set_deque w t a p) + adaptive_bag (pl_deques p ! w ! t) = pool_bag p + adaptive_bag a"
proof -
  let ?ws = "pl_deques p ! w"
  have len: "t < length ?ws" using deque_at_ok(2) [of "(undefined, p)" w t] assms by simp
  have inner: "sum_list (map adaptive_bag (?ws[t := a])) + adaptive_bag (?ws ! t)
      = sum_list (map adaptive_bag ?ws) + adaptive_bag a" by (rule sum_list_update [OF len])
  have outer: "deques_bag ((pl_deques p)[w := ?ws[t := a]]) + sum_list (map adaptive_bag ?ws)
      = deques_bag (pl_deques p) + sum_list (map adaptive_bag (?ws[t := a]))"
    unfolding deques_bag_def by (rule sum_list_update [OF assms(2)])
  have "deques_bag ((pl_deques p)[w := ?ws[t := a]]) + sum_list (map adaptive_bag ?ws) + adaptive_bag (?ws ! t)
      = deques_bag (pl_deques p) + (sum_list (map adaptive_bag (?ws[t := a])) + adaptive_bag (?ws ! t))"
    unfolding outer by (simp add: ac_simps)
  also have "\<dots> = deques_bag (pl_deques p) + adaptive_bag a + sum_list (map adaptive_bag ?ws)"
    unfolding inner by (simp add: ac_simps)
  finally have "deques_bag ((pl_deques p)[w := ?ws[t := a]]) + adaptive_bag (?ws ! t)
      = deques_bag (pl_deques p) + adaptive_bag a" by (simp add: ac_simps)
  then show ?thesis by (simp add: pool_bag_def set_deque_def ac_simps)
qed

lemma set_deque_ok:
  assumes "pool_ok p" "w < length (pl_deques p)" "adaptive_inv True a"
  shows "pool_ok (set_deque w t a p)"
proof -
  have "pl_deques p ! w \<in> set (pl_deques p)" using assms(2) by simp
  then have "length (pl_deques p ! w) = N_TIERS" "\<forall>b \<in> set ((pl_deques p ! w)[t := a]). adaptive_inv True b"
    using assms(1,3) set_update_subset_insert [of "pl_deques p ! w" t a] by (auto simp: pool_ok_def)
  then show ?thesis
    using assms(1) set_update_subset_insert [of "pl_deques p" w "(pl_deques p ! w)[t := a]"]
    by (auto simp: pool_ok_def set_deque_def)
qed

lemma set_deque_frame [simp]:
  "pl_mailboxes (set_deque w t a p) = pl_mailboxes p" "pl_injector (set_deque w t a p) = pl_injector p"
  "pl_n_workers (set_deque w t a p) = pl_n_workers p" "pl_claimed (set_deque w t a p) = pl_claimed p"
  "pl_mailbox_used (set_deque w t a p) = pl_mailbox_used p" "length (pl_deques (set_deque w t a p)) = length (pl_deques p)"
  by (simp_all add: set_deque_def)

section \<open>What a probe promises\<close>

text \<open>
  Nothing that matters to a later probe has changed: the same deques but for cleared flags, the
  same rings, the same stash.
\<close>

definition calm :: "'j search \<Rightarrow> 'j search \<Rightarrow> bool" where
  "calm s s' \<longleftrightarrow> length (pl_deques (snd s')) = length (pl_deques (snd s))
     \<and> (\<forall>w < length (pl_deques (snd s)). \<forall>t < N_TIERS. flag_cleared (deque_at s w t) (deque_at s' w t))
     \<and> pl_mailboxes (snd s') = pl_mailboxes (snd s) \<and> pl_injector (snd s') = pl_injector (snd s)
     \<and> wc_stash (fst s') = wc_stash (fst s)"

definition same_frame :: "'j search \<Rightarrow> 'j search \<Rightarrow> bool" where
  "same_frame s s' \<longleftrightarrow> wc_index (fst s') = wc_index (fst s) \<and> wc_ccx_size (fst s') = wc_ccx_size (fst s)
     \<and> pl_n_workers (snd s') = pl_n_workers (snd s) \<and> pl_claimed (snd s') = pl_claimed (snd s)
     \<and> pl_mailbox_used (snd s') = pl_mailbox_used (snd s)
     \<and> length (pl_deques (snd s')) = length (pl_deques (snd s))
     \<and> length (pl_mailboxes (snd s')) = length (pl_mailboxes (snd s))"

definition probe_ok :: "'j search \<Rightarrow> 'j found \<times> 'j search \<Rightarrow> bool" where
  "probe_ok s r \<longleftrightarrow> search_ok (snd r) \<and> same_frame s (snd r)
     \<and> (case fst r of
          Found j \<Rightarrow> search_bag s = add_mset (job_body j) (search_bag (snd r))
        | Nothing_found \<Rightarrow> search_bag (snd r) = search_bag s \<and> calm s (snd r)
        | Broken \<Rightarrow> False)"

lemma flag_cleared_trans: "flag_cleared a b \<Longrightarrow> flag_cleared b c \<Longrightarrow> flag_cleared a c"
  by (auto simp: flag_cleared_def)

lemma calm_trans: "calm s t \<Longrightarrow> calm t u \<Longrightarrow> calm s u"
  unfolding calm_def using flag_cleared_trans by (metis (no_types, lifting))

lemma calm_refl [simp]: "calm s s"
  by (simp add: calm_def)

lemma same_frame_trans: "same_frame s t \<Longrightarrow> same_frame t u \<Longrightarrow> same_frame s u"
  by (simp add: same_frame_def)

lemma same_frame_refl [simp]: "same_frame s s"
  by (simp add: same_frame_def)

lemma probe_nothing [simp]: "probe_ok s (Nothing_found, s) \<longleftrightarrow> search_ok s"
  by (simp add: probe_ok_def)

lemma or_else_ok:
  assumes "probe_ok s r" "\<And>s'. r = (Nothing_found, s') \<Longrightarrow> search_ok s' \<Longrightarrow> calm s s' \<Longrightarrow> same_frame s s' \<Longrightarrow> probe_ok s' (f s')"
  shows "probe_ok s (or_else r f)"
proof (cases "fst r")
  case Nothing_found
  then obtain s' where r: "r = (Nothing_found, s')" by (cases r) simp
  have s': "search_ok s'" "calm s s'" "same_frame s s'" "search_bag s' = search_bag s"
    using assms(1) r by (simp_all add: probe_ok_def)
  have "probe_ok s' (f s')" using assms(2) [OF r] s' by simp
  then show ?thesis
    using r s'(4) calm_trans [OF s'(2), of "snd (f s')"] same_frame_trans [OF s'(3), of "snd (f s')"]
    by (auto simp: or_else_def probe_ok_def split: found.splits)
qed (use assms(1) in \<open>cases r; simp add: or_else_def\<close>)+

lemma or_else_nothing:
  assumes "fst (or_else r f) = Nothing_found"
  obtains s' where "r = (Nothing_found, s')" "fst (f s') = Nothing_found" "or_else r f = f s'"
  using assms by (cases r; cases "fst r") (auto simp: or_else_def)

section \<open>The probes of the worker's own work\<close>

lemma replaced_deque_ok:
  assumes "search_ok s" "w < length (pl_deques (snd s))" "t < N_TIERS" "adaptive_inv True a" "thief_ok st"
  shows "search_ok ((fst s)\<lparr>wc_stash := st\<rparr>, set_deque w t a (snd s))"
    "same_frame s ((fst s)\<lparr>wc_stash := st\<rparr>, set_deque w t a (snd s))"
  using assms set_deque_ok by (auto simp: search_ok_def same_frame_def)

lemma replaced_deque_bag:
  assumes "search_ok s" "w < length (pl_deques (snd s))" "t < N_TIERS"
    "adaptive_bag (deque_at s w t) + thief_bag (wc_stash (fst s)) = b + (adaptive_bag a + thief_bag st)"
  shows "search_bag s = b + search_bag ((fst s)\<lparr>wc_stash := st\<rparr>, set_deque w t a (snd s))"
proof -
  have p: "pool_bag (set_deque w t a (snd s)) + adaptive_bag (deque_at s w t) = pool_bag (snd s) + adaptive_bag a"
    using set_deque_bag [of "snd s" w t a] assms(1-3) by (simp add: search_ok_def deque_at_def)
  have "search_bag s + adaptive_bag a = pool_bag (set_deque w t a (snd s)) + (adaptive_bag (deque_at s w t) + thief_bag (wc_stash (fst s)))"
    using p by (simp add: search_bag_def ac_simps)
  also have "\<dots> = b + (pool_bag (set_deque w t a (snd s)) + thief_bag st) + adaptive_bag a"
    unfolding assms(4) by (simp add: ac_simps)
  finally show ?thesis by (simp add: search_bag_def)
qed

lemma replaced_deque_calm:
  assumes "search_ok s" "w < length (pl_deques (snd s))" "flag_cleared (deque_at s w t) a" "t < N_TIERS"
  shows "calm s (fst s, set_deque w t a (snd s))"
  using assms deque_at_ok(2) [of s w t]
  by (auto simp: calm_def deque_at_def set_deque_def nth_list_update search_ok_def)

lemma own_pop_ok:
  assumes s: "search_ok s"
  shows "probe_ok s (own_pop tier s)"
proof -
  let ?w = "wc_index (fst s)" and ?t = "deque_tier_idx tier"
  have w: "?w < length (pl_deques (snd s))" "?t < N_TIERS"
    using s by (cases tier; simp add: search_ok_def N_TIERS_def)+
  obtain r a where pop: "ad_pop (deque_at s ?w ?t) = (r, a)" by (cases "ad_pop (deque_at s ?w ?t)")
  have own: "own_pop tier s = (as_found r, fst s, set_deque ?w ?t a (snd s))"
    using pop by (simp add: own_pop_def own_deque_def deque_at_def)
  have p: "pop_promise True (deque_at s ?w ?t) r a"
    using ad_pop_bag [OF deque_at_ok(1) [of s, OF _ w]] s pop by (simp add: search_ok_def)
  have st: "(fst s)\<lparr>wc_stash := wc_stash (fst s)\<rparr> = fst s" by simp
  have "search_ok (snd (own_pop tier s))" "same_frame s (snd (own_pop tier s))"
    using replaced_deque_ok [OF s w, of a "wc_stash (fst s)"] p s own
    by (simp_all add: pop_promise_def search_ok_def)
  moreover have "search_bag s = answer_bag r + search_bag (fst s, set_deque ?w ?t a (snd s))"
    using replaced_deque_bag [OF s w, of "answer_bag r" a "wc_stash (fst s)"] p
    by (simp add: pop_promise_def ac_simps)
  moreover have "r = Some Empty \<Longrightarrow> calm s (fst s, set_deque ?w ?t a (snd s))"
    using replaced_deque_calm [OF s w(1) _ w(2)] p by (auto simp: pop_promise_def)
  ultimately show ?thesis
    using p own by (auto simp: probe_ok_def as_found_def pop_promise_def)
qed

lemma own_pops_ok: "search_ok s \<Longrightarrow> probe_ok s (own_pops ts s)"
proof (induction ts arbitrary: s)
  case (Cons t ts)
  show ?case unfolding own_pops.simps by (rule or_else_ok [OF own_pop_ok [OF Cons.prems]]) (rule Cons.IH)
qed simp

definition drained :: "'j search \<Rightarrow> bool" where
  "drained s \<longleftrightarrow> st_n (fst (wc_stash (fst s))) = 0 \<and> st_n (snd (wc_stash (fst s))) = 0"

lemma calm_drained: "calm s s' \<Longrightarrow> drained s \<Longrightarrow> drained s'"
  by (simp add: calm_def drained_def)

lemma drain_stash_ok:
  assumes s: "search_ok s"
  shows "probe_ok s (drain_stash s)" "fst (drain_stash s) = Nothing_found \<Longrightarrow> drained s"
proof -
  obtain k f where st: "wc_stash (fst s) = (k, f)" by (cases "wc_stash (fst s)")
  have ok: "stash_ok k" "stash_ok f" using s st by (simp_all add: search_ok_def thief_ok_def)
  have upd: "(fst s)\<lparr>wc_stash := (k, f)\<rparr> = fst s" using st by (cases "fst s") simp
  have both: "probe_ok s (drain_stash s) \<and> (fst (drain_stash s) = Nothing_found \<longrightarrow> drained s)"
  proof (cases "st_n k = 0")
    case False
    obtain j k' where "drain_one k = (Some (Success j), k')" "stash_ok k'"
        "stash_bag k = add_mset (job_body j) (stash_bag k')" using drain_some [OF ok(1) False] by blast
    then show ?thesis using s st ok
      by (simp add: drain_stash_def adaptive_drain_one_def as_found_def probe_ok_def search_ok_def thief_ok_def
          same_frame_def search_bag_def thief_bag_def)
  next
    case k: True
    show ?thesis
    proof (cases "st_n f = 0")
      case False
      obtain j f' where "drain_one f = (Some (Success j), f')" "stash_ok f'"
          "stash_bag f = add_mset (job_body j) (stash_bag f')" using drain_some [OF ok(2) False] by blast
      then show ?thesis using s st ok drain_none [OF k]
        by (simp add: drain_stash_def adaptive_drain_one_def as_found_def probe_ok_def search_ok_def thief_ok_def
            same_frame_def search_bag_def thief_bag_def)
    next
      case True
      then have "drain_stash s = (Nothing_found, s)"
        using st drain_none [OF k] drain_none [OF True]
        by (simp add: drain_stash_def adaptive_drain_one_def as_found_def upd)
      then show ?thesis using s k True st by (simp add: drained_def)
    qed
  qed
  then show "probe_ok s (drain_stash s)" "fst (drain_stash s) = Nothing_found \<Longrightarrow> drained s" by simp_all
qed

text \<open>A ring probe: the mailbox and the injector.\<close>

lemma ring_pop_cases:
  assumes "fr_ok r"
  obtains "fr_pop 1 r = Some (Pop_empty, r)" "fr_abs r = []"
  | x r' where "fr_pop 1 r = Some (Pop_ok x, r')" "fr_ok r'" "fr_abs r = x # fr_abs r'"
proof (cases "fr_abs r")
  case Nil
  then show thesis using fr_pop_none [OF assms, of 0] by (intro that(1)) simp_all
next
  case (Cons x xs)
  then show thesis using fr_pop_first [OF assms Cons, of 0] that(2) by auto
qed

lemma mailbox_pop_ok:
  assumes s: "search_ok s"
  shows "probe_ok s (mailbox_pop s)"
    "fst (mailbox_pop s) = Nothing_found \<Longrightarrow> fr_abs (pl_mailboxes (snd s) ! wc_index (fst s)) = []"
proof -
  let ?i = "wc_index (fst s)" and ?ms = "pl_mailboxes (snd s)"
  have i: "?i < length ?ms" using s by (simp add: search_ok_def)
  have ring: "fr_ok (?ms ! ?i)" using s i by (simp add: search_ok_def pool_ok_def)
  have upd: "(snd s)\<lparr>pl_mailboxes := ?ms\<rparr> = snd s" by simp
  have both: "probe_ok s (mailbox_pop s) \<and> (fst (mailbox_pop s) = Nothing_found \<longrightarrow> fr_abs (?ms ! ?i) = [])"
  proof (cases rule: ring_pop_cases [OF ring])
    case 1
    then have "mailbox_pop s = (Nothing_found, s)" by (simp add: mailbox_pop_def list_update_id)
    then show ?thesis using s 1 by simp
  next
    case (2 x r')
    have sum: "sum_list (map ring_bag (?ms[?i := r'])) + ring_bag (?ms ! ?i) = sum_list (map ring_bag ?ms) + ring_bag r'"
      by (rule sum_list_update [OF i])
    have "ring_bag (?ms ! ?i) = add_mset (job_body x) (ring_bag r')" using 2 by (simp add: ring_bag_def)
    then have "sum_list (map ring_bag ?ms) = add_mset (job_body x) (sum_list (map ring_bag (?ms[?i := r'])))"
      using sum by simp
    moreover have "\<forall>r \<in> set (?ms[?i := r']). fr_ok r"
      using s 2 set_update_subset_insert [of ?ms ?i r'] by (auto simp: search_ok_def pool_ok_def)
    ultimately show ?thesis using s 2
      by (simp add: mailbox_pop_def probe_ok_def search_ok_def pool_ok_def same_frame_def search_bag_def pool_bag_def)
  qed
  then show "probe_ok s (mailbox_pop s)"
    "fst (mailbox_pop s) = Nothing_found \<Longrightarrow> fr_abs (?ms ! ?i) = []" by simp_all
qed

lemma injector_take_ok:
  assumes s: "search_ok s"
  shows "probe_ok s (injector_take s)" "fst (injector_take s) = Nothing_found \<Longrightarrow> fr_abs (pl_injector (snd s)) = []"
proof -
  let ?r = "pl_injector (snd s)"
  have ring: "fr_ok ?r" using s by (simp add: search_ok_def pool_ok_def)
  have both: "probe_ok s (injector_take s) \<and> (fst (injector_take s) = Nothing_found \<longrightarrow> fr_abs ?r = [])"
  proof (cases rule: ring_pop_cases [OF ring])
    case 1
    then have "injector_take s = (Nothing_found, s)" by (simp add: injector_take_def injector_steal_def)
    then show ?thesis using s 1 by simp
  next
    case (2 x r')
    then show ?thesis using s
      by (simp add: injector_take_def injector_steal_def probe_ok_def search_ok_def pool_ok_def same_frame_def
          search_bag_def pool_bag_def ring_bag_def)
  qed
  then show "probe_ok s (injector_take s)"
    "fst (injector_take s) = Nothing_found \<Longrightarrow> fr_abs ?r = []" by simp_all
qed

section \<open>Steals\<close>

lemma steal_via_stash_bag:
  assumes "adaptive_inv True a" "thief_ok st" "st_n (fst st) = 0" "st_n (snd st) = 0"
  shows "steal_promise (a, st) (steal_via_stash a st)"
  using assms steal_from_khl [of a st] steal_from_fcl [of a st] by (auto simp: adaptive_inv_def)

lemma steal_tier_ok:
  assumes s: "search_ok s" "drained s" and w: "peer < length (pl_deques (snd s))" "t < N_TIERS"
  obtains s' where "steal_tier peer t s = (Some Empty, s')" "probe_ok s (Nothing_found, s')" "no_offer (deque_at s peer t)"
  | j s' where "steal_tier peer t s = (Some (Success j), s')" "probe_ok s (Found j, s')"
proof -
  let ?a = "deque_at s peer t" and ?st = "wc_stash (fst s)"
  obtain r a st where steal: "steal_via_stash ?a ?st = (r, a, st)" by (cases "steal_via_stash ?a ?st") auto
  let ?s' = "((fst s)\<lparr>wc_stash := st\<rparr>, set_deque peer t a (snd s))"
  have p: "steal_promise (?a, ?st) (r, a, st)"
    using steal_via_stash_bag [OF deque_at_ok(1) [of s, OF _ w], of ?st] s steal
    by (simp add: search_ok_def drained_def)
  have eq: "steal_tier peer t s = (r, ?s')" using steal by (simp add: steal_tier_def deque_at_def)
  have ok: "search_ok ?s'" "same_frame s ?s'"
    using replaced_deque_ok [OF s(1) w, of a st] p by (simp_all add: steal_promise_def)
  have bag: "search_bag s = answer_bag r + search_bag ?s'"
    using replaced_deque_bag [OF s(1) w, of "answer_bag r" a st] p by (simp add: steal_promise_def add.assoc)
  show thesis
  proof (cases "r = Some Empty")
    case True
    then have e: "no_offer ?a" "flag_cleared ?a a" "st = ?st" using p by (auto simp: steal_promise_def)
    have "(fst s)\<lparr>wc_stash := ?st\<rparr> = fst s" by simp
    then have "calm s ?s'" using replaced_deque_calm [OF s(1) w(1) e(2) w(2)] e(3) by simp
    then show thesis using True e(1) eq ok bag by (intro that(1)) (simp_all add: probe_ok_def)
  next
    case False
    then obtain j where "r = Some (Success j)" using p by (auto simp: steal_promise_def)
    then show thesis using eq ok bag by (intro that(2)) (simp_all add: probe_ok_def)
  qed
qed

lemma note_steal_ok: "probe_ok s (Found j, s') \<Longrightarrow> probe_ok s (Found j, note_steal v s')"
  by (simp add: probe_ok_def note_steal_def search_ok_def pool_ok_def same_frame_def search_bag_def pool_bag_def)

lemma note_stats_ok: "probe_ok s (x, s') \<Longrightarrow> probe_ok s (x, note_stats f s')"
  by (auto simp: probe_ok_def note_stats_def search_ok_def pool_ok_def same_frame_def search_bag_def pool_bag_def
      calm_def deque_at_def split: found.splits)

text \<open>What an earlier state would have offered, a later calm one offers no less.\<close>

lemma no_offer_back: "flag_cleared a b \<Longrightarrow> \<not> ad_dirty a \<or> ad_dirty b \<Longrightarrow> no_offer b \<Longrightarrow> no_offer a"
  by (auto simp: flag_cleared_def no_offer_def)

lemma no_offer_kept: "no_offer a \<Longrightarrow> flag_cleared a b \<Longrightarrow> no_offer b"
  by (auto simp: flag_cleared_def no_offer_def split: if_splits)

definition nothing_at :: "'j search \<Rightarrow> nat \<Rightarrow> nat set \<Rightarrow> bool" where
  "nothing_at s v ts \<longleftrightarrow> (\<forall>t \<in> ts. no_offer (deque_at s v t))"

lemma nothing_at_calm:
  "nothing_at s v ts \<Longrightarrow> calm s s' \<Longrightarrow> v < length (pl_deques (snd s)) \<Longrightarrow> ts \<subseteq> {..<N_TIERS} \<Longrightarrow> nothing_at s' v ts"
  using no_offer_kept by (fastforce simp: nothing_at_def calm_def)

text \<open>
  A walk over tiers or peers that answers nothing leaves a state in which none of what it
  walked offers a line.
\<close>

definition walk_ok :: "'j search \<Rightarrow> ('j search \<Rightarrow> bool) \<Rightarrow> 'j found \<times> 'j search \<Rightarrow> bool" where
  "walk_ok s P r \<longleftrightarrow> probe_ok s r \<and> (fst r = Nothing_found \<longrightarrow> P (snd r))"

lemma probe_ok_calm_first:
  assumes "probe_ok s (Nothing_found, s')" "probe_ok s' r"
  shows "probe_ok s r"
  using or_else_ok [OF assms(1), of "\<lambda>_. r"] assms(2) by (simp add: or_else_def)

lemma walk_step:
  assumes s: "probe_ok s (Nothing_found, s')" "no_offer (deque_at s peer t)"
    and peer: "peer < length (pl_deques (snd s))" "t < N_TIERS"
    and rest: "walk_ok s' (\<lambda>s'. nothing_at s' peer (set ts)) r"
  shows "walk_ok s (\<lambda>s'. nothing_at s' peer (set (t # ts))) r"
  unfolding walk_ok_def
proof (intro conjI impI)
  show "probe_ok s r" using probe_ok_calm_first [OF s(1)] rest by (simp add: walk_ok_def)
  have s': "calm s s'" "length (pl_deques (snd s')) = length (pl_deques (snd s))"
    using s(1) by (simp_all add: probe_ok_def same_frame_def)
  have "nothing_at s peer {t}" using s(2) by (simp add: nothing_at_def)
  then have t0: "nothing_at s' peer {t}" using nothing_at_calm [OF _ s'(1) peer(1)] peer(2) by simp
  assume n: "fst r = Nothing_found"
  then have c: "calm s' (snd r)" "nothing_at (snd r) peer (set ts)" using rest by (simp_all add: walk_ok_def probe_ok_def)
  then show "nothing_at (snd r) peer (set (t # ts))"
    using nothing_at_calm [OF t0 c(1)] peer s'(2) by (simp add: nothing_at_def)
qed

lemma walk_ready:
  assumes "probe_ok s (Nothing_found, s')" "drained s" "v < length (pl_deques (snd s))"
  shows "search_ok s'" "drained s'" "v < length (pl_deques (snd s'))"
  using assms calm_drained [of s s'] by (simp_all add: probe_ok_def same_frame_def)

lemma steal_tiers_ok:
  assumes "search_ok s" "drained s" "peer < length (pl_deques (snd s))" "set ts \<subseteq> {..<N_TIERS}"
  shows "walk_ok s (\<lambda>s'. nothing_at s' peer (set ts)) (steal_tiers peer ts s)"
  using assms
proof (induction ts arbitrary: s)
  case Nil
  then show ?case by (simp add: walk_ok_def nothing_at_def)
next
  case (Cons t ts)
  have t: "t < N_TIERS" using Cons.prems(4) by simp
  show ?case
  proof (cases rule: steal_tier_ok [OF Cons.prems(1-3) t])
    case (1 s')
    have "walk_ok s' (\<lambda>s'. nothing_at s' peer (set ts)) (steal_tiers peer ts s')"
      using Cons.IH [OF walk_ready [OF 1(2) Cons.prems(2,3)]] Cons.prems(4) by simp
    with walk_step [OF 1(2,3) Cons.prems(3) t this] show ?thesis using 1(1) by simp
  next
    case (2 j s')
    then show ?thesis using note_steal_ok [OF 2(2)] by (simp add: walk_ok_def)
  qed
qed

lemma loop_tiers_ok:
  assumes "search_ok s" "drained s" "peer < length (pl_deques (snd s))" "set ts \<subseteq> {..<N_TIERS}"
  shows "walk_ok s (\<lambda>s'. nothing_at s' peer (set ts)) (loop_tiers peer ts s)"
  using assms
proof (induction ts arbitrary: s)
  case Nil
  then show ?case by (simp add: walk_ok_def nothing_at_def)
next
  case (Cons t ts)
  have t: "t < N_TIERS" using Cons.prems(4) by simp
  show ?case
  proof (cases rule: steal_tier_ok [OF Cons.prems(1-3) t])
    case (1 s')
    have "walk_ok s' (\<lambda>s'. nothing_at s' peer (set ts)) (loop_tiers peer ts s')"
      using Cons.IH [OF walk_ready [OF 1(2) Cons.prems(2,3)]] Cons.prems(4) by simp
    with walk_step [OF 1(2,3) Cons.prems(3) t this] show ?thesis using 1(1) by (simp add: steal_tier_retrying_def)
  next
    case (2 j s')
    then show ?thesis using note_steal_ok [OF note_stats_ok [OF 2(2)]] by (simp add: steal_tier_retrying_def walk_ok_def)
  qed
qed

section \<open>Walks over peers\<close>

lemma tiers_sub: "{d..<N_TIERS} \<subseteq> {..<N_TIERS}" "set [d..<N_TIERS] \<subseteq> {..<N_TIERS}"
  by auto

definition sees_nothing :: "'j search \<Rightarrow> nat \<Rightarrow> bool" where
  "sees_nothing s v \<longleftrightarrow> nothing_at s v {distance_to v s..<N_TIERS}"

lemma distance_frame: "same_frame s s' \<Longrightarrow> distance_to v s' = distance_to v s"
  by (simp add: same_frame_def distance_to_def)

lemma sees_nothing_calm:
  "sees_nothing s v \<Longrightarrow> calm s s' \<Longrightarrow> same_frame s s' \<Longrightarrow> v < length (pl_deques (snd s)) \<Longrightarrow> sees_nothing s' v"
  using nothing_at_calm [OF _ _ _ tiers_sub(1)] by (simp add: sees_nothing_def distance_frame)

lemma walk_or_else:
  assumes "walk_ok s P r"
    and "\<And>s'. probe_ok s (Nothing_found, s') \<Longrightarrow> P s' \<Longrightarrow> walk_ok s' Q (f s')"
    and "\<And>s' s''. P s' \<Longrightarrow> calm s' s'' \<Longrightarrow> same_frame s' s'' \<Longrightarrow> probe_ok s (Nothing_found, s') \<Longrightarrow> P s''"
  shows "walk_ok s (\<lambda>s'. P s' \<and> Q s') (or_else r f)"
proof (cases "fst r")
  case Nothing_found
  then obtain s' where r: "r = (Nothing_found, s')" by (cases r) simp
  have s': "probe_ok s (Nothing_found, s')" "P s'" using assms(1) r by (simp_all add: walk_ok_def)
  have q: "walk_ok s' Q (f s')" by (rule assms(2) [OF s'])
  have "probe_ok s (f s')" using probe_ok_calm_first [OF s'(1)] q by (simp add: walk_ok_def)
  moreover have "P (snd (f s')) \<and> Q (snd (f s'))" if "fst (f s') = Nothing_found"
    using assms(3) [OF s'(2) _ _ s'(1), of "snd (f s')"] q that by (auto simp: walk_ok_def probe_ok_def)
  ultimately show ?thesis using r by (simp add: or_else_def walk_ok_def)
qed (use assms(1) in \<open>cases r; simp add: or_else_def walk_ok_def\<close>)+

lemma steal_peer_ok:
  assumes "search_ok s" "drained s"
  shows "walk_ok s (\<lambda>s'. v \<noteq> wc_index (fst s') \<and> v < length (pl_deques (snd s')) \<longrightarrow> sees_nothing s' v)
    (steal_from_peer_tiered v s)"
proof (cases "v = wc_index (fst s) \<or> length (pl_deques (snd s)) \<le> v")
  case True
  then show ?thesis using assms(1) by (auto simp: steal_from_peer_tiered_def walk_ok_def)
next
  case False
  then have w: "walk_ok s (\<lambda>s'. nothing_at s' v (set [distance_to v s..<N_TIERS])) (steal_tiers v [distance_to v s..<N_TIERS] s)"
    using steal_tiers_ok [OF assms _ tiers_sub(2)] by simp
  have "distance_to v (snd (steal_tiers v [distance_to v s..<N_TIERS] s)) = distance_to v s"
    by (rule distance_frame) (use w in \<open>simp add: walk_ok_def probe_ok_def\<close>)
  then show ?thesis using w False by (auto simp: steal_from_peer_tiered_def walk_ok_def sees_nothing_def)
qed

lemma probe_slots_ok:
  assumes "search_ok s" "drained s"
  shows "walk_ok s (\<lambda>s'. \<forall>i \<in> set is. let v = pl_n_workers (snd s') + i in
      v \<noteq> wc_index (fst s') \<and> v < length (pl_deques (snd s')) \<longrightarrow> sees_nothing s' v) (probe_slots is s)"
  using assms
proof (induction "is" arbitrary: s)
  case (Cons i "is")
  let ?v = "pl_n_workers (snd s) + i"
  have "walk_ok s (\<lambda>s'. (pl_n_workers (snd s') + i \<noteq> wc_index (fst s') \<and> pl_n_workers (snd s') + i < length (pl_deques (snd s'))
        \<longrightarrow> sees_nothing s' (pl_n_workers (snd s') + i)) \<and>
      (\<forall>i \<in> set is. let v = pl_n_workers (snd s') + i in
        v \<noteq> wc_index (fst s') \<and> v < length (pl_deques (snd s')) \<longrightarrow> sees_nothing s' v)) (probe_slots (i # is) s)"
    unfolding probe_slots.simps
  proof (rule walk_or_else)
    show "walk_ok s (\<lambda>s'. pl_n_workers (snd s') + i \<noteq> wc_index (fst s') \<and> pl_n_workers (snd s') + i < length (pl_deques (snd s'))
        \<longrightarrow> sees_nothing s' (pl_n_workers (snd s') + i)) (steal_from_peer_tiered ?v s)"
      using steal_peer_ok [OF Cons.prems, of ?v] by (auto simp: walk_ok_def probe_ok_def same_frame_def)
    show "walk_ok s' (\<lambda>s'. \<forall>i \<in> set is. let v = pl_n_workers (snd s') + i in
        v \<noteq> wc_index (fst s') \<and> v < length (pl_deques (snd s')) \<longrightarrow> sees_nothing s' v) (probe_slots is s')"
      if "probe_ok s (Nothing_found, s')" for s'
      using Cons.IH [of s'] that calm_drained [of s s'] Cons.prems(2) by (simp add: probe_ok_def)
  next
    fix s' s'' :: "'a search"
    assume a: "pl_n_workers (snd s') + i \<noteq> wc_index (fst s') \<and> pl_n_workers (snd s') + i < length (pl_deques (snd s'))
        \<longrightarrow> sees_nothing s' (pl_n_workers (snd s') + i)" and c: "calm s' s''" "same_frame s' s''"
    have "wc_index (fst s'') = wc_index (fst s')" "pl_n_workers (snd s'') = pl_n_workers (snd s')"
      "length (pl_deques (snd s'')) = length (pl_deques (snd s'))" using c(2) by (simp_all add: same_frame_def)
    then show "pl_n_workers (snd s'') + i \<noteq> wc_index (fst s'') \<and> pl_n_workers (snd s'') + i < length (pl_deques (snd s''))
        \<longrightarrow> sees_nothing s'' (pl_n_workers (snd s'') + i)"
      using a sees_nothing_calm [OF _ c] by simp
  qed
  then show ?case by (simp add: walk_ok_def Let_def)
qed (simp add: walk_ok_def)

lemma peer_seen_kept:
  assumes "v \<noteq> wc_index (fst s) \<and> v < length (pl_deques (snd s)) \<longrightarrow> sees_nothing s v" "calm s s'" "same_frame s s'"
  shows "v \<noteq> wc_index (fst s') \<and> v < length (pl_deques (snd s')) \<longrightarrow> sees_nothing s' v"
  using assms(1) sees_nothing_calm [OF _ assms(2,3)] assms(3) by (simp add: same_frame_def)

lemma loop_peer_ok:
  assumes "search_ok s" "drained s" "v < length (pl_deques (snd s))"
  shows "walk_ok s (\<lambda>s'. sees_nothing s' v) (loop_tiers v [distance_to v s..<N_TIERS] s)"
proof -
  have w: "walk_ok s (\<lambda>s'. nothing_at s' v (set [distance_to v s..<N_TIERS])) (loop_tiers v [distance_to v s..<N_TIERS] s)"
    by (rule loop_tiers_ok [OF assms tiers_sub(2)])
  have "distance_to v (snd (loop_tiers v [distance_to v s..<N_TIERS] s)) = distance_to v s"
    by (rule distance_frame) (use w in \<open>simp add: walk_ok_def probe_ok_def\<close>)
  then show ?thesis using w by (simp add: walk_ok_def sees_nothing_def)
qed

text \<open>With a budget for all the victims but the worker itself, a walk that finds nothing has seen them all.\<close>

lemma probe_peers_ok:
  assumes "search_ok s" "drained s" "set vs \<subseteq> {..<length (pl_deques (snd s))}"
  shows "walk_ok s (\<lambda>s'. length (filter (\<lambda>v. v \<noteq> wc_index (fst s)) vs) \<le> budget
      \<longrightarrow> (\<forall>v \<in> set vs. v \<noteq> wc_index (fst s) \<longrightarrow> sees_nothing s' v)) (probe_peers budget vs s)"
  using assms
proof (induction vs arbitrary: s budget)
  case Nil
  then show ?case by (simp add: walk_ok_def)
next
  case (Cons v vs)
  show ?case
  proof (cases "budget = 0 \<or> v = wc_index (fst s)")
    case True
    then show ?thesis using Cons.prems Cons.IH [OF Cons.prems(1,2), of budget]
      by (auto simp: walk_ok_def filter_empty_conv)
  next
    case False
    have len: "v < length (pl_deques (snd s))" using Cons.prems(3) by simp
    have eq: "probe_peers budget (v # vs) s = or_else (loop_tiers v [distance_to v s..<N_TIERS] s) (probe_peers (budget - 1) vs)"
      using False by simp
    have "walk_ok s (\<lambda>s'. sees_nothing s' v \<and> (length (filter (\<lambda>v. v \<noteq> wc_index (fst s)) vs) \<le> budget - 1
        \<longrightarrow> (\<forall>v \<in> set vs. v \<noteq> wc_index (fst s) \<longrightarrow> sees_nothing s' v))) (probe_peers budget (v # vs) s)"
      unfolding eq
    proof (rule walk_or_else [OF loop_peer_ok [OF Cons.prems(1,2) len]])
      fix s' assume s': "probe_ok s (Nothing_found, s')"
      then have f: "wc_index (fst s') = wc_index (fst s)" "length (pl_deques (snd s')) = length (pl_deques (snd s))"
        by (simp_all add: probe_ok_def same_frame_def)
      have "search_ok s'" "drained s'" using walk_ready [OF s' Cons.prems(2) len] by simp_all
      then show "walk_ok s' (\<lambda>s'. length (filter (\<lambda>v. v \<noteq> wc_index (fst s)) vs) \<le> budget - 1
          \<longrightarrow> (\<forall>v \<in> set vs. v \<noteq> wc_index (fst s) \<longrightarrow> sees_nothing s' v)) (probe_peers (budget - 1) vs s')"
        using Cons.IH [of s' "budget - 1"] Cons.prems(3) f by simp
    next
      fix s' s'' assume n: "sees_nothing s' v" "calm s' s''" "same_frame s' s''" and p: "probe_ok s (Nothing_found, s')"
      have "v < length (pl_deques (snd s'))" using p len by (simp add: probe_ok_def same_frame_def)
      then show "sees_nothing s'' v" by (rule sees_nothing_calm [OF n])
    qed
    then show ?thesis using False by (auto simp: walk_ok_def)
  qed
qed

lemma rotation:
  assumes "0 < n"
  shows "set (map (\<lambda>i. (start + i) mod n) [0..<n]) = {..<n}" "distinct (map (\<lambda>i. (start + i) mod n) [0..<n :: nat])"
proof -
  have neq: "(start + i) mod n \<noteq> (start + j) mod n" if "i < j" "j < n" for i j
  proof
    assume "(start + i) mod n = (start + j) mod n"
    then have "n dvd (start + j) - (start + i)" using that mod_eq_dvd_iff_nat [of "start + i" "start + j" n] by simp
    then have "n dvd j - i" by simp
    moreover have "0 < j - i" "j - i < n" using that by simp_all
    ultimately show False using nat_dvd_not_less by blast
  qed
  have inj: "inj_on (\<lambda>i. (start + i) mod n) {..<n}"
    using neq by (intro inj_onI) (metis lessThan_iff linorder_neqE_nat)
  then show "distinct (map (\<lambda>i. (start + i) mod n) [0..<n])" by (simp add: distinct_map lessThan_atLeast0)
  have "(\<lambda>i. (start + i) mod n) ` {..<n} \<subseteq> {..<n}" using assms by auto
  then have "(\<lambda>i. (start + i) mod n) ` {..<n} = {..<n}" using inj by (intro endo_inj_surj) simp_all
  then show "set (map (\<lambda>i. (start + i) mod n) [0..<n]) = {..<n}" by (simp add: lessThan_atLeast0)
qed

lemma length_filter_without:
  assumes "distinct xs" "x \<in> set xs"
  shows "length (filter (\<lambda>v. v \<noteq> x) xs) = length xs - 1"
proof -
  have "length (filter (\<lambda>v. v \<noteq> x) xs) = card (set xs - {x})"
    using distinct_card [OF distinct_filter [OF assms(1), of "\<lambda>v. v \<noteq> x"]] by (simp add: set_diff_eq)
  then show ?thesis using assms by (simp add: distinct_card)
qed

section \<open>The searches\<close>

text \<open>What a worker that finds nothing leaves in its own half: at most two orphans to a deque.\<close>

definition own_spent :: "'j search \<Rightarrow> deque_tier \<Rightarrow> bool" where
  "own_spent s t \<longleftrightarrow> size (adaptive_bag (deque_at s (wc_index (fst s)) (deque_tier_idx t))) \<le> 2"

definition mailbox_spent :: "'j search \<Rightarrow> bool" where
  "mailbox_spent s \<longleftrightarrow> fr_abs (pl_mailboxes (snd s) ! wc_index (fst s)) = []"

definition injector_spent :: "'j search \<Rightarrow> bool" where
  "injector_spent s \<longleftrightarrow> fr_abs (pl_injector (snd s)) = []"

definition slots_seen :: "'j search \<Rightarrow> bool" where
  "slots_seen s \<longleftrightarrow> (\<forall>i \<in> set (claimed_ids (pl_claimed (snd s))). let v = pl_n_workers (snd s) + i in
     v \<noteq> wc_index (fst s) \<and> v < length (pl_deques (snd s)) \<longrightarrow> sees_nothing s v)"

lemma tier_lt [simp]: "deque_tier_idx t < N_TIERS"
  by (cases t) (simp_all add: N_TIERS_def)

lemma flag_cleared_bag: "flag_cleared a b \<Longrightarrow> adaptive_bag b = adaptive_bag a"
  by (auto simp: flag_cleared_def adaptive_bag_def)

lemma own_spent_calm:
  assumes "own_spent s t" "calm s s'" "same_frame s s'" "search_ok s"
  shows "own_spent s' t"
proof -
  have "flag_cleared (deque_at s (wc_index (fst s)) (deque_tier_idx t)) (deque_at s' (wc_index (fst s)) (deque_tier_idx t))"
    using assms(2,4) by (simp add: calm_def search_ok_def)
  from flag_cleared_bag [OF this] show ?thesis using assms(1,3) by (simp add: own_spent_def same_frame_def)
qed

lemma rings_spent_calm:
  "mailbox_spent s \<Longrightarrow> calm s s' \<Longrightarrow> same_frame s s' \<Longrightarrow> mailbox_spent s'"
  "injector_spent s \<Longrightarrow> calm s s' \<Longrightarrow> injector_spent s'"
  by (simp_all add: mailbox_spent_def injector_spent_def calm_def same_frame_def)

lemma slots_seen_calm:
  assumes "slots_seen s" "calm s s'" "same_frame s s'"
  shows "slots_seen s'"
  using assms(1) sees_nothing_calm [OF _ assms(2,3)] assms(3) by (simp add: slots_seen_def same_frame_def Let_def)

lemma own_pop_walk:
  assumes s: "search_ok s"
  shows "walk_ok s (\<lambda>s'. own_spent s' t) (own_pop t s)"
proof -
  let ?a = "deque_at s (wc_index (fst s)) (deque_tier_idx t)"
  have ok: "probe_ok s (own_pop t s)" by (rule own_pop_ok [OF s])
  have "own_spent (snd (own_pop t s)) t" if n: "fst (own_pop t s) = Nothing_found"
  proof -
    have "adaptive_inv True ?a" using deque_at_ok(1) [of s] s by (simp add: search_ok_def)
    note p = ad_pop_bag [OF this]
    have "own_deque (deque_tier_idx t) s = ?a" by (simp add: own_deque_def deque_at_def)
    then have "fst (ad_pop ?a) = Some Empty"
      using p n by (auto simp: own_pop_def pop_promise_def as_found_def split: prod.splits)
    then have "own_spent s t" using p by (auto simp: pop_promise_def own_spent_def)
    then show ?thesis by (rule own_spent_calm) (use ok n s in \<open>simp_all add: probe_ok_def\<close>)
  qed
  with ok show ?thesis by (simp add: walk_ok_def)
qed

lemma own_pops_walk:
  assumes "search_ok s"
  shows "walk_ok s (\<lambda>s'. \<forall>t \<in> set ts. own_spent s' t) (own_pops ts s)"
  using assms
proof (induction ts arbitrary: s)
  case (Cons t ts)
  have "walk_ok s (\<lambda>s'. own_spent s' t \<and> (\<forall>t \<in> set ts. own_spent s' t)) (own_pops (t # ts) s)"
    unfolding own_pops.simps
    by (rule walk_or_else [OF own_pop_walk [OF Cons.prems]])
      (use Cons.IH own_spent_calm in \<open>auto simp: probe_ok_def\<close>)
  then show ?case by simp
qed (simp add: walk_ok_def)

lemma drain_walk: "search_ok s \<Longrightarrow> walk_ok s drained (drain_stash s)"
  using drain_stash_ok [of s] calm_drained [of s "snd (drain_stash s)"] by (auto simp: walk_ok_def probe_ok_def)

lemma mailbox_walk: "search_ok s \<Longrightarrow> walk_ok s mailbox_spent (mailbox_pop s)"
  using mailbox_pop_ok [of s] rings_spent_calm(1) [of s "snd (mailbox_pop s)"]
  by (auto simp: walk_ok_def probe_ok_def mailbox_spent_def)

lemma injector_walk: "search_ok s \<Longrightarrow> walk_ok s injector_spent (injector_take s)"
  using injector_take_ok [of s] rings_spent_calm(2) [of s "snd (injector_take s)"]
  by (auto simp: walk_ok_def probe_ok_def injector_spent_def)

lemma slots_walk: "search_ok s \<Longrightarrow> drained s \<Longrightarrow> walk_ok s slots_seen (probe_slots (claimed_ids (pl_claimed (snd s))) s)"
  using probe_slots_ok [of s "claimed_ids (pl_claimed (snd s))"]
  unfolding walk_ok_def slots_seen_def by (auto simp: probe_ok_def same_frame_def)

lemma counting_pop_walk:
  assumes "walk_ok s P r" shows "walk_ok s P (counting_pop r)"
  using assms note_stats_ok [of s "fst r" "snd r"] by (cases r) (auto simp: walk_ok_def counting_pop_def split: found.splits)

lemma nothing_calm: "walk_ok s P r \<Longrightarrow> r = (Nothing_found, s') \<Longrightarrow> search_ok s' \<and> calm s s' \<and> same_frame s s'"
  by (simp add: walk_ok_def probe_ok_def)

lemma walk_mono: "walk_ok s P r \<Longrightarrow> (\<And>s'. P s' \<Longrightarrow> Q s') \<Longrightarrow> walk_ok s Q r"
  by (auto simp: walk_ok_def)

lemma probe_keeps_drained:
  assumes "probe_ok s r" "drained s" "fst r = Nothing_found"
  shows "drained (snd r)"
  by (rule calm_drained [OF _ assms(2)]) (use assms(1,3) in \<open>simp add: probe_ok_def\<close>)

text \<open>The deques' part of a search, from a drained stash.\<close>

lemma probe_last_ok:
  assumes "search_ok s" "drained s"
  shows "walk_ok s drained (probe_last s)"
proof -
  have "walk_ok s drained (steal_from_peer_tiered v s)" for v
    using steal_peer_ok [OF assms, of v] probe_keeps_drained [OF _ assms(2)] unfolding walk_ok_def by blast
  then show ?thesis using assms by (simp add: probe_last_def Let_def walk_ok_def)
qed

lemma probe_random_ok:
  assumes "search_ok s" "drained s"
  shows "probe_ok s (probe_random s)"
proof -
  have rng: "search_ok ((fst s)\<lparr>wc_rng := x\<rparr>, snd s)" "drained ((fst s)\<lparr>wc_rng := x\<rparr>, snd s)"
    "probe_ok s (Nothing_found, (fst s)\<lparr>wc_rng := x\<rparr>, snd s)" for x
    using assms by (auto simp: search_ok_def drained_def probe_ok_def same_frame_def search_bag_def calm_def deque_at_def)
  have "probe_ok s (steal_from_peer_tiered v ((fst s)\<lparr>wc_rng := x\<rparr>, snd s))" for v x
    by (rule probe_ok_calm_first [OF rng(3)], rule conjunct1 [OF steal_peer_ok [OF rng(1,2), unfolded walk_ok_def]])
  then show ?thesis using assms(1) by (simp add: probe_random_def Let_def)
qed

lemma find_elsewhere_ok:
  assumes s: "search_ok s" "drained s"
  shows "walk_ok s (\<lambda>s'. 2 \<le> length (pl_deques (snd s')) \<longrightarrow> slots_seen s') (find_elsewhere s)"
proof (cases "length (pl_deques (snd s)) < 2")
  case True
  then show ?thesis using s by (simp add: find_elsewhere_def walk_ok_def)
next
  case False
  have "walk_ok s (\<lambda>s'. slots_seen s' \<and> True)
    (or_else (probe_slots (claimed_ids (pl_claimed (snd s))) s) (\<lambda>s. or_else (probe_last s) probe_random))"
  proof (rule walk_or_else [OF slots_walk [OF s]])
    fix s' assume p: "probe_ok s (Nothing_found, s')"
    then have s': "search_ok s'" "drained s'" using probe_keeps_drained [OF p s(2)] by (simp_all add: probe_ok_def)
    have "probe_ok s' (or_else (probe_last s') probe_random)"
    proof (rule or_else_ok)
      show "probe_ok s' (probe_last s')" using probe_last_ok [OF s'] by (simp add: walk_ok_def)
      show "probe_ok u (probe_random u)" if "search_ok u" "calm s' u" for u
        by (rule probe_random_ok [OF that(1) calm_drained [OF that(2) s'(2)]])
    qed
    then show "walk_ok s' (\<lambda>_. True) (or_else (probe_last s') probe_random)" by (simp add: walk_ok_def)
  qed (rule slots_seen_calm)
  then show ?thesis using False by (auto simp: find_elsewhere_def intro: walk_mono)
qed

text \<open>The part both searches share: the rest of the deques after the stash is drained.\<close>

lemma ready:
  assumes "probe_ok s (Nothing_found, s')"
  shows "search_ok s'" "drained s \<Longrightarrow> drained s'"
  using assms probe_keeps_drained [OF assms] by (simp_all add: probe_ok_def)

lemma gated_mailbox_walk:
  assumes "search_ok s"
  shows "walk_ok s (\<lambda>s'. pl_mailbox_used (snd s') \<longrightarrow> mailbox_spent s') (gated_mailbox_pop s)"
  using mailbox_walk [OF assms] assms by (simp add: gated_mailbox_pop_def walk_ok_def)

definition find_spent :: "'j search \<Rightarrow> bool" where
  "find_spent s \<longleftrightarrow> own_spent s Public \<and> drained s \<and> (pl_mailbox_used (snd s) \<longrightarrow> mailbox_spent s)
     \<and> (\<forall>t \<in> {SmtLocal, IntraCcx, CrossCcx}. own_spent s t) \<and> injector_spent s
     \<and> (2 \<le> length (pl_deques (snd s)) \<longrightarrow> slots_seen s)"

lemma mailbox_gate_calm:
  "pl_mailbox_used (snd s) \<longrightarrow> mailbox_spent s \<Longrightarrow> calm s s' \<Longrightarrow> same_frame s s'
    \<Longrightarrow> pl_mailbox_used (snd s') \<longrightarrow> mailbox_spent s'"
  using rings_spent_calm(1) [of s s'] by (simp add: same_frame_def)

lemma find_injector_walk:
  assumes "search_ok s" "drained s"
  shows "walk_ok s (\<lambda>s'. injector_spent s' \<and> (2 \<le> length (pl_deques (snd s')) \<longrightarrow> slots_seen s'))
    (or_else (injector_take s) find_elsewhere)"
  by (rule walk_or_else [OF injector_walk [OF assms(1)]])
    (use find_elsewhere_ok ready assms(2) rings_spent_calm(2) in blast)+

lemma find_tiers_walk:
  assumes "search_ok s" "drained s"
  shows "walk_ok s (\<lambda>s'. (\<forall>t \<in> set ts. own_spent s' t) \<and> injector_spent s'
      \<and> (2 \<le> length (pl_deques (snd s')) \<longrightarrow> slots_seen s'))
    (or_else (own_pops ts s) (\<lambda>s. or_else (injector_take s) find_elsewhere))"
  by (rule walk_or_else [OF own_pops_walk [OF assms(1)]])
    (use find_injector_walk ready assms(2) own_spent_calm in blast)+

lemma find_mailbox_walk:
  assumes "search_ok s" "drained s"
  shows "walk_ok s (\<lambda>s'. (pl_mailbox_used (snd s') \<longrightarrow> mailbox_spent s') \<and> (\<forall>t \<in> set ts. own_spent s' t)
      \<and> injector_spent s' \<and> (2 \<le> length (pl_deques (snd s')) \<longrightarrow> slots_seen s'))
    (or_else (gated_mailbox_pop s) (\<lambda>s. or_else (own_pops ts s) (\<lambda>s. or_else (injector_take s) find_elsewhere)))"
  by (rule walk_or_else [OF gated_mailbox_walk [OF assms(1)] find_tiers_walk mailbox_gate_calm])
    (use ready assms(2) in blast)+

lemma find_stash_walk:
  assumes "search_ok s"
  shows "walk_ok s (\<lambda>s'. drained s' \<and> (pl_mailbox_used (snd s') \<longrightarrow> mailbox_spent s') \<and> (\<forall>t \<in> set ts. own_spent s' t)
      \<and> injector_spent s' \<and> (2 \<le> length (pl_deques (snd s')) \<longrightarrow> slots_seen s'))
    (or_else (drain_stash s) (\<lambda>s. or_else (gated_mailbox_pop s)
      (\<lambda>s. or_else (own_pops ts s) (\<lambda>s. or_else (injector_take s) find_elsewhere))))"
  by (rule walk_or_else [OF drain_walk [OF assms] find_mailbox_walk calm_drained]) (use ready in blast)+

lemma find_work_walk:
  assumes "search_ok s"
  shows "walk_ok s find_spent (find_work s)"
proof -
  have "walk_ok s (\<lambda>s'. own_spent s' Public \<and> drained s' \<and> (pl_mailbox_used (snd s') \<longrightarrow> mailbox_spent s')
      \<and> (\<forall>t \<in> set [SmtLocal, IntraCcx, CrossCcx]. own_spent s' t)
      \<and> injector_spent s' \<and> (2 \<le> length (pl_deques (snd s')) \<longrightarrow> slots_seen s')) (find_work s)"
    unfolding find_work_def
    by (rule walk_or_else [OF own_pop_walk [OF assms] find_stash_walk own_spent_calm]) (use ready in blast)+
  then show ?thesis by (rule walk_mono) (simp add: find_spent_def)
qed

section \<open>The main loop\<close>

definition peers_seen :: "'j search \<Rightarrow> bool" where
  "peers_seen s \<longleftrightarrow>
     (wc_index (fst s) < pl_n_workers (snd s) \<and> pl_n_workers (snd s) \<le> PROBE_FULL_CUTOFF
       \<longrightarrow> (\<forall>v < pl_n_workers (snd s). v \<noteq> wc_index (fst s) \<longrightarrow> sees_nothing s v))"

lemma probe_round_ok:
  assumes s: "search_ok s" "drained s"
  shows "walk_ok s peers_seen (let (r, s', _) = probe_round rng s in (r, s'))"
proof (cases "pl_n_workers (snd s) < 2")
  case True
  then show ?thesis using s by (auto simp: probe_round_def walk_ok_def peers_seen_def)
next
  case False
  let ?n = "pl_n_workers (snd s)"
  obtain start rng' where pick: "pick_victim rng (wc_index (fst s)) ?n = (start, rng')"
    by (cases "pick_victim rng (wc_index (fst s)) ?n")
  let ?vs = "map (\<lambda>i. (start + i) mod ?n) [0..<?n]"
  have n0: "0 < ?n" using False by simp
  note vs = rotation [OF n0, of start]
  have sub: "set ?vs \<subseteq> {..<length (pl_deques (snd s))}" using vs(1) s(1) by (auto simp: search_ok_def pool_ok_def)
  have len: "length (filter (\<lambda>v. v \<noteq> wc_index (fst s)) ?vs) \<le> probe_count ?n"
    if "wc_index (fst s) < ?n" "?n \<le> PROBE_FULL_CUTOFF"
    using length_filter_without [OF vs(2), of "wc_index (fst s)"] vs(1) that by (simp add: probe_count_def)
  obtain r s1 where peers: "probe_peers (probe_count ?n) ?vs s = (r, s1)" by (cases "probe_peers (probe_count ?n) ?vs s")
  have w: "walk_ok s (\<lambda>s'. wc_index (fst s) < ?n \<and> ?n \<le> PROBE_FULL_CUTOFF
      \<longrightarrow> (\<forall>v \<in> set ?vs. v \<noteq> wc_index (fst s) \<longrightarrow> sees_nothing s' v)) (r, s1)"
    using probe_peers_ok [OF s sub, of "probe_count ?n"] len unfolding peers walk_ok_def by auto
  have eq: "(let (r, s', _) = probe_round rng s in (r, s')) =
      (r, if r = Nothing_found then note_stats (\<lambda>w. w\<lparr>ws_peer_steal_misses := ws_peer_steal_misses w + 1\<rparr>) s1 else s1)"
    using False peers pick by (simp add: probe_round_def Let_def)
  have frame: "sees_nothing ((fst s1)\<lparr>wc_stats := x\<rparr>, snd s1) v = sees_nothing s1 v" for x v
    by (simp add: sees_nothing_def nothing_at_def deque_at_def distance_to_def)
  have "\<forall>v < ?n. v \<noteq> wc_index (fst s) \<longrightarrow> sees_nothing s1 v"
    if "r = Nothing_found" "wc_index (fst s) < ?n" "?n \<le> PROBE_FULL_CUTOFF"
    using w that unfolding vs(1) walk_ok_def by simp
  moreover have p: "probe_ok s (r, s1)" using w by (simp add: walk_ok_def)
  ultimately show ?thesis
    unfolding eq walk_ok_def using note_stats_ok [OF p] p
    by (auto simp: peers_seen_def frame probe_ok_def same_frame_def note_stats_def)
qed

definition round_spent :: "'j search \<Rightarrow> bool" where
  "round_spent s \<longleftrightarrow> drained s \<and> mailbox_spent s \<and> (\<forall>t. own_spent s t) \<and> injector_spent s \<and> slots_seen s"

definition round_probes :: "'j search \<Rightarrow> 'j found \<times> 'j search" where
  "round_probes s = or_else (drain_stash s)
     (\<lambda>s. or_else (counting_pop (mailbox_pop s))
     (\<lambda>s. or_else (counting_pop (own_pops deque_tier_all s))
     (\<lambda>s. or_else (injector_take s) (\<lambda>s. probe_slots (claimed_ids (pl_claimed (snd s))) s))))"

lemma round_injector_walk:
  assumes "search_ok s" "drained s"
  shows "walk_ok s (\<lambda>s'. injector_spent s' \<and> slots_seen s')
    (or_else (injector_take s) (\<lambda>s. probe_slots (claimed_ids (pl_claimed (snd s))) s))"
  by (rule walk_or_else [OF injector_walk [OF assms(1)] slots_walk rings_spent_calm(2)]) (use ready assms(2) in blast)+

lemma round_tiers_walk:
  assumes "search_ok s" "drained s"
  shows "walk_ok s (\<lambda>s'. (\<forall>t \<in> set ts. own_spent s' t) \<and> injector_spent s' \<and> slots_seen s')
    (or_else (counting_pop (own_pops ts s))
      (\<lambda>s. or_else (injector_take s) (\<lambda>s. probe_slots (claimed_ids (pl_claimed (snd s))) s)))"
  by (rule walk_or_else [OF counting_pop_walk [OF own_pops_walk [OF assms(1)]] round_injector_walk])
    (use ready assms(2) own_spent_calm in blast)+

lemma round_mailbox_walk:
  assumes "search_ok s" "drained s"
  shows "walk_ok s (\<lambda>s'. mailbox_spent s' \<and> (\<forall>t \<in> set ts. own_spent s' t) \<and> injector_spent s' \<and> slots_seen s')
    (or_else (counting_pop (mailbox_pop s)) (\<lambda>s. or_else (counting_pop (own_pops ts s))
      (\<lambda>s. or_else (injector_take s) (\<lambda>s. probe_slots (claimed_ids (pl_claimed (snd s))) s))))"
  by (rule walk_or_else [OF counting_pop_walk [OF mailbox_walk [OF assms(1)]] round_tiers_walk rings_spent_calm(1)])
    (use ready assms(2) in blast)+

lemma round_probes_walk:
  assumes "search_ok s"
  shows "walk_ok s round_spent (round_probes s)"
proof -
  have "walk_ok s (\<lambda>s'. drained s' \<and> mailbox_spent s' \<and> (\<forall>t \<in> set deque_tier_all. own_spent s' t)
      \<and> injector_spent s' \<and> slots_seen s') (round_probes s)"
    unfolding round_probes_def
    by (rule walk_or_else [OF drain_walk [OF assms] round_mailbox_walk calm_drained]) (use ready in blast)+
  moreover have "set deque_tier_all = UNIV" using deque_tier.exhaust by (auto simp: deque_tier_all_def)
  ultimately show ?thesis by (simp add: walk_ok_def round_spent_def)
qed

lemma round_spent_calm:
  assumes "round_spent s" "calm s s'" "same_frame s s'" "search_ok s"
  shows "round_spent s'"
  using assms(1) calm_drained [OF assms(2)] rings_spent_calm [of s s'] own_spent_calm [OF _ assms(2,3,4)]
    slots_seen_calm [OF _ assms(2,3)] assms(2,3) by (simp add: round_spent_def)

lemma worker_round_walk:
  assumes s: "search_ok s"
  shows "walk_ok s (\<lambda>s'. round_spent s' \<and> peers_seen s') (let (r, s', _) = worker_round rng s in (r, s'))"
proof -
  have eq: "(let (r, s', _) = worker_round rng s in (r, s'))
      = or_else (round_probes s) (\<lambda>s. let (r, s', _) = probe_round rng s in (r, s'))"
  proof -
    have "worker_round rng s = (case round_probes s of (Nothing_found, s) \<Rightarrow> probe_round rng s | (r, s) \<Rightarrow> (r, s, rng))"
      by (simp only: worker_round_def round_probes_def)
    then show ?thesis
      by (cases "round_probes s"; cases "fst (round_probes s)") (simp_all add: or_else_def)
  qed
  show ?thesis unfolding eq
  proof (rule walk_or_else [OF round_probes_walk [OF s]])
    fix s' assume p: "probe_ok s (Nothing_found, s')" and spent: "round_spent s'"
    show "walk_ok s' peers_seen (let (r, s', _) = probe_round rng s' in (r, s'))"
      by (rule probe_round_ok) (use p spent in \<open>simp_all add: probe_ok_def round_spent_def\<close>)
  qed (use round_spent_calm ready in blast)
qed

end
