(* ===== verification/Pool_Laws.thy ===== *)
theory Pool_Laws
  imports Work_Laws
begin

text \<open>
  Every operation of a worker on the pool: what it puts in and hands out, and that it keeps the
  pool well formed; and runs of operations of all the workers.
\<close>

section \<open>One operation\<close>

fun pool_in :: "'j pool_op \<Rightarrow> 'j pool_answer \<Rightarrow> 'j multiset" where
  "pool_in (Pl_try_push t j) Pl_ok = {#job_body j#}"
| "pool_in (Pl_push_burst t j) Pl_ok = {#job_body j#}"
| "pool_in (Pl_to_mailbox t j) Pl_ok = {#job_body j#}"
| "pool_in (Pl_submit j) Pl_ok = {#job_body j#}"
| "pool_in _ _ = {#}"

fun pool_out :: "'j pool_answer \<Rightarrow> 'j multiset" where
  "pool_out (Pl_took j) = {#job_body j#}"
| "pool_out _ = {#}"

definition step_ok :: "'j search \<Rightarrow> 'j multiset \<Rightarrow> 'j multiset \<Rightarrow> 'j search \<Rightarrow> bool" where
  "step_ok s i out s' \<longleftrightarrow> search_ok s' \<and> wc_index (fst s') = wc_index (fst s)
     \<and> length (pl_deques (snd s')) = length (pl_deques (snd s))
     \<and> length (pl_mailboxes (snd s')) = length (pl_mailboxes (snd s))
     \<and> search_bag s + i = out + search_bag s'"

lemma step_ok_refl: "search_ok s \<Longrightarrow> step_ok s {#} {#} s"
  by (simp add: step_ok_def)

lemma put_deque_ok:
  assumes s: "search_ok s" and a: "adaptive_inv True a" "adaptive_bag a = adaptive_bag (own_deque (deque_tier_idx t) s) + b"
    and c: "wc_index c = wc_index (fst s)" "wc_stash c = wc_stash (fst s)"
  shows "step_ok s b {#} (c, set_deque (wc_index (fst s)) (deque_tier_idx t) a (snd s))"
proof -
  have w: "wc_index (fst s) < length (pl_deques (snd s))" using s by (simp add: search_ok_def)
  have bag: "pool_bag (set_deque (wc_index (fst s)) (deque_tier_idx t) a (snd s)) = pool_bag (snd s) + b"
    using set_deque_bag [of "snd s" "wc_index (fst s)" "deque_tier_idx t" a] s w a(2)
    by (simp add: search_ok_def own_deque_def)
  show ?thesis
    using s w a(1) c bag set_deque_ok [of "snd s" "wc_index (fst s)" a] by (simp add: step_ok_def search_ok_def search_bag_def)
qed

lemma own_deque_inv: "search_ok s \<Longrightarrow> adaptive_inv True (own_deque (deque_tier_idx t) s)"
  using deque_at_ok(1) [of s "wc_index (fst s)" "deque_tier_idx t"] by (simp add: search_ok_def own_deque_def deque_at_def)

lemma log_wake_frame [simp]:
  "pl_deques (log_wake x p) = pl_deques p" "pl_mailboxes (log_wake x p) = pl_mailboxes p"
  "pl_injector (log_wake x p) = pl_injector p" "pl_n_workers (log_wake x p) = pl_n_workers p"
  by (simp_all add: log_wake_def)

lemma log_wake_ok [simp]: "pool_ok (log_wake x p) = pool_ok p" "pool_bag (log_wake x p) = pool_bag p"
  by (simp_all add: pool_ok_def pool_bag_def)

lemma try_push_tier_ok:
  assumes s: "search_ok s" "try_push_tier j t s = (r, s')"
  shows "r \<noteq> Inl None \<and> step_ok s (if r = Inr () then {#job_body j#} else {#}) {#} s'"
proof -
  obtain r0 a where t: "ad_try_push j (own_deque (deque_tier_idx t) s) = (r0, a)"
    by (cases "ad_try_push j (own_deque (deque_tier_idx t) s)")
  note b = ad_try_push_bag [OF own_deque_inv [OF s(1)] t]
  have "step_ok s (if r0 = Inr () then {#job_body j#} else {#}) {#}
      (c, set_deque (wc_index (fst s)) (deque_tier_idx t) a (snd s))"
    if "wc_index c = wc_index (fst s)" "wc_stash c = wc_stash (fst s)" for c
    using put_deque_ok [OF s(1) _ _ that] b by blast
  then show ?thesis
    using s(2) t b by (cases r0) (auto simp: try_push_tier_def Let_def step_ok_def search_ok_def search_bag_def)
qed

lemma push_tier_burst_ok:
  assumes s: "search_ok s" "push_tier_burst j t s = Some s'"
  shows "step_ok s {#job_body j#} {#} s'"
proof -
  obtain a where a: "ad_push_burst j (own_deque (deque_tier_idx t) s) = Some a"
    using s(2) by (auto simp: push_tier_burst_def)
  show ?thesis
    using put_deque_ok [OF s(1)] ad_burst_bag [OF own_deque_inv [OF s(1)] a] s(2) a by (auto simp: push_tier_burst_def)
qed

lemma step_ok_trans: "step_ok s i1 o1 s1 \<Longrightarrow> step_ok s1 {#} {#} s2 \<Longrightarrow> step_ok s i1 o1 s2"
  by (simp add: step_ok_def)

lemma flush_tiers_ok:
  assumes "search_ok s" "flush_tiers ts s = Some s'"
  shows "step_ok s {#} {#} s'"
  using assms
proof (induction ts arbitrary: s)
  case (Cons t ts)
  obtain a where a: "ad_flush (own_deque (deque_tier_idx t) s) = Some a"
    and rest: "flush_tiers ts (fst s, set_deque (wc_index (fst s)) (deque_tier_idx t) a (snd s)) = Some s'"
    using Cons.prems(2) by (auto split: option.splits)
  have "adaptive_inv True a" "adaptive_bag a = adaptive_bag (own_deque (deque_tier_idx t) s) + {#}"
    using ad_flush_bag [OF own_deque_inv [OF Cons.prems(1)] a] by simp_all
  from put_deque_ok [OF Cons.prems(1) this, of "fst s"]
  have 1: "step_ok s {#} {#} (fst s, set_deque (wc_index (fst s)) (deque_tier_idx t) a (snd s))" by simp
  then have "search_ok (fst s, set_deque (wc_index (fst s)) (deque_tier_idx t) a (snd s))" by (simp add: step_ok_def)
  from Cons.IH [OF this rest] show ?case by (rule step_ok_trans [OF 1])
qed (simp add: step_ok_refl)

lemma flush_all_ok:
  assumes "search_ok s" "flush_all s = Some s'"
  shows "step_ok s {#} {#} s'"
proof -
  obtain t where t: "flush_tiers deque_tier_all s = Some t" using assms(2) by (auto simp: flush_all_def)
  have "step_ok s {#} {#} t" by (rule flush_tiers_ok [OF assms(1) t])
  then show ?thesis
    using assms(2) t by (cases t) (auto simp: flush_all_def Let_def step_ok_def search_ok_def search_bag_def split: if_splits)
qed

lemma ring_push_cases:
  assumes "fr_ok r"
  obtains r' where "fr_push 1 r x = Some (Push_ok, r')" "fr_ok r'" "fr_abs r' = fr_abs r @ [x]"
  | "fr_push 1 r x = Some (Push_full x, r)"
proof (cases "length (fr_abs r) < fr_capacity r")
  case True
  then show thesis using fr_push_room [OF assms True, of 0 x] that(1) by auto
next
  case False
  then show thesis using fr_push_full [OF assms, of 0 x] that(2) by auto
qed

lemma to_mailbox_ok:
  assumes s: "search_ok s"
  obtains s' where "ctx_push_to_mailbox t j s = Some (Inr (), s')" "step_ok s {#job_body j#} {#} s'"
  | s' where "ctx_push_to_mailbox t j s = Some (Inl j, s')" "step_ok s {#} {#} s'"
proof (cases "length (pl_mailboxes (snd s)) \<le> t")
  case True
  then show thesis using that(2) [of s] step_ok_refl [OF s] by (simp add: ctx_push_to_mailbox_def)
next
  case False
  let ?ms = "pl_mailboxes (snd s)"
  have t: "t < length ?ms" using False by simp
  then have ring: "fr_ok (?ms ! t)" using s by (simp add: search_ok_def pool_ok_def)
  show thesis
  proof (cases rule: ring_push_cases [OF ring, of j])
    case (1 r)
    let ?p = "log_wake (Wake_worker t) ((snd s)\<lparr>pl_mailboxes := ?ms[t := r], pl_mailbox_used := True\<rparr>)"
    have eq: "ctx_push_to_mailbox t j s = Some (Inr (), fst s, ?p)" using 1(1) False by (simp add: ctx_push_to_mailbox_def Let_def)
    have "sum_list (map ring_bag (?ms[t := r])) + ring_bag (?ms ! t) = sum_list (map ring_bag ?ms) + ring_bag r"
      by (rule sum_list_update [OF t])
    then have bag: "sum_list (map ring_bag (?ms[t := r])) = add_mset (job_body j) (sum_list (map ring_bag ?ms))"
      using 1(3) by (simp add: ring_bag_def)
    have "\<forall>r \<in> set (?ms[t := r]). fr_ok r"
      using s 1(2) set_update_subset_insert [of ?ms t r] by (auto simp: search_ok_def pool_ok_def)
    then have "step_ok s {#job_body j#} {#} (fst s, ?p)"
      using s bag by (simp add: step_ok_def search_ok_def pool_ok_def search_bag_def pool_bag_def)
    then show thesis using eq by (intro that(1))
  next
    case 2
    have "(snd s)\<lparr>pl_mailboxes := ?ms[t := ?ms ! t]\<rparr> = snd s" by simp
    then show thesis using 2 False step_ok_refl [OF s] by (intro that(2) [of s]) (simp_all add: ctx_push_to_mailbox_def Let_def)
  qed
qed

lemma submit_ok:
  assumes s: "search_ok s" "arena_submit j (snd s) = Some p"
  shows "step_ok s {#job_body j#} {#} (fst s, p)"
proof -
  have ring: "fr_ok (pl_injector (snd s))" using s(1) by (simp add: search_ok_def pool_ok_def)
  show ?thesis
  proof (cases rule: ring_push_cases [OF ring, of j])
    case (1 r)
    then show ?thesis using s
      by (auto simp: arena_submit_def injector_push_def step_ok_def search_ok_def pool_ok_def search_bag_def pool_bag_def
          ring_bag_def)
  next
    case 2
    then show ?thesis using s(2) by (simp add: arena_submit_def injector_push_def)
  qed
qed

lemma slots_frame:
  "pool_ok (snd (try_claim_external_slot p)) = pool_ok p" "pool_bag (snd (try_claim_external_slot p)) = pool_bag p"
  "pl_deques (snd (try_claim_external_slot p)) = pl_deques p" "pl_mailboxes (snd (try_claim_external_slot p)) = pl_mailboxes p"
  "pool_ok (release_slot i p) = pool_ok p" "pool_bag (release_slot i p) = pool_bag p"
  "pl_deques (release_slot i p) = pl_deques p" "pl_mailboxes (release_slot i p) = pl_mailboxes p"
  by (auto simp: try_claim_external_slot_def release_slot_def pool_ok_def pool_bag_def split: option.splits)

lemma probe_step:
  assumes "probe_ok s (x, s')"
  shows "search_answer x \<noteq> Pl_broken \<and> step_ok s {#} (pool_out (search_answer x)) s'"
  using assms by (cases x) (auto simp: probe_ok_def step_ok_def same_frame_def search_answer_def)

lemma pool_in_searches [simp]: "pool_in Pl_find_work r = {#}" "pool_in (Pl_round rng) r = {#}"
  "pool_in Pl_flush r = {#}" "pool_in Pl_claim r = {#}" "pool_in (Pl_release i) r = {#}"
  by (cases r; simp)+

lemma worker_apply_ok:
  assumes s: "search_ok s"
  shows "fst (worker_apply op s) \<noteq> Pl_broken
    \<and> step_ok s (pool_in op (fst (worker_apply op s))) (pool_out (fst (worker_apply op s))) (snd (worker_apply op s))"
proof (cases op)
  case (Pl_try_push t j)
  obtain r s' where t: "try_push_tier j t s = (r, s')" by (cases "try_push_tier j t s")
  note b = try_push_tier_ok [OF s t]
  show ?thesis using b t Pl_try_push by (cases r) (auto simp: push_answer_def split: option.splits)
next
  case (Pl_push_burst t j)
  then show ?thesis using push_tier_burst_ok [OF s, of j t] step_ok_refl [OF s] by (auto split: option.splits)
next
  case Pl_flush
  then show ?thesis using flush_all_ok [OF s] step_ok_refl [OF s] by (auto split: option.splits)
next
  case (Pl_to_mailbox t j)
  then show ?thesis by (cases rule: to_mailbox_ok [OF s, of t j]) simp_all
next
  case Pl_find_work
  obtain r s' where f: "find_work s = (r, s')" by (cases "find_work s")
  have "probe_ok s (r, s')" using find_work_walk [OF s] f by (simp add: walk_ok_def)
  from probe_step [OF this] show ?thesis using f Pl_find_work by simp
next
  case (Pl_round rng)
  obtain r s' x where f: "worker_round rng s = (r, s', x)" by (metis prod.exhaust)
  have "probe_ok s (r, s')" using worker_round_walk [OF s, of rng] f by (simp add: walk_ok_def)
  from probe_step [OF this] show ?thesis using f Pl_round by simp
next
  case (Pl_submit j)
  then show ?thesis using submit_ok [OF s, of j] step_ok_refl [OF s] by (auto split: option.splits)
next
  case Pl_claim
  then show ?thesis using s slots_frame(1-4) [of "snd s"]
    by (auto simp: step_ok_def search_ok_def search_bag_def split: prod.splits option.splits)
next
  case (Pl_release i)
  then show ?thesis using s by (simp add: step_ok_def search_ok_def search_bag_def slots_frame)
qed

section \<open>Runs of all the workers\<close>

definition arena_ok :: "'j arena \<Rightarrow> bool" where
  "arena_ok s \<longleftrightarrow> pool_ok (snd s) \<and> length (pl_deques (snd s)) = length (fst s) \<and> length (pl_mailboxes (snd s)) = length (fst s)
     \<and> (\<forall>i < length (fst s). wc_index (fst s ! i) = i \<and> thief_ok (wc_stash (fst s ! i)))"

definition arena_bag :: "'j arena \<Rightarrow> 'j multiset" where
  "arena_bag s = pool_bag (snd s) + sum_list (map (thief_bag \<circ> wc_stash) (fst s))"

text \<open>The reset of a claimed slot's context leaves its index and its stash.\<close>

lemma claim_resets_frame:
  "length (claim_resets op p cs) = length cs" "map wc_stash (claim_resets op p cs) = map wc_stash cs"
  "map wc_index (claim_resets op p cs) = map wc_index cs"
  by (cases op; simp add: map_update reset_ctx_def Let_def list_update_same_conv split: option.split;
      metis list_update_id map_update nth_map list_update_beyond not_le)+

lemma claim_resets_arena:
  "arena_ok (claim_resets op q cs, p) = arena_ok (cs, p)" "arena_bag (claim_resets op q cs, p) = arena_bag (cs, p)"
proof -
  let ?cs = "claim_resets op q cs"
  have len: "length ?cs = length cs" by (rule claim_resets_frame)
  have "wc_stash (?cs ! i) = wc_stash (cs ! i) \<and> wc_index (?cs ! i) = wc_index (cs ! i)" if "i < length cs" for i
    using claim_resets_frame(2,3) [of op q cs] len that by (metis nth_map)
  then show "arena_ok (?cs, p) = arena_ok (cs, p)" using len by (simp add: arena_ok_def)
  show "arena_bag (?cs, p) = arena_bag (cs, p)"
    unfolding arena_bag_def using arg_cong [OF claim_resets_frame(2) [of op q cs], of "map thief_bag"] by (simp add: comp_def)
qed

lemma pool_apply_ok:
  assumes s: "arena_ok s"
  shows "arena_ok (snd (pool_apply op s)) \<and> fst (pool_apply op s) \<noteq> Pl_broken
    \<and> (fst op < length (fst s) \<longrightarrow>
        arena_bag s + pool_in (snd op) (fst (pool_apply op s)) = pool_out (fst (pool_apply op s)) + arena_bag (snd (pool_apply op s)))
    \<and> (\<not> fst op < length (fst s) \<longrightarrow> pool_apply op s = (Pl_nothing, s))
    \<and> length (fst (snd (pool_apply op s))) = length (fst s)"
proof (cases "fst op < length (fst s)")
  case False
  then show ?thesis using s by (simp add: pool_apply_def)
next
  case True
  let ?i = "fst op" and ?t = "(fst s ! fst op, snd s)"
  obtain r c p where step: "worker_apply (snd op) ?t = (r, c, p)" by (metis prod.exhaust)
  have "search_ok ?t" using s True by (simp add: arena_ok_def search_ok_def)
  from worker_apply_ok [OF this, of "snd op"] step
  have b: "r \<noteq> Pl_broken" and ok: "step_ok ?t (pool_in (snd op) r) (pool_out r) (c, p)" by simp_all
  let ?cs = "claim_resets (snd op) (snd s) ((fst s)[?i := c])"
  have eq: "pool_apply op s = (r, ?cs, p)" using True step by (simp add: pool_apply_def back_in_def)
  have "sum_list (map (thief_bag \<circ> wc_stash) ((fst s)[?i := c])) + thief_bag (wc_stash (fst s ! ?i))
      = sum_list (map (thief_bag \<circ> wc_stash) (fst s)) + thief_bag (wc_stash c)"
    using sum_list_update [OF True, of "thief_bag \<circ> wc_stash" c] by simp
  moreover have "pool_bag (snd s) + thief_bag (wc_stash (fst s ! ?i)) + pool_in (snd op) r
      = pool_out r + (pool_bag p + thief_bag (wc_stash c))"
    using ok by (simp add: step_ok_def search_bag_def)
  ultimately have "arena_bag s + pool_in (snd op) r + thief_bag (wc_stash c) + thief_bag (wc_stash (fst s ! ?i))
      = pool_out r + arena_bag ((fst s)[?i := c], p) + thief_bag (wc_stash c) + thief_bag (wc_stash (fst s ! ?i))"
    unfolding arena_bag_def by (smt (verit, ccfv_threshold) add.assoc add.commute fst_conv snd_conv)
  then have bag: "arena_bag s + pool_in (snd op) r = pool_out r + arena_bag ((fst s)[?i := c], p)" by simp
  have "arena_ok ((fst s)[?i := c], p)"
    using s True ok by (auto simp: arena_ok_def step_ok_def search_ok_def nth_list_update)
  then show ?thesis using True b bag eq by (simp add: claim_resets_arena claim_resets_frame)
qed

definition total_in :: "nat \<Rightarrow> (nat \<times> 'j pool_op) list \<Rightarrow> 'j pool_answer list \<Rightarrow> 'j multiset" where
  "total_in n ops rs = sum_list (map2 (\<lambda>op r. if fst op < n then pool_in (snd op) r else {#}) ops rs)"

definition total_out :: "'j pool_answer list \<Rightarrow> 'j multiset" where
  "total_out rs = sum_list (map pool_out rs)"

lemma pool_run_ok:
  assumes "arena_ok s"
  shows "arena_ok (snd (run_ops pool_apply ops s)) \<and> Pl_broken \<notin> set (fst (run_ops pool_apply ops s))
    \<and> arena_bag s + total_in (length (fst s)) ops (fst (run_ops pool_apply ops s))
      = total_out (fst (run_ops pool_apply ops s)) + arena_bag (snd (run_ops pool_apply ops s))"
  using assms
proof (induction ops arbitrary: s)
  case Nil
  then show ?case by (simp add: total_in_def total_out_def)
next
  case (Cons op ops)
  obtain r s1 where step: "pool_apply op s = (r, s1)" by (cases "pool_apply op s")
  let ?in = "if fst op < length (fst s) then pool_in (snd op) r else {#}"
  have k: "arena_ok s1" "r \<noteq> Pl_broken" "arena_bag s + ?in = pool_out r + arena_bag s1" "length (fst s1) = length (fst s)"
    using pool_apply_ok [OF Cons.prems, of op] step by auto
  obtain rs s2 where run: "run_ops pool_apply ops s1 = (rs, s2)" by (cases "run_ops pool_apply ops s1")
  have ih: "arena_ok s2" "Pl_broken \<notin> set rs" "arena_bag s1 + total_in (length (fst s)) ops rs = total_out rs + arena_bag s2"
    using Cons.IH [OF k(1)] run k(4) by auto
  have "arena_bag s + (?in + total_in (length (fst s)) ops rs) = pool_out r + (arena_bag s1 + total_in (length (fst s)) ops rs)"
    using k(3) by (metis add.assoc)
  also have "\<dots> = (pool_out r + total_out rs) + arena_bag s2" unfolding ih(3) by (simp add: add.assoc)
  finally show ?case using step run k ih by (simp add: total_in_def total_out_def)
qed

lemma sum_list_empties [simp]: "sum_list (replicate n ({#} :: 'b multiset)) = {#}"
  by (induction n) simp_all

lemma arena_start_ok:
  "arena_ok (arena_start primary smt ccx g)" "arena_bag (arena_start primary smt ccx g) = {#}"
proof -
  show "arena_ok (arena_start primary smt ccx g)"
    by (auto simp: arena_ok_def arena_start_def arena_pool_def pool_ok_def new_ctx_def thief_ok_def Let_def
        new_adaptive_inv(1) fr_ok_new injector_new_def injector_with_capacity_def)
  show "arena_bag (arena_start primary smt ccx g) = {#}"
    by (simp add: arena_bag_def arena_start_def comp_def new_ctx_def thief_bag_def arena_pool_def pool_bag_def deques_bag_def Let_def
        injector_new_def map_replicate injector_with_capacity_def ring_bag_def fr_abs_new new_adaptive_inv(2))
qed

lemma arena_start_length [simp]:
  "length (fst (arena_start primary smt ccx g)) = worker_total primary smt + EXTERNAL_SLOT_COUNT"
  by (simp add: arena_start_def)

end
