(* ===== verification/Pool_Properties.thy ===== *)
theory Pool_Properties
  imports Pool_Laws
begin

text \<open>The properties of the pool's search for work and of all its operations together.\<close>

section \<open>The tiers a search may touch\<close>

definition keeps_distance :: "'j search \<Rightarrow> 'j search \<Rightarrow> bool" where
  "keeps_distance s s' \<longleftrightarrow> wc_index (fst s') = wc_index (fst s) \<and> wc_ccx_size (fst s') = wc_ccx_size (fst s)
     \<and> (\<forall>v t. v \<noteq> wc_index (fst s) \<and> t < distance_to v s \<longrightarrow> deque_at s' v t = deque_at s v t)"

lemma keeps_refl [simp]: "keeps_distance s s"
  by (simp add: keeps_distance_def)

lemma keeps_trans:
  assumes "keeps_distance s t" "keeps_distance t u"
  shows "keeps_distance s u"
proof -
  have "distance_to v t = distance_to v s" for v using assms(1) by (simp add: keeps_distance_def distance_to_def)
  then show ?thesis using assms by (simp add: keeps_distance_def)
qed

lemma keeps_or_else:
  assumes "keeps_distance s (snd r)" "\<And>s'. keeps_distance s' (snd (f s'))"
  shows "keeps_distance s (snd (or_else r f))"
  using assms(1) keeps_trans [OF _ assms(2)] by (cases r; cases "fst r") (auto simp: or_else_def)

lemma keeps_ctx:
  assumes "wc_index c = wc_index (fst s)" "wc_ccx_size c = wc_ccx_size (fst s)" "pl_deques p = pl_deques (snd s)"
  shows "keeps_distance s (c, p)"
  using assms by (simp add: keeps_distance_def deque_at_def)

lemma deque_at_set: "(v, t) \<noteq> (w, t') \<Longrightarrow> deque_at (c, set_deque w t' a p) v t = pl_deques p ! v ! t"
  by (cases "v = w"; cases "w < length (pl_deques p)") (auto simp: deque_at_def set_deque_def list_update_beyond)

lemma keeps_set:
  assumes "wc_index c = wc_index (fst s)" "wc_ccx_size c = wc_ccx_size (fst s)"
    and "w = wc_index (fst s) \<or> distance_to w s \<le> t"
  shows "keeps_distance s (c, set_deque w t a (snd s))"
  unfolding keeps_distance_def
proof (intro conjI allI impI)
  fix v t' assume "v \<noteq> wc_index (fst s) \<and> t' < distance_to v s"
  then have "(v, t') \<noteq> (w, t)" using assms(3) by auto
  from deque_at_set [OF this] show "deque_at (c, set_deque w t a (snd s)) v t' = deque_at s v t'"
    by (simp add: deque_at_def)
qed (use assms in simp_all)

lemma keeps_own_pop: "keeps_distance s (snd (own_pop t s))"
  by (simp add: own_pop_def keeps_set split: prod.splits)

lemma keeps_own_pops: "keeps_distance s (snd (own_pops ts s))"
  by (induction ts arbitrary: s) (simp_all add: keeps_or_else keeps_own_pop)

lemma keeps_local:
  "keeps_distance s (snd (drain_stash s))" "keeps_distance s (snd (mailbox_pop s))"
  "keeps_distance s (snd (gated_mailbox_pop s))" "keeps_distance s (snd (injector_take s))"
  by (simp_all add: drain_stash_def mailbox_pop_def gated_mailbox_pop_def injector_take_def keeps_ctx
      split: prod.splits option.splits)

lemma keeps_steal_tier: "distance_to v s \<le> t \<Longrightarrow> keeps_distance s (snd (steal_tier v t s))"
  by (simp add: steal_tier_def keeps_set split: prod.splits)

lemma keeps_note: "keeps_distance s s' \<Longrightarrow> keeps_distance s (note_steal v s')" "keeps_distance s s' \<Longrightarrow> keeps_distance s (note_stats f s')"
  by (simp_all add: keeps_distance_def note_steal_def note_stats_def deque_at_def)

lemma distance_kept: "keeps_distance s s' \<Longrightarrow> distance_to v s' = distance_to v s"
  by (simp add: keeps_distance_def distance_to_def)

lemma keeps_steal_tiers: "\<forall>t \<in> set ts. distance_to v s \<le> t \<Longrightarrow> keeps_distance s (snd (steal_tiers v ts s))"
proof (induction ts arbitrary: s)
  case (Cons t ts)
  obtain r s1 where st: "steal_tier v t s = (r, s1)" by (cases "steal_tier v t s")
  have 1: "keeps_distance s s1" using keeps_steal_tier [of v s t] Cons.prems st by simp
  have "keeps_distance s1 (snd (steal_tiers v ts s1))"
    using Cons.IH [of s1] Cons.prems distance_kept [OF 1] by simp
  then show ?case using st 1 keeps_trans [OF 1] keeps_note(1) [OF 1] by (auto split: option.splits steal.splits)
qed simp

lemma keeps_retrying: "distance_to v s \<le> t \<Longrightarrow> keeps_distance s (snd (steal_tier_retrying v t s))"
proof -
  assume t: "distance_to v s \<le> t"
  obtain r s1 where st: "steal_tier v t s = (r, s1)" by (cases "steal_tier v t s")
  have 1: "keeps_distance s s1" using keeps_steal_tier [OF t] st by simp
  have "keeps_distance s1 (snd (steal_tier v t s1))" by (rule keeps_steal_tier) (simp add: t distance_kept [OF 1])
  then show ?thesis using st 1 keeps_trans [OF 1] by (simp add: steal_tier_retrying_def)
qed

lemma keeps_loop_tiers: "\<forall>t \<in> set ts. distance_to v s \<le> t \<Longrightarrow> keeps_distance s (snd (loop_tiers v ts s))"
proof (induction ts arbitrary: s)
  case (Cons t ts)
  obtain r s1 where st: "steal_tier_retrying v t s = (r, s1)" by (cases "steal_tier_retrying v t s")
  have 1: "keeps_distance s s1" using keeps_retrying [of v s t] Cons.prems st by simp
  have "keeps_distance s1 (snd (loop_tiers v ts s1))"
    using Cons.IH [of s1] Cons.prems distance_kept [OF 1] by simp
  then show ?case using st 1 keeps_trans [OF 1] keeps_note(1) [OF keeps_note(2) [OF 1]]
    by (auto split: option.splits steal.splits)
qed simp

lemma keeps_steal_peer: "keeps_distance s (snd (steal_from_peer_tiered v s))"
  by (simp add: steal_from_peer_tiered_def keeps_steal_tiers)

lemma keeps_probe_slots: "keeps_distance s (snd (probe_slots is s))"
  by (induction "is" arbitrary: s) (simp_all add: keeps_or_else keeps_steal_peer)

lemma keeps_probe_peers: "keeps_distance s (snd (probe_peers b vs s))"
  by (induction vs arbitrary: b s) (simp_all add: keeps_or_else keeps_loop_tiers)

lemma keeps_find_work: "keeps_distance s (snd (find_work s))"
proof -
  have "keeps_distance s (snd (steal_from_peer_tiered v ((fst s)\<lparr>wc_rng := x\<rparr>, snd s)))" for s :: "'a search" and v x
    by (rule keeps_trans [OF keeps_ctx keeps_steal_peer]) simp_all
  then have "keeps_distance s (snd (probe_random s))" for s :: "'a search"
    by (simp add: probe_random_def Let_def)
  moreover have "keeps_distance s (snd (probe_last s))" for s :: "'a search"
    by (simp add: probe_last_def Let_def keeps_steal_peer)
  ultimately have "keeps_distance s (snd (find_elsewhere s))" for s :: "'a search"
    by (simp add: find_elsewhere_def keeps_or_else keeps_probe_slots)
  then show ?thesis by (simp add: find_work_def keeps_or_else keeps_own_pop keeps_own_pops keeps_local)
qed

lemma keeps_counting: "keeps_distance s (snd r) \<Longrightarrow> keeps_distance s (snd (counting_pop r))"
  using keeps_note(2) [of s "snd r"] by (cases r) (auto simp: counting_pop_def split: found.splits)

lemma keeps_worker_round: "keeps_distance s (fst (snd (worker_round rng s)))"
proof -
  have probes: "keeps_distance s (snd (round_probes s))"
    by (simp add: round_probes_def keeps_or_else keeps_counting keeps_own_pops keeps_local keeps_probe_slots)
  have round: "keeps_distance s (fst (snd (probe_round rng s)))" for s :: "'a search"
  proof -
    obtain start x where pick: "pick_victim rng (wc_index (fst s)) (pl_n_workers (snd s)) = (start, x)"
      by (cases "pick_victim rng (wc_index (fst s)) (pl_n_workers (snd s))")
    obtain r s1 where peers: "probe_peers (probe_count (pl_n_workers (snd s)))
        (map (\<lambda>i. (start + i) mod pl_n_workers (snd s)) [0..<pl_n_workers (snd s)]) s = (r, s1)"
      by (cases "probe_peers (probe_count (pl_n_workers (snd s)))
        (map (\<lambda>i. (start + i) mod pl_n_workers (snd s)) [0..<pl_n_workers (snd s)]) s")
    have "keeps_distance s s1" using keeps_probe_peers [of s] peers by (metis snd_conv)
    then show ?thesis using keeps_note(2) [OF \<open>keeps_distance s s1\<close>] pick peers by (simp add: probe_round_def Let_def)
  qed
  have "worker_round rng s = (case round_probes s of (Nothing_found, s) \<Rightarrow> probe_round rng s | (r, s) \<Rightarrow> (r, s, rng))"
    by (simp only: worker_round_def round_probes_def)
  then show ?thesis
    using probes keeps_trans [OF _ round] by (cases "round_probes s"; cases "fst (round_probes s)") auto
qed

section \<open>Properties\<close>


text \<open>
  C17: A search that finds nothing has looked everywhere it may. In any state the arena can reach,
  when \<open>find_work\<close> answers that there is nothing, the worker's stash and the injector are empty,
  its mailbox too once mailboxes are in use, its deques hold at most the two orphans a thief
  can leave, and no claimed slot offers a line at a tier the worker's distance allows. When a
  round of the main loop finds nothing in an arena of at most eight workers, no worker at all
  offers it one: a worker goes idle only when there is nothing it could have taken.
\<close>

theorem empty_search_saw_everything:
  assumes "snd (run_ops pool_apply ops (arena_start primary_count smt_extension ccx_size gating)) = (ctxs, p)"
    and "i < length ctxs"
  shows "(fst (find_work (ctxs ! i, p)) = Nothing_found \<longrightarrow> find_spent (snd (find_work (ctxs ! i, p))))
    \<and> (fst (worker_round rng (ctxs ! i, p)) = Nothing_found
       \<longrightarrow> round_spent (fst (snd (worker_round rng (ctxs ! i, p)))) \<and> peers_seen (fst (snd (worker_round rng (ctxs ! i, p)))))"
proof -
  have "arena_ok (ctxs, p)"
    using pool_run_ok [OF arena_start_ok(1), of ops primary_count smt_extension ccx_size gating] assms(1) by simp
  then have s: "search_ok (ctxs ! i, p)" using assms(2) by (simp add: arena_ok_def search_ok_def)
  show ?thesis using find_work_walk [OF s] worker_round_walk [OF s, of rng] by (auto simp: walk_ok_def split: prod.splits)
qed

theorem empty_search_saw_everything_witness:
  "find_spent (snd (find_work (new_ctx 4 0, arena_pool 2 0 PerSlot :: nat pool)))"
proof -
  let ?s = "arena_start 2 0 4 PerSlot :: nat arena"
  have run: "snd (run_ops pool_apply [] ?s) = (fst ?s, snd ?s)" by simp
  have i: "0 < length (fst ?s)" "fst ?s ! 0 = new_ctx 4 0" "snd ?s = arena_pool 2 0 PerSlot"
    by (simp_all add: arena_start_def worker_total_def del: upt_Suc)
  have ok: "search_ok (fst ?s ! 0, snd ?s)" using arena_start_ok(1) [of 2 0 4 PerSlot] i(1)
    by (auto simp: arena_ok_def search_ok_def)
  have bag: "arena_bag ?s = {#}" by (rule arena_start_ok(2))
  have "search_bag (fst ?s ! 0, snd ?s) = {#}"
    using bag by (simp add: i(2) search_bag_def arena_bag_def new_ctx_def thief_bag_def)
  then have "fst (find_work (fst ?s ! 0, snd ?s)) = Nothing_found"
    using find_work_walk [OF ok] by (auto simp: walk_ok_def probe_ok_def split: found.splits)
  then show ?thesis
    using empty_search_saw_everything [OF run i(1)] i(2,3) by simp
qed

text \<open>
  C18: No search takes from a tier that is closer than the thief. Whatever the state, a \<open>find_work\<close>
  or a main-loop round of a worker leaves every deque of another worker as it is whose tier is
  narrower than the worker's distance to it: a job pushed for the SMT pair stays within the
  pair, one for the cluster within the cluster.
\<close>

theorem search_keeps_its_distance:
  assumes "v \<noteq> wc_index (fst s)" "\<not> thief_may_steal (peer_distance (of_nat (wc_index (fst s))) (of_nat v) (wc_ccx_size (fst s))) tier"
  shows "deque_at (snd (find_work s)) v (deque_tier_idx tier) = deque_at s v (deque_tier_idx tier)
    \<and> deque_at (fst (snd (worker_round rng s))) v (deque_tier_idx tier) = deque_at s v (deque_tier_idx tier)"
proof -
  have "deque_tier_idx tier < distance_to v s"
    using assms(2) by (simp add: thief_may_steal_def distance_to_def less_eq_deque_tier_def)
  then show ?thesis
    using assms(1) keeps_find_work [of s] keeps_worker_round [of s rng] by (simp add: keeps_distance_def)
qed

theorem search_keeps_its_distance_witness:
  "deque_at (snd (find_work (new_ctx 4 0, arena_pool 8 0 PerSlot :: nat pool))) 5 0
    = deque_at (new_ctx 4 0, arena_pool 8 0 PerSlot) 5 0"
  using search_keeps_its_distance [of 5 "(new_ctx 4 0, arena_pool 8 0 PerSlot :: nat pool)" SmtLocal]
  by (simp add: new_ctx_def thief_may_steal_def peer_distance_def less_eq_deque_tier_def)

end
