(* ===== verification/Spec2Isabelle.thy ===== *)
theory Spec2Isabelle
  imports Routing Table_Race Site_Registry Site_Life Observer_Laws Plan_Laws Chase_Lev_Race Ring_Race
    Wire Sched_Properties Par_Properties Race_Properties Coop_Properties Adaptive_Properties Pool_Properties
begin

text \<open>
  A verification library for the Flynnel scheduler (a Rust crate; paths below are under
  \<open>src/src/\<close>). It models the scheduler's own data and algorithms and proves what makes
  them correct.

  The program. A caller describes a batch of work as a plan (\<open>sched/plan.rs\<close>); the plan
  picks a tier, a number of chunks, a number of workers and a backend. Each place in the
  caller's source that starts work has a call site (\<open>sched/call_site.rs\<close>) found in a
  lock-free table; the site measures what runs there and learns a class, a seed depth, the
  faster of two arms and the faster of processor and backend. A process-wide observer
  (\<open>sched/split_observer.rs\<close>) does the same for all work. Work is held in work-stealing
  deques (\<open>sched/chase_lev_local.rs\<close>), three to a cache line in \<open>sched/fcl_local.rs\<close> and
  \<open>sched/khl_local.rs\<close>, and passed between threads through shared rings
  (\<open>sched/flynnel_ring.rs\<close>). A thread that waits for a job waits on a latch
  (\<open>sched/latch.rs\<close>) through its parker (\<open>sched/sleep.rs\<close>); a worker that finds nothing to do
  sleeps by the pool's protocol (\<open>sched/jec_sleep.rs\<close>). On top of the pool stand the parallel
  iterators (\<open>sched/par_iter.rs\<close>), the n-way fork-join (\<open>sched/cooperative.rs\<close>) and the races
  between variants of one computation (\<open>sched/race.rs\<close>).

  The theories, in the order they build on each other.

  \<^item> Prelude: machine words (saturating and checked operations read as numbers), powers of two
    and masked slots, runs of operations and their simulation, and three contracts: a tag
    that decodes to what it encodes, a state that adopts what it sees twice in a row, and a
    store that keeps what was first inserted under a key.
  \<^item> Foundation, Routing, \<open>Adaptive_Profile\<close>: the enumerations and tables of
    \<open>foundation.rs\<close>, \<open>dispatch_profile.rs\<close>, \<open>sched/deque_tier.rs\<close>, \<open>sched/k_gating.rs\<close>,
    \<open>sched/workload_shape.rs\<close>, \<open>sched/adaptive_cooperative.rs\<close>,
    \<open>sched/adaptive_variant_routing.rs\<close> and \<open>sched/adaptive_profile.rs\<close>, with the
    classification of measured and of unmeasured work.
  \<^item> Observer, \<open>Observer_Laws\<close>: the leaf counters, the classifier's tick and the observer's
    sample; the range of the multiplier, and the classifier's blindness after a sample.
  \<^item> Ewma, \<open>Call_Site\<close>, \<open>Call_Site_Laws\<close>, \<open>Placement_Laws\<close>, \<open>Site_Life\<close>: every field and operation of a
    call site; hysteresis, averages, arms, placement, shares, weights; and the invariant over
    any sequence of operations.
  \<^item> \<open>Site_Table\<close>, \<open>Table_Race\<close>, \<open>Site_Registry\<close>: the open-addressed insert-once table as a
    sequential structure, the same insert with its loads and exchanges interleaved between
    any number of threads, and the registry of keyed and located sites with its per-thread
    cache. A site's address is its index in the list of leaked sites.
  \<^item> \<open>Backend_Registry\<close>: ids, capabilities and the replace-on-register table.
  \<^item> Plan, \<open>Tier_Pick\<close>, \<open>Plan_Laws\<close>: the plan, its builders and derived values, the integer
    square root, chunk counts and tiers.
  \<^item> \<open>Chase_Lev\<close>, \<open>Chase_Lev_Race\<close>: the deque one operation at a time, refined by a bounded list,
    and its shared accesses interleaved between an owner and any number of thieves.
  \<^item> \<open>Flynnel_Ring\<close>, \<open>Ring_Race\<close>: the same for the ring shared by many producers and consumers,
    with its blocking forms and with exchanges that fail for no reason.

  \<^item> \<open>Job_Line\<close>, Khl, \<open>Khl_Race\<close>: jobs and their results, the line that gathers three of them, one
    client of any work-stealing deque proved to be a list of groups, its two instances, and
    the slot ring of the second interleaved between an owner and thieves.
  \<^item> Latch, Parker, \<open>Latch_Race\<close>, \<open>Wait_Laws\<close>: the latches one operation at a time and their
    refinement to the plain one, the parker and the controller of its waits; a waiter and the
    participants of a latch interleaved access by access; the controller over any run.
  \<^item> \<open>Jec_Sleep\<close>, \<open>Jec_Race\<close>: the packed counters of the pool and its sleep protocol under any
    interleaving of workers, submitters, letters, wakes, requests for the SMT siblings and a
    shutdown; a sibling nobody asks for is held at its gate. Jobs are counted, not held; what a search of the deques finds, and the first look inside \<open>sleep\<close>, are choices.
  \<^item> \<open>Fork_Join\<close>, \<open>Par_Split\<close>, \<open>Par_Entry\<close>, \<open>Par_Collect\<close>: the recursions of
    \<open>sched/par_iter.rs\<close> as one fork and join over an oracle for steals, the depth and floor
    of a split, every entry point with its probe and its effect on the call site, and the
    collects and reductions. \<open>Par_Laws\<close> and \<open>Par_Leaves\<close> prove that a run gives what the
    sequential loop gives and bound the leaves. \<open>Leaf_Stats\<close>, \<open>Leaf_Laws\<close>: the per-thread
    buffer of leaf times. \<open>Host_Profile\<close>, \<open>Profile_Race\<close>: the host's three figures, pinned or
    measured, and their publication by several threads.
  \<^item> Race, \<open>Race_Laws\<close>, \<open>Race_Choice\<close>: the races of \<open>sched/race.rs\<close>. The arms of a cancel-driven
    race share one word, which is the state of its step relation; the deadline race, the
    tournament and the other choices among finished arms are functions of their results. The
    tournament's sort promises an order only for a weak order, and is \<open>None\<close> for any other.
  \<^item> Cooperative, \<open>Cooperative_Laws\<close>: the shape of every fork-join entry, the balanced tree, the
    mailbox targets, and the fan-out as steps of the pushing parent, the helping workers and
    the latch they count down. The caller's ring has room for 256 lines, and a publish waits
    while it has none.
  \<^item> \<open>Adaptive_Worker\<close>, \<open>Adaptive_Laws\<close>, \<open>Adaptive_Properties\<close>: the two workers over line deques with
    their stashes (\<open>sched/khl_worker.rs\<close>, \<open>sched/fcl_worker.rs\<close>), the worker that carries both
    (\<open>sched/adaptive_worker.rs\<close>), and what its migrations keep and lose.
  \<^item> \<open>Work_Search\<close>, \<open>Work_Laws\<close>, \<open>Pool_Laws\<close>, \<open>Pool_Properties\<close>: the worker's side of
    \<open>sched/arena_local.rs\<close> and \<open>sched/injector.rs\<close>: the pool as it is built, the tiered pushes,
    mailboxes, external slots, \<open>find_work\<close> and the probes of the main loop, over the adaptive
    workers and the rings above. The laws state of each probe what it takes and, when it finds
    nothing, what it has seen; the runs interleave whole operations of all the workers.
  \<^item> Wire: kernel arguments as bytes, both ways.
  \<^item> \<open>Sched_Properties\<close>, \<open>Par_Properties\<close>, \<open>Race_Properties\<close> and \<open>Coop_Properties\<close> state what these
    promise; the root states the rest.

  State and effects. A struct is a record, its atomics are fields; one operation run alone is a
  function on the record. Where the order of shared accesses matters, a thread is a program
  counter and each load, store, exchange or fetch-and-add is one step of an \<open>inductive\<close>
  relation, so that every interleaving is covered. Interleaving is the memory model: the
  reorderings that the source's acquire and release orders allow between threads are not
  modelled. Unsigned integers are words of the source's width; the positions of deques and
  rings, 64-bit counters that the source never lets wrap in practice, are unbounded integers.

  Parameters. What the code takes from outside is an argument: the hash of a backend id and of
  a source location, the measured times of calibration, the floating-point seed of the integer
  square root, the vendor of the processor, the number of threads.
  In a parallel run the steals, the steal counters and the clocks are one record, fixed for
  the run. In the waiting protocols the cycle counter, the strategy a park uses, a monitored wait's
  early return and a spurious return of \<open>park\<close> are choices of the step.

  Fuel. The fork and join of a parallel run is a partial function; it returns for every positive
  floor, which is proved, and the entries clamp their floor. The ring's retry loops carry fuel; run alone they need one pass, which is proved, and
  under interleaving they are steps and need none. The square root's loops terminate by a
  measure.

  Panics and overflow. A panic, an exhausted table and an unchecked multiplication that
  overflows are values of a sum or option type.

  Not modelled. Thread start-up and pinning, the NUMA arenas above the pool; jobs as raw pointers; panics of the caller's
  closures and, in a parallel run, what else they do besides returning; NUMA and processor probes; files; shared memory between
  processes; accelerator backends, GPU peers and the vector kernels; the PowerShell module.
  An arm of a race that cancels the token itself is outside the model. These are operating-system
  and device calls, generic glue over the caller's closures, or code the modelled pool does not use.
\<close>

section \<open>The work-stealing deque\<close>

lemma race_chain:
  "race_step\<^sup>*\<^sup>* s0 s \<Longrightarrow> race_step\<^sup>*\<^sup>* s0 ((owner_step ^^ n) s)"
  "race_step\<^sup>*\<^sup>* s0 s \<Longrightarrow> rc_owner s = O_idle \<Longrightarrow> race_step\<^sup>*\<^sup>* s0 (start_push x s)"
  "race_step\<^sup>*\<^sup>* s0 s \<Longrightarrow> rc_owner s = O_idle \<Longrightarrow> race_step\<^sup>*\<^sup>* s0 (start_pop s)"
  "race_step\<^sup>*\<^sup>* s0 s \<Longrightarrow> i < length (rc_thieves s) \<Longrightarrow> race_step\<^sup>*\<^sup>* s0 (thief_step i s)"
proof -
  show "race_step\<^sup>*\<^sup>* s0 s \<Longrightarrow> race_step\<^sup>*\<^sup>* s0 ((owner_step ^^ n) s)"
    by (induction n) (auto intro: race_step.race_owner rtranclp.rtrancl_into_rtrancl)
qed (auto intro: race_step.intros rtranclp.rtrancl_into_rtrancl)

text \<open>
  A two-slot deque with one thief: the owner pushes 7, the thief loads the top and stops, the
  owner starts a pop and both go for the last item.
\<close>

definition contended_race :: "nat race" where
  "contended_race = thief_step 0 (thief_step 0 (thief_step 0
     ((owner_step ^^ 3) (start_push 7 (race_start 2 1)))))"

lemma thrice: "(f ^^ 3) x = f (f (f x))"
  by (simp add: numeral_3_eq_3)

lemma power_of_two_2 [simp]: "next_power_of_two 2 = 2"
  by (simp add: next_power_of_two_def bit_length.simps)

lemma replicate_2: "replicate 2 x = [x, x]"
  by (simp add: numeral_2_eq_2)

lemmas race_eval = thrice contended_race_def race_start_def new_chase_lev_def start_push_def owner_step_def
  thief_step_def capacity_def slot_idx_def read_slot_def write_slot_def mask_slot_def
  replicate_2 start_pop_def residual_def real_bottom_def owner_held_def cl_abs_def

lemma contended_race_reachable: "race_step\<^sup>*\<^sup>* (race_start 2 1) contended_race"
  unfolding contended_race_def
  by (intro race_chain rtranclp.rtrancl_refl) (simp_all add: race_eval)

lemma contended_race_state:
  "contended_race = \<lparr>rc_header = \<lparr>h_top = 0, h_bottom = 1, h_buffer = [Some 7, None]\<rparr>,
     rc_owner = O_idle, rc_thieves = [T_cas 0 7], rc_pushed = [7], rc_taken = []\<rparr>"
  by (simp add: race_eval)

text \<open>
  C1: under every interleaving of one owner with any number of thieves, each item that was
  pushed is exactly one of: taken once (popped by the owner or stolen), or still held (in the
  deque, or in the owner's hand between its two shared accesses). Nothing is lost and nothing
  is taken twice.
\<close>

theorem deque_race_conserves:
  assumes "race_step\<^sup>*\<^sup>* (race_start cap n) s"
  shows "mset (rc_pushed s) = mset (rc_taken s) + mset (residual s)"
  using assms by (intro race_conserves race_reachable_inv)

theorem deque_race_conserves_witness:
  "mset (rc_pushed contended_race) = mset (rc_taken contended_race) + mset (residual contended_race)
   \<and> rc_pushed contended_race = [7]"
  using deque_race_conserves [OF contended_race_reachable] by (simp add: contended_race_state)

text \<open>
  C2: no interleaving lets the owner or a thief read a slot that was never written: the
  undefined reads of the model are unreachable, and between the owner's operations the shared
  header is a well-formed deque whose list of items is what is still held.
\<close>

theorem deque_race_defined:
  assumes "race_step\<^sup>*\<^sup>* (race_start cap n) s"
  shows "rc_owner s \<noteq> O_undefined \<and> T_undefined \<notin> set (rc_thieves s)
    \<and> (rc_owner s = O_idle \<longrightarrow> cl_ok (rc_header s) \<and> residual s = cl_abs (rc_header s))"
  using race_no_undefined [OF race_reachable_inv [OF assms]]
    race_idle_deque [OF race_reachable_inv [OF assms]] by simp_all

theorem deque_race_defined_witness:
  "rc_owner contended_race \<noteq> O_undefined \<and> T_undefined \<notin> set (rc_thieves contended_race)
   \<and> residual contended_race = cl_abs (rc_header contended_race) \<and> cl_ok (rc_header contended_race)"
  using deque_race_defined [OF contended_race_reachable] by (simp add: contended_race_state)

text \<open>
  C35: the owner is wait-free. In every reachable state an operation of the owner needs at most
  five more of its own steps, each step brings it closer to the end, and no step of a thief
  sets it back.
\<close>

theorem owner_wait_free:
  assumes "race_step\<^sup>*\<^sup>* (race_start cap n) s" and "rc_owner s \<noteq> O_idle"
  shows "owner_left (rc_owner (owner_step s)) < owner_left (rc_owner s)
    \<and> owner_left (rc_owner s) \<le> 5 \<and> rc_owner (thief_step i s) = rc_owner s"
proof -
  have "rc_owner s \<noteq> O_undefined" by (rule race_no_undefined(1) [OF race_reachable_inv [OF assms(1)]])
  then have "owner_left (rc_owner s) \<noteq> 0" using assms(2) by (cases "rc_owner s") simp_all
  moreover have "owner_left (rc_owner s) \<le> 5" by (cases "rc_owner s") simp_all
  ultimately show ?thesis using owner_step_left by simp
qed

theorem owner_wait_free_witness:
  "owner_left (rc_owner (owner_step (start_pop contended_race))) < owner_left (rc_owner (start_pop contended_race))"
  using owner_wait_free [OF race_chain(3) [OF contended_race_reachable]]
  by (simp add: contended_race_state start_pop_def)

text \<open>
  C33: run one after another, every sequence of pushes, pops and steals on a fresh deque
  answers exactly as a bounded list does: pushes and pops at one end, steals at the other,
  a push into a full deque hands the item back. The bound is the requested capacity rounded
  up to a power of two.
\<close>

theorem deque_refines_list:
  "fst (run_ops cl_apply ops (new_chase_lev cap)) =
   fst (run_ops (deque_spec (next_power_of_two (max cap 2))) ops [])"
proof -
  have "capacity (new_chase_lev cap :: 'a header) = next_power_of_two (max cap 2)"
    by (simp add: capacity_def new_chase_lev_def)
  with chase_lev.run_refines [OF cl_ok_new, of cap ops] show ?thesis
    by (metis cl_abs_new fst_conv)
qed

section \<open>The shared ring\<close>

lemma ring_chain:
  "ring_step\<^sup>*\<^sup>* s0 s \<Longrightarrow> i < length (rr_threads s) \<Longrightarrow> ring_step\<^sup>*\<^sup>* s0 (ring_thread_step i s)"
  "ring_step\<^sup>*\<^sup>* s0 s \<Longrightarrow> i < length (rr_threads s) \<Longrightarrow> rr_threads s ! i = R_idle \<Longrightarrow>
     ring_step\<^sup>*\<^sup>* s0 (ring_start_push i x s)"
  "ring_step\<^sup>*\<^sup>* s0 s \<Longrightarrow> i < length (rr_threads s) \<Longrightarrow> rr_threads s ! i = R_idle \<Longrightarrow>
     ring_step\<^sup>*\<^sup>* s0 (ring_start_pop_blocking i s)"
  by (auto intro: ring_step.intros rtranclp.rtrancl_into_rtrancl)

text \<open>
  Two threads on a two-slot ring: thread 1 starts a blocking pop of the empty ring and takes
  ticket 0, thread 0 then pushes 9.
\<close>

definition ring_example :: "nat ring_race" where
  "ring_example = ring_thread_step 1 (ring_thread_step 1 (ring_thread_step 1
     (ring_thread_step 0 (ring_thread_step 0 (ring_thread_step 0 (ring_thread_step 0
       (ring_start_push 0 9 (ring_start_pop_blocking 1 (ring_race_start 2 2)))))))))"

lemmas ring_eval = ring_example_def ring_race_start_def ring_thread_step_def ring_start_push_def
  ring_start_pop_blocking_def ring_goto_def fr_new_def fr_seq_def fr_data_def fr_idx_def
  set_seq_def set_data_def fr_capacity_def mask_slot_def replicate_2

lemma upt_2: "[0..<2] = [0, 1]"
  by (simp add: upt_rec)

lemma ring_example_state:
  "ring_example = \<lparr>rr_ring = \<lparr>fr_tail = 1, fr_head = 1, fr_slots = [(2, Some 9), (1, None)]\<rparr>,
     rr_threads = [R_idle, R_idle], rr_in = [0 \<mapsto> 9], rr_out = [0 \<mapsto> 9]\<rparr>"
  by (simp add: ring_eval upt_2)

lemma ring_example_reachable: "ring_step\<^sup>*\<^sup>* (ring_race_start 2 2) ring_example"
  unfolding ring_example_def
  by (intro ring_chain rtranclp.rtrancl_refl) (simp_all add: ring_eval upt_2)

text \<open>
  C29: under every interleaving of blocking and non-blocking pushes and pops on the shared
  ring, spurious exchange failures included, an item popped at a ticket is the item pushed at
  that ticket, and an item pushed at a ticket has been popped there or still lies published in
  its slot. No thread ever reads an unwritten slot.
\<close>

theorem ring_tickets_exact:
  assumes "ring_step\<^sup>*\<^sup>* (ring_race_start cap n) s"
  shows "rr_out s \<subseteq>\<^sub>m rr_in s
    \<and> (\<forall>q. rr_in s q \<noteq> None \<longrightarrow> rr_out s q = rr_in s q
          \<or> fr_seq (rr_ring s) q = q + 1 \<and> fr_data (rr_ring s) q = rr_in s q)
    \<and> R_undefined \<notin> set (rr_threads s)"
proof -
  have ok: "ring_race_ok s" by (rule ring_reachable_ok [OF assms])
  then have "R_undefined \<notin> set (rr_threads s)" by (auto simp: ring_race_ok_def)
  moreover have "rr_out s \<subseteq>\<^sub>m rr_in s" using ok by (simp add: ring_race_ok_def ring_inv_def contents_ok_def)
  ultimately show ?thesis using ticket_kept [OF ok] by fastforce
qed

theorem ring_tickets_exact_witness: "rr_out ring_example \<subseteq>\<^sub>m rr_in ring_example \<and> rr_in ring_example 0 = Some 9"
  using ring_tickets_exact [OF ring_example_reachable] by (simp add: ring_example_state)

text \<open>
  C32: whenever no operation is in flight the ring is first-in first-out: the popped tickets
  are exactly those before the head, the pushed ones those before the tail, and the ring
  holds, in order, the items pushed between head and tail.
\<close>

theorem ring_quiescent_fifo:
  assumes "ring_step\<^sup>*\<^sup>* (ring_race_start cap n) s" and "set (rr_threads s) \<subseteq> {R_idle}"
  shows "fr_ok (rr_ring s)
    \<and> dom (rr_out s) = {0..<fr_head (rr_ring s)} \<and> dom (rr_in s) = {0..<fr_tail (rr_ring s)}
    \<and> fr_abs (rr_ring s) = map (\<lambda>q. the (rr_in s q)) [fr_head (rr_ring s)..fr_tail (rr_ring s) - 1]"
  using ring_quiescent_inv [OF ring_quiescent [OF ring_reachable_ok [OF assms(1)] assms(2)]] by simp

theorem ring_quiescent_fifo_witness:
  "fr_ok (rr_ring ring_example) \<and> dom (rr_in ring_example) = {0..<1} \<and> fr_abs (rr_ring ring_example) = []"
  using ring_quiescent_fifo [OF ring_example_reachable] by (simp add: ring_example_state)

text \<open>
  C34: run one after another, every sequence of pushes and pops on a fresh ring answers as a
  bounded first-in first-out queue does; a single pass of each loop is enough.
\<close>

theorem ring_refines_queue:
  "fst (run_ops (fr_apply fuel) ops (fr_new cap)) =
   fst (run_ops (queue_spec (next_power_of_two (max cap 2))) ops [])"
proof -
  have "fr_capacity (fr_new cap :: 'a ring) = next_power_of_two (max cap 2)"
    by (simp add: fr_capacity_def fr_new_def)
  moreover have "run_ops (queue_spec (fr_capacity (fr_new cap :: 'a ring))) ops (fr_abs (fr_new cap)) =
      (fst (run_ops (fr_apply fuel) ops (fr_new cap)), fr_abs (snd (run_ops (fr_apply fuel) ops (fr_new cap))))"
    by (rule ring.run_refines) (rule fr_ok_new)
  ultimately show ?thesis by (simp add: fr_abs_new)
qed

section \<open>The site tables\<close>

lemma insert_race_start:
  assumes "n < 64"
  shows "insert_race_ok st (empty_table (2 ^ n),
    map (\<lambda>(k, b). insert_start st (empty_table (2 ^ n)) k b) kbs)"
  using insert_start_ok [OF table_ok_empty [OF assms]] table_ok_empty [OF assms, of st]
  by (auto simp: insert_race_ok_def)

text \<open>
  C30: when any number of threads insert into the lock-free table at once, two of them that
  ask for the same key get the same node, and that node is what a lookup finds afterwards.
\<close>

theorem racing_inserts_agree:
  assumes "insert_step\<^sup>*\<^sup>* (empty_table (2 ^ n), map (\<lambda>(k, b). insert_start st (empty_table (2 ^ n)) k b) kbs)
      (tbl, ts)"
    and "n < 64" and "t \<in> set ts" "t' \<in> set ts" "in_key t = in_key t'"
    and "in_pc t = Returned (Some v)" "in_pc t' = Returned (Some v')"
  shows "v = v' \<and> lookup_value st tbl (in_key t) = Some v"
proof -
  have ok: "insert_race_ok st (tbl, ts)"
    by (rule insert_race_ok_run [OF assms(1) insert_race_start [OF assms(2)]])
  from returned_lookup [OF ok assms(3,6)] returned_lookup [OF ok assms(4,7)] assms(5)
  show ?thesis by simp
qed

text \<open>Two threads insert key 5 into a two-slot table; the second loses the exchange.\<close>

abbreviation two_inserters :: "(nat, nat) inserter list" where
  "two_inserters \<equiv> map (\<lambda>(k, b). insert_start (\<lambda>_. 0) (empty_table (2 ^ 1)) k b) [(5, 11), (5, 22)]"

lemma insert_step_at:
  assumes "insert_step\<^sup>*\<^sup>* s0 (tbl, ts)" and "i < length ts"
    and "insert_thread_step tbl (ts ! i) = (tbl', t')" and "ts' = ts[i := t']"
  shows "insert_step\<^sup>*\<^sup>* s0 (tbl', ts')"
  using rtranclp.rtrancl_into_rtrancl [OF assms(1) insert_step.intros [OF assms(2,3)]] assms(4) by simp

lemma two_inserters_run:
  "insert_step\<^sup>*\<^sup>* (empty_table (2 ^ 1), two_inserters)
     ([Some (5, 11), None],
      [\<lparr>in_key = 5, in_build = 11, in_pc = Returned (Some 11)\<rparr>,
       \<lparr>in_key = 5, in_build = 22, in_pc = Returned (Some 11)\<rparr>])"
proof -
  note ev = empty_table_def insert_start_def insert_seen_def replicate_2
  let ?a = "\<lambda>pc :: nat insert_pc. \<lparr>in_key = 5 :: nat, in_build = 11 :: nat, in_pc = pc\<rparr>"
  let ?b = "\<lambda>pc :: nat insert_pc. \<lparr>in_key = 5 :: nat, in_build = 22 :: nat, in_pc = pc\<rparr>"
  let ?s0 = "(empty_table (2 ^ 1), two_inserters)"
  have s0: "insert_step\<^sup>*\<^sup>* ?s0 ([None, None], [?a (Probe (Suc (Suc 0)) 0), ?b (Probe (Suc (Suc 0)) 0)])"
    by (simp add: ev)
  have s1: "insert_step\<^sup>*\<^sup>* ?s0 ([None, None], [?a (Exchange (Suc 0) 0), ?b (Probe (Suc (Suc 0)) 0)])"
    by (rule insert_step_at [OF s0, of 0]) simp_all
  have s2: "insert_step\<^sup>*\<^sup>* ?s0 ([None, None], [?a (Exchange (Suc 0) 0), ?b (Exchange (Suc 0) 0)])"
    by (rule insert_step_at [OF s1, of 1]) simp_all
  have s3: "insert_step\<^sup>*\<^sup>* ?s0 ([Some (5, 11), None], [?a (Returned (Some 11)), ?b (Exchange (Suc 0) 0)])"
    by (rule insert_step_at [OF s2, of 0]) simp_all
  show ?thesis
    by (rule insert_step_at [OF s3, of 1]) (simp_all add: insert_seen_def)
qed

theorem racing_inserts_agree_witness:
  "lookup_value (\<lambda>_. 0) [Some (5 :: nat, 11 :: nat), None] 5 = Some 11"
proof -
  let ?a = "\<lparr>in_key = 5, in_build = 11, in_pc = Returned (Some 11)\<rparr> :: (nat, nat) inserter"
  let ?b = "\<lparr>in_key = 5, in_build = 22, in_pc = Returned (Some 11)\<rparr> :: (nat, nat) inserter"
  have "(11 :: nat) = 11 \<and> lookup_value (\<lambda>_. 0) [Some (5 :: nat, 11 :: nat), None] (in_key ?a) = Some 11"
    by (rule racing_inserts_agree [OF two_inserters_run, where t' = ?b]) simp_all
  then show ?thesis by (simp only: inserter.simps simp_thms)
qed

section \<open>The site registry\<close>

lemma world_ok_new: "world_ok key_of (\<lambda>_. None, registry_new)"
  by (simp add: world_ok_def registry_ok_new cache_ok_def)

lemma reachable_world:
  "world_ok key_of (requests key_of qs (\<lambda>_. None, registry_new))"
  by (rule requests_loc(1) [OF world_ok_new])

lemma reachable_registry: "registry_ok (snd (requests key_of qs (\<lambda>_. None, registry_new)))"
  using reachable_world [of key_of qs] by (simp add: world_ok_def)

text \<open>
  C31: a key names one site for the life of the process. Whatever was asked before, the site a
  key gets is the site it gets after any further requests by key or by location on any
  threads, and after any number of resets, also when the table was full and the key fell to
  the shared overflow site.
\<close>

theorem key_names_one_site:
  "let w = requests key_of qs (\<lambda>_. None, registry_new);
       (a, r) = site_for_key k (snd w)
   in fst (site_for_key k (snd (requests key_of qs' (fst w, r)))) = a"
proof -
  define w where "w = requests key_of qs (\<lambda>_. None, registry_new)"
  define a where "a = fst (site_for_key k (snd w))"
  define r where "r = snd (site_for_key k (snd w))"
  have ok: "registry_ok (snd w)" unfolding w_def by (rule reachable_registry)
  then have r: "registry_ok r" "key_bound k a r"
    unfolding r_def a_def by (rule registry_ok_key, rule site_for_key_bound)
  have "fst (site_for_key k (snd (requests key_of qs' (fst w, r)))) = a"
    using r by (intro key_bound_returns key_bound_requests requests_ok) simp_all
  then show ?thesis by (simp add: w_def [symmetric] a_def r_def Let_def case_prod_beta)
qed

lemmas empty_keys = empty_table_ops [of 12, simplified]

lemma first_key_site: "fst (site_for_key k registry_new) = 1"
  by (simp add: site_for_key_def registry_new_def KEY_SLOTS_def empty_keys)

text \<open>
  C38: reset leaves nothing behind. Whatever operations a site has been through, its reset is
  the site its constructor builds, field by field; and in every state it reaches, a published
  spread lies between the smallest and the largest spread of its window.
\<close>

theorem site_life:
  assumes "site_step\<^sup>*\<^sup>* call_site_new s"
  shows "site_reset s = call_site_new \<and> windows_ok s"
  using site_ok_run [OF assms site_ok_new] by (simp add: site_ok_def site_reset_new)

theorem site_life_witness:
  "site_reset (record_batch_weighted class_thresholds_new_defaults 6400 25 64 64 6400 None call_site_new)
   = call_site_new"
  using site_life [OF r_into_rtranclp [of site_step, OF Step_batch]] by blast

section \<open>What a site learns\<close>

text \<open>
  C39: the observer's sample blinds the classifier. It empties the leaf counters but not the
  snapshot the classifier compares them with, so until the counters pass the old snapshot
  again no batch of leaves moves the active class, however it reads.
\<close>

theorem sample_blinds_classifier:
  assumes "MIN_WINDOW_EVENTS \<le> sat_add (foldl (\<lambda>acc (p, _). sat_add acc p) 0 ws)
      (foldl (\<lambda>acc (_, t). sat_add acc t) 0 ws)"
    and "leaves bs < unat (ls_count (ob_last ob)) + 4" and "leaves bs < 2 ^ 64"
  shows "ob_active_tag (leaf_batches bs (observer_sample ws ob)) = ob_active_tag ob"
proof -
  let ?ob = "observer_sample ws ob"
  have reset: "ls_count (ob_leaf ?ob) = 0 \<and> ob_last ?ob = ob_last ob \<and> ob_active_tag ?ob = ob_active_tag ob"
    using assms(1)
    by (auto simp: observer_sample_def sample_and_compute_def Let_def reset_leaf_stats_def
        leaf_stats_zero_def not_le)
  with leaf_batches_blind [of ?ob bs] assms(2,3) show ?thesis by auto
qed

text \<open>
  A classifier that has seen 400 leaves, then a sample of a busy arena, then a heavy batch of
  64 leaves of a millisecond each.
\<close>

theorem sample_blinds_classifier_witness:
  "ob_active_tag (leaf_batches [(64000000, 0, 64, 64, 0)]
     (observer_sample [(90, 30)] (observer_init\<lparr>ob_last := leaf_stats_zero\<lparr>ls_count := 400\<rparr>\<rparr>)))
   = ob_active_tag observer_init"
  using sample_blinds_classifier [of "[(90, 30)]" "[(64000000, 0, 64, 64, 0)]"
      "observer_init\<lparr>ob_last := leaf_stats_zero\<lparr>ls_count := 400\<rparr>\<rparr>"]
  by (simp add: leaves_def MIN_WINDOW_EVENTS_def sat_add_def observer_init_def)

section \<open>Backends\<close>

fun register_all :: "(backend \<Rightarrow> u64) \<Rightarrow> usize \<Rightarrow> backend_ref list \<Rightarrow> backends_state \<Rightarrow>
    registry_panic + backends_state" where
  "register_all key_of threads [] s = Inr s"
| "register_all key_of threads (b # bs) s =
     (case register_backend key_of threads b s of Inl p \<Rightarrow> Inl p
      | Inr s' \<Rightarrow> register_all key_of threads bs s')"

lemma register_all_map:
  "backends_ok key_of s \<Longrightarrow> register_all key_of threads bs s = Inr s' \<Longrightarrow>
   backends_ok key_of s'
   \<and> registered key_of threads s' = registered key_of threads s ++ map_of (rev (map (\<lambda>b. (br_id b, b)) bs))"
proof (induction bs arbitrary: s)
  case (Cons b bs)
  then obtain s1 where s1: "register_backend key_of threads b s = Inr s1"
      "register_all key_of threads bs s1 = Inr s'"
    by (auto split: sum.splits)
  from Cons.IH [OF register_backend_ok(1) [OF Cons.prems(1) s1(1)] s1(2)]
    register_backend_ok(2) [OF Cons.prems(1) s1(1)]
  show ?case
    by (simp only: list.map rev.simps map_of_append map_of.simps prod.sel map_add_assoc map_add_upd
        map_add_empty simp_thms)
qed simp

section \<open>Plans\<close>

text \<open>
  C40: the integer square root is the floor of the square root, for every argument below
  (2^32 - 1)^2 and every floating-point seed that is positive and below 2^32.
\<close>

theorem integer_sqrt_is_floor:
  assumes "unat n < (2 ^ 32 - 1) ^ 2" and "2 \<le> unat n \<longrightarrow> 0 < unat x \<and> unat x < 2 ^ 32"
  shows "\<exists>r. integer_sqrt x n = Inr r \<and> unat r ^ 2 \<le> unat n \<and> unat n < (unat r + 1) ^ 2"
  using assms by (intro integer_sqrt_floor) simp_all

theorem integer_sqrt_is_floor_witness:
  "\<exists>r. integer_sqrt 28 800 = Inr r \<and> unat r ^ 2 \<le> 800 \<and> 800 < (unat r + 1) ^ 2"
  using integer_sqrt_is_floor [of 800 28] by simp

section \<open>Encodings\<close>

text \<open>
  C37: kernel arguments cross the process boundary unharmed. A blob decodes to a list exactly
  when it is that list's encoding, so nothing is lost, padded or ambiguous; an argument list
  fails to encode exactly when it holds an argument that has no meaning in another process,
  and then with the one error that says so.
\<close>

theorem wire_round_trip:
  "(decode_args blob = Inr ds \<longleftrightarrow> encode_args (map sent_arg ds) = Inr blob)
   \<and> (encode_args as = Inl e \<longleftrightarrow> e = NotSupported \<and> \<not> set as \<subseteq> range sent_arg)"
proof -
  have "decode_args blob = Inr ds" if "encode_args (map sent_arg ds) = Inr blob"
    using that decode_encode_sent [of ds] by auto
  then show ?thesis using encode_decode [of blob ds] encode_args_fails [of as e] by blast
qed

text \<open>
  at and above (2^32 - 1)^2 the square root's last loop multiplies past 64 bits, whatever
  the seed: a panic where overflow is checked, a wrapped product where it is not.
\<close>

lemma integer_sqrt_overflow_region:
  assumes "(2 ^ 32 - 1) ^ 2 \<le> unat n" and "0 < unat x"
  shows "integer_sqrt x n = Inl Overflow"
  using assms by (rule integer_sqrt_overflows)

text \<open>
  the registry is a map from ids to backends. After any sequence of registrations from an
  empty table, an id answers with the last backend registered under it, or with the processor
  backend the registry installs by itself, or with nothing.
\<close>

lemma backend_registry_is_a_map:
  assumes "register_all key_of threads bs backends_state_new = Inr s"
  shows "registered key_of threads s =
    [Cpu \<mapsto> cpu_backend_new threads] ++ map_of (rev (map (\<lambda>b. (br_id b, b)) bs))"
proof -
  have "registered key_of threads backends_state_new = [Cpu \<mapsto> cpu_backend_new threads]"
  proof -
    have "installed key_of (bs_table backends_state_new) = Map.empty"
    proof (rule ext)
      fix i
      have "table_ok key_of (bs_table backends_state_new)"
        using backends_ok_new by (simp add: backends_ok_def)
      then show "installed key_of (bs_table backends_state_new) i = None"
        using installed_iff by (fastforce simp: backends_state_new_def)
    qed
    then show ?thesis
      using registered_eq [OF backends_ok_new, of key_of threads] by (simp add: backends_state_new_def)
  qed
  with register_all_map [OF backends_ok_new assms] show ?thesis by simp
qed

end
